(* ===== verification/Prelude.thy ===== *)
theory Prelude
  imports Main "HOL-Library.Word" "HOL-Library.Monad_Syntax"
begin

text \<open>
  Shared vocabulary of the DistKV development.

  \<^item> \<open>byte\<close>, \<open>bytes\<close>: Go's \<open>byte\<close> and \<open>[]byte\<close>; a nil slice and an empty one are the same list.
  \<^item> \<open>node_id\<close>: \<open>transport.NodeID\<close>, a Go string (a list of 8-bit characters); the empty string is
    the Go zero value that the code uses for "nobody".
  \<^item> \<open>error\<close>: values built by \<open>fmt.Errorf\<close>, kept as the format string, its arguments and, for
    \<open>%w\<close>, the wrapped error. \<open>message\<close>: a formatted message (\<open>fmt.Sprintf\<close>), kept the same way; where
    the code compares a message with the empty string the model has an \<open>option\<close>.
  \<^item> an \<open>option\<close> result of an operation: \<open>None\<close> is a Go run-time panic (a slice or index out of
    range); operations that can panic are written in the option monad, and the component
    theories prove that they return.
  \<^item> \<open>map_get\<close>: reading a Go map with integer values, zero for an absent key.

  Counters that the source keeps in \<open>uint64\<close> (terms, log indices) are \<open>nat\<close> in the protocol
  theories: every subtraction there is guarded in the model as it is in the source, and a
  counter grows by one per election or log entry. The byte encodings of the storage layer cut
  them to their 64 bits with explicit words.

  The lemmas below are the facts on lists, counting and words that several components use.
\<close>

type_synonym byte = "8 word"
type_synonym bytes = "byte list"
type_synonym node_id = string

datatype arg = NatArg nat | IntArg int | StrArg string | StrsArg "string list"

datatype error =
    Errorf string "arg list"
  | Wrapf string "arg list" error

type_synonym message = error

named_theorems kv_defs "definitions of the key-value state machine"
named_theorems net_defs "definitions of the simulated network"
named_theorems gateway_defs "definitions of the small gateway operations"

definition map_get :: "('k \<rightharpoonup> nat) \<Rightarrow> 'k \<Rightarrow> nat" where
  "map_get m k = (case m k of None \<Rightarrow> 0 | Some v \<Rightarrow> v)"

section \<open>Go maps\<close>

lemma map_get_upd [simp]:
  "map_get (m(k \<mapsto> v)) k' = (if k' = k then v else map_get m k')"
  by (simp add: map_get_def)

lemma map_get_empty [simp]: "map_get Map.empty k = 0"
  by (simp add: map_get_def)

section \<open>The option monad for run-time panics\<close>

lemma bind_Some_iff [simp]:
  "(m \<bind> f = Some y) \<longleftrightarrow> (\<exists>x. m = Some x \<and> f x = Some y)"
  by (cases m) auto

text \<open>The state an operation that returned has left, for the concrete runs of the witnesses.\<close>

definition run_state :: "'a \<Rightarrow> ('a \<times> 'b) option \<Rightarrow> 'a" where
  "run_state d x = (case x of Some (a, b) \<Rightarrow> a | None \<Rightarrow> d)"

lemma run_state_eq: "map_option snd x = Some r \<Longrightarrow> x = Some (run_state d x, r)"
  by (auto simp: run_state_def)

section \<open>Lists\<close>

lemma last_nth: "xs \<noteq> [] \<Longrightarrow> last xs = xs ! (length xs - 1)"
  by (rule last_conv_nth)

lemma drop_eq_Cons_nth: "i < length xs \<Longrightarrow> drop i xs = xs ! i # drop (Suc i) xs"
  by (rule Cons_nth_drop_Suc [symmetric])

lemma last_drop_Suc: "i < length xs \<Longrightarrow> last (drop i xs) = last xs"
  by (rule last_drop)

lemma take_eq_take_mono:
  "take n xs = take n ys \<Longrightarrow> m \<le> n \<Longrightarrow> take m xs = take m ys"
  by (metis min.absorb1 take_take)

lemma nth_eq_of_take_eq:
  "take n xs = take n ys \<Longrightarrow> i < n \<Longrightarrow> xs ! i = ys ! i"
  by (metis nth_take)

lemma take_append_tail:
  assumes "k \<le> length xs" "take (c - k) ys = take (c - k) (drop k xs)"
  shows "take c (take k xs @ ys) = take c xs"
proof -
  have "take c (take k xs @ ys) = take c (take k xs) @ take (c - k) (drop k xs)"
    using assms by simp
  also have "\<dots> = take c (take k xs @ drop k xs)"
    using assms(1) by (simp only: take_append length_take min_absorb2)
  finally show ?thesis by simp
qed

lemma length_filter_card:
  assumes "distinct xs"
  shows "length (filter P xs) = card {x \<in> set xs. P x}"
  using distinct_card [OF distinct_filter [OF assms, of P]] by simp

section \<open>Majorities\<close>

lemma quorum_overlap:
  assumes "finite V" "A \<subseteq> V" "B \<subseteq> V" "card V < card A + card B"
  shows "A \<inter> B \<noteq> {}"
proof
  assume "A \<inter> B = {}"
  then have "card A + card B = card (A \<union> B)"
    using assms card_Un_disjoint [of A B] finite_subset by metis
  also have "\<dots> \<le> card V"
    using assms by (intro card_mono) auto
  finally show False using assms(4) by simp
qed

end
