(* ===== verification/Raft_Types.thy ===== *)
theory Raft_Types
  imports Prelude
begin

text \<open>
  The data of package raft (src/internal/raft/types.go): roles, log entries, the persistent
  state, the messages of the three RPCs, the messages of the apply channel and the interface
  \<open>Storage\<close>. The interface is a record of operations (\<open>'s Storage\<close>) over a store of type \<open>'s\<close>,
  because the node calls it through a Go interface value; \<open>Memory_Storage\<close> and \<open>Disk_Storage\<close>
  give its two implementations. The locale \<open>raft_storage\<close> states what the comments of the
  interface promise, and proves once what a client that only makes legal calls can rely on.
\<close>

section \<open>Roles\<close>

datatype Role = Follower | Candidate | Leader

fun Role_String :: "Role \<Rightarrow> string" where
  "Role_String Follower = ''follower''"
| "Role_String Candidate = ''candidate''"
| "Role_String Leader = ''leader''"

section \<open>The log and the persistent state\<close>

record LogEntry =
  eTerm :: nat
  eIndex :: nat
  eCommand :: bytes

record PersistentState =
  psCurrentTerm :: nat
  psVotedFor :: node_id
  psLog :: "LogEntry list"
  psSnapshotData :: bytes

section \<open>The RPCs\<close>

record RequestVoteArgs =
  rvTerm :: nat
  rvCandidateID :: node_id
  rvLastLogIndex :: nat
  rvLastLogTerm :: nat

record RequestVoteReply =
  rrTerm :: nat
  rrVoteGranted :: bool

record AppendEntriesArgs =
  aeTerm :: nat
  aeLeaderID :: node_id
  aePrevLogIndex :: nat
  aePrevLogTerm :: nat
  aeEntries :: "LogEntry list"
  aeLeaderCommit :: nat

record AppendEntriesReply =
  arTerm :: nat
  arSuccess :: bool
  arConflictTerm :: nat
  arConflictIndex :: nat

record InstallSnapshotArgs =
  isTerm :: nat
  isLeaderID :: node_id
  isLastIncludedIndex :: nat
  isLastIncludedTerm :: nat
  isData :: bytes

record InstallSnapshotReply =
  irTerm :: nat

section \<open>The apply channel\<close>

record ApplyMsg =
  amCommandValid :: bool
  amCommand :: bytes
  amCommandIndex :: nat
  amCommandTerm :: nat
  amSnapshotValid :: bool
  amSnapshot :: bytes
  amSnapshotIndex :: nat
  amSnapshotTerm :: nat

definition command_msg :: "LogEntry \<Rightarrow> ApplyMsg" where
  "command_msg e = \<lparr>amCommandValid = True, amCommand = eCommand e, amCommandIndex = eIndex e,
     amCommandTerm = eTerm e, amSnapshotValid = False, amSnapshot = [], amSnapshotIndex = 0,
     amSnapshotTerm = 0\<rparr>"

definition snapshot_msg :: "bytes \<Rightarrow> nat \<Rightarrow> nat \<Rightarrow> ApplyMsg" where
  "snapshot_msg data index trm = \<lparr>amCommandValid = False, amCommand = [], amCommandIndex = 0,
     amCommandTerm = 0, amSnapshotValid = True, amSnapshot = data, amSnapshotIndex = index,
     amSnapshotTerm = trm\<rparr>"

section \<open>The storage interface\<close>

record 's Storage =
  SaveHardState :: "'s \<Rightarrow> nat \<Rightarrow> node_id \<Rightarrow> 's \<times> error option"
  AppendLog :: "'s \<Rightarrow> LogEntry list \<Rightarrow> 's \<times> error option"
  TruncateLog :: "'s \<Rightarrow> nat \<Rightarrow> 's \<times> error option"
  SaveSnapshot :: "'s \<Rightarrow> nat \<Rightarrow> nat \<Rightarrow> bytes \<Rightarrow> 's \<times> error option"
  Load :: "'s \<Rightarrow> 's \<times> (error + PersistentState)"

section \<open>Well-formed logs\<close>

text \<open>
  \<open>indexed i es\<close>: the entries carry the consecutive indices \<open>i\<close>, \<open>i + 1\<close>, \dots; a node's log and
  the entries of an AppendEntries message are such lists.
\<close>

fun indexed :: "nat \<Rightarrow> LogEntry list \<Rightarrow> bool" where
  "indexed i [] = True"
| "indexed i (e # es) = (eIndex e = i \<and> indexed (Suc i) es)"

definition terms_sorted :: "LogEntry list \<Rightarrow> bool" where
  "terms_sorted es \<longleftrightarrow> sorted (map eTerm es)"

lemma indexed_append [simp]:
  "indexed i (xs @ ys) \<longleftrightarrow> indexed i xs \<and> indexed (i + length xs) ys"
  by (induction xs arbitrary: i) auto

lemma indexed_nth: "indexed i es \<Longrightarrow> k < length es \<Longrightarrow> eIndex (es ! k) = i + k"
proof (induction es arbitrary: i k)
  case (Cons e es)
  then show ?case by (cases k) auto
qed simp

lemma indexed_take [simp, intro]: "indexed i es \<Longrightarrow> indexed i (take k es)"
  by (metis append_take_drop_id indexed_append)

lemma indexed_drop [intro]: "indexed i es \<Longrightarrow> k \<le> length es \<Longrightarrow> indexed (i + k) (drop k es)"
  by (metis append_take_drop_id indexed_append length_take min.absorb2)

lemma terms_sorted_append:
  "terms_sorted (xs @ ys) \<longleftrightarrow> terms_sorted xs \<and> terms_sorted ys \<and>
     (\<forall>x \<in> set xs. \<forall>y \<in> set ys. eTerm x \<le> eTerm y)"
  by (auto simp: terms_sorted_def sorted_append)

lemma terms_sorted_take [simp, intro]: "terms_sorted es \<Longrightarrow> terms_sorted (take k es)"
  by (metis append_take_drop_id terms_sorted_append)

lemma terms_sorted_drop [simp, intro]: "terms_sorted es \<Longrightarrow> terms_sorted (drop k es)"
  by (metis append_take_drop_id terms_sorted_append)

lemma terms_sorted_nth_mono:
  "terms_sorted es \<Longrightarrow> i \<le> j \<Longrightarrow> j < length es \<Longrightarrow> eTerm (es ! i) \<le> eTerm (es ! j)"
  unfolding terms_sorted_def by (metis (no_types) le_less_trans length_map nth_map sorted_nth_mono)

section \<open>What the storage interface promises\<close>

text \<open>
  The reference meaning of the four mutating calls on the state that \<open>Load\<close> returns, and the
  calls the comments of the interface allow: an append starts one past the persisted log, a
  truncation and a snapshot are strictly beyond the current snapshot boundary.
\<close>

datatype StorageCall =
    CallSaveHardState nat node_id
  | CallAppendLog "LogEntry list"
  | CallTruncateLog nat
  | CallSaveSnapshot nat nat bytes

fun storage_call :: "'s Storage \<Rightarrow> 's \<Rightarrow> StorageCall \<Rightarrow> 's \<times> error option" where
  "storage_call ops s (CallSaveHardState t v) = SaveHardState ops s t v"
| "storage_call ops s (CallAppendLog es) = AppendLog ops s es"
| "storage_call ops s (CallTruncateLog k) = TruncateLog ops s k"
| "storage_call ops s (CallSaveSnapshot k t d) = SaveSnapshot ops s k t d"

definition boundary_entry :: "nat \<Rightarrow> nat \<Rightarrow> LogEntry" where
  "boundary_entry trm index = \<lparr>eTerm = trm, eIndex = index, eCommand = []\<rparr>"

definition ps_boundary :: "PersistentState \<Rightarrow> nat" where
  "ps_boundary p = eIndex (hd (psLog p))"

fun ps_call :: "StorageCall \<Rightarrow> PersistentState \<Rightarrow> PersistentState" where
  "ps_call (CallSaveHardState t v) p = p\<lparr>psCurrentTerm := t, psVotedFor := v\<rparr>"
| "ps_call (CallAppendLog es) p = p\<lparr>psLog := psLog p @ es\<rparr>"
| "ps_call (CallTruncateLog k) p = p\<lparr>psLog := take (k - ps_boundary p) (psLog p)\<rparr>"
| "ps_call (CallSaveSnapshot k t d) p =
     p\<lparr>psLog := boundary_entry t k # drop (Suc (k - ps_boundary p)) (psLog p), psSnapshotData := d\<rparr>"

fun ps_legal :: "PersistentState \<Rightarrow> StorageCall \<Rightarrow> bool" where
  "ps_legal p (CallSaveHardState t v) = True"
| "ps_legal p (CallAppendLog es) = indexed (ps_boundary p + length (psLog p)) es"
| "ps_legal p (CallTruncateLog k) = (ps_boundary p < k)"
| "ps_legal p (CallSaveSnapshot k t d) = (ps_boundary p < k)"

definition ps_wf :: "PersistentState \<Rightarrow> bool" where
  "ps_wf p \<longleftrightarrow> psLog p \<noteq> [] \<and> indexed (ps_boundary p) (psLog p)"

lemma ps_wf_call: "ps_wf p \<Longrightarrow> ps_legal p c \<Longrightarrow> ps_wf (ps_call c p)"
proof (induction c p rule: ps_call.induct)
  case (2 es p)
  then show ?case by (cases "psLog p") (auto simp: ps_wf_def ps_boundary_def)
next
  case (3 k p)
  then show ?case by (cases "psLog p"; cases "k - eIndex (hd (psLog p))")
      (auto simp: ps_wf_def ps_boundary_def)
next
  case (4 k t d p)
  let ?m = "Suc (k - ps_boundary p)"
  have "?m \<le> length (psLog p) \<Longrightarrow> indexed (ps_boundary p + ?m) (drop ?m (psLog p))"
    using 4 indexed_drop [of "ps_boundary p" "psLog p" ?m] by (simp only: ps_wf_def)
  with 4 show ?case
    by (cases "?m \<le> length (psLog p)") (auto simp: ps_wf_def ps_boundary_def boundary_entry_def)
qed (auto simp: ps_wf_def ps_boundary_def)

text \<open>Sequences of calls: allowed by the comments and within the size limits, and performed up to the
  first error.\<close>

fun legal_calls :: "(StorageCall \<Rightarrow> bool) \<Rightarrow> PersistentState \<Rightarrow> StorageCall list \<Rightarrow> bool" where
  "legal_calls fits p [] = True"
| "legal_calls fits p (c # cs) = (ps_legal p c \<and> fits c \<and> legal_calls fits (ps_call c p) cs)"

fun storage_calls :: "'s Storage \<Rightarrow> 's \<Rightarrow> StorageCall list \<Rightarrow> 's \<times> error option" where
  "storage_calls ops s [] = (s, None)"
| "storage_calls ops s (c # cs) = (case storage_call ops s c of
     (s', None) \<Rightarrow> storage_calls ops s' cs
   | (s', Some e) \<Rightarrow> (s', Some e))"

lemma legal_calls_append:
  "legal_calls fits p (cs @ [c]) \<longleftrightarrow> legal_calls fits p cs \<and> ps_legal (fold ps_call cs p) c \<and> fits c"
  by (induction cs arbitrary: p) auto

text \<open>
  \<open>view\<close> is what \<open>Load\<close> returns. \<open>sinv\<close> holds of a store in use, \<open>recov\<close> of one that may just have
  failed or crashed. \<open>fits\<close> is the size limit an implementation puts on a call (none in memory, the
  widths of the length fields on disk). A call that returns without an error has the reference
  effect on the view; a failed \<open>SaveHardState\<close> leaves it alone, a failed append keeps a prefix of
  what it was given, a failed truncation is done or not done, and \<open>Load\<close> returns the view and
  makes the store usable again.
\<close>

locale raft_storage =
  fixes ops :: "'s Storage"
    and sinv :: "'s \<Rightarrow> bool"
    and recov :: "'s \<Rightarrow> bool"
    and view :: "'s \<Rightarrow> PersistentState"
    and fits :: "StorageCall \<Rightarrow> bool"
  assumes inv_recov: "sinv s \<Longrightarrow> recov s"
    and view_wf: "recov s \<Longrightarrow> ps_wf (view s)"
    and call_ok: "sinv s \<Longrightarrow> ps_legal (view s) c \<Longrightarrow> fits c \<Longrightarrow>
      storage_call ops s c = (s', None) \<Longrightarrow> sinv s' \<and> view s' = ps_call c (view s)"
    and hard_err: "sinv s \<Longrightarrow> fits (CallSaveHardState t v) \<Longrightarrow>
      SaveHardState ops s t v = (s', Some e) \<Longrightarrow> recov s' \<and> view s' = view s"
    and append_err: "sinv s \<Longrightarrow> ps_legal (view s) (CallAppendLog es) \<Longrightarrow> fits (CallAppendLog es) \<Longrightarrow>
      AppendLog ops s es = (s', Some e) \<Longrightarrow>
      recov s' \<and> (\<exists>j. view s' = ps_call (CallAppendLog (take j es)) (view s))"
    and truncate_err: "sinv s \<Longrightarrow> ps_legal (view s) (CallTruncateLog k) \<Longrightarrow>
      TruncateLog ops s k = (s', Some e) \<Longrightarrow>
      recov s' \<and> (view s' = view s \<or> view s' = ps_call (CallTruncateLog k) (view s))"
    and load_view: "recov s \<Longrightarrow> Load ops s = (s', r) \<Longrightarrow>
      recov s' \<and> view s' = view s \<and> (\<forall>ps. r = Inr ps \<longrightarrow> ps = view s \<and> sinv s')"
begin

lemma calls_view:
  "sinv s \<Longrightarrow> legal_calls fits (view s) cs \<Longrightarrow> storage_calls ops s cs = (s', None) \<Longrightarrow>
     sinv s' \<and> view s' = fold ps_call cs (view s)"
proof (induction cs arbitrary: s)
  case (Cons c cs)
  obtain s1 where s1: "storage_call ops s c = (s1, None)" "storage_calls ops s1 cs = (s', None)"
    using Cons.prems(3) by (auto split: prod.splits option.splits)
  have "sinv s1 \<and> view s1 = ps_call c (view s)"
    using Cons.prems call_ok [OF _ _ _ s1(1)] by simp
  with Cons.prems Cons.IH [of s1] s1(2) show ?case by simp
qed simp

lemma load_after_calls:
  assumes "sinv s" "legal_calls fits (view s) cs" "storage_calls ops s cs = (s1, None)" "Load ops s1 = (s2, Inr ps)"
  shows "ps = fold ps_call cs (view s)"
  using calls_view [OF assms(1-3)] load_view [OF inv_recov assms(4)] by auto

text \<open>A crash in the middle of an append: what comes back is everything before it, and a prefix of it.\<close>

lemma load_after_append:
  assumes s: "sinv s" "legal_calls fits (view s) (cs @ [CallAppendLog es])" "storage_calls ops s cs = (s1, None)"
    and a: "AppendLog ops s1 es = (s2, r)" and l: "Load ops s2 = (s3, Inr ps)"
  shows "\<exists>j. ps = ps_call (CallAppendLog (take j es)) (fold ps_call cs (view s)) \<and> (r = None \<longrightarrow> length es \<le> j)"
proof -
  have leg: "legal_calls fits (view s) cs" "ps_legal (fold ps_call cs (view s)) (CallAppendLog es)" "fits (CallAppendLog es)"
    using s(2) by (simp_all only: legal_calls_append)
  have s1: "sinv s1" "view s1 = fold ps_call cs (view s)" using calls_view [OF s(1) leg(1) s(3)] by auto
  show ?thesis
  proof (cases r)
    case None
    have "ps_legal (view s1) (CallAppendLog es)" "storage_call ops s1 (CallAppendLog es) = (s2, None)"
      using leg(2) s1(2) a None by (simp_all only: storage_call.simps)
    then have "sinv s2 \<and> view s2 = ps_call (CallAppendLog es) (view s1)"
      using call_ok [OF s1(1) _ leg(3)] by blast
    then have "ps = ps_call (CallAppendLog es) (fold ps_call cs (view s))"
      using load_view [OF inv_recov l] s1(2) by metis
    then show ?thesis by (intro exI [of _ "length es"]) simp
  next
    case (Some err)
    have "ps_legal (view s1) (CallAppendLog es)" "AppendLog ops s1 es = (s2, Some err)"
      using leg(2) s1(2) a Some by (simp_all only:)
    then obtain j where j: "recov s2" "view s2 = ps_call (CallAppendLog (take j es)) (view s1)"
      using append_err [OF s1(1) _ leg(3)] by blast
    have "ps = view s2" using load_view [OF j(1) l] by blast
    then have "ps = ps_call (CallAppendLog (take j es)) (fold ps_call cs (view s))" using j(2) s1(2) by (simp only:)
    then show ?thesis using Some by blast
  qed
qed

end

end
