(* ===== verification/Raft_Node.thy ===== *)
theory Raft_Node
  imports Raft_Types
begin

text \<open>
  One Raft node (src/internal/raft/node.go), operation by operation. A node is a record over
  the store of type \<open>'s\<close> behind its \<open>Storage\<close> interface. Each definition is one critical section
  of the Go code, that is what a goroutine does between \<open>n.mu.Lock()\<close> and \<open>n.mu.Unlock()\<close>; the
  functions that release the lock around an RPC are split there: \<open>startElection\<close> and \<open>voteReply\<close>,
  \<open>replicateToPeer\<close> and \<open>appendReply\<close>, \<open>sendInstallSnapshot\<close> and \<open>snapshotReply\<close>. What the
  Go closures capture (the term of the election, the previous index and the number of entries
  of a request) is an argument of the second half.

  The clock and the random source are the argument \<open>env\<close>. \<open>None\<close> is a run-time panic.
  The zero \<open>time.Time\<close> is time 0; a clock reading is later.
\<close>

section \<open>Configuration and state\<close>

record env =
  env_now :: int
  env_Int63n :: "int \<Rightarrow> int"

record Config =
  cID :: node_id
  cPeers :: "node_id list"
  cTransport :: bool \<comment> \<open>whether a transport is given\<close>
  cElectionTimeoutMin :: int
  cElectionTimeoutMax :: int
  cHeartbeatInterval :: int
  cTickInterval :: int
  cRPCTimeout :: int
  cSnapshotThreshold :: int

definition millisecond :: int where "millisecond = 1000000"
definition defaultElectionTimeoutMin :: int where "defaultElectionTimeoutMin = 150 * millisecond"
definition defaultElectionTimeoutMax :: int where "defaultElectionTimeoutMax = 300 * millisecond"
definition defaultHeartbeatInterval :: int where "defaultHeartbeatInterval = 50 * millisecond"
definition defaultTickInterval :: int where "defaultTickInterval = 10 * millisecond"
definition defaultRPCTimeout :: int where "defaultRPCTimeout = 75 * millisecond"

definition orDefault :: "int \<Rightarrow> int \<Rightarrow> int" where
  "orDefault v def = (if v \<le> 0 then def else v)"

record 's Node =
  nid :: node_id
  peers :: "node_id list"
  electionTimeoutMin :: int
  electionTimeoutMax :: int
  heartbeatInterval :: int
  tickInterval :: int
  rpcTimeout :: int
  storage :: 's
  role :: Role
  currentTerm :: nat
  votedFor :: node_id
  leaderID :: node_id
  nlog :: "LogEntry list"
  commitIndex :: nat
  nextIndex :: "node_id \<rightharpoonup> nat"
  matchIndex :: "node_id \<rightharpoonup> nat"
  electionDeadline :: int
  nextHeartbeat :: int
  failed :: bool
  failErr :: "error option"
  lastIncludedIndex :: nat
  lastIncludedTerm :: nat
  snapshotData :: bytes
  lastApplied :: nat
  pendingSnapshot :: "ApplyMsg option"
  applyCh :: "ApplyMsg list"
  applyWake :: bool
  snapshotThreshold :: int
  snapshotTriggerCh :: "nat option"
  lastSnapshotRequestedAt :: nat

section \<open>Timers, failure, persistence\<close>

definition resetElectionDeadlineLocked :: "env \<Rightarrow> 's Node \<Rightarrow> 's Node" where
  "resetElectionDeadlineLocked e n =
     (let span = electionTimeoutMax n - electionTimeoutMin n;
          extra = (if span > 0 then env_Int63n e span else 0)
      in n\<lparr>electionDeadline := env_now e + (electionTimeoutMin n + extra)\<rparr>)"

definition notifyApply :: "'s Node \<Rightarrow> 's Node" where
  "notifyApply n = n\<lparr>applyWake := True\<rparr>"

definition disableLocked :: "error \<Rightarrow> 's Node \<Rightarrow> 's Node" where
  "disableLocked err n =
     n\<lparr>failed := True, failErr := Some (Wrapf ''raft: %s: %w, node disabled'' [StrArg (nid n)] err)\<rparr>"

definition saveHardStateLocked :: "'s Storage \<Rightarrow> nat \<Rightarrow> node_id \<Rightarrow> 's Node \<Rightarrow> 's Node" where
  "saveHardStateLocked ops trm v n =
     (let n1 = n\<lparr>currentTerm := trm, votedFor := v\<rparr>
      in case SaveHardState ops (storage n1) trm v of
           (st, None) \<Rightarrow> n1\<lparr>storage := st\<rparr>
         | (st, Some err) \<Rightarrow> disableLocked (Wrapf ''persisting hard state: %w'' [] err) (n1\<lparr>storage := st\<rparr>))"

definition appendLogLocked :: "'s Storage \<Rightarrow> LogEntry list \<Rightarrow> 's Node \<Rightarrow> 's Node" where
  "appendLogLocked ops entries n =
     (let n1 = n\<lparr>nlog := nlog n @ entries\<rparr>
      in case AppendLog ops (storage n1) entries of
           (st, None) \<Rightarrow> n1\<lparr>storage := st\<rparr>
         | (st, Some err) \<Rightarrow> disableLocked (Wrapf ''appending log: %w'' [] err) (n1\<lparr>storage := st\<rparr>))"

text \<open>
  The log is addressed by absolute index: slice position \<open>index - lastIncludedIndex\<close>. Below the
  boundary the \<open>uint64\<close> difference wraps to a position beyond any slice, so both ends of the
  range panic. (Go lets the upper bound of a slice expression reach into the capacity of the
  array; \<open>truncateLogLocked\<close> is only called with an index of the log, below its length.)
\<close>

definition slice_pos :: "'s Node \<Rightarrow> nat \<Rightarrow> nat option" where
  "slice_pos n index =
     (if lastIncludedIndex n \<le> index \<and> index - lastIncludedIndex n \<le> length (nlog n)
      then Some (index - lastIncludedIndex n) else None)"

definition truncateLogLocked :: "'s Storage \<Rightarrow> nat \<Rightarrow> 's Node \<Rightarrow> 's Node option" where
  "truncateLogLocked ops fromIndex n = do {
     pos \<leftarrow> slice_pos n fromIndex;
     let n1 = n\<lparr>nlog := take pos (nlog n)\<rparr>;
     Some (case TruncateLog ops (storage n1) fromIndex of
           (st, None) \<Rightarrow> n1\<lparr>storage := st\<rparr>
         | (st, Some err) \<Rightarrow> disableLocked (Wrapf ''truncating log: %w'' [] err) (n1\<lparr>storage := st\<rparr>))
   }"

section \<open>Reading the log\<close>

definition lastIndexLocked :: "'s Node \<Rightarrow> nat option" where
  "lastIndexLocked n = (if nlog n = [] then None else Some (eIndex (last (nlog n))))"

definition lastLogInfoLocked :: "'s Node \<Rightarrow> (nat \<times> nat) option" where
  "lastLogInfoLocked n =
     (if nlog n = [] then None else Some (eIndex (last (nlog n)), eTerm (last (nlog n))))"

definition entryAtLocked :: "'s Node \<Rightarrow> nat \<Rightarrow> LogEntry option" where
  "entryAtLocked n index =
     (if lastIncludedIndex n \<le> index \<and> index - lastIncludedIndex n < length (nlog n)
      then Some (nlog n ! (index - lastIncludedIndex n)) else None)"

definition termAtLocked :: "'s Node \<Rightarrow> nat \<Rightarrow> nat option" where
  "termAtLocked n index = map_option eTerm (entryAtLocked n index)"

definition logFrom :: "'s Node \<Rightarrow> nat \<Rightarrow> LogEntry list option" where
  "logFrom n index = map_option (\<lambda>pos. drop pos (nlog n)) (slice_pos n index)"

definition firstIndexOfTermLocked :: "'s Node \<Rightarrow> nat \<Rightarrow> nat" where
  "firstIndexOfTermLocked n trm =
     (if trm = 0 then 1
      else case find (\<lambda>e. eTerm e = trm) (nlog n) of
             Some e \<Rightarrow> eIndex e
           | None \<Rightarrow> lastIncludedIndex n + 1)"

fun lastIndexOfTerm_scan :: "nat \<Rightarrow> LogEntry list \<Rightarrow> nat option" where
  "lastIndexOfTerm_scan trm [] = None"
| "lastIndexOfTerm_scan trm (e # es) =
     (if eTerm e = trm then Some (eIndex e)
      else if eTerm e < trm then None
      else lastIndexOfTerm_scan trm es)"

definition lastIndexOfTermLocked :: "'s Node \<Rightarrow> nat \<Rightarrow> nat option" where
  "lastIndexOfTermLocked n trm = lastIndexOfTerm_scan trm (rev (nlog n))"

definition candidateLogUpToDateLocked :: "'s Node \<Rightarrow> nat \<Rightarrow> nat \<Rightarrow> bool option" where
  "candidateLogUpToDateLocked n lastLogIndex lastLogTerm = do {
     (myIndex, myTerm) \<leftarrow> lastLogInfoLocked n;
     Some (if lastLogTerm \<noteq> myTerm then lastLogTerm > myTerm else lastLogIndex \<ge> myIndex)
   }"

section \<open>Changing role\<close>

definition becomeFollowerLocked :: "'s Storage \<Rightarrow> nat \<Rightarrow> 's Node \<Rightarrow> 's Node" where
  "becomeFollowerLocked ops trm n =
     (let n1 = n\<lparr>role := Follower\<rparr>
      in if trm > currentTerm n1 then saveHardStateLocked ops trm [] n1 else n1)"

definition becomeCandidateLocked :: "'s Storage \<Rightarrow> env \<Rightarrow> 's Node \<Rightarrow> 's Node" where
  "becomeCandidateLocked ops e n =
     (let n1 = n\<lparr>role := Candidate, leaderID := []\<rparr>;
          n2 = saveHardStateLocked ops (currentTerm n1 + 1) (nid n1) n1
      in if failed n2 then n2 else resetElectionDeadlineLocked e n2)"

definition becomeLeaderLocked :: "'s Node \<Rightarrow> 's Node option" where
  "becomeLeaderLocked n = do {
     lst \<leftarrow> lastIndexLocked n;
     Some (n\<lparr>role := Leader, leaderID := nid n,
             nextIndex := map_of (map (\<lambda>p. (p, lst + 1)) (peers n)),
             matchIndex := map_of (map (\<lambda>p. (p, 0)) (peers n)),
             nextHeartbeat := 0\<rparr>)
   }"

section \<open>Committing\<close>

definition majority :: "'a list \<Rightarrow> nat" where
  "majority ps = length ps div 2 + 1"

definition replica_count :: "'s Node \<Rightarrow> nat \<Rightarrow> nat" where
  "replica_count n idx = 1 + length (filter (\<lambda>p. map_get (matchIndex n) p \<ge> idx) (peers n))"

fun commit_scan :: "'s Node \<Rightarrow> nat \<Rightarrow> 's Node option" where
  "commit_scan n 0 = Some n"
| "commit_scan n (Suc i) =
     (if Suc i \<le> commitIndex n then Some n
      else do {
        t \<leftarrow> termAtLocked n (Suc i);
        if t \<noteq> currentTerm n then commit_scan n i
        else if replica_count n (Suc i) \<ge> majority (peers n)
             then Some (notifyApply (n\<lparr>commitIndex := Suc i\<rparr>))
             else commit_scan n i
      })"

definition maybeAdvanceCommitLocked :: "'s Node \<Rightarrow> 's Node option" where
  "maybeAdvanceCommitLocked n =
     (if role n \<noteq> Leader then Some n
      else do { lst \<leftarrow> lastIndexLocked n; commit_scan n lst })"

section \<open>RequestVote\<close>

definition handleRequestVote ::
  "'s Storage \<Rightarrow> env \<Rightarrow> RequestVoteArgs \<Rightarrow> 's Node \<Rightarrow> ('s Node \<times> (error option + RequestVoteReply)) option" where
  "handleRequestVote ops e args n =
     (if failed n then Some (n, Inl (failErr n))
      else
        let n1 = (if rvTerm args > currentTerm n then becomeFollowerLocked ops (rvTerm args) n else n)
        in if failed n1 then Some (n1, Inl (failErr n1))
        else if rvTerm args < currentTerm n1
        then Some (n1, Inr \<lparr>rrTerm = currentTerm n1, rrVoteGranted = False\<rparr>)
        else do {
          let canVote = (votedFor n1 = [] \<or> votedFor n1 = rvCandidateID args);
          upToDate \<leftarrow> candidateLogUpToDateLocked n1 (rvLastLogIndex args) (rvLastLogTerm args);
          if canVote \<and> upToDate then
            let n2 = saveHardStateLocked ops (currentTerm n1) (rvCandidateID args) n1
            in if failed n2 then Some (n2, Inl (failErr n2))
               else Some (resetElectionDeadlineLocked e n2,
                          Inr \<lparr>rrTerm = currentTerm n1, rrVoteGranted = True\<rparr>)
          else Some (n1, Inr \<lparr>rrTerm = currentTerm n1, rrVoteGranted = False\<rparr>)
        })"

section \<open>AppendEntries\<close>

text \<open>
  \<open>append_loop\<close> is the loop of receiver rules 3 and 4 from the entry whose absolute index is
  \<open>idx\<close>: skip entries the log already has, truncate at the first disagreement, append the rest.
\<close>

fun append_loop :: "'s Storage \<Rightarrow> nat \<Rightarrow> LogEntry list \<Rightarrow> 's Node \<Rightarrow> 's Node option" where
  "append_loop ops idx [] n = Some n"
| "append_loop ops idx (x # es) n = do {
     lst \<leftarrow> lastIndexLocked n;
     t \<leftarrow> (if idx \<le> lst then termAtLocked n idx else Some 0);
     if idx \<le> lst \<and> t = eTerm x then append_loop ops (idx + 1) es n
     else do {
       n1 \<leftarrow> (if idx \<le> lst then truncateLogLocked ops idx n else Some n);
       if failed n1 then Some n1 else Some (appendLogLocked ops (x # es) n1)
     }
   }"

definition ae_success :: "'s Node \<Rightarrow> AppendEntriesReply" where
  "ae_success n = \<lparr>arTerm = currentTerm n, arSuccess = True, arConflictTerm = 0, arConflictIndex = 0\<rparr>"

definition ae_conflict :: "'s Node \<Rightarrow> nat \<Rightarrow> nat \<Rightarrow> AppendEntriesReply" where
  "ae_conflict n t i =
     \<lparr>arTerm = currentTerm n, arSuccess = False, arConflictTerm = t, arConflictIndex = i\<rparr>"

text \<open>The part after the node has recognised the leader and re-anchored the arguments.\<close>

definition ae_reconcile ::
  "'s Storage \<Rightarrow> nat \<Rightarrow> nat \<Rightarrow> LogEntry list \<Rightarrow> nat \<Rightarrow> 's Node \<Rightarrow>
     ('s Node \<times> (error option + AppendEntriesReply)) option" where
  "ae_reconcile ops prevIndex prevTerm entries leaderCommit n = do {
     lst \<leftarrow> lastIndexLocked n;
     if prevIndex > lst then Some (n, Inr (ae_conflict n 0 (lst + 1)))
     else do {
       t \<leftarrow> termAtLocked n prevIndex;
       if t \<noteq> prevTerm then Some (n, Inr (ae_conflict n t (firstIndexOfTermLocked n t)))
       else do {
         n1 \<leftarrow> append_loop ops (prevIndex + 1) entries n;
         if failed n1 then Some (n1, Inl (failErr n1))
         else if leaderCommit > commitIndex n1 then do {
           lst1 \<leftarrow> lastIndexLocked n1;
           let n2 = notifyApply (n1\<lparr>commitIndex := min leaderCommit lst1\<rparr>);
           Some (n2, Inr (ae_success n2))
         }
         else Some (n1, Inr (ae_success n1))
       }
     }
   }"

text \<open>A message of the current or a newer term: step down or recognise the leader.\<close>

definition acceptLeader :: "'s Storage \<Rightarrow> env \<Rightarrow> nat \<Rightarrow> node_id \<Rightarrow> 's Node \<Rightarrow> 's Node" where
  "acceptLeader ops e trm leader n =
     (let n1 = (if trm > currentTerm n then becomeFollowerLocked ops trm n
                else if role n = Candidate then n\<lparr>role := Follower\<rparr> else n)
      in if failed n1 then n1 else resetElectionDeadlineLocked e (n1\<lparr>leaderID := leader\<rparr>))"

definition handleAppendEntries ::
  "'s Storage \<Rightarrow> env \<Rightarrow> AppendEntriesArgs \<Rightarrow> 's Node \<Rightarrow> ('s Node \<times> (error option + AppendEntriesReply)) option" where
  "handleAppendEntries ops e args n =
     (if failed n then Some (n, Inl (failErr n))
      else if aeTerm args < currentTerm n then Some (n, Inr (ae_conflict n 0 0))
      else
        let n1 = acceptLeader ops e (aeTerm args) (aeLeaderID args) n
        in if failed n1 then Some (n1, Inl (failErr n1))
        else if aePrevLogIndex args < lastIncludedIndex n1 then
          let skip = lastIncludedIndex n1 - aePrevLogIndex args
          in if length (aeEntries args) \<le> skip then Some (n1, Inr (ae_success n1))
             else ae_reconcile ops (lastIncludedIndex n1) (lastIncludedTerm n1)
                    (drop skip (aeEntries args)) (aeLeaderCommit args) n1
        else ae_reconcile ops (aePrevLogIndex args) (aePrevLogTerm args)
               (aeEntries args) (aeLeaderCommit args) n1)"

section \<open>InstallSnapshot\<close>

definition installed_log :: "InstallSnapshotArgs \<Rightarrow> 's Node \<Rightarrow> LogEntry list option" where
  "installed_log args n = do {
     lst \<leftarrow> lastIndexLocked n;
     t \<leftarrow> (if isLastIncludedIndex args \<le> lst then termAtLocked n (isLastIncludedIndex args) else Some 0);
     if isLastIncludedIndex args \<le> lst \<and> t = isLastIncludedTerm args
     then logFrom n (isLastIncludedIndex args)
     else Some [\<lparr>eTerm = isLastIncludedTerm args, eIndex = isLastIncludedIndex args, eCommand = []\<rparr>]
   }"

definition handleInstallSnapshot ::
  "'s Storage \<Rightarrow> env \<Rightarrow> InstallSnapshotArgs \<Rightarrow> 's Node \<Rightarrow> ('s Node \<times> (error option + InstallSnapshotReply)) option" where
  "handleInstallSnapshot ops e args n =
     (if failed n then Some (n, Inl (failErr n))
      else if isTerm args < currentTerm n then Some (n, Inr \<lparr>irTerm = currentTerm n\<rparr>)
      else
        let n1 = acceptLeader ops e (isTerm args) (isLeaderID args) n
        in if failed n1 then Some (n1, Inl (failErr n1))
        else if isLastIncludedIndex args \<le> lastIncludedIndex n1
        then Some (n1, Inr \<lparr>irTerm = currentTerm n1\<rparr>)
        else case SaveSnapshot ops (storage n1) (isLastIncludedIndex args) (isLastIncludedTerm args) (isData args) of
          (st, Some err) \<Rightarrow>
            let n2 = disableLocked (Wrapf ''saving installed snapshot: %w'' [] err) (n1\<lparr>storage := st\<rparr>)
            in Some (n2, Inl (failErr n2))
        | (st, None) \<Rightarrow> do {
            log' \<leftarrow> installed_log args n1;
            let n2 = n1\<lparr>storage := st, nlog := log',
              lastIncludedIndex := isLastIncludedIndex args,
              lastIncludedTerm := isLastIncludedTerm args,
              snapshotData := isData args,
              commitIndex := max (commitIndex n1) (isLastIncludedIndex args),
              lastApplied := max (lastApplied n1) (isLastIncludedIndex args),
              pendingSnapshot := Some (snapshot_msg (isData args) (isLastIncludedIndex args) (isLastIncludedTerm args))\<rparr>;
            Some (notifyApply n2, Inr \<lparr>irTerm = currentTerm n1\<rparr>)
          })"

section \<open>Dispatch\<close>

datatype Request =
    RequestVoteReq RequestVoteArgs
  | AppendEntriesReq AppendEntriesArgs
  | InstallSnapshotReq InstallSnapshotArgs
  | OtherReq string \<comment> \<open>any other Go type, by its name\<close>

datatype Reply =
    RequestVoteRep RequestVoteReply
  | AppendEntriesRep AppendEntriesReply
  | InstallSnapshotRep InstallSnapshotReply

fun handle :: "'s Storage \<Rightarrow> env \<Rightarrow> Request \<Rightarrow> 's Node \<Rightarrow> ('s Node \<times> (error option + Reply)) option" where
  "handle ops e (RequestVoteReq a) n =
     map_option (map_prod id (map_sum id RequestVoteRep)) (handleRequestVote ops e a n)"
| "handle ops e (AppendEntriesReq a) n =
     map_option (map_prod id (map_sum id AppendEntriesRep)) (handleAppendEntries ops e a n)"
| "handle ops e (InstallSnapshotReq a) n =
     map_option (map_prod id (map_sum id InstallSnapshotRep)) (handleInstallSnapshot ops e a n)"
| "handle ops e (OtherReq ty) n =
     Some (n, Inl (Some (Errorf ''raft: %s: unknown request type %T'' [StrArg (nid n), StrArg ty])))"

section \<open>Proposing and snapshotting\<close>

definition Propose :: "'s Storage \<Rightarrow> bytes \<Rightarrow> 's Node \<Rightarrow> ('s Node \<times> nat \<times> nat \<times> bool) option" where
  "Propose ops command n =
     (if failed n \<or> role n \<noteq> Leader then Some (n, 0, 0, False)
      else do {
        lst \<leftarrow> lastIndexLocked n;
        let n1 = appendLogLocked ops
          [\<lparr>eTerm = currentTerm n, eIndex = lst + 1, eCommand = command\<rparr>] n;
        if failed n1 then Some (n1, 0, 0, False)
        else do {
          n2 \<leftarrow> maybeAdvanceCommitLocked n1;
          Some (n2, lst + 1, currentTerm n, True)
        }
      })"

fun clear_first_command :: "LogEntry list \<Rightarrow> LogEntry list option" where
  "clear_first_command [] = None"
| "clear_first_command (x # es) = Some (x\<lparr>eCommand := []\<rparr> # es)"

definition Snapshot :: "'s Storage \<Rightarrow> nat \<Rightarrow> bytes \<Rightarrow> 's Node \<Rightarrow> ('s Node \<times> error option) option" where
  "Snapshot ops index data n =
     (if failed n then Some (n, failErr n)
      else if index \<le> lastIncludedIndex n then Some (n, None)
      else if index > lastApplied n
      then Some (n, Some (Errorf ''raft: Snapshot: index %d has not been applied yet (lastApplied=%d)''
                            [NatArg index, NatArg (lastApplied n)]))
      else do {
        t \<leftarrow> termAtLocked n index;
        tail \<leftarrow> logFrom n index;
        newLog \<leftarrow> clear_first_command tail;
        Some (case SaveSnapshot ops (storage n) index t data of
            (st, Some err) \<Rightarrow>
              let n1 = disableLocked (Wrapf ''saving snapshot: %w'' [] err) (n\<lparr>storage := st\<rparr>)
              in (n1, failErr n1)
          | (st, None) \<Rightarrow>
              (n\<lparr>storage := st, nlog := newLog, lastIncludedIndex := index, lastIncludedTerm := t,
                 snapshotData := data\<rparr>, None))
      })"

section \<open>The timer\<close>

definition u64_sub :: "nat \<Rightarrow> nat \<Rightarrow> nat" where
  "u64_sub a b = (if b \<le> a then a - b else 2 ^ 64 - (b - a))"

record TickActions =
  taStartElection :: bool
  taSendHeartbeats :: bool
  taSnapshotRequest :: nat \<comment> \<open>0 for no request\<close>

definition tick :: "env \<Rightarrow> 's Node \<Rightarrow> 's Node \<times> TickActions" where
  "tick e n =
     (if failed n then (n, \<lparr>taStartElection = False, taSendHeartbeats = False, taSnapshotRequest = 0\<rparr>)
      else
        let startEl = (role n \<noteq> Leader \<and> env_now e > electionDeadline n);
            sendHb = (role n = Leader \<and> env_now e > nextHeartbeat n);
            n1 = (if sendHb then n\<lparr>nextHeartbeat := env_now e + heartbeatInterval n\<rparr> else n);
            want = (snapshotThreshold n1 > 0
                    \<and> int (u64_sub (lastApplied n1) (lastIncludedIndex n1)) \<ge> snapshotThreshold n1
                    \<and> lastApplied n1 > lastSnapshotRequestedAt n1);
            n2 = (if want then n1\<lparr>lastSnapshotRequestedAt := lastApplied n1\<rparr> else n1)
        in (n2, \<lparr>taStartElection = startEl, taSendHeartbeats = sendHb,
                 taSnapshotRequest = (if want then lastApplied n1 else 0)\<rparr>))"

definition signalSnapshot :: "nat \<Rightarrow> 's Node \<Rightarrow> 's Node" where
  "signalSnapshot idx n =
     (if idx > 0 \<and> snapshotTriggerCh n = None then n\<lparr>snapshotTriggerCh := Some idx\<rparr> else n)"

section \<open>Elections\<close>

text \<open>
  \<open>startElection\<close> is the first critical section; it returns the vote request the goroutines
  send, or nothing when the node is disabled. \<open>electedAlone\<close> is the second section, taken at
  once, which elects the node when its own vote is a majority. \<open>voteReply\<close> is the body of the goroutine of one
  peer once its reply is there: \<open>votes\<close> is the counter the goroutines of one election share.
\<close>

definition startElection :: "'s Storage \<Rightarrow> env \<Rightarrow> 's Node \<Rightarrow> ('s Node \<times> RequestVoteArgs option) option" where
  "startElection ops e n =
     (if failed n then Some (n, None)
      else
        let n1 = becomeCandidateLocked ops e n
        in if failed n1 then Some (n1, None)
        else do {
          (lastIndex, lastTerm) \<leftarrow> lastLogInfoLocked n1;
          Some (n1, Some \<lparr>rvTerm = currentTerm n1, rvCandidateID = nid n1,
                          rvLastLogIndex = lastIndex, rvLastLogTerm = lastTerm\<rparr>)
        })"

definition electedAlone :: "nat \<Rightarrow> 's Node \<Rightarrow> 's Node option" where
  "electedAlone trm n =
     (if 1 \<ge> majority (peers n) \<and> role n = Candidate \<and> currentTerm n = trm
      then becomeLeaderLocked n else Some n)"

definition voteReply ::
  "'s Storage \<Rightarrow> nat \<Rightarrow> nat \<Rightarrow> RequestVoteReply \<Rightarrow> 's Node \<Rightarrow> ('s Node \<times> nat) option" where
  "voteReply ops trm votes reply n =
     (if failed n then Some (n, votes)
      else if rrTerm reply > currentTerm n then Some (becomeFollowerLocked ops (rrTerm reply) n, votes)
      else if role n \<noteq> Candidate \<or> currentTerm n \<noteq> trm \<or> \<not> rrVoteGranted reply then Some (n, votes)
      else if votes + 1 \<ge> majority (peers n)
      then do { n1 \<leftarrow> becomeLeaderLocked n; Some (n1, votes + 1) }
      else Some (n, votes + 1))"

section \<open>Replication\<close>

definition replicateToPeers :: "'s Node \<Rightarrow> (nat \<times> node_id \<times> node_id list) option" where
  "replicateToPeers n =
     (if failed n \<or> role n \<noteq> Leader then None else Some (currentTerm n, nid n, peers n))"

datatype Sending = NoSend | SendAppend AppendEntriesArgs | SendSnapshot

definition replicateToPeer :: "node_id \<Rightarrow> nat \<Rightarrow> node_id \<Rightarrow> 's Node \<Rightarrow> Sending option" where
  "replicateToPeer peer trm i n =
     (if failed n \<or> role n \<noteq> Leader \<or> currentTerm n \<noteq> trm then Some NoSend
      else
        let nextIdx = map_get (nextIndex n) peer
        in if nextIdx \<le> lastIncludedIndex n then Some SendSnapshot
        else do {
          prevTerm \<leftarrow> termAtLocked n (nextIdx - 1);
          entries \<leftarrow> logFrom n nextIdx;
          Some (SendAppend \<lparr>aeTerm = trm, aeLeaderID = i, aePrevLogIndex = nextIdx - 1,
            aePrevLogTerm = prevTerm, aeEntries = entries, aeLeaderCommit = commitIndex n\<rparr>)
        })"

definition noteMatch :: "node_id \<Rightarrow> nat \<Rightarrow> 's Node \<Rightarrow> 's Node" where
  "noteMatch peer newMatch n =
     (let n1 = (if newMatch > map_get (matchIndex n) peer
                then n\<lparr>matchIndex := (matchIndex n)(peer \<mapsto> newMatch)\<rparr> else n)
      in if newMatch + 1 > map_get (nextIndex n1) peer
         then n1\<lparr>nextIndex := (nextIndex n1)(peer \<mapsto> newMatch + 1)\<rparr> else n1)"

definition backUp :: "node_id \<Rightarrow> AppendEntriesReply \<Rightarrow> 's Node \<Rightarrow> 's Node" where
  "backUp peer reply n =
     (let target = (if arConflictTerm reply = 0 then max 1 (arConflictIndex reply)
                    else case lastIndexOfTermLocked n (arConflictTerm reply) of
                           Some idx \<Rightarrow> idx + 1
                         | None \<Rightarrow> max 1 (arConflictIndex reply))
      in n\<lparr>nextIndex := (nextIndex n)(peer \<mapsto> target)\<rparr>)"

definition appendReply ::
  "'s Storage \<Rightarrow> node_id \<Rightarrow> nat \<Rightarrow> nat \<Rightarrow> nat \<Rightarrow> AppendEntriesReply \<Rightarrow> 's Node \<Rightarrow> 's Node option" where
  "appendReply ops peer trm prevIndex nentries reply n =
     (if failed n then Some n
      else if arTerm reply > currentTerm n then Some (becomeFollowerLocked ops (arTerm reply) n)
      else if role n \<noteq> Leader \<or> currentTerm n \<noteq> trm then Some n
      else if arSuccess reply
      then maybeAdvanceCommitLocked (noteMatch peer (prevIndex + nentries) n)
      else Some (backUp peer reply n))"

definition sendInstallSnapshot :: "nat \<Rightarrow> node_id \<Rightarrow> 's Node \<Rightarrow> InstallSnapshotArgs option" where
  "sendInstallSnapshot trm i n =
     (if failed n \<or> role n \<noteq> Leader \<or> currentTerm n \<noteq> trm then None
      else Some \<lparr>isTerm = trm, isLeaderID = i, isLastIncludedIndex = lastIncludedIndex n,
                 isLastIncludedTerm = lastIncludedTerm n, isData = snapshotData n\<rparr>)"

definition snapshotReply ::
  "'s Storage \<Rightarrow> node_id \<Rightarrow> nat \<Rightarrow> nat \<Rightarrow> InstallSnapshotReply \<Rightarrow> 's Node \<Rightarrow> 's Node option" where
  "snapshotReply ops peer trm sentIndex reply n =
     (if failed n then Some n
      else if irTerm reply > currentTerm n then Some (becomeFollowerLocked ops (irTerm reply) n)
      else if role n \<noteq> Leader \<or> currentTerm n \<noteq> trm then Some n
      else maybeAdvanceCommitLocked (noteMatch peer sentIndex n))"

section \<open>Construction and observation\<close>

definition node_from_state :: "Config \<Rightarrow> 's \<Rightarrow> PersistentState \<Rightarrow> LogEntry \<Rightarrow> 's Node" where
  "node_from_state cfg st ps b =
     \<lparr>nid = cID cfg, peers = cPeers cfg,
      electionTimeoutMin = orDefault (cElectionTimeoutMin cfg) defaultElectionTimeoutMin,
      electionTimeoutMax = orDefault (cElectionTimeoutMax cfg) defaultElectionTimeoutMax,
      heartbeatInterval = orDefault (cHeartbeatInterval cfg) defaultHeartbeatInterval,
      tickInterval = orDefault (cTickInterval cfg) defaultTickInterval,
      rpcTimeout = orDefault (cRPCTimeout cfg) defaultRPCTimeout,
      storage = st, role = Follower, currentTerm = psCurrentTerm ps, votedFor = psVotedFor ps,
      leaderID = [], nlog = psLog ps, commitIndex = eIndex b, nextIndex = Map.empty,
      matchIndex = Map.empty, electionDeadline = 0, nextHeartbeat = 0, failed = False,
      failErr = None, lastIncludedIndex = eIndex b, lastIncludedTerm = eTerm b,
      snapshotData = psSnapshotData ps, lastApplied = eIndex b,
      pendingSnapshot = (if eIndex b > 0
        then Some (snapshot_msg (psSnapshotData ps) (eIndex b) (eTerm b)) else None),
      applyCh = [], applyWake = False, snapshotThreshold = cSnapshotThreshold cfg,
      snapshotTriggerCh = None, lastSnapshotRequestedAt = eIndex b\<rparr>"

definition NewNode :: "'s Storage \<Rightarrow> env \<Rightarrow> Config \<Rightarrow> 's \<Rightarrow> ('s \<times> (error + 's Node)) option" where
  "NewNode ops e cfg st =
     (if cID cfg = [] then Some (st, Inl (Errorf ''raft: Config.ID is required'' []))
      else if \<not> cTransport cfg then Some (st, Inl (Errorf ''raft: Config.Transport is required'' []))
      else if orDefault (cElectionTimeoutMax cfg) defaultElectionTimeoutMax
              < orDefault (cElectionTimeoutMin cfg) defaultElectionTimeoutMin
      then Some (st, Inl (Errorf ''raft: ElectionTimeoutMax must be >= ElectionTimeoutMin'' []))
      else case Load ops st of
        (st', Inl err) \<Rightarrow> Some (st', Inl (Wrapf ''raft: loading persisted state: %w'' [] err))
      | (st', Inr ps) \<Rightarrow>
          (case psLog ps of
             [] \<Rightarrow> None
           | b # _ \<Rightarrow> Some (st', Inr (resetElectionDeadlineLocked e (node_from_state cfg st' ps b)))))"

definition State :: "'s Node \<Rightarrow> nat \<times> Role" where
  "State n = (currentTerm n, role n)"

definition NodeLeader :: "'s Node \<Rightarrow> node_id" where
  "NodeLeader n = leaderID n"

record Status =
  sID :: node_id
  sTerm :: nat
  sRole :: Role
  sLeaderID :: node_id
  sCommitIndex :: nat
  sLastApplied :: nat
  sLastIncludedIndex :: nat
  sLastIncludedTerm :: nat
  sLogLen :: int
  sLastLogIndex :: nat
  sFollowers :: "(node_id \<rightharpoonup> nat \<times> nat) option" \<comment> \<open>next and match index; None is Go's nil\<close>

definition NodeStatus :: "'s Node \<Rightarrow> Status option" where
  "NodeStatus n = do {
     lst \<leftarrow> lastIndexLocked n;
     Some \<lparr>sID = nid n, sTerm = currentTerm n, sRole = role n, sLeaderID = leaderID n,
       sCommitIndex = commitIndex n, sLastApplied = lastApplied n,
       sLastIncludedIndex = lastIncludedIndex n, sLastIncludedTerm = lastIncludedTerm n,
       sLogLen = int (length (nlog n)) - 1, sLastLogIndex = lst,
       sFollowers = (if role n = Leader
         then Some (map_of (map (\<lambda>p. (p, map_get (nextIndex n) p, map_get (matchIndex n) p)) (peers n)))
         else None)\<rparr>
   }"

end
