(* ===== verification/Raft_Log.thy ===== *)
theory Raft_Log
  imports Raft_Node
begin

text \<open>
  The log of one node: the shape every operation keeps (\<open>log_ok\<close>), the fact that reads inside
  the log never panic, and the effect of the append loop of AppendEntries, which is compared
  with a reference merge of two lists.
\<close>

section \<open>The shape of the log\<close>

text \<open>
  \<open>log_ok\<close>: the log is never empty, its slice position 0 is the snapshot boundary, the indices
  are consecutive, the terms do not decrease and none is newer than the node's term.
  \<open>commit_ok\<close>: boundary, applied, committed and last index are in this order.
\<close>

definition last_index :: "'s Node \<Rightarrow> nat" where
  "last_index n = lastIncludedIndex n + length (nlog n) - 1"

definition log_ok :: "'s Node \<Rightarrow> bool" where
  "log_ok n \<longleftrightarrow> nlog n \<noteq> [] \<and> indexed (lastIncludedIndex n) (nlog n) \<and>
     eTerm (hd (nlog n)) = lastIncludedTerm n \<and> terms_sorted (nlog n) \<and>
     eTerm (last (nlog n)) \<le> currentTerm n"

definition commit_ok :: "'s Node \<Rightarrow> bool" where
  "commit_ok n \<longleftrightarrow> lastIncludedIndex n \<le> lastApplied n \<and> lastApplied n \<le> commitIndex n \<and>
     commitIndex n \<le> last_index n"

lemma log_okD:
  assumes "log_ok n"
  shows "nlog n \<noteq> []" "0 < length (nlog n)" "indexed (lastIncludedIndex n) (nlog n)"
    "terms_sorted (nlog n)" "eTerm (nlog n ! 0) = lastIncludedTerm n"
    "lastIncludedIndex n \<le> last_index n"
  using assms by (cases "nlog n"; auto simp: log_ok_def last_index_def hd_conv_nth)+

lemma log_ok_eIndex:
  "log_ok n \<Longrightarrow> k < length (nlog n) \<Longrightarrow> eIndex (nlog n ! k) = lastIncludedIndex n + k"
  by (simp add: log_ok_def indexed_nth)

lemma log_ok_last: "log_ok n \<Longrightarrow> eIndex (last (nlog n)) = last_index n"
  using log_ok_eIndex [of n "length (nlog n) - 1"] log_okD [of n]
  by (simp add: last_conv_nth last_index_def)

lemma lastIndexLocked_ok: "log_ok n \<Longrightarrow> lastIndexLocked n = Some (last_index n)"
  by (simp add: lastIndexLocked_def log_ok_last log_okD)

lemma lastLogInfoLocked_ok:
  "log_ok n \<Longrightarrow> lastLogInfoLocked n = Some (last_index n, eTerm (last (nlog n)))"
  by (simp add: lastLogInfoLocked_def log_ok_last log_okD)

lemma in_log_pos:
  "log_ok n \<Longrightarrow> lastIncludedIndex n \<le> i \<Longrightarrow> i \<le> last_index n \<longleftrightarrow> i - lastIncludedIndex n < length (nlog n)"
  using log_okD(2) [of n] by (cases "nlog n") (auto simp: last_index_def)

lemma entryAtLocked_ok:
  "log_ok n \<Longrightarrow> lastIncludedIndex n \<le> i \<Longrightarrow> i \<le> last_index n \<Longrightarrow>
     entryAtLocked n i = Some (nlog n ! (i - lastIncludedIndex n))"
  by (simp add: entryAtLocked_def in_log_pos)

lemma termAtLocked_ok:
  "log_ok n \<Longrightarrow> lastIncludedIndex n \<le> i \<Longrightarrow> i \<le> last_index n \<Longrightarrow>
     termAtLocked n i = Some (eTerm (nlog n ! (i - lastIncludedIndex n)))"
  by (simp add: termAtLocked_def entryAtLocked_ok)

lemma logFrom_ok:
  "log_ok n \<Longrightarrow> lastIncludedIndex n \<le> i \<Longrightarrow> i \<le> last_index n + 1 \<Longrightarrow>
     logFrom n i = Some (drop (i - lastIncludedIndex n) (nlog n))"
  using log_okD(2) [of n] by (auto simp: logFrom_def slice_pos_def last_index_def)

lemma termAtLocked_boundary: "log_ok n \<Longrightarrow> termAtLocked n (lastIncludedIndex n) = Some (lastIncludedTerm n)"
  by (simp add: termAtLocked_ok log_okD)

lemma log_ok_terms: "log_ok n \<Longrightarrow> x \<in> set (nlog n) \<Longrightarrow> eTerm x \<le> currentTerm n"
proof -
  assume n: "log_ok n" and "x \<in> set (nlog n)"
  then obtain i where "i < length (nlog n)" "x = nlog n ! i" by (auto simp: in_set_conv_nth)
  then have "eTerm x \<le> eTerm (last (nlog n))"
    using terms_sorted_nth_mono [OF log_okD(4) [OF n], of i "length (nlog n) - 1"]
      last_conv_nth [OF log_okD(1) [OF n]] by simp
  then show "eTerm x \<le> currentTerm n" using n by (simp add: log_ok_def)
qed

text \<open>The predicates read only these fields.\<close>

lemma log_ok_cong:
  "nlog n' = nlog n \<Longrightarrow> lastIncludedIndex n' = lastIncludedIndex n \<Longrightarrow>
   lastIncludedTerm n' = lastIncludedTerm n \<Longrightarrow> currentTerm n \<le> currentTerm n' \<Longrightarrow>
   log_ok n \<Longrightarrow> log_ok n'"
  by (auto simp: log_ok_def)

lemma commit_ok_cong:
  "nlog n' = nlog n \<Longrightarrow> lastIncludedIndex n' = lastIncludedIndex n \<Longrightarrow>
   lastApplied n' = lastApplied n \<Longrightarrow> commitIndex n' = commitIndex n \<Longrightarrow> commit_ok n \<Longrightarrow> commit_ok n'"
  by (auto simp: commit_ok_def last_index_def)

section \<open>Frames of the small operations\<close>

text \<open>
  \<open>log_same n n'\<close>: the operation left the log, the snapshot, the indices, the apply side and the
  configuration alone (it may have changed term, vote, role, timers, storage).
\<close>

definition log_same :: "'s Node \<Rightarrow> 's Node \<Rightarrow> bool" where
  "log_same n n' \<longleftrightarrow> nlog n' = nlog n \<and> lastIncludedIndex n' = lastIncludedIndex n \<and>
     lastIncludedTerm n' = lastIncludedTerm n \<and> snapshotData n' = snapshotData n \<and>
     commitIndex n' = commitIndex n \<and> lastApplied n' = lastApplied n \<and>
     pendingSnapshot n' = pendingSnapshot n \<and> applyCh n' = applyCh n \<and>
     nid n' = nid n \<and> peers n' = peers n \<and> currentTerm n \<le> currentTerm n'"

lemma log_same_refl [simp]: "log_same n n"
  by (simp add: log_same_def)

lemma log_same_trans: "log_same a b \<Longrightarrow> log_same b c \<Longrightarrow> log_same a c"
  by (auto simp: log_same_def)

lemma log_same_ok: "log_same n n' \<Longrightarrow> log_ok n \<Longrightarrow> log_ok n'"
  by (rule log_ok_cong) (auto simp: log_same_def)

lemma log_same_commit: "log_same n n' \<Longrightarrow> commit_ok n \<Longrightarrow> commit_ok n'"
  by (rule commit_ok_cong) (auto simp: log_same_def)

lemma log_same_last_index: "log_same n n' \<Longrightarrow> last_index n' = last_index n"
  by (simp add: log_same_def last_index_def)

lemma saveHardStateLocked_same:
  "currentTerm n \<le> trm \<Longrightarrow> log_same n (saveHardStateLocked ops trm v n)"
  by (auto simp: saveHardStateLocked_def log_same_def disableLocked_def Let_def
      split: prod.splits option.splits)

lemma saveHardStateLocked_term [simp]:
  "currentTerm (saveHardStateLocked ops trm v n) = trm"
  "votedFor (saveHardStateLocked ops trm v n) = v"
  "role (saveHardStateLocked ops trm v n) = role n"
  by (auto simp: saveHardStateLocked_def disableLocked_def Let_def split: prod.splits option.splits)

lemma resetElectionDeadlineLocked_same [simp]: "log_same n (resetElectionDeadlineLocked e n)"
  by (simp add: resetElectionDeadlineLocked_def log_same_def Let_def)

lemma log_same_reset: "log_same n m \<Longrightarrow> log_same n (resetElectionDeadlineLocked e m)"
  by (rule log_same_trans [OF _ resetElectionDeadlineLocked_same])

lemma resetElectionDeadlineLocked_fields [simp]:
  "currentTerm (resetElectionDeadlineLocked e n) = currentTerm n"
  "role (resetElectionDeadlineLocked e n) = role n"
  "votedFor (resetElectionDeadlineLocked e n) = votedFor n"
  "failed (resetElectionDeadlineLocked e n) = failed n"
  "failErr (resetElectionDeadlineLocked e n) = failErr n"
  "storage (resetElectionDeadlineLocked e n) = storage n"
  "nid (resetElectionDeadlineLocked e n) = nid n"
  "peers (resetElectionDeadlineLocked e n) = peers n"
  "leaderID (resetElectionDeadlineLocked e n) = leaderID n"
  by (simp_all add: resetElectionDeadlineLocked_def Let_def)

lemma becomeFollowerLocked_same: "log_same n (becomeFollowerLocked ops trm n)"
proof -
  have "log_same n (n\<lparr>role := Follower\<rparr>)" by (simp add: log_same_def)
  then show ?thesis
    using saveHardStateLocked_same [of "n\<lparr>role := Follower\<rparr>" trm ops "[]"]
    by (auto simp: becomeFollowerLocked_def Let_def intro: log_same_trans)
qed

lemma becomeFollowerLocked_fields [simp]:
  "currentTerm (becomeFollowerLocked ops trm n) = max trm (currentTerm n)"
  "role (becomeFollowerLocked ops trm n) = Follower"
  by (auto simp: becomeFollowerLocked_def Let_def)

lemma acceptLeader_same: "log_same n (acceptLeader ops e trm leader n)"
proof -
  define n1 where "n1 = (if trm > currentTerm n then becomeFollowerLocked ops trm n
                else if role n = Candidate then n\<lparr>role := Follower\<rparr> else n)"
  have "log_same n n1"
    unfolding n1_def by (simp add: becomeFollowerLocked_same) (simp add: log_same_def)
  moreover have "log_same n1 (n1\<lparr>leaderID := leader\<rparr>)" by (simp add: log_same_def)
  ultimately have "log_same n (n1\<lparr>leaderID := leader\<rparr>)" by (rule log_same_trans)
  then have "log_same n (resetElectionDeadlineLocked e (n1\<lparr>leaderID := leader\<rparr>))"
    by (rule log_same_reset)
  then show ?thesis
    using \<open>log_same n n1\<close> unfolding acceptLeader_def n1_def [symmetric] Let_def by simp
qed

lemma acceptLeader_term:
  "currentTerm n \<le> trm \<Longrightarrow> currentTerm (acceptLeader ops e trm leader n) = trm"
  by (auto simp: acceptLeader_def Let_def)

lemma becomeCandidateLocked_same: "log_same n (becomeCandidateLocked ops e n)"
proof -
  let ?n1 = "n\<lparr>role := Candidate, leaderID := []\<rparr>"
  have "log_same n ?n1" by (simp add: log_same_def)
  moreover have "log_same ?n1 (saveHardStateLocked ops (currentTerm ?n1 + 1) (nid ?n1) ?n1)"
    by (rule saveHardStateLocked_same) simp
  ultimately have "log_same n (saveHardStateLocked ops (currentTerm ?n1 + 1) (nid ?n1) ?n1)"
    by (rule log_same_trans)
  then show ?thesis
    unfolding becomeCandidateLocked_def Let_def by (auto intro: log_same_reset)
qed

section \<open>The append loop and its reference\<close>

text \<open>
  The reference for receiver rules 3 and 4: walk the tail of the log and the entries together,
  keep what agrees, replace everything from the first disagreement on.
\<close>

fun merge_entries :: "LogEntry list \<Rightarrow> LogEntry list \<Rightarrow> LogEntry list" where
  "merge_entries ts [] = ts"
| "merge_entries [] es = es"
| "merge_entries (t # ts) (x # es) =
     (if eTerm t = eTerm x then t # merge_entries ts es else x # es)"

lemma merge_entries_Nil [simp]: "merge_entries [] es = es"
  by (cases es) auto

lemma merge_entries_terms: "merge_entries ts es = ts \<or> map eTerm (merge_entries ts es) = map eTerm es"
  by (induction ts es rule: merge_entries.induct) auto

lemma merge_entries_holds: "map eTerm (take (length es) (merge_entries ts es)) = map eTerm es"
  by (induction ts es rule: merge_entries.induct) auto

lemma merge_entries_length: "length es \<le> length (merge_entries ts es)"
  by (induction ts es rule: merge_entries.induct) auto

lemma merge_entries_indexed:
  "indexed i ts \<Longrightarrow> indexed i es \<Longrightarrow> indexed i (merge_entries ts es)"
  by (induction ts es arbitrary: i rule: merge_entries.induct) auto

lemma merge_entries_idem: "merge_entries (merge_entries ts es) es = merge_entries ts es"
proof (induction ts es rule: merge_entries.induct)
  case (2 v va)
  have "merge_entries xs xs = xs" for xs by (induction xs) auto
  then show ?case by simp
next
  case (3 t ts x es)
  have "merge_entries xs xs = xs" for xs by (induction xs) auto
  with 3 show ?case by auto
qed simp

lemma merge_entries_keeps:
  "c \<le> length ts \<Longrightarrow> (\<And>i. i < c \<Longrightarrow> i < length es \<Longrightarrow> eTerm (ts ! i) = eTerm (es ! i)) \<Longrightarrow>
     take c (merge_entries ts es) = take c ts"
proof (induction ts es arbitrary: c rule: merge_entries.induct)
  case (3 t ts x es)
  show ?case
  proof (cases c)
    case (Suc d)
    have "eTerm t = eTerm x" using "3.prems"(2) [of 0] Suc by simp
    moreover have "take d (merge_entries ts es) = take d ts"
    proof (rule "3.IH" [OF \<open>eTerm t = eTerm x\<close>])
      show "d \<le> length ts" using "3.prems"(1) Suc by simp
      show "eTerm (ts ! i) = eTerm (es ! i)" if "i < d" "i < length es" for i
        using "3.prems"(2) [of "Suc i"] that Suc by simp
    qed
    ultimately show ?thesis using Suc by simp
  qed simp
qed simp_all

text \<open>
  \<open>log_write n lg n'\<close>: only the log (now \<open>lg\<close>), the store and the failure flag differ.
\<close>

definition log_write :: "'s Node \<Rightarrow> LogEntry list \<Rightarrow> 's Node \<Rightarrow> bool" where
  "log_write n lg n' \<longleftrightarrow> (\<exists>st f fe. n' = n\<lparr>nlog := lg, storage := st, failed := f, failErr := fe\<rparr>)"

lemma log_writeD:
  assumes "log_write n lg n'"
  shows "nlog n' = lg" "currentTerm n' = currentTerm n" "votedFor n' = votedFor n" "role n' = role n"
    "lastIncludedIndex n' = lastIncludedIndex n" "lastIncludedTerm n' = lastIncludedTerm n"
    "commitIndex n' = commitIndex n" "lastApplied n' = lastApplied n" "peers n' = peers n"
    "nid n' = nid n" "snapshotData n' = snapshotData n" "pendingSnapshot n' = pendingSnapshot n"
    "matchIndex n' = matchIndex n" "nextIndex n' = nextIndex n" "leaderID n' = leaderID n"
    "applyCh n' = applyCh n"
  using assms by (auto simp: log_write_def)

lemma log_writeI:
  "n' = n\<lparr>nlog := lg, storage := st, failed := f, failErr := fe\<rparr> \<Longrightarrow> log_write n lg n'"
  by (auto simp: log_write_def)

lemma log_write_refl: "log_write n (nlog n) n"
  by (rule log_writeI [where st = "storage n" and f = "failed n" and fe = "failErr n"]) simp

lemma log_write_trans:
  assumes "log_write n lg n1" "log_write n1 lg' n2"
  shows "log_write n lg' n2"
proof -
  obtain st f fe where 1: "n1 = n\<lparr>nlog := lg, storage := st, failed := f, failErr := fe\<rparr>"
    using assms(1) by (auto simp: log_write_def)
  obtain st' f' fe' where "n2 = n1\<lparr>nlog := lg', storage := st', failed := f', failErr := fe'\<rparr>"
    using assms(2) by (auto simp: log_write_def)
  with 1 have "n2 = n\<lparr>nlog := lg', storage := st', failed := f', failErr := fe'\<rparr>" by simp
  then show ?thesis by (rule log_writeI)
qed

lemma log_write_store: "log_write n lg (n\<lparr>nlog := lg, storage := st\<rparr>)"
  by (rule log_writeI [where st = st and f = "failed n" and fe = "failErr n"]) simp

lemma log_write_disable: "log_write n lg (disableLocked err (n\<lparr>nlog := lg, storage := st\<rparr>))"
  unfolding disableLocked_def by (rule log_writeI) simp

lemma appendLogLocked_write: "log_write n (nlog n @ es) (appendLogLocked ops es n)"
  by (cases "AppendLog ops (storage n) es"; cases "snd (AppendLog ops (storage n) es)")
    (auto simp: appendLogLocked_def Let_def log_write_store log_write_disable)

lemma truncateLogLocked_write:
  assumes "slice_pos n i = Some k"
  shows "\<exists>n'. truncateLogLocked ops i n = Some n' \<and> log_write n (take k (nlog n)) n'"
  by (cases "TruncateLog ops (storage n) i"; cases "snd (TruncateLog ops (storage n) i)")
    (auto simp: truncateLogLocked_def Let_def assms log_write_store log_write_disable)

text \<open>
  The loop returns, and what it leaves is the reference merge, or, when a truncation could not
  be persisted and the node was disabled, the old log up to the first disagreement.
\<close>

definition disagrees_at :: "'s Node \<Rightarrow> nat \<Rightarrow> LogEntry list \<Rightarrow> nat \<Rightarrow> bool" where
  "disagrees_at n idx es i \<longleftrightarrow> i < length es \<and> lastIncludedIndex n < idx + i \<and>
     idx + i \<le> last_index n \<and> eTerm (nlog n ! (idx + i - lastIncludedIndex n)) \<noteq> eTerm (es ! i)"

lemma append_loop_merge:
  assumes "log_ok n" "\<not> failed n" "lastIncludedIndex n < idx" "idx \<le> last_index n + 1"
  shows "\<exists>n' lg. append_loop ops idx es n = Some n' \<and> log_write n lg n' \<and>
     (lg = take (idx - lastIncludedIndex n) (nlog n) @
             merge_entries (drop (idx - lastIncludedIndex n) (nlog n)) es
      \<or> failed n' \<and> (\<exists>i. disagrees_at n idx es i \<and> lg = take (idx + i - lastIncludedIndex n) (nlog n)))"
  using assms(3,4)
proof (induction es arbitrary: idx)
  case Nil
  then show ?case using log_write_refl [of n] by auto
next
  case (Cons x es)
  define k where "k = idx - lastIncludedIndex n"
  have k: "0 < k" "k \<le> length (nlog n)"
    using Cons.prems log_okD(2) [OF assms(1)] by (auto simp: k_def last_index_def)
  note lst = lastIndexLocked_ok [OF assms(1)]
  show ?case
  proof (cases "idx \<le> last_index n")
    case False
    then have "k = length (nlog n)"
      using k Cons.prems by (auto simp: k_def last_index_def)
    then have "append_loop ops idx (x # es) n = Some (appendLogLocked ops (x # es) n)"
      "take k (nlog n) @ merge_entries (drop k (nlog n)) (x # es) = nlog n @ x # es"
      using False lst assms(2) by auto
    then show ?thesis
      using appendLogLocked_write [of n "x # es" ops] unfolding k_def [symmetric]
      by (intro exI [of _ "appendLogLocked ops (x # es) n"] exI [of _ "nlog n @ x # es"]) simp
  next
    case True
    have klen: "k < length (nlog n)"
      using in_log_pos [OF assms(1), of idx] Cons.prems True by (simp add: k_def)
    have t: "termAtLocked n idx = Some (eTerm (nlog n ! k))"
      using termAtLocked_ok [OF assms(1), of idx] Cons.prems True by (simp add: k_def)
    have dk: "drop k (nlog n) = nlog n ! k # drop (Suc k) (nlog n)"
      using klen by (rule drop_eq_Cons_nth)
    show ?thesis
    proof (cases "eTerm (nlog n ! k) = eTerm x")
      case eq: True
      have "Suc k = idx + 1 - lastIncludedIndex n"
        using Cons.prems by (simp add: k_def)
      moreover have "take (Suc k) (nlog n) = take k (nlog n) @ [nlog n ! k]"
        using klen by (rule take_Suc_conv_app_nth)
      moreover have "disagrees_at n (idx + 1) es i \<Longrightarrow> disagrees_at n idx (x # es) (Suc i)" for i
        by (simp add: disagrees_at_def)
      moreover have "append_loop ops idx (x # es) n = append_loop ops (idx + 1) es n"
        using True lst t eq by simp
      moreover obtain n' lg where "append_loop ops (idx + 1) es n = Some n'" "log_write n lg n'"
        and lg: "lg = take (idx + 1 - lastIncludedIndex n) (nlog n) @
             merge_entries (drop (idx + 1 - lastIncludedIndex n) (nlog n)) es
          \<or> failed n' \<and> (\<exists>i. disagrees_at n (idx + 1) es i \<and>
                lg = take (idx + 1 + i - lastIncludedIndex n) (nlog n))"
        using Cons.IH [of "idx + 1"] Cons.prems True by auto
      ultimately show ?thesis
        using eq dk unfolding k_def [symmetric]
        by (intro exI [of _ n'] exI [of _ lg]) (auto, metis add_Suc_right)
    next
      case neq: False
      have sp: "slice_pos n idx = Some k"
        using Cons.prems klen by (auto simp: slice_pos_def k_def)
      obtain n1 where n1: "truncateLogLocked ops idx n = Some n1" "log_write n (take k (nlog n)) n1"
        using truncateLogLocked_write [OF sp, of ops] by blast
      have al: "append_loop ops idx (x # es) n =
          (if failed n1 then Some n1 else Some (appendLogLocked ops (x # es) n1))"
        using True lst t neq n1(1) by simp
      show ?thesis
      proof (cases "failed n1")
        case f: True
        have "disagrees_at n idx (x # es) 0"
          using Cons.prems True neq by (simp add: disagrees_at_def k_def)
        with f show ?thesis using al n1(2) k
          by (intro exI [of _ n1] exI [of _ "take k (nlog n)"])
            (auto simp: k_def intro!: exI [of _ 0])
      next
        case nf: False
        have "log_write n (take k (nlog n) @ x # es) (appendLogLocked ops (x # es) n1)"
          using log_write_trans [OF n1(2) appendLogLocked_write [of n1 "x # es" ops]] log_writeD(1) [OF n1(2)]
          by simp
        then show ?thesis using al nf dk neq unfolding k_def [symmetric]
          by (intro exI [of _ "appendLogLocked ops (x # es) n1"] exI [of _ "take k (nlog n) @ x # es"]) simp
      qed
    qed
  qed
qed

end
