(* ===== verification/Raft_Handlers.thy ===== *)
theory Raft_Handlers
  imports Raft_Log
begin

text \<open>
  The handlers of one node: they return (no run-time panic), keep the shape of the log and the
  order of the indices, and do what the protocol asks of them. What they need from the sender
  is stated as predicates on the message: \<open>entries_ok\<close> (consecutive indices, terms in order and
  not newer than the message), and \<open>no_conflict\<close> (the message agrees with what the receiver has
  committed), which the protocol as a whole guarantees.
\<close>

section \<open>Writes keep the shape of the log\<close>

definition entries_ok :: "nat \<Rightarrow> nat \<Rightarrow> nat \<Rightarrow> LogEntry list \<Rightarrow> bool" where
  "entries_ok prevIndex prevTerm trm es \<longleftrightarrow> indexed (prevIndex + 1) es \<and> terms_sorted es \<and>
     (\<forall>x \<in> set es. prevTerm \<le> eTerm x \<and> eTerm x \<le> trm)"

definition no_conflict :: "'s Node \<Rightarrow> LogEntry list \<Rightarrow> bool" where
  "no_conflict n es \<longleftrightarrow> (\<forall>x \<in> set es. lastIncludedIndex n \<le> eIndex x \<longrightarrow> eIndex x \<le> commitIndex n \<longrightarrow>
     termAtLocked n (eIndex x) = Some (eTerm x))"

lemma log_ok_merge:
  assumes n: "log_ok n" and pi: "lastIncludedIndex n \<le> prevIndex" "prevIndex \<le> last_index n"
    and pt: "termAtLocked n prevIndex = Some pt"
    and es: "entries_ok prevIndex pt (currentTerm n) es"
    and k: "k = prevIndex + 1 - lastIncludedIndex n"
    and w: "log_write n (take k (nlog n) @ merge_entries (drop k (nlog n)) es) n'"
  shows "log_ok n'" "last_index n' \<ge> prevIndex + length es"
proof -
  let ?m = "merge_entries (drop k (nlog n)) es"
  have k': "0 < k" "k \<le> length (nlog n)"
    using pi in_log_pos [OF n pi(1)] by (auto simp: k)
  have "indexed (lastIncludedIndex n + k) (drop k (nlog n))"
    using log_okD(3) [OF n] k' by auto
  then have "indexed (lastIncludedIndex n + k) ?m"
    using es pi by (intro merge_entries_indexed) (auto simp: entries_ok_def k)
  then have ind: "indexed (lastIncludedIndex n) (take k (nlog n) @ ?m)"
    using log_okD(3) [OF n] k' by (simp add: min_absorb2)
  have ptk: "eTerm (nlog n ! (k - 1)) = pt"
    using pt termAtLocked_ok [OF n pi] pi by (simp add: k)
  have last: "eTerm (last (nlog n)) \<le> currentTerm n" using n by (simp add: log_ok_def)
  have le: "eTerm x \<le> pt" if "x \<in> set (take k (nlog n))" for x
  proof -
    obtain i where "i < k" "i < length (nlog n)" "x = nlog n ! i"
      using \<open>x \<in> set (take k (nlog n))\<close> by (auto simp: in_set_conv_nth)
    then show ?thesis using terms_sorted_nth_mono [OF log_okD(4) [OF n], of i "k - 1"] k' ptk by simp
  qed
  have sort: "terms_sorted (take k (nlog n) @ ?m) \<and> eTerm (last (take k (nlog n) @ ?m)) \<le> currentTerm n"
  proof (cases "?m = drop k (nlog n)")
    case True
    then show ?thesis using log_okD(4) [OF n] last by simp
  next
    case False
    then have m: "map eTerm ?m = map eTerm es" using merge_entries_terms by blast
    then have "terms_sorted ?m" using es by (simp add: entries_ok_def terms_sorted_def)
    moreover have "eTerm x \<in> eTerm ` set es" if "x \<in> set ?m" for x
      using that m by (metis image_eqI list.set_map)
    moreover have "?m \<noteq> []" using False m by (cases es) auto
    moreover have mem: "pt \<le> eTerm x \<and> eTerm x \<le> currentTerm n" if "x \<in> set ?m" for x
      using calculation(2) [OF that] es by (auto simp: entries_ok_def)
    moreover have "eTerm x \<le> eTerm y" if "x \<in> set (take k (nlog n))" "y \<in> set ?m" for x y
      using le [OF that(1)] mem [OF that(2)] by simp
    ultimately have "terms_sorted (take k (nlog n) @ ?m)"
      using log_okD(4) [OF n] by (simp add: terms_sorted_append)
    moreover have "eTerm (last ?m) \<le> currentTerm n"
      using mem [of "last ?m"] \<open>?m \<noteq> []\<close> by simp
    ultimately show ?thesis using \<open>?m \<noteq> []\<close> by simp
  qed
  have "hd (take k (nlog n) @ ?m) = hd (nlog n)"
    using k' log_okD(1) [OF n] by (simp add: hd_append)
  then show "log_ok n'"
    using n ind sort k' log_writeD [OF w] by (simp add: log_ok_def)
  show "last_index n' \<ge> prevIndex + length es"
    using merge_entries_length [of es "drop k (nlog n)"] k' log_writeD [OF w] pi
    by (simp add: last_index_def k min_absorb2)
qed

lemma log_ok_prefix:
  assumes n: "log_ok n" and k: "0 < k" and w: "log_write n (take k (nlog n)) n'"
  shows "log_ok n'"
proof -
  have ne: "take k (nlog n) \<noteq> []" using k log_okD(2) [OF n] by simp
  have "last (take k (nlog n)) \<in> set (nlog n)" by (rule in_set_takeD [OF last_in_set [OF ne]])
  then obtain i where i: "i < length (nlog n)" "last (take k (nlog n)) = nlog n ! i"
    by (metis in_set_conv_nth)
  have "eTerm (nlog n ! i) \<le> eTerm (last (nlog n))"
    using terms_sorted_nth_mono [OF log_okD(4) [OF n], of i "length (nlog n) - 1"] i
      last_conv_nth [OF log_okD(1) [OF n]] by simp
  then show ?thesis
    using n ne i k log_writeD [OF w] by (auto simp: log_ok_def)
qed

text \<open>Committed entries survive a write that starts at a disagreement above them.\<close>

lemma commit_ok_write:
  assumes n: "log_ok n" "commit_ok n"
    and keep: "take (commitIndex n + 1 - lastIncludedIndex n) lg =
               take (commitIndex n + 1 - lastIncludedIndex n) (nlog n)"
    and w: "log_write n lg n'"
  shows "commit_ok n'" "\<And>i. lastIncludedIndex n \<le> i \<Longrightarrow> i \<le> commitIndex n \<Longrightarrow> entryAtLocked n' i = entryAtLocked n i"
proof -
  let ?c = "commitIndex n + 1 - lastIncludedIndex n"
  have "?c \<le> length (nlog n)"
    using n in_log_pos [OF n(1), of "commitIndex n"] by (auto simp: commit_ok_def)
  then have len: "?c \<le> length lg"
    using arg_cong [OF keep, of length] by simp
  then show "commit_ok n'"
    using n log_writeD [OF w] by (auto simp: commit_ok_def last_index_def)
  show "entryAtLocked n' i = entryAtLocked n i" if "lastIncludedIndex n \<le> i" "i \<le> commitIndex n" for i
    using that len \<open>?c \<le> length (nlog n)\<close> nth_eq_of_take_eq [OF keep, of "i - lastIncludedIndex n"]
      log_writeD [OF w] by (auto simp: entryAtLocked_def)
qed

lemma no_conflict_at:
  assumes n: "log_ok n" "no_conflict n es" and es: "indexed idx es"
    and i: "i < length es" "lastIncludedIndex n \<le> idx + i" "idx + i \<le> commitIndex n" "commitIndex n \<le> last_index n"
  shows "eTerm (nlog n ! (idx + i - lastIncludedIndex n)) = eTerm (es ! i)"
proof -
  have "eIndex (es ! i) = idx + i" using es i by (simp add: indexed_nth)
  moreover have "es ! i \<in> set es" using i by simp
  ultimately have "termAtLocked n (idx + i) = Some (eTerm (es ! i))"
    using n(2) i unfolding no_conflict_def by metis
  then show ?thesis using termAtLocked_ok [OF n(1), of "idx + i"] i by simp
qed

section \<open>Reconciling the log with the leader's\<close>

text \<open>
  The whole effect of the part of \<open>handleAppendEntries\<close> behind the consistency check: it returns,
  it changes nothing but log, store, failure flag, commit index and apply wake-up, and it keeps
  \<open>log_ok\<close>, and \<open>commit_ok\<close> when the message does not contradict a committed entry.
\<close>

lemma ae_append_ok:
  assumes n: "log_ok n" "\<not> failed n"
    and pi: "lastIncludedIndex n \<le> prevIndex" "prevIndex \<le> last_index n"
    and pt: "termAtLocked n prevIndex = Some pt"
    and es: "entries_ok prevIndex pt (currentTerm n) es"
  shows "\<exists>n' lg. append_loop ops (prevIndex + 1) es n = Some n' \<and> log_write n lg n' \<and> log_ok n' \<and>
    (\<not> failed n' \<longrightarrow> lg = take (prevIndex + 1 - lastIncludedIndex n) (nlog n) @
        merge_entries (drop (prevIndex + 1 - lastIncludedIndex n) (nlog n)) es \<and>
        prevIndex + length es \<le> last_index n') \<and>
    (commit_ok n \<longrightarrow> no_conflict n es \<longrightarrow> commit_ok n' \<and>
       (\<forall>i. lastIncludedIndex n \<le> i \<longrightarrow> i \<le> commitIndex n \<longrightarrow> entryAtLocked n' i = entryAtLocked n i))"
proof -
  let ?k = "prevIndex + 1 - lastIncludedIndex n"
  let ?mg = "take ?k (nlog n) @ merge_entries (drop ?k (nlog n)) es"
  have k: "0 < ?k" "?k \<le> length (nlog n)"
    using pi in_log_pos [OF n(1) pi(1)] by auto
  obtain n' lg where n': "append_loop ops (prevIndex + 1) es n = Some n'" "log_write n lg n'"
    and lg: "lg = ?mg \<or> failed n' \<and>
       (\<exists>i. disagrees_at n (prevIndex + 1) es i \<and> lg = take (prevIndex + 1 + i - lastIncludedIndex n) (nlog n))"
    using append_loop_merge [OF n, where idx = "prevIndex + 1" and es = es and ops = ops] pi by auto
  have ind: "indexed (prevIndex + 1) es" using es by (simp add: entries_ok_def)
  have ok: "log_ok n'"
    using lg
  proof (elim disjE conjE exE)
    assume "lg = ?mg"
    then show ?thesis using log_ok_merge(1) [OF n(1) pi pt es refl] n'(2) by blast
  next
    fix i assume "lg = take (prevIndex + 1 + i - lastIncludedIndex n) (nlog n)"
    then show ?thesis using log_ok_prefix [OF n(1) _ n'(2) [unfolded \<open>lg = _\<close>]] pi by simp
  qed
  have len: "\<not> failed n' \<Longrightarrow> prevIndex + length es \<le> last_index n'"
    using lg log_ok_merge(2) [OF n(1) pi pt es refl] n'(2) by blast
  have keep: "take (commitIndex n + 1 - lastIncludedIndex n) lg = take (commitIndex n + 1 - lastIncludedIndex n) (nlog n)"
    if c: "commit_ok n" "no_conflict n es"
  proof -
    let ?c = "commitIndex n + 1 - lastIncludedIndex n"
    have cl: "lastIncludedIndex n \<le> commitIndex n" "commitIndex n \<le> last_index n"
      using c by (auto simp: commit_ok_def)
    have clen: "?c \<le> length (nlog n)" using in_log_pos [OF n(1), of "commitIndex n"] cl by simp
    note agree = no_conflict_at [OF n(1) c(2) ind _ _ _ cl(2)]
    from lg show ?thesis
    proof (elim disjE conjE exE)
      assume "lg = ?mg"
      have "take (?c - ?k) (merge_entries (drop ?k (nlog n)) es) = take (?c - ?k) (drop ?k (nlog n))"
      proof (rule merge_entries_keeps)
        show "eTerm (drop ?k (nlog n) ! i) = eTerm (es ! i)" if "i < ?c - ?k" "i < length es" for i
          using agree [of i] that k pi by (simp add: add.commute add.left_commute)
      qed (use clen in simp)
      then show ?thesis
        unfolding \<open>lg = ?mg\<close> by (rule take_append_tail [OF k(2)])
    next
      fix i
      assume d: "disagrees_at n (prevIndex + 1) es i"
        and "lg = take (prevIndex + 1 + i - lastIncludedIndex n) (nlog n)"
      moreover have "commitIndex n < prevIndex + 1 + i"
        using agree [of i] d by (force simp: disagrees_at_def)
      ultimately show ?thesis by (simp add: min_absorb1)
    qed
  qed
  show ?thesis
    using n' ok len lg commit_ok_write [OF n(1) _ keep n'(2)] by blast
qed

text \<open>\<open>ae_frame\<close>: what the reconciliation cannot touch.\<close>

definition ae_frame :: "'s Node \<Rightarrow> 's Node \<Rightarrow> bool" where
  "ae_frame n n' \<longleftrightarrow> currentTerm n' = currentTerm n \<and> votedFor n' = votedFor n \<and> role n' = role n \<and>
     leaderID n' = leaderID n \<and> nid n' = nid n \<and> peers n' = peers n \<and>
     lastIncludedIndex n' = lastIncludedIndex n \<and> lastIncludedTerm n' = lastIncludedTerm n \<and>
     snapshotData n' = snapshotData n \<and> lastApplied n' = lastApplied n \<and>
     pendingSnapshot n' = pendingSnapshot n \<and> applyCh n' = applyCh n \<and>
     nextIndex n' = nextIndex n \<and> matchIndex n' = matchIndex n"

lemma ae_frame_refl [simp]: "ae_frame n n"
  by (simp add: ae_frame_def)

lemma log_write_frame: "log_write n lg n' \<Longrightarrow> ae_frame n n' \<and> commitIndex n' = commitIndex n"
  by (auto simp: log_write_def ae_frame_def)

definition set_commit :: "nat \<Rightarrow> 's Node \<Rightarrow> 's Node" where
  "set_commit c n = (if c > commitIndex n then notifyApply (n\<lparr>commitIndex := min c (last_index n)\<rparr>) else n)"

lemma set_commit_fields [simp]:
  "nlog (set_commit c n) = nlog n" "lastIncludedIndex (set_commit c n) = lastIncludedIndex n"
  "failed (set_commit c n) = failed n" "currentTerm (set_commit c n) = currentTerm n"
  "last_index (set_commit c n) = last_index n" "storage (set_commit c n) = storage n"
  "lastIncludedTerm (set_commit c n) = lastIncludedTerm n"
  by (simp_all add: set_commit_def notifyApply_def last_index_def)

lemma set_commit_frame: "ae_frame n (set_commit c n)"
  by (simp add: ae_frame_def set_commit_def notifyApply_def)

lemma set_commit_log_ok: "log_ok (set_commit c n) = log_ok n"
  by (simp add: log_ok_def)

lemma set_commit_commit:
  "commitIndex (set_commit c n) = (if c > commitIndex n then min c (last_index n) else commitIndex n)"
  by (simp add: set_commit_def notifyApply_def)

lemma set_commit_mono: "commitIndex n \<le> last_index n \<Longrightarrow> commitIndex n \<le> commitIndex (set_commit c n)"
  by (simp add: set_commit_commit)

lemma set_commit_ok: "commit_ok n \<Longrightarrow> commit_ok (set_commit c n)"
  using set_commit_frame [of n c]
  by (auto simp: commit_ok_def set_commit_commit ae_frame_def)

lemma entryAtLocked_cong:
  "nlog n' = nlog n \<Longrightarrow> lastIncludedIndex n' = lastIncludedIndex n \<Longrightarrow> entryAtLocked n' i = entryAtLocked n i"
  by (simp add: entryAtLocked_def)

definition merged_log :: "'s Node \<Rightarrow> nat \<Rightarrow> LogEntry list \<Rightarrow> LogEntry list" where
  "merged_log n prevIndex es =
     (let k = prevIndex + 1 - lastIncludedIndex n in take k (nlog n) @ merge_entries (drop k (nlog n)) es)"

text \<open>The reply and the state of a reconciliation, case by case.\<close>

definition ae_outcome ::
  "nat \<Rightarrow> nat \<Rightarrow> LogEntry list \<Rightarrow> nat \<Rightarrow> 's Node \<Rightarrow> 's Node \<Rightarrow> error option + AppendEntriesReply \<Rightarrow> bool" where
  "ae_outcome prevIndex prevTerm es lc n n' r \<longleftrightarrow>
     (case r of
        Inl err \<Rightarrow> failed n'
      | Inr rep \<Rightarrow> \<not> failed n' \<and> arTerm rep = currentTerm n \<and>
          (if arSuccess rep
           then prevIndex \<le> last_index n \<and> termAtLocked n prevIndex = Some prevTerm \<and>
                nlog n' = merged_log n prevIndex es \<and> prevIndex + length es \<le> last_index n' \<and>
                commitIndex n' = (if lc > commitIndex n then min lc (last_index n') else commitIndex n)
           else n' = n \<and> arConflictIndex rep \<le> max 1 prevIndex \<and>
                (prevIndex \<le> last_index n \<longrightarrow> termAtLocked n prevIndex \<noteq> Some prevTerm)))"

lemma firstIndexOfTerm_le:
  assumes n: "log_ok n" and i: "lastIncludedIndex n \<le> i" "i \<le> last_index n" "termAtLocked n i = Some t"
  shows "firstIndexOfTermLocked n t \<le> max 1 i"
proof (cases "t = 0")
  case False
  let ?P = "\<lambda>x. eTerm x = t"
  let ?p = "i - lastIncludedIndex n"
  have p: "?p < length (nlog n)" using in_log_pos [OF n i(1)] i(2) by simp
  have "?P (nlog n ! ?p)" using termAtLocked_ok [OF n i(1,2)] i(3) by simp
  then have "find ?P (nlog n) \<noteq> None" using nth_mem [OF p] by (auto simp: find_None_iff)
  then obtain x where "find ?P (nlog n) = Some x" by auto
  then obtain j where j: "j < length (nlog n)" "?P (nlog n ! j)" "x = nlog n ! j"
      "\<And>j'. j' < j \<Longrightarrow> \<not> ?P (nlog n ! j')"
    by (auto simp: find_Some_iff)
  have "j \<le> ?p" using j(4) [of ?p] \<open>?P (nlog n ! ?p)\<close> by (meson not_le_imp_less)
  then show ?thesis
    using False \<open>find ?P (nlog n) = Some x\<close> j log_ok_eIndex [OF n j(1)] i
    by (simp add: firstIndexOfTermLocked_def)
qed (simp add: firstIndexOfTermLocked_def)

lemma ae_reconcile_ok:
  assumes n: "log_ok n" "\<not> failed n" and pi: "lastIncludedIndex n \<le> prevIndex"
    and es: "entries_ok prevIndex prevTerm (currentTerm n) es"
  shows "\<exists>n' r. ae_reconcile ops prevIndex prevTerm es lc n = Some (n', r) \<and> log_ok n' \<and> ae_frame n n' \<and>
    ae_outcome prevIndex prevTerm es lc n n' r \<and>
    (commit_ok n \<longrightarrow> no_conflict n es \<longrightarrow> commit_ok n' \<and> commitIndex n \<le> commitIndex n' \<and>
       (\<forall>i. lastIncludedIndex n \<le> i \<longrightarrow> i \<le> commitIndex n \<longrightarrow> entryAtLocked n' i = entryAtLocked n i))"
proof -
  note lst = lastIndexLocked_ok [OF n(1)]
  consider (short) "last_index n < prevIndex"
    | (differ) t where "prevIndex \<le> last_index n" "termAtLocked n prevIndex = Some t" "t \<noteq> prevTerm"
    | (match) "prevIndex \<le> last_index n" "termAtLocked n prevIndex = Some prevTerm"
    using termAtLocked_ok [OF n(1) pi] by force
  then show ?thesis
  proof cases
    case short
    then show ?thesis
      using n lst by (auto simp: ae_reconcile_def ae_outcome_def ae_conflict_def)
  next
    case differ
    then show ?thesis
      using n lst firstIndexOfTerm_le [OF n(1) pi differ(1,2)]
      by (auto simp: ae_reconcile_def ae_outcome_def ae_conflict_def)
  next
    case match
    obtain n1 lg where n1: "append_loop ops (prevIndex + 1) es n = Some n1" "log_write n lg n1" "log_ok n1"
      and lg: "\<not> failed n1 \<longrightarrow> lg = take (prevIndex + 1 - lastIncludedIndex n) (nlog n) @
          merge_entries (drop (prevIndex + 1 - lastIncludedIndex n) (nlog n)) es \<and>
          prevIndex + length es \<le> last_index n1"
      and keep: "commit_ok n \<longrightarrow> no_conflict n es \<longrightarrow> commit_ok n1 \<and>
       (\<forall>i. lastIncludedIndex n \<le> i \<longrightarrow> i \<le> commitIndex n \<longrightarrow> entryAtLocked n1 i = entryAtLocked n i)"
      using ae_append_ok [OF n pi match es, of ops] by blast
    have fr: "ae_frame n n1" "commitIndex n1 = commitIndex n" using log_write_frame [OF n1(2)] by auto
    show ?thesis
    proof (cases "failed n1")
      case True
      then have "ae_reconcile ops prevIndex prevTerm es lc n = Some (n1, Inl (failErr n1))"
        using lst match n1(1) by (simp add: ae_reconcile_def)
      with True show ?thesis using n1 keep fr by (simp add: ae_outcome_def)
    next
      case False
      let ?n2 = "set_commit lc n1"
      have res: "ae_reconcile ops prevIndex prevTerm es lc n = Some (?n2, Inr (ae_success ?n2))"
        using lst match n1(1) False lastIndexLocked_ok [OF n1(3)]
        by (simp add: ae_reconcile_def set_commit_def Let_def)
      have "ae_frame n ?n2" using fr set_commit_frame [of n1 lc] by (simp add: ae_frame_def)
      moreover have "ae_outcome prevIndex prevTerm es lc n ?n2 (Inr (ae_success ?n2))"
        using False lg match log_writeD [OF n1(2)] fr
        by (simp add: ae_outcome_def ae_success_def merged_log_def set_commit_commit Let_def)
      moreover have "commit_ok n \<Longrightarrow> no_conflict n es \<Longrightarrow> commit_ok ?n2 \<and> commitIndex n \<le> commitIndex ?n2"
        using keep fr set_commit_ok [of n1 lc] set_commit_mono [of n1 lc] by (simp add: commit_ok_def [of n1])
      moreover have "entryAtLocked ?n2 i = entryAtLocked n1 i" for i
        by (rule entryAtLocked_cong) simp_all
      ultimately show ?thesis using res n1(3) set_commit_log_ok keep by auto
    qed
  qed
qed

section \<open>AppendEntries\<close>

text \<open>What the handler reconciles with: the message, cut at the snapshot boundary if it starts below.\<close>

definition anchor_skip :: "'s Node \<Rightarrow> AppendEntriesArgs \<Rightarrow> nat" where
  "anchor_skip n args = lastIncludedIndex n - aePrevLogIndex args"

definition anchor_prev :: "'s Node \<Rightarrow> AppendEntriesArgs \<Rightarrow> nat" where
  "anchor_prev n args = max (lastIncludedIndex n) (aePrevLogIndex args)"

definition anchor_term :: "'s Node \<Rightarrow> AppendEntriesArgs \<Rightarrow> nat" where
  "anchor_term n args = (if aePrevLogIndex args < lastIncludedIndex n then lastIncludedTerm n else aePrevLogTerm args)"

definition covered :: "'s Node \<Rightarrow> AppendEntriesArgs \<Rightarrow> bool" where
  "covered n args \<longleftrightarrow> aePrevLogIndex args < lastIncludedIndex n \<and> length (aeEntries args) \<le> anchor_skip n args"

definition args_ok :: "AppendEntriesArgs \<Rightarrow> bool" where
  "args_ok args \<longleftrightarrow> entries_ok (aePrevLogIndex args) (aePrevLogTerm args) (aeTerm args) (aeEntries args)"

lemma handleAppendEntries_eq:
  assumes "\<not> failed n" "currentTerm n \<le> aeTerm args"
  shows "handleAppendEntries ops e args n =
    (let n1 = acceptLeader ops e (aeTerm args) (aeLeaderID args) n
     in if failed n1 then Some (n1, Inl (failErr n1))
        else if covered n1 args then Some (n1, Inr (ae_success n1))
        else ae_reconcile ops (anchor_prev n1 args) (anchor_term n1 args)
               (drop (anchor_skip n1 args) (aeEntries args)) (aeLeaderCommit args) n1)"
  using assms
  by (auto simp: handleAppendEntries_def covered_def anchor_prev_def anchor_term_def anchor_skip_def Let_def max_def)

lemma no_conflict_anchor:
  assumes n: "log_ok n" "commit_ok n" and a: "args_ok args" "no_conflict n (aeEntries args)"
    and k: "aePrevLogIndex args < lastIncludedIndex n" "anchor_skip n args < length (aeEntries args)"
  shows "eTerm (aeEntries args ! (anchor_skip n args - 1)) = lastIncludedTerm n"
proof -
  let ?x = "aeEntries args ! (anchor_skip n args - 1)"
  have "eIndex ?x = lastIncludedIndex n"
    using a(1) k indexed_nth [of "aePrevLogIndex args + 1" "aeEntries args" "anchor_skip n args - 1"]
    by (simp add: args_ok_def entries_ok_def anchor_skip_def)
  moreover have "?x \<in> set (aeEntries args)" using k by simp
  ultimately have "termAtLocked n (lastIncludedIndex n) = Some (eTerm ?x)"
    using a(2) n(2) by (auto simp: no_conflict_def commit_ok_def)
  then show ?thesis using termAtLocked_boundary [OF n(1)] by simp
qed

lemma anchored_entries_ok:
  assumes n: "log_ok n" "commit_ok n" and a: "args_ok args" "no_conflict n (aeEntries args)"
    and c: "\<not> covered n args"
  shows "entries_ok (anchor_prev n args) (anchor_term n args) (aeTerm args)
           (drop (anchor_skip n args) (aeEntries args))"
proof (cases "aePrevLogIndex args < lastIncludedIndex n")
  case False
  then show ?thesis
    using a(1) by (simp add: args_ok_def anchor_prev_def anchor_term_def anchor_skip_def)
next
  case True
  let ?s = "anchor_skip n args" and ?es = "aeEntries args"
  have s: "0 < ?s" "?s < length ?es"
    using True c by (auto simp: covered_def anchor_skip_def)
  have es: "indexed (aePrevLogIndex args + 1) ?es" "terms_sorted ?es" "\<forall>x \<in> set ?es. eTerm x \<le> aeTerm args"
    using a(1) by (auto simp: args_ok_def entries_ok_def)
  have "lastIncludedTerm n \<le> eTerm x" if x: "x \<in> set (drop ?s ?es)" for x
  proof -
    obtain i where "i < length (drop ?s ?es)" "drop ?s ?es ! i = x"
      using x unfolding in_set_conv_nth by blast
    then have "?s + i < length ?es" "x = ?es ! (?s + i)" using s by auto
    then show ?thesis
      using terms_sorted_nth_mono [OF es(2), of "?s - 1" "?s + i"] no_conflict_anchor [OF n a True s(2)] by simp
  qed
  moreover have "indexed (aePrevLogIndex args + 1 + ?s) (drop ?s ?es)"
    using indexed_drop [OF es(1), of ?s] s by simp
  moreover have "aePrevLogIndex args + ?s = lastIncludedIndex n" using True by (simp add: anchor_skip_def)
  ultimately show ?thesis
    using True es by (auto simp: entries_ok_def anchor_prev_def anchor_term_def dest: in_set_dropD)
qed

lemma no_conflict_cong:
  "log_same n n1 \<Longrightarrow> no_conflict n1 es = no_conflict n es"
  by (auto simp: no_conflict_def log_same_def termAtLocked_def entryAtLocked_def)

lemma no_conflict_drop: "no_conflict n es \<Longrightarrow> no_conflict n (drop k es)"
  by (auto simp: no_conflict_def dest: in_set_dropD)

lemma log_same_entryAt: "log_same n n1 \<Longrightarrow> entryAtLocked n1 i = entryAtLocked n i"
  by (rule entryAtLocked_cong) (auto simp: log_same_def)

lemma handleAppendEntries_ok:
  assumes n: "log_ok n" "commit_ok n" and a: "args_ok args" "no_conflict n (aeEntries args)"
  shows "\<exists>n' r. handleAppendEntries ops e args n = Some (n', r) \<and> log_ok n' \<and> commit_ok n' \<and>
    commitIndex n \<le> commitIndex n' \<and> lastApplied n' = lastApplied n \<and> lastIncludedIndex n' = lastIncludedIndex n \<and>
    (\<forall>i. lastIncludedIndex n \<le> i \<longrightarrow> i \<le> commitIndex n \<longrightarrow> entryAtLocked n' i = entryAtLocked n i)"
proof (cases "failed n \<or> aeTerm args < currentTerm n")
  case True
  then show ?thesis using n by (auto simp: handleAppendEntries_def)
next
  case False
  let ?n1 = "acceptLeader ops e (aeTerm args) (aeLeaderID args) n"
  have same: "log_same n ?n1" by (rule acceptLeader_same)
  have n1: "log_ok ?n1" "commit_ok ?n1" "no_conflict ?n1 (aeEntries args)"
    using same n a(2) by (auto simp: log_same_ok log_same_commit no_conflict_cong)
  have t: "currentTerm ?n1 = aeTerm args" using False by (simp add: acceptLeader_term)
  have eq: "commitIndex ?n1 = commitIndex n" "lastApplied ?n1 = lastApplied n"
    "lastIncludedIndex ?n1 = lastIncludedIndex n" "\<And>i. entryAtLocked ?n1 i = entryAtLocked n i"
    using same by (auto simp: log_same_def log_same_entryAt)
  consider "failed ?n1" | "\<not> failed ?n1" "covered ?n1 args" | "\<not> failed ?n1" "\<not> covered ?n1 args" by blast
  then show ?thesis
  proof cases
    case 3
    have "entries_ok (anchor_prev ?n1 args) (anchor_term ?n1 args) (currentTerm ?n1)
           (drop (anchor_skip ?n1 args) (aeEntries args))"
      unfolding t by (rule anchored_entries_ok [OF n1(1,2) a(1) n1(3) 3(2)])
    moreover have "lastIncludedIndex ?n1 \<le> anchor_prev ?n1 args" by (simp add: anchor_prev_def)
    ultimately obtain n' r where "ae_reconcile ops (anchor_prev ?n1 args) (anchor_term ?n1 args)
        (drop (anchor_skip ?n1 args) (aeEntries args)) (aeLeaderCommit args) ?n1 = Some (n', r)"
      and "log_ok n'" "ae_frame ?n1 n'" "commit_ok n' \<and> commitIndex ?n1 \<le> commitIndex n' \<and>
       (\<forall>i. lastIncludedIndex ?n1 \<le> i \<longrightarrow> i \<le> commitIndex ?n1 \<longrightarrow> entryAtLocked n' i = entryAtLocked ?n1 i)"
      using ae_reconcile_ok [OF n1(1) 3(1)] no_conflict_drop [OF n1(3)] n1(2) by blast
    then show ?thesis
      using 3 False eq by (simp add: handleAppendEntries_eq Let_def ae_frame_def)
  qed (use False n1 eq in \<open>auto simp: handleAppendEntries_eq Let_def\<close>)
qed

text \<open>A successful reply, taken apart.\<close>

lemma ae_success_cases:
  assumes n: "log_ok n" "commit_ok n" and a: "args_ok args" "no_conflict n (aeEntries args)"
    and h: "handleAppendEntries ops e args n = Some (n', Inr rep)" "arSuccess rep"
  obtains n1 where "n1 = acceptLeader ops e (aeTerm args) (aeLeaderID args) n" "log_same n n1"
    "log_ok n1" "commit_ok n1" "currentTerm n1 = aeTerm args" "\<not> failed n1" "\<not> failed n'"
    "ae_frame n1 n'" "arTerm rep = aeTerm args"
    "covered n1 args \<and> n' = n1 \<or>
     \<not> covered n1 args \<and> log_ok n' \<and> entries_ok (anchor_prev n1 args) (anchor_term n1 args) (currentTerm n1)
           (drop (anchor_skip n1 args) (aeEntries args)) \<and>
     ae_outcome (anchor_prev n1 args) (anchor_term n1 args) (drop (anchor_skip n1 args) (aeEntries args))
       (aeLeaderCommit args) n1 n' (Inr rep)"
proof -
  have nf: "\<not> failed n \<and> currentTerm n \<le> aeTerm args"
    using h by (auto simp: handleAppendEntries_def ae_conflict_def split: if_splits)
  let ?n1 = "acceptLeader ops e (aeTerm args) (aeLeaderID args) n"
  have same: "log_same n ?n1" by (rule acceptLeader_same)
  have n1: "log_ok ?n1" "commit_ok ?n1" "no_conflict ?n1 (aeEntries args)"
    using same n a(2) by (auto simp: log_same_ok log_same_commit no_conflict_cong)
  have t: "currentTerm ?n1 = aeTerm args" using nf by (simp add: acceptLeader_term)
  have f1: "\<not> failed ?n1" using h nf by (auto simp: handleAppendEntries_eq Let_def split: if_splits)
  show thesis
  proof (cases "covered ?n1 args")
    case True
    then have "n' = ?n1" "rep = ae_success ?n1"
      using h nf f1 by (auto simp: handleAppendEntries_eq Let_def)
    then show thesis using that [OF refl same n1(1,2) t f1] True f1 t by (simp add: ae_success_def)
  next
    case False
    have eo: "entries_ok (anchor_prev ?n1 args) (anchor_term ?n1 args) (currentTerm ?n1)
           (drop (anchor_skip ?n1 args) (aeEntries args))"
      unfolding t by (rule anchored_entries_ok [OF n1(1,2) a(1) n1(3) False])
    have "lastIncludedIndex ?n1 \<le> anchor_prev ?n1 args" by (simp add: anchor_prev_def)
    from ae_reconcile_ok [OF n1(1) f1 this eo, of ops "aeLeaderCommit args"]
    have "log_ok n' \<and> ae_frame ?n1 n' \<and> ae_outcome (anchor_prev ?n1 args) (anchor_term ?n1 args)
       (drop (anchor_skip ?n1 args) (aeEntries args)) (aeLeaderCommit args) ?n1 n' (Inr rep)"
      using h nf f1 False by (auto simp: handleAppendEntries_eq Let_def)
    moreover from this have "\<not> failed n'" "arTerm rep = aeTerm args"
      using t by (auto simp: ae_outcome_def)
    ultimately show thesis using that [OF refl same n1(1,2) t f1] False eo by blast
  qed
qed

lemma merged_log_at:
  assumes n: "log_ok n" "lastIncludedIndex n \<le> prevIndex" "prevIndex \<le> last_index n"
    and m: "nlog n' = merged_log n prevIndex es" "lastIncludedIndex n' = lastIncludedIndex n"
    and i: "i < length es"
  shows "termAtLocked n' (prevIndex + 1 + i) = Some (eTerm (es ! i))"
proof -
  define k where "k = prevIndex + 1 - lastIncludedIndex n"
  let ?m = "merge_entries (drop k (nlog n)) es"
  have k: "k \<le> length (nlog n)" using in_log_pos [OF n(1,2)] n by (auto simp: k_def)
  have lg: "nlog n' = take k (nlog n) @ ?m" using m(1) by (simp add: merged_log_def Let_def k_def)
  have len: "i < length ?m" using merge_entries_length [of es "drop k (nlog n)"] i by simp
  have "map eTerm (take (length es) ?m) ! i = map eTerm es ! i" by (simp only: merge_entries_holds)
  then have at: "eTerm (?m ! i) = eTerm (es ! i)" using i len by simp
  have "lastIncludedIndex n' \<le> prevIndex + 1 + i" "prevIndex + 1 + i - lastIncludedIndex n' = k + i"
    using n(2) m(2) by (auto simp: k_def)
  then have "entryAtLocked n' (prevIndex + 1 + i) = Some (?m ! i)"
    using k len by (simp only: entryAtLocked_def lg) (simp add: nth_append min_absorb2)
  then show ?thesis using at by (simp add: termAtLocked_def)
qed

lemma merged_log_prev:
  assumes n: "log_ok n" "lastIncludedIndex n \<le> i" "i \<le> prevIndex" "prevIndex \<le> last_index n"
    and m: "nlog n' = merged_log n prevIndex es" "lastIncludedIndex n' = lastIncludedIndex n"
  shows "entryAtLocked n' i = entryAtLocked n i"
proof -
  let ?k = "prevIndex + 1 - lastIncludedIndex n"
  have k: "?k \<le> length (nlog n)" using in_log_pos [OF n(1), of prevIndex] n by auto
  moreover have "i - lastIncludedIndex n < ?k" using n by simp
  ultimately show ?thesis
    using m n by (simp add: entryAtLocked_def merged_log_def Let_def nth_append min_absorb2)
qed

section \<open>AppendEntries: what a successful reply means\<close>

lemma indexed_member:
  "indexed i es \<Longrightarrow> x \<in> set es \<Longrightarrow> \<exists>k < length es. x = es ! k \<and> eIndex x = i + k"
  by (metis in_set_conv_nth indexed_nth)

lemma append_success_holds:
  assumes n: "log_ok n" "commit_ok n" and a: "args_ok args" "no_conflict n (aeEntries args)"
    and h: "handleAppendEntries ops e args n = Some (n', Inr rep)" "arSuccess rep"
  shows "\<forall>x \<in> set (aeEntries args). lastIncludedIndex n < eIndex x \<longrightarrow> termAtLocked n' (eIndex x) = Some (eTerm x)"
    and "aePrevLogIndex args + length (aeEntries args) \<le> last_index n'"
    and "min (aeLeaderCommit args) (aePrevLogIndex args + length (aeEntries args)) \<le> commitIndex n'"
    and "lastIncludedIndex n \<le> aePrevLogIndex args \<Longrightarrow> termAtLocked n' (aePrevLogIndex args) = Some (aePrevLogTerm args)"
    and "currentTerm n' = aeTerm args"
proof -
  obtain n1 where n1: "n1 = acceptLeader ops e (aeTerm args) (aeLeaderID args) n" "log_same n n1"
    "log_ok n1" "commit_ok n1" "currentTerm n1 = aeTerm args" "\<not> failed n1" "\<not> failed n'"
    "ae_frame n1 n'" "arTerm rep = aeTerm args"
    and cases: "covered n1 args \<and> n' = n1 \<or>
     \<not> covered n1 args \<and> log_ok n' \<and> entries_ok (anchor_prev n1 args) (anchor_term n1 args) (currentTerm n1)
           (drop (anchor_skip n1 args) (aeEntries args)) \<and>
     ae_outcome (anchor_prev n1 args) (anchor_term n1 args) (drop (anchor_skip n1 args) (aeEntries args))
       (aeLeaderCommit args) n1 n' (Inr rep)"
    by (rule ae_success_cases [OF n a h])
  show "currentTerm n' = aeTerm args" using n1 by (simp add: ae_frame_def)
  have li: "lastIncludedIndex n1 = lastIncludedIndex n" using n1(2) by (simp add: log_same_def)
  have ind: "indexed (aePrevLogIndex args + 1) (aeEntries args)"
    using a(1) by (simp add: args_ok_def entries_ok_def)
  let ?p = "anchor_prev n1 args" and ?s = "anchor_skip n1 args" and ?es = "aeEntries args"
  from cases have all: "(\<forall>x \<in> set ?es. lastIncludedIndex n < eIndex x \<longrightarrow> termAtLocked n' (eIndex x) = Some (eTerm x)) \<and>
    aePrevLogIndex args + length ?es \<le> last_index n' \<and>
    min (aeLeaderCommit args) (aePrevLogIndex args + length ?es) \<le> commitIndex n' \<and>
    (lastIncludedIndex n \<le> aePrevLogIndex args \<longrightarrow> termAtLocked n' (aePrevLogIndex args) = Some (aePrevLogTerm args))"
  proof (elim disjE conjE)
    assume c: "covered n1 args" "n' = n1"
    then have "aePrevLogIndex args + length ?es \<le> lastIncludedIndex n1"
      by (auto simp: covered_def anchor_skip_def)
    moreover have "\<not> lastIncludedIndex n < eIndex x" if "x \<in> set ?es" for x
      using indexed_member [OF ind that] calculation li by auto
    ultimately show ?thesis
      using c n1(3,4) log_okD(6) [OF n1(3)] li by (auto simp: commit_ok_def covered_def)
  next
    assume nc: "\<not> covered n1 args" and eo: "entries_ok ?p (anchor_term n1 args) (currentTerm n1) (drop ?s ?es)"
      and o: "ae_outcome ?p (anchor_term n1 args) (drop ?s ?es) (aeLeaderCommit args) n1 n' (Inr rep)"
    have o': "?p \<le> last_index n1" "termAtLocked n1 ?p = Some (anchor_term n1 args)"
      "nlog n' = merged_log n1 ?p (drop ?s ?es)" "?p + length (drop ?s ?es) \<le> last_index n'"
      "commitIndex n' = (if aeLeaderCommit args > commitIndex n1 then min (aeLeaderCommit args) (last_index n') else commitIndex n1)"
      using o h(2) by (auto simp: ae_outcome_def)
    have p: "lastIncludedIndex n1 \<le> ?p" by (simp add: anchor_prev_def)
    have len: "?p + length (drop ?s ?es) = aePrevLogIndex args + length ?es"
      using nc by (auto simp: anchor_prev_def anchor_skip_def covered_def)
    have li': "lastIncludedIndex n' = lastIncludedIndex n1" using n1(8) by (simp add: ae_frame_def)
    have "termAtLocked n' (eIndex x) = Some (eTerm x)" if x: "x \<in> set ?es" "lastIncludedIndex n < eIndex x" for x
    proof -
      obtain k where k: "k < length ?es" "x = ?es ! k" "eIndex x = aePrevLogIndex args + 1 + k"
        using indexed_member [OF ind x(1)] by blast
      have "?s \<le> k" using k x(2) li by (auto simp: anchor_skip_def)
      then have "k - ?s < length (drop ?s ?es)" "drop ?s ?es ! (k - ?s) = x" "?p + 1 + (k - ?s) = eIndex x"
        using k by (auto simp: anchor_prev_def anchor_skip_def)
      then show ?thesis
        using merged_log_at [OF n1(3) p o'(1) o'(3) li', of "k - ?s"] by simp
    qed
    moreover have "termAtLocked n' ?p = termAtLocked n1 ?p"
      using merged_log_prev [OF n1(3) p order_refl o'(1) o'(3) li'] by (simp add: termAtLocked_def)
    ultimately show ?thesis
      using o' len li by (auto simp: anchor_prev_def anchor_term_def max_def split: if_splits)
  qed
  from all show "\<forall>x \<in> set ?es. lastIncludedIndex n < eIndex x \<longrightarrow> termAtLocked n' (eIndex x) = Some (eTerm x)"
    "aePrevLogIndex args + length ?es \<le> last_index n'"
    "min (aeLeaderCommit args) (aePrevLogIndex args + length ?es) \<le> commitIndex n'"
    "lastIncludedIndex n \<le> aePrevLogIndex args \<Longrightarrow> termAtLocked n' (aePrevLogIndex args) = Some (aePrevLogTerm args)"
    by blast+
qed

end
