(* ===== verification/Raft_Leader.thy ===== *)
theory Raft_Leader
  imports Raft_Handlers
begin

text \<open>
  The rest of one node: duplicated AppendEntries, snapshots taken and installed, proposals, the
  commit rule, and what the leader sends and how it digests the replies.
\<close>

section \<open>Duplicated AppendEntries\<close>

lemma append_loop_all_match:
  assumes n: "log_ok n" and idx: "lastIncludedIndex n < idx"
    and es: "\<And>i. i < length es \<Longrightarrow> termAtLocked n (idx + i) = Some (eTerm (es ! i))"
    and len: "idx + length es \<le> last_index n + 1"
  shows "append_loop ops idx es n = Some n"
  using idx es len
proof (induction es arbitrary: idx)
  case (Cons x es)
  have "append_loop ops (idx + 1) es n = Some n"
  proof (rule Cons.IH)
    show "termAtLocked n (idx + 1 + i) = Some (eTerm (es ! i))" if "i < length es" for i
      using Cons.prems(2) [of "Suc i"] that by simp
  qed (use Cons.prems in auto)
  then show ?case
    using Cons.prems(2) [of 0] Cons.prems(3) lastIndexLocked_ok [OF n] by simp
qed simp

lemma acceptLeader_again:
  assumes "currentTerm n = trm" "role n \<noteq> Candidate" "\<not> failed n" "leaderID n = leader"
  shows "acceptLeader ops e trm leader n = resetElectionDeadlineLocked e n"
  using assms by (auto simp: acceptLeader_def Let_def intro!: arg_cong [of _ _ "resetElectionDeadlineLocked e"])

lemma acceptLeader_role:
  "currentTerm n \<le> trm \<Longrightarrow> \<not> failed (acceptLeader ops e trm leader n) \<Longrightarrow>
   role (acceptLeader ops e trm leader n) \<noteq> Candidate \<and> leaderID (acceptLeader ops e trm leader n) = leader"
  by (auto simp: acceptLeader_def Let_def split: if_splits)

section \<open>Installing a snapshot\<close>

definition snapshot_agrees :: "'s Node \<Rightarrow> InstallSnapshotArgs \<Rightarrow> bool" where
  "snapshot_agrees n args \<longleftrightarrow> isLastIncludedTerm args \<le> isTerm args \<and>
     (lastIncludedIndex n \<le> isLastIncludedIndex args \<and> isLastIncludedIndex args \<le> commitIndex n \<longrightarrow>
       termAtLocked n (isLastIncludedIndex args) = Some (isLastIncludedTerm args))"

lemma installed_log_ok:
  assumes n: "log_ok n" and i: "lastIncludedIndex n < isLastIncludedIndex args"
  shows "installed_log args n = Some
    (if isLastIncludedIndex args \<le> last_index n \<and>
        termAtLocked n (isLastIncludedIndex args) = Some (isLastIncludedTerm args)
     then drop (isLastIncludedIndex args - lastIncludedIndex n) (nlog n)
     else [boundary_entry (isLastIncludedTerm args) (isLastIncludedIndex args)])"
  using lastIndexLocked_ok [OF n] termAtLocked_ok [OF n, of "isLastIncludedIndex args"]
    logFrom_ok [OF n, of "isLastIncludedIndex args"] i
  by (auto simp: installed_log_def boundary_entry_def)

lemma log_ok_drop:
  assumes n: "log_ok n" and i: "lastIncludedIndex n \<le> i" "i \<le> last_index n" "termAtLocked n i = Some t"
  shows "indexed i (drop (i - lastIncludedIndex n) (nlog n))"
    "drop (i - lastIncludedIndex n) (nlog n) \<noteq> []"
    "eTerm (hd (drop (i - lastIncludedIndex n) (nlog n))) = t"
    "last (drop (i - lastIncludedIndex n) (nlog n)) = last (nlog n)"
    "i + length (drop (i - lastIncludedIndex n) (nlog n)) - 1 = last_index n"
proof -
  let ?k = "i - lastIncludedIndex n"
  have k: "?k < length (nlog n)" using in_log_pos [OF n i(1)] i(2) by simp
  show "indexed i (drop ?k (nlog n))" using indexed_drop [OF log_okD(3) [OF n], of ?k] k i(1) by simp
  show "drop ?k (nlog n) \<noteq> []" "last (drop ?k (nlog n)) = last (nlog n)" using k by auto
  show "eTerm (hd (drop ?k (nlog n))) = t"
    using k termAtLocked_ok [OF n i(1,2)] i(3) by (simp add: hd_drop_conv_nth)
  show "i + length (drop ?k (nlog n)) - 1 = last_index n"
    using k i(1) by (simp add: last_index_def)
qed

lemma handleInstallSnapshot_ok:
  assumes n: "log_ok n" "commit_ok n" and a: "snapshot_agrees n args"
  shows "\<exists>n' r. handleInstallSnapshot ops e args n = Some (n', r) \<and> log_ok n' \<and> commit_ok n' \<and>
    commitIndex n \<le> commitIndex n' \<and> lastApplied n \<le> lastApplied n' \<and> currentTerm n \<le> currentTerm n'"
proof (cases "failed n \<or> isTerm args < currentTerm n")
  case True
  then show ?thesis using n by (auto simp: handleInstallSnapshot_def)
next
  case False
  let ?i = "isLastIncludedIndex args" and ?t = "isLastIncludedTerm args"
  let ?n1 = "acceptLeader ops e (isTerm args) (isLeaderID args) n"
  have same: "log_same n ?n1" by (rule acceptLeader_same)
  have n1: "log_ok ?n1" "commit_ok ?n1" using same n by (auto simp: log_same_ok log_same_commit)
  have t: "currentTerm ?n1 = isTerm args" using False by (simp add: acceptLeader_term)
  have eq: "commitIndex ?n1 = commitIndex n" "lastApplied ?n1 = lastApplied n"
    "lastIncludedIndex ?n1 = lastIncludedIndex n" "currentTerm n \<le> currentTerm ?n1"
    "termAtLocked ?n1 ?i = termAtLocked n ?i"
    using same by (auto simp: log_same_def termAtLocked_def entryAtLocked_def)
  have agree: "?i \<le> commitIndex ?n1 \<Longrightarrow> lastIncludedIndex ?n1 < ?i \<Longrightarrow> termAtLocked ?n1 ?i = Some ?t"
    and tt: "?t \<le> isTerm args"
    using a eq by (auto simp: snapshot_agrees_def)
  have disabled: "log_ok (disableLocked err (?n1\<lparr>storage := st\<rparr>)) \<and> commit_ok (disableLocked err (?n1\<lparr>storage := st\<rparr>))" for err st
    using n1 by (auto simp: disableLocked_def log_ok_def commit_ok_def last_index_def)
  consider "failed ?n1" | "\<not> failed ?n1" "?i \<le> lastIncludedIndex ?n1"
    | (err) st err where "\<not> failed ?n1" "lastIncludedIndex ?n1 < ?i" "SaveSnapshot ops (storage ?n1) ?i ?t (isData args) = (st, Some err)"
    | (ok) st where "\<not> failed ?n1" "lastIncludedIndex ?n1 < ?i" "SaveSnapshot ops (storage ?n1) ?i ?t (isData args) = (st, None)"
    by (metis (no_types) not_le option.exhaust surj_pair)
  then show ?thesis
  proof cases
    case err
    then show ?thesis
      using False disabled [of "Wrapf ''saving installed snapshot: %w'' [] err" st] eq
      by (simp add: handleInstallSnapshot_def Let_def) (simp add: disableLocked_def)
  next
    case ok
    define lg where "lg = (if ?i \<le> last_index ?n1 \<and> termAtLocked ?n1 ?i = Some ?t
      then drop (?i - lastIncludedIndex ?n1) (nlog ?n1) else [boundary_entry ?t ?i])"
    have il: "installed_log args ?n1 = Some lg"
      unfolding lg_def by (rule installed_log_ok [OF n1(1) ok(2)])
    define n2 where "n2 = notifyApply (?n1\<lparr>storage := st, nlog := lg, lastIncludedIndex := ?i,
      lastIncludedTerm := ?t, snapshotData := isData args, commitIndex := max (commitIndex ?n1) ?i,
      lastApplied := max (lastApplied ?n1) ?i, pendingSnapshot := Some (snapshot_msg (isData args) ?i ?t)\<rparr>)"
    have f: "nlog n2 = lg" "lastIncludedIndex n2 = ?i" "lastIncludedTerm n2 = ?t" "currentTerm n2 = isTerm args"
      "commitIndex n2 = max (commitIndex n) ?i" "lastApplied n2 = max (lastApplied n) ?i"
      using t eq by (simp_all add: n2_def notifyApply_def)
    have res: "handleInstallSnapshot ops e args n = Some (n2, Inr \<lparr>irTerm = currentTerm ?n1\<rparr>)"
      using False ok il by (simp add: handleInstallSnapshot_def Let_def n2_def)
    have "log_ok n2 \<and> commit_ok n2"
    proof (cases "?i \<le> last_index ?n1 \<and> termAtLocked ?n1 ?i = Some ?t")
      case True
      then have lg: "lg = drop (?i - lastIncludedIndex ?n1) (nlog ?n1)" by (simp add: lg_def)
      note d = log_ok_drop [OF n1(1) less_imp_le [OF ok(2)] conjunct1 [OF True] conjunct2 [OF True], folded lg]
      have "eTerm (last lg) \<le> isTerm args" using n1(1) t d(4) by (simp add: log_ok_def)
      moreover have "last_index n2 = last_index ?n1" using d(5) by (simp add: last_index_def [of n2] f)
      ultimately show ?thesis
        using d f n1 log_okD(4) [OF n1(1)] True eq
        by (auto simp: log_ok_def [of n2] commit_ok_def [of n2] commit_ok_def [of ?n1] lg)
    next
      case no: False
      have "lg = [boundary_entry ?t ?i]" unfolding lg_def by (rule if_not_P [OF no])
      moreover have "commitIndex n < ?i"
        using no agree ok(2) n1(2) eq by (force simp: commit_ok_def)
      moreover have "lastApplied n \<le> commitIndex n" using n(2) by (simp add: commit_ok_def)
      ultimately show ?thesis
        using f tt by (simp add: log_ok_def commit_ok_def last_index_def boundary_entry_def terms_sorted_def)
    qed
    then show ?thesis using res f False
      by (intro exI [of _ n2] exI [of _ "Inr \<lparr>irTerm = currentTerm ?n1\<rparr>"]) simp
  qed (use False n1 eq in \<open>auto simp: handleInstallSnapshot_def Let_def\<close>)
qed

section \<open>The commit rule\<close>

text \<open>
  The index the leader may commit: beyond the commit index, of the leader's own term, stored on
  a majority counting the leader itself. \<open>commit_scan\<close> finds the highest one.
\<close>

definition committable :: "'s Node \<Rightarrow> nat \<Rightarrow> bool" where
  "committable n i \<longleftrightarrow> commitIndex n < i \<and> i \<le> last_index n \<and>
     termAtLocked n i = Some (currentTerm n) \<and> replica_count n i \<ge> majority (peers n)"

lemma commit_scan_spec:
  assumes n: "log_ok n" "lastIncludedIndex n \<le> commitIndex n"
  shows "i \<le> last_index n \<Longrightarrow> \<exists>c. commit_scan n i = Some (if c = commitIndex n then n else notifyApply (n\<lparr>commitIndex := c\<rparr>)) \<and>
    (c = commitIndex n \<or> committable n c) \<and> commitIndex n \<le> c \<and>
    (\<forall>j. c < j \<longrightarrow> j \<le> i \<longrightarrow> \<not> committable n j)"
proof (induction i)
  case 0
  then show ?case by auto
next
  case (Suc i)
  show ?case
  proof (cases "Suc i \<le> commitIndex n")
    case True
    then show ?thesis by (intro exI [of _ "commitIndex n"]) (auto simp: committable_def)
  next
    case False
    obtain t where t: "termAtLocked n (Suc i) = Some t"
      using termAtLocked_ok [OF n(1), of "Suc i"] False n(2) Suc.prems by simp
    show ?thesis
    proof (cases "t = currentTerm n \<and> replica_count n (Suc i) \<ge> majority (peers n)")
      case True
      then have "committable n (Suc i)" using t False Suc.prems by (simp add: committable_def)
      then show ?thesis using True t False
        by (intro exI [of _ "Suc i"]) (auto simp: committable_def)
    next
      case no: False
      then have "commit_scan n (Suc i) = commit_scan n i" "\<not> committable n (Suc i)"
        using t False by (auto simp: committable_def)
      then show ?thesis using Suc by (auto simp: le_Suc_eq)
    qed
  qed
qed

lemma maybeAdvance_spec:
  assumes n: "log_ok n" "commit_ok n"
  shows "\<exists>c. maybeAdvanceCommitLocked n = Some (if c = commitIndex n then n else notifyApply (n\<lparr>commitIndex := c\<rparr>)) \<and>
    commitIndex n \<le> c \<and> c \<le> last_index n \<and> (c = commitIndex n \<or> role n = Leader \<and> committable n c) \<and>
    (role n = Leader \<longrightarrow> (\<forall>j > c. \<not> committable n j))"
proof (cases "role n = Leader")
  case True
  obtain c where c: "commit_scan n (last_index n) = Some (if c = commitIndex n then n else notifyApply (n\<lparr>commitIndex := c\<rparr>))"
    "c = commitIndex n \<or> committable n c" "commitIndex n \<le> c" "\<forall>j. c < j \<longrightarrow> j \<le> last_index n \<longrightarrow> \<not> committable n j"
    using commit_scan_spec [OF n(1), of "last_index n"] n(2) by (auto simp: commit_ok_def)
  have "\<not> committable n j" if "c < j" for j using c(4) that by (auto simp: committable_def)
  with c n show ?thesis using True lastIndexLocked_ok [OF n(1)]
    by (intro exI [of _ c]) (auto simp: maybeAdvanceCommitLocked_def committable_def commit_ok_def)
next
  case False
  then show ?thesis using n(2)
    by (intro exI [of _ "commitIndex n"]) (auto simp: maybeAdvanceCommitLocked_def commit_ok_def)
qed

lemma maybeAdvance_ok:
  assumes n: "log_ok n" "commit_ok n"
  shows "\<exists>n'. maybeAdvanceCommitLocked n = Some n' \<and> log_ok n' \<and> commit_ok n' \<and>
    commitIndex n \<le> commitIndex n' \<and> last_index n' = last_index n \<and> ae_frame n n' \<and> nlog n' = nlog n \<and>
    storage n' = storage n \<and> failed n' = failed n"
proof -
  obtain c where c: "maybeAdvanceCommitLocked n = Some (if c = commitIndex n then n else notifyApply (n\<lparr>commitIndex := c\<rparr>))"
    "commitIndex n \<le> c" "c \<le> last_index n"
    using maybeAdvance_spec [OF n] by blast
  then show ?thesis using n
    by (auto simp: notifyApply_def log_ok_def commit_ok_def last_index_def ae_frame_def)
qed

section \<open>Proposals\<close>

lemma log_ok_append_current:
  assumes n: "log_ok n" and w: "log_write n (nlog n @ [x]) n'"
    and x: "eTerm x = currentTerm n" "eIndex x = last_index n + 1"
  shows "log_ok n'" "last_index n' = last_index n + 1" "commit_ok n \<Longrightarrow> commit_ok n'"
proof -
  have "eTerm y \<le> currentTerm n" if "y \<in> set (nlog n)" for y
    using n that by (rule log_ok_terms)
  moreover have "lastIncludedIndex n + length (nlog n) = last_index n + 1"
    using log_okD(2) [OF n] by (simp add: last_index_def)
  ultimately show "log_ok n'" "last_index n' = last_index n + 1"
    using n x log_writeD [OF w] log_okD(2) [OF n]
    by (auto simp: log_ok_def terms_sorted_append terms_sorted_def [of "[x]"] last_index_def)
  then show "commit_ok n \<Longrightarrow> commit_ok n'"
    using log_writeD [OF w] by (auto simp: commit_ok_def)
qed

lemma Propose_ok:
  assumes n: "log_ok n" "commit_ok n"
  shows "\<exists>n' idx trm ldr. Propose ops command n = Some (n', idx, trm, ldr) \<and> log_ok n' \<and> commit_ok n' \<and>
    commitIndex n \<le> commitIndex n' \<and>
    (ldr \<longleftrightarrow> role n = Leader \<and> \<not> failed n \<and> \<not> failed n') \<and>
    (ldr \<longrightarrow> idx = last_index n + 1 \<and> trm = currentTerm n \<and> last_index n' = idx \<and>
       nlog n' = nlog n @ [\<lparr>eTerm = trm, eIndex = idx, eCommand = command\<rparr>]) \<and>
    (\<not> ldr \<longrightarrow> idx = 0 \<and> trm = 0 \<and> (failed n \<or> role n \<noteq> Leader \<longrightarrow> n' = n))"
proof (cases "failed n \<or> role n \<noteq> Leader")
  case True
  then show ?thesis using n by (auto simp: Propose_def)
next
  case False
  let ?x = "\<lparr>eTerm = currentTerm n, eIndex = last_index n + 1, eCommand = command\<rparr>"
  let ?n1 = "appendLogLocked ops [?x] n"
  have w: "log_write n (nlog n @ [?x]) ?n1" by (rule appendLogLocked_write)
  have "eTerm ?x = currentTerm n" "eIndex ?x = last_index n + 1" by simp_all
  note n1 = log_ok_append_current [OF n(1) w this]
  obtain n2 where n2: "maybeAdvanceCommitLocked ?n1 = Some n2" "log_ok n2" "commit_ok n2"
    "commitIndex ?n1 \<le> commitIndex n2" "last_index n2 = last_index ?n1" "nlog n2 = nlog ?n1" "failed n2 = failed ?n1"
    using maybeAdvance_ok [OF n1(1) n1(3) [OF n(2)]] by blast
  show ?thesis
    using False n1 n2 n(2) log_writeD [OF w] lastIndexLocked_ok [OF n(1)]
    by (simp add: Propose_def Let_def)
qed

section \<open>Taking a snapshot\<close>

lemma Snapshot_ok:
  assumes n: "log_ok n" "commit_ok n"
  shows "\<exists>n' r. Snapshot ops index data n = Some (n', r) \<and> log_ok n' \<and> commit_ok n' \<and>
    last_index n' = last_index n \<and> commitIndex n' = commitIndex n \<and> lastApplied n' = lastApplied n \<and>
    lastIncludedIndex n \<le> lastIncludedIndex n' \<and>
    (\<forall>i \<ge> lastIncludedIndex n'. termAtLocked n' i = termAtLocked n i) \<and>
    (\<forall>i > lastIncludedIndex n'. entryAtLocked n' i = entryAtLocked n i) \<and>
    (\<not> failed n \<and> r = None \<and> lastIncludedIndex n < index \<longrightarrow> lastIncludedIndex n' = index \<and> snapshotData n' = data)"
proof (cases "failed n \<or> index \<le> lastIncludedIndex n \<or> lastApplied n < index")
  case True
  then show ?thesis using n by (auto simp: Snapshot_def)
next
  case False
  then have i: "lastIncludedIndex n \<le> index" "index \<le> last_index n" "lastIncludedIndex n < index"
    using n(2) by (auto simp: commit_ok_def)
  let ?k = "index - lastIncludedIndex n"
  have k: "?k < length (nlog n)" using in_log_pos [OF n(1) i(1)] i(2) by simp
  obtain t where t: "termAtLocked n index = Some t" using termAtLocked_ok [OF n(1) i(1,2)] by blast
  note d = log_ok_drop [OF n(1) i(1,2) t]
  let ?lg = "(nlog n ! ?k)\<lparr>eCommand := []\<rparr> # drop (Suc ?k) (nlog n)"
  have cons: "drop ?k (nlog n) = nlog n ! ?k # drop (Suc ?k) (nlog n)" using k by (rule drop_eq_Cons_nth)
  have lf: "logFrom n index = Some (drop ?k (nlog n))" using logFrom_ok [OF n(1) i(1)] i(2) by simp
  obtain st err where sv: "SaveSnapshot ops (storage n) index t data = (st, err)" by fastforce
  have res: "Snapshot ops index data n = Some (case err of
      Some er \<Rightarrow> (let n1 = disableLocked (Wrapf ''saving snapshot: %w'' [] er) (n\<lparr>storage := st\<rparr>) in (n1, failErr n1))
    | None \<Rightarrow> (n\<lparr>storage := st, nlog := ?lg, lastIncludedIndex := index, lastIncludedTerm := t, snapshotData := data\<rparr>, None))"
    using False t lf cons sv by (simp add: Snapshot_def split: option.splits)
  show ?thesis
  proof (cases err)
    case (Some er)
    let ?n1 = "disableLocked (Wrapf ''saving snapshot: %w'' [] er) (n\<lparr>storage := st\<rparr>)"
    have same: "log_same n ?n1" by (simp add: log_same_def disableLocked_def)
    have "Snapshot ops index data n = Some (?n1, failErr ?n1)" "failErr ?n1 \<noteq> None"
      using res Some by (simp_all add: Let_def) (simp add: disableLocked_def)
    moreover have "log_ok ?n1" "commit_ok ?n1" "last_index ?n1 = last_index n"
      "commitIndex ?n1 = commitIndex n" "lastApplied ?n1 = lastApplied n"
      "lastIncludedIndex ?n1 = lastIncludedIndex n"
      using n log_same_ok [OF same] log_same_commit [OF same] log_same_last_index [OF same] same
      by (simp_all add: log_same_def)
    ultimately show ?thesis
      using log_same_entryAt [OF same] by (simp add: termAtLocked_def)
  next
    case None
    let ?n1 = "n\<lparr>storage := st, nlog := ?lg, lastIncludedIndex := index, lastIncludedTerm := t, snapshotData := data\<rparr>"
    have "indexed index ?lg \<and> eTerm (hd ?lg) = t" using d(1,3) cons by simp
    moreover have "terms_sorted ?lg"
      using log_okD(4) [OF n(1)] terms_sorted_drop [of "nlog n" ?k] cons by (simp add: terms_sorted_def)
    moreover have "eTerm (last ?lg) = eTerm (last (nlog n))"
      using d(4) cons by (cases "drop (Suc ?k) (nlog n)") auto
    ultimately have ok: "log_ok ?n1" using n(1) by (simp add: log_ok_def)
    have li: "last_index ?n1 = last_index n" using k i by (simp add: last_index_def)
    have ent: "entryAtLocked ?n1 j = entryAtLocked n j" if j: "index < j" for j
    proof -
      obtain m where m: "j = Suc (index + m)" using j less_imp_Suc_add by blast
      then have "j - lastIncludedIndex n = Suc (?k + m)" using i by simp
      then show ?thesis using m k i by (auto simp: entryAtLocked_def)
    qed
    have "termAtLocked ?n1 j = termAtLocked n j" if "index \<le> j" for j
      using ent [of j] that t by (cases "j = index") (auto simp: termAtLocked_def entryAtLocked_def split: if_splits)
    moreover have "commit_ok ?n1" using n(2) li i False by (simp add: commit_ok_def)
    ultimately show ?thesis using res None ok li ent i by simp
  qed
qed

section \<open>What the leader knows about its peers\<close>

definition progress_ok :: "'s Node \<Rightarrow> bool" where
  "progress_ok n \<longleftrightarrow> (role n = Leader \<longrightarrow>
     (\<forall>p \<in> set (peers n). map_get (nextIndex n) p \<le> last_index n + 1 \<and> map_get (matchIndex n) p \<le> last_index n))"

lemma map_get_map_of:
  "map_get (map_of (map (\<lambda>p. (p, v)) ps)) q = (if q \<in> set ps then v else 0)"
  by (induction ps) (auto simp: map_get_def)

lemma becomeLeaderLocked_ok:
  assumes "log_ok n"
  shows "\<exists>n'. becomeLeaderLocked n = Some n' \<and> log_same n n' \<and> role n' = Leader \<and> leaderID n' = nid n \<and>
    currentTerm n' = currentTerm n \<and> votedFor n' = votedFor n \<and> storage n' = storage n \<and> failed n' = failed n \<and>
    progress_ok n' \<and>
    (\<forall>p \<in> set (peers n). map_get (nextIndex n') p = last_index n + 1 \<and> map_get (matchIndex n') p = 0)"
  using lastIndexLocked_ok [OF assms]
  by (auto simp: becomeLeaderLocked_def log_same_def progress_ok_def map_get_map_of last_index_def)

lemma replicateToPeer_ok:
  assumes n: "log_ok n" "commit_ok n" "progress_ok n" and p: "p \<in> set (peers n)"
  shows "\<exists>s. replicateToPeer p trm i n = Some s \<and> (\<forall>args. s = SendAppend args \<longrightarrow>
    role n = Leader \<and> trm = currentTerm n \<and> args_ok args \<and> aeTerm args = trm \<and> aeLeaderID args = i \<and>
    lastIncludedIndex n \<le> aePrevLogIndex args \<and>
    termAtLocked n (aePrevLogIndex args) = Some (aePrevLogTerm args) \<and>
    aeEntries args = drop (aePrevLogIndex args + 1 - lastIncludedIndex n) (nlog n) \<and>
    aePrevLogIndex args + length (aeEntries args) = last_index n \<and>
    aeLeaderCommit args = commitIndex n)"
proof (cases "failed n \<or> role n \<noteq> Leader \<or> currentTerm n \<noteq> trm \<or> map_get (nextIndex n) p \<le> lastIncludedIndex n")
  case True
  then show ?thesis by (auto simp: replicateToPeer_def)
next
  case False
  define k where "k = map_get (nextIndex n) p - lastIncludedIndex n"
  define prev where "prev = map_get (nextIndex n) p - 1"
  have k: "0 < k" "k \<le> length (nlog n)" "map_get (nextIndex n) p = prev + 1" "prev + 1 = lastIncludedIndex n + k"
    using False n(3) p log_okD(2) [OF n(1)] by (auto simp: k_def prev_def progress_ok_def last_index_def)
  have prev: "lastIncludedIndex n \<le> prev" "prev \<le> last_index n"
    using k by (auto simp: last_index_def)
  obtain pt where pt: "termAtLocked n prev = Some pt" using termAtLocked_ok [OF n(1) prev] by blast
  have "prev - lastIncludedIndex n = k - 1" using k by simp
  then have ptk: "eTerm (nlog n ! (k - 1)) = pt" using termAtLocked_ok [OF n(1) prev] pt by simp
  have lf: "logFrom n (prev + 1) = Some (drop k (nlog n))"
    using logFrom_ok [OF n(1), of "prev + 1"] prev k by (simp add: k_def)
  have "indexed (prev + 1) (drop k (nlog n))" unfolding k(4) using k log_okD(3) [OF n(1)] by auto
  moreover have "pt \<le> eTerm x \<and> eTerm x \<le> currentTerm n" if x: "x \<in> set (drop k (nlog n))" for x
  proof -
    obtain j where j: "j < length (drop k (nlog n))" "drop k (nlog n) ! j = x"
      using x unfolding in_set_conv_nth by blast
    then have "k + j < length (nlog n)" "x = nlog n ! (k + j)" by auto
    then show ?thesis
      using terms_sorted_nth_mono [OF log_okD(4) [OF n(1)], of "k - 1" "k + j"] ptk
        log_ok_terms [OF n(1) in_set_dropD [OF x]] by simp
  qed
  ultimately have es: "entries_ok prev pt (currentTerm n) (drop k (nlog n))"
    using log_okD(4) [OF n(1)] by (simp add: entries_ok_def)
  define args where "args = \<lparr>aeTerm = trm, aeLeaderID = i, aePrevLogIndex = prev, aePrevLogTerm = pt,
    aeEntries = drop k (nlog n), aeLeaderCommit = commitIndex n\<rparr>"
  have "replicateToPeer p trm i n = Some (SendAppend args)"
    unfolding replicateToPeer_def args_def Let_def using False pt lf k(3) by simp
  moreover have "args_ok args" using es False by (simp add: args_ok_def args_def)
  moreover have "aePrevLogIndex args + 1 - lastIncludedIndex n = k" using k by (simp add: args_def)
  moreover have "prev + length (drop k (nlog n)) = last_index n" using k by (simp add: last_index_def)
  ultimately show ?thesis
    using False pt prev by (intro exI [of _ "SendAppend args"]) (simp add: args_def)
qed

lemma noteMatch_fields [simp]:
  "nlog (noteMatch p m n) = nlog n" "lastIncludedIndex (noteMatch p m n) = lastIncludedIndex n"
  "lastIncludedTerm (noteMatch p m n) = lastIncludedTerm n" "currentTerm (noteMatch p m n) = currentTerm n"
  "commitIndex (noteMatch p m n) = commitIndex n" "lastApplied (noteMatch p m n) = lastApplied n"
  "role (noteMatch p m n) = role n" "peers (noteMatch p m n) = peers n" "storage (noteMatch p m n) = storage n"
  "failed (noteMatch p m n) = failed n" "nid (noteMatch p m n) = nid n" "votedFor (noteMatch p m n) = votedFor n"
  by (simp_all add: noteMatch_def Let_def)

lemma noteMatch_match:
  "map_get (matchIndex (noteMatch p m n)) q =
     (if q = p then max m (map_get (matchIndex n) p) else map_get (matchIndex n) q)"
  "map_get (nextIndex (noteMatch p m n)) q =
     (if q = p then max (m + 1) (map_get (nextIndex n) p) else map_get (nextIndex n) q)"
  by (auto simp: noteMatch_def Let_def max_def)

lemma noteMatch_ok:
  assumes "log_ok n" "commit_ok n" "progress_ok n" "m \<le> last_index n"
  shows "log_ok (noteMatch p m n)" "commit_ok (noteMatch p m n)" "progress_ok (noteMatch p m n)"
proof -
  have "last_index (noteMatch p m n) = last_index n" by (simp add: last_index_def)
  then show "log_ok (noteMatch p m n)" "commit_ok (noteMatch p m n)" "progress_ok (noteMatch p m n)"
    using assms by (auto simp: log_ok_def commit_ok_def progress_ok_def noteMatch_match)
qed

text \<open>The index the fast-backup search finds is the last one of the term.\<close>

lemma lastIndexOfTerm_scan_spec:
  "indexed i es \<Longrightarrow> terms_sorted es \<Longrightarrow>
   (case lastIndexOfTerm_scan t (rev es) of
      Some j \<Rightarrow> i \<le> j \<and> j < i + length es \<and> eTerm (es ! (j - i)) = t \<and>
        (\<forall>k. j - i < k \<longrightarrow> k < length es \<longrightarrow> eTerm (es ! k) \<noteq> t)
    | None \<Rightarrow> \<forall>k < length es. eTerm (es ! k) \<noteq> t)"
proof (induction es rule: rev_induct)
  case (snoc x xs)
  have ind: "indexed i xs" "eIndex x = i + length xs" "terms_sorted xs"
    using snoc.prems by (auto simp: terms_sorted_append)
  show ?case
  proof (cases "eTerm x = t")
    case True
    then show ?thesis using ind by (simp add: nth_append)
  next
    case False
    show ?thesis
    proof (cases "eTerm x < t")
      case True
      have "eTerm (xs ! k) \<le> eTerm x" if "k < length xs" for k
        using snoc.prems(2) nth_mem [OF that] by (auto simp: terms_sorted_append)
      then have "\<And>k. k < length xs \<Longrightarrow> eTerm (xs ! k) \<noteq> t" using True by (metis not_less)
      then have "\<forall>k < length (xs @ [x]). eTerm ((xs @ [x]) ! k) \<noteq> t"
        using True by (auto simp: nth_append less_Suc_eq)
      then show ?thesis using True False by simp
    next
      case gt: False
      then have "lastIndexOfTerm_scan t (rev (xs @ [x])) = lastIndexOfTerm_scan t (rev xs)"
        using False by simp
      then show ?thesis using snoc.IH [OF ind(1,3)] False
        by (auto simp: nth_append less_Suc_eq split: option.splits)
    qed
  qed
qed simp

lemma lastIndexOfTermLocked_spec:
  assumes n: "log_ok n"
  shows "lastIndexOfTermLocked n t = Some j \<Longrightarrow> lastIncludedIndex n \<le> j \<and> j \<le> last_index n \<and>
      termAtLocked n j = Some t \<and> (\<forall>k. j < k \<longrightarrow> termAtLocked n k \<noteq> Some t)"
    "lastIndexOfTermLocked n t = None \<Longrightarrow> termAtLocked n k \<noteq> Some t"
  using lastIndexOfTerm_scan_spec [OF log_okD(3,4) [OF n], of t]
  by (auto simp: lastIndexOfTermLocked_def termAtLocked_def entryAtLocked_def last_index_def)

lemma backUp_fields [simp]:
  "nlog (backUp p r n) = nlog n" "lastIncludedIndex (backUp p r n) = lastIncludedIndex n"
  "lastIncludedTerm (backUp p r n) = lastIncludedTerm n" "currentTerm (backUp p r n) = currentTerm n"
  "commitIndex (backUp p r n) = commitIndex n" "lastApplied (backUp p r n) = lastApplied n"
  "role (backUp p r n) = role n" "peers (backUp p r n) = peers n" "storage (backUp p r n) = storage n"
  "failed (backUp p r n) = failed n" "matchIndex (backUp p r n) = matchIndex n" "nid (backUp p r n) = nid n"
  "votedFor (backUp p r n) = votedFor n" "last_index (backUp p r n) = last_index n"
  by (simp_all add: backUp_def Let_def last_index_def)

lemma backUp_target:
  assumes n: "log_ok n" and c: "arConflictIndex reply \<le> last_index n + 1"
  shows "map_get (nextIndex (backUp p reply n)) q \<le> (if q = p then last_index n + 1 else map_get (nextIndex n) q)"
  using c log_okD(6) [OF n] lastIndexOfTermLocked_spec(1) [OF n, of "arConflictTerm reply"]
  by (auto simp: backUp_def Let_def split: option.splits)

lemma appendReply_ok:
  assumes n: "log_ok n" "commit_ok n" "progress_ok n"
    and r: "arSuccess reply \<Longrightarrow> trm = currentTerm n \<Longrightarrow> prevIndex + k \<le> last_index n"
      "\<not> arSuccess reply \<Longrightarrow> trm = currentTerm n \<Longrightarrow> arConflictIndex reply \<le> last_index n + 1"
  shows "\<exists>n'. appendReply ops p trm prevIndex k reply n = Some n' \<and> log_ok n' \<and> commit_ok n' \<and> progress_ok n' \<and>
    commitIndex n \<le> commitIndex n' \<and> nlog n' = nlog n"
proof -
  consider "failed n" | (down) "\<not> failed n" "arTerm reply > currentTerm n"
    | (stale) "\<not> failed n" "arTerm reply \<le> currentTerm n" "role n \<noteq> Leader \<or> currentTerm n \<noteq> trm"
    | (good) "\<not> failed n" "arTerm reply \<le> currentTerm n" "role n = Leader" "currentTerm n = trm" "arSuccess reply"
    | (bad) "\<not> failed n" "arTerm reply \<le> currentTerm n" "role n = Leader" "currentTerm n = trm" "\<not> arSuccess reply"
    by linarith
  then show ?thesis
  proof cases
    case down
    have same: "log_same n (becomeFollowerLocked ops (arTerm reply) n)" by (rule becomeFollowerLocked_same)
    then show ?thesis using down n log_same_ok [OF same] log_same_commit [OF same]
      by (auto simp: appendReply_def progress_ok_def log_same_def)
  next
    case good
    obtain n' where n': "maybeAdvanceCommitLocked (noteMatch p (prevIndex + k) n) = Some n'"
      "log_ok n'" "commit_ok n'" "commitIndex n \<le> commitIndex n'" "last_index n' = last_index (noteMatch p (prevIndex + k) n)"
      "ae_frame (noteMatch p (prevIndex + k) n) n'" "nlog n' = nlog n"
      using maybeAdvance_ok [OF noteMatch_ok(1,2) [OF n]] r good by fastforce
    have "progress_ok n'" using n'(5,6) noteMatch_ok(3) [OF n, of "prevIndex + k" p] r(1) good
      by (auto simp: progress_ok_def ae_frame_def)
    then show ?thesis using good n' by (auto simp: appendReply_def)
  next
    case bad
    have "progress_ok (backUp p reply n)"
      unfolding progress_ok_def
    proof (intro impI ballI)
      fix q assume "role (backUp p reply n) = Leader" "q \<in> set (peers (backUp p reply n))"
      then show "map_get (nextIndex (backUp p reply n)) q \<le> last_index (backUp p reply n) + 1 \<and>
          map_get (matchIndex (backUp p reply n)) q \<le> last_index (backUp p reply n)"
        using n(3) backUp_target [OF n(1) r(2) [OF bad(5) bad(4) [symmetric]], of p q]
        by (auto simp: progress_ok_def split: if_splits)
    qed
    then show ?thesis using bad n by (auto simp: appendReply_def log_ok_def commit_ok_def)
  qed (use n in \<open>auto simp: appendReply_def\<close>)
qed

end
