(* ===== verification/Raft_Again.thy ===== *)
theory Raft_Again
  imports Raft_Leader
begin

text \<open>
  Duplicated AppendEntries: a network that delivers a message twice does no harm. The second
  delivery of a message that was accepted changes nothing but the two timers of a heartbeat.
\<close>

lemma ae_reconcile_success:
  "ae_reconcile ops p t es lc n = Some (n', Inr rep) \<Longrightarrow> arSuccess rep \<Longrightarrow> rep = ae_success n'"
  by (auto simp: ae_reconcile_def ae_conflict_def Let_def simp del: append_loop.simps split: if_splits)

lemma ae_success_reply:
  assumes "handleAppendEntries ops e args n = Some (n', Inr rep)" "arSuccess rep"
  shows "rep = ae_success n'"
proof -
  have "\<not> failed n \<and> currentTerm n \<le> aeTerm args"
    using assms by (auto simp: handleAppendEntries_def ae_conflict_def split: if_splits)
  then show ?thesis
    using assms ae_reconcile_success [OF _ assms(2)]
    by (auto simp: handleAppendEntries_eq Let_def split: if_splits)
qed

lemma reset_log [simp]:
  "last_index (resetElectionDeadlineLocked e n) = last_index n"
  "log_ok (resetElectionDeadlineLocked e n) = log_ok n"
  "termAtLocked (resetElectionDeadlineLocked e n) i = termAtLocked n i"
  "lastIncludedIndex (resetElectionDeadlineLocked e n) = lastIncludedIndex n"
  "lastIncludedTerm (resetElectionDeadlineLocked e n) = lastIncludedTerm n"
  "commitIndex (resetElectionDeadlineLocked e n) = commitIndex n"
  by (simp_all add: resetElectionDeadlineLocked_def Let_def last_index_def log_ok_def
      termAtLocked_def entryAtLocked_def)

lemma reconcile_again:
  assumes m: "log_ok m" "lastIncludedIndex m \<le> p" "\<not> failed m"
    and at: "termAtLocked m p = Some t" "\<And>i. i < length es \<Longrightarrow> termAtLocked m (p + 1 + i) = Some (eTerm (es ! i))"
    and len: "p + length es \<le> last_index m"
    and c: "commitIndex m < lc \<Longrightarrow> commitIndex m = last_index m"
  shows "\<exists>w. ae_reconcile ops p t es lc m = Some (m\<lparr>applyWake := w\<rparr>, Inr (ae_success m))"
proof -
  have loop: "append_loop ops (p + 1) es m = Some m"
    by (rule append_loop_all_match [OF m(1)]) (use m(2) at(2) len in auto)
  have p: "p \<le> last_index m" using len by simp
  define m' where "m' = notifyApply (m\<lparr>commitIndex := min lc (last_index m)\<rparr>)"
  have r: "ae_reconcile ops p t es lc m =
      Some (if commitIndex m < lc then (m', Inr (ae_success m')) else (m, Inr (ae_success m)))"
    unfolding ae_reconcile_def Let_def m'_def using loop p at(1) m(3) lastIndexLocked_ok [OF m(1)] by simp
  have "m' = m\<lparr>applyWake := True\<rparr>" if "commitIndex m < lc"
    using c [OF that] that by (simp add: m'_def notifyApply_def)
  moreover have "m = m\<lparr>applyWake := applyWake m\<rparr>" by simp
  moreover have "ae_success (m\<lparr>applyWake := w\<rparr>) = ae_success m" for w by (simp add: ae_success_def)
  ultimately show ?thesis using r by metis
qed

lemma append_again:
  assumes n: "log_ok n" "commit_ok n" and a: "args_ok args" "no_conflict n (aeEntries args)"
    and h: "handleAppendEntries ops e args n = Some (n', Inr rep)" "arSuccess rep"
  shows "\<exists>w. handleAppendEntries ops e' args n' =
    Some ((resetElectionDeadlineLocked e' n')\<lparr>applyWake := w\<rparr>, Inr rep)"
proof -
  obtain n1 where n1: "n1 = acceptLeader ops e (aeTerm args) (aeLeaderID args) n" "log_same n n1"
    "log_ok n1" "commit_ok n1" "currentTerm n1 = aeTerm args" "\<not> failed n1" "\<not> failed n'"
    "ae_frame n1 n'" "arTerm rep = aeTerm args"
    and cases: "covered n1 args \<and> n' = n1 \<or>
     \<not> covered n1 args \<and> log_ok n' \<and> entries_ok (anchor_prev n1 args) (anchor_term n1 args) (currentTerm n1)
           (drop (anchor_skip n1 args) (aeEntries args)) \<and>
     ae_outcome (anchor_prev n1 args) (anchor_term n1 args) (drop (anchor_skip n1 args) (aeEntries args))
       (aeLeaderCommit args) n1 n' (Inr rep)"
    by (rule ae_success_cases [OF n a h])
  define m where "m = resetElectionDeadlineLocked e' n'"
  have le: "currentTerm n \<le> aeTerm args" using n1(2,5) by (simp add: log_same_def)
  have t: "currentTerm n' = aeTerm args" using n1(5,8) by (simp add: ae_frame_def)
  have "role n' \<noteq> Candidate \<and> leaderID n' = aeLeaderID args"
    using acceptLeader_role [OF le, of ops e "aeLeaderID args"] n1(1,6,8) by (simp add: ae_frame_def)
  then have acc: "acceptLeader ops e' (aeTerm args) (aeLeaderID args) n' = m"
    unfolding m_def using acceptLeader_again [OF t] n1(7) by blast
  have mf: "\<not> failed m" "currentTerm m = currentTerm n'" using n1(7) by (simp_all add: m_def)
  have rep: "rep = ae_success m"
    using ae_success_reply [OF h] mf(2) by (simp add: ae_success_def)
  have li: "lastIncludedIndex m = lastIncludedIndex n1" "lastIncludedTerm m = lastIncludedTerm n1"
    using n1(8) by (simp_all add: ae_frame_def m_def)
  then have anchors: "covered m args = covered n1 args" "anchor_prev m args = anchor_prev n1 args"
    "anchor_term m args = anchor_term n1 args" "anchor_skip m args = anchor_skip n1 args"
    by (simp_all add: covered_def anchor_prev_def anchor_term_def anchor_skip_def)
  note eq = handleAppendEntries_eq [OF n1(7), of args ops e', unfolded acc Let_def anchors]
  show ?thesis
  proof (cases "covered n1 args")
    case True
    have "m\<lparr>applyWake := applyWake m\<rparr> = m" by simp
    then show ?thesis using eq t mf True rep m_def by (metis order_refl)
  next
    case False
    let ?p = "anchor_prev n1 args" and ?t = "anchor_term n1 args"
    let ?es = "drop (anchor_skip n1 args) (aeEntries args)"
    have o: "log_ok n'" "?p \<le> last_index n1" "termAtLocked n1 ?p = Some ?t" "nlog n' = merged_log n1 ?p ?es"
      "?p + length ?es \<le> last_index n'"
      "commitIndex n' = (if aeLeaderCommit args > commitIndex n1 then min (aeLeaderCommit args) (last_index n') else commitIndex n1)"
      using cases False h(2) by (auto simp: ae_outcome_def)
    have p: "lastIncludedIndex n1 \<le> ?p" by (simp add: anchor_prev_def)
    have li': "lastIncludedIndex n' = lastIncludedIndex n1" using n1(8) by (simp add: ae_frame_def)
    have "\<exists>w. ae_reconcile ops ?p ?t ?es (aeLeaderCommit args) m = Some (m\<lparr>applyWake := w\<rparr>, Inr (ae_success m))"
    proof (rule reconcile_again)
      show "log_ok m" "lastIncludedIndex m \<le> ?p" "\<not> failed m" "?p + length ?es \<le> last_index m"
        using o(1,5) p li' mf by (simp_all add: m_def)
      show "termAtLocked m ?p = Some ?t"
        using merged_log_prev [OF n1(3) p order_refl o(2,4) li'] o(3) by (simp add: m_def termAtLocked_def [of n'] termAtLocked_def [of n1])
      show "termAtLocked m (?p + 1 + i) = Some (eTerm (?es ! i))" if "i < length ?es" for i
        using merged_log_at [OF n1(3) p o(2,4) li' that] by (simp add: m_def)
      show "commitIndex m = last_index m" if "commitIndex m < aeLeaderCommit args"
        using that o(6) by (auto simp: m_def min_def split: if_splits)
    qed
    then show ?thesis using eq t mf False rep by (simp add: m_def)
  qed
qed

end
