(* ===== verification/Memory_Storage.thy ===== *)
theory Memory_Storage
  imports Raft_Types
begin

text \<open>
  \<open>raft.MemoryStorage\<close> (src/internal/raft/memory_storage.go): the storage used when no disk is
  configured. Its log holds the entries strictly after the snapshot boundary. The last section
  interprets \<open>raft_storage\<close> on it.
\<close>

record MemoryStorage =
  msCurrentTerm :: nat
  msVotedFor :: node_id
  msLog :: "LogEntry list"
  msLastIncludedIndex :: nat
  msLastIncludedTerm :: nat
  msSnapshotData :: bytes

definition NewMemoryStorage :: MemoryStorage where
  "NewMemoryStorage = \<lparr>msCurrentTerm = 0, msVotedFor = [], msLog = [], msLastIncludedIndex = 0,
     msLastIncludedTerm = 0, msSnapshotData = []\<rparr>"

definition mem_SaveHardState :: "MemoryStorage \<Rightarrow> nat \<Rightarrow> node_id \<Rightarrow> MemoryStorage \<times> error option" where
  "mem_SaveHardState m t v = (m\<lparr>msCurrentTerm := t, msVotedFor := v\<rparr>, None)"

definition mem_AppendLog :: "MemoryStorage \<Rightarrow> LogEntry list \<Rightarrow> MemoryStorage \<times> error option" where
  "mem_AppendLog m es = (m\<lparr>msLog := msLog m @ es\<rparr>, None)"

definition mem_TruncateLog :: "MemoryStorage \<Rightarrow> nat \<Rightarrow> MemoryStorage \<times> error option" where
  "mem_TruncateLog m fromIndex =
     (if fromIndex \<le> msLastIncludedIndex m
      then (m, Some (Errorf ''raft: TruncateLog: fromIndex %d is at or before the snapshot boundary %d''
                       [NatArg fromIndex, NatArg (msLastIncludedIndex m)]))
      else (let pos = fromIndex - msLastIncludedIndex m - 1
            in (if pos < length (msLog m) then m\<lparr>msLog := take pos (msLog m)\<rparr> else m, None)))"

definition mem_SaveSnapshot ::
  "MemoryStorage \<Rightarrow> nat \<Rightarrow> nat \<Rightarrow> bytes \<Rightarrow> MemoryStorage \<times> error option" where
  "mem_SaveSnapshot m index trm data =
     (let log' = (if msLastIncludedIndex m < index \<and>
                     index - msLastIncludedIndex m \<le> length (msLog m)
                  then drop (index - msLastIncludedIndex m) (msLog m)
                  else [])
      in (m\<lparr>msLog := log', msLastIncludedIndex := index, msLastIncludedTerm := trm,
            msSnapshotData := data\<rparr>, None))"

definition mem_Load :: "MemoryStorage \<Rightarrow> MemoryStorage \<times> (error + PersistentState)" where
  "mem_Load m = (m, Inr \<lparr>psCurrentTerm = msCurrentTerm m, psVotedFor = msVotedFor m,
     psLog = \<lparr>eTerm = msLastIncludedTerm m, eIndex = msLastIncludedIndex m, eCommand = []\<rparr> # msLog m,
     psSnapshotData = msSnapshotData m\<rparr>)"

definition MemoryStorage_ops :: "MemoryStorage Storage" where
  "MemoryStorage_ops = \<lparr>SaveHardState = mem_SaveHardState, AppendLog = mem_AppendLog,
     TruncateLog = mem_TruncateLog, SaveSnapshot = mem_SaveSnapshot, Load = mem_Load\<rparr>"

section \<open>MemoryStorage keeps the storage contract\<close>

definition mem_view :: "MemoryStorage \<Rightarrow> PersistentState" where
  "mem_view m = \<lparr>psCurrentTerm = msCurrentTerm m, psVotedFor = msVotedFor m,
     psLog = boundary_entry (msLastIncludedTerm m) (msLastIncludedIndex m) # msLog m,
     psSnapshotData = msSnapshotData m\<rparr>"

definition mem_inv :: "MemoryStorage \<Rightarrow> bool" where
  "mem_inv m \<longleftrightarrow> indexed (Suc (msLastIncludedIndex m)) (msLog m)"

lemmas mem_defs = mem_SaveHardState_def mem_AppendLog_def mem_TruncateLog_def
  mem_SaveSnapshot_def mem_Load_def MemoryStorage_ops_def

lemma mem_view_wf: "ps_wf (mem_view m) \<longleftrightarrow> mem_inv m"
  by (auto simp: ps_wf_def mem_view_def mem_inv_def ps_boundary_def boundary_entry_def)

lemma mem_boundary [simp]: "ps_boundary (mem_view m) = msLastIncludedIndex m"
  by (simp add: ps_boundary_def mem_view_def boundary_entry_def)

lemma mem_call_view:
  assumes "ps_legal (mem_view m) c"
  shows "\<exists>m'. storage_call MemoryStorage_ops m c = (m', None) \<and> mem_view m' = ps_call c (mem_view m)"
proof (cases c)
  case (CallTruncateLog k)
  then have "msLastIncludedIndex m < k" using assms by simp
  then obtain j where "k = Suc (msLastIncludedIndex m + j)" using less_imp_Suc_add by blast
  then show ?thesis
    by (auto simp: CallTruncateLog mem_defs Let_def) (auto simp: mem_view_def)
next
  case (CallSaveSnapshot k t d)
  then have "msLastIncludedIndex m < k" using assms by simp
  then show ?thesis
    by (auto simp: CallSaveSnapshot mem_defs Let_def) (auto simp: mem_view_def)
qed (simp_all add: mem_defs mem_view_def)

interpretation mem: raft_storage MemoryStorage_ops mem_inv mem_inv mem_view "\<lambda>_. True"
proof unfold_locales
  fix s s' :: MemoryStorage and c
  assume "mem_inv s" "ps_legal (mem_view s) c" "storage_call MemoryStorage_ops s c = (s', None)"
  then have "mem_view s' = ps_call c (mem_view s)" using mem_call_view [of s c] by auto
  moreover have "ps_wf (ps_call c (mem_view s))"
    using \<open>mem_inv s\<close> \<open>ps_legal (mem_view s) c\<close> by (simp add: ps_wf_call mem_view_wf)
  ultimately show "mem_inv s' \<and> mem_view s' = ps_call c (mem_view s)"
    by (metis mem_view_wf)
next
  fix s s' :: MemoryStorage and k e
  assume "mem_inv s" "ps_legal (mem_view s) (CallTruncateLog k)" "TruncateLog MemoryStorage_ops s k = (s', Some e)"
  then show "mem_inv s' \<and> (mem_view s' = mem_view s \<or> mem_view s' = ps_call (CallTruncateLog k) (mem_view s))"
    using mem_call_view [of s "CallTruncateLog k"] by auto
qed (auto simp: mem_view_wf mem_defs, auto simp: mem_view_def boundary_entry_def)

end
