(* ===== verification/Raft_Properties.thy ===== *)
theory Raft_Properties
  imports Raft_Again Memory_Storage
begin

text \<open>
  The properties of one Raft node: what a handler promises on every input that a correct peer
  can send. The nodes of the witnesses run on \<open>MemoryStorage\<close>.
\<close>

section \<open>Concrete nodes for the witnesses\<close>

definition wit_env :: env where
  "wit_env = \<lparr>env_now = 1000, env_Int63n = \<lambda>k. 0\<rparr>"

definition wit_entry :: "nat \<Rightarrow> nat \<Rightarrow> LogEntry" where
  "wit_entry t i = \<lparr>eTerm = t, eIndex = i, eCommand = [of_nat i]\<rparr>"

definition wit_cfg :: "string \<Rightarrow> string list \<Rightarrow> Config" where
  "wit_cfg i ps = \<lparr>cID = i, cPeers = ps, cTransport = True, cElectionTimeoutMin = 0,
     cElectionTimeoutMax = 0, cHeartbeatInterval = 0, cTickInterval = 0, cRPCTimeout = 0,
     cSnapshotThreshold = 2\<rparr>"

text \<open>A follower of term 2 whose log holds the terms 1, 1, 2 at 1, 2, 3; index 1 is committed.\<close>

definition wit_store :: MemoryStorage where
  "wit_store = \<lparr>msCurrentTerm = 2, msVotedFor = [], msLog = [wit_entry 1 1, wit_entry 1 2, wit_entry 2 3],
     msLastIncludedIndex = 0, msLastIncludedTerm = 0, msSnapshotData = []\<rparr>"

definition wit_node :: "MemoryStorage Node" where
  "wit_node = (node_from_state (wit_cfg ''n1'' [''n2'', ''n3'']) wit_store (mem_view wit_store)
     (boundary_entry 0 0))\<lparr>commitIndex := 1, lastApplied := 1\<rparr>"

text \<open>The leader of term 3 replaces index 3 and appends index 4.\<close>

definition wit_append :: AppendEntriesArgs where
  "wit_append = \<lparr>aeTerm = 3, aeLeaderID = ''n2'', aePrevLogIndex = 1, aePrevLogTerm = 1,
     aeEntries = [wit_entry 1 2, wit_entry 3 3, wit_entry 3 4], aeLeaderCommit = 3\<rparr>"

lemma wit_node_ok: "log_ok wit_node" "commit_ok wit_node" "args_ok wit_append"
  "no_conflict wit_node (aeEntries wit_append)" "\<not> failed wit_node"
  by code_simp+

section \<open>AppendEntries\<close>

text \<open>C12: on any node whose log and indices are in order, an AppendEntries message that does not
  contradict the committed prefix never panics: the handler returns, keeps log and indices in
  order, never moves the commit index back and never changes a committed entry, whatever the
  storage answers.\<close>

theorem append_entries_safe:
  assumes "log_ok n" "commit_ok n" "args_ok args" "no_conflict n (aeEntries args)"
  shows "\<exists>n' r. handleAppendEntries ops e args n = Some (n', r) \<and> log_ok n' \<and> commit_ok n' \<and>
    commitIndex n \<le> commitIndex n' \<and> lastApplied n' = lastApplied n \<and> lastIncludedIndex n' = lastIncludedIndex n \<and>
    (\<forall>i. lastIncludedIndex n \<le> i \<longrightarrow> i \<le> commitIndex n \<longrightarrow> entryAtLocked n' i = entryAtLocked n i)"
  using assms by (rule handleAppendEntries_ok)

theorem append_entries_safe_witness:
  "\<exists>n' r. handleAppendEntries MemoryStorage_ops wit_env wit_append wit_node = Some (n', r) \<and> log_ok n' \<and>
     commit_ok n' \<and> 1 \<le> commitIndex n' \<and> entryAtLocked n' 1 = Some (wit_entry 1 1)"
proof -
  have "commitIndex wit_node = 1" "lastIncludedIndex wit_node = 0" "entryAtLocked wit_node 1 = Some (wit_entry 1 1)"
    by code_simp+
  then show ?thesis
    using append_entries_safe [OF wit_node_ok(1-4), of MemoryStorage_ops wit_env] by fastforce
qed

text \<open>A follower that answers success holds, beyond its snapshot boundary, every entry of the
  message at its index with the message's term (so it agrees with the leader up to the last index
  sent), the entry before them matches too, and its commit index covers what the leader had
  committed among them: the meaning the leader gives to the reply when it advances the peer's
  match index.\<close>

theorem append_success_matches:
  assumes "log_ok n" "commit_ok n" "args_ok args" "no_conflict n (aeEntries args)"
    and "handleAppendEntries ops e args n = Some (n', Inr rep)" "arSuccess rep"
  shows "(\<forall>x \<in> set (aeEntries args). lastIncludedIndex n < eIndex x \<longrightarrow> termAtLocked n' (eIndex x) = Some (eTerm x)) \<and>
    aePrevLogIndex args + length (aeEntries args) \<le> last_index n' \<and>
    min (aeLeaderCommit args) (aePrevLogIndex args + length (aeEntries args)) \<le> commitIndex n' \<and>
    (lastIncludedIndex n \<le> aePrevLogIndex args \<longrightarrow> termAtLocked n' (aePrevLogIndex args) = Some (aePrevLogTerm args)) \<and>
    currentTerm n' = aeTerm args"
  using append_success_holds [OF assms] by blast

definition wit_follower :: "MemoryStorage Node" where
  "wit_follower = run_state wit_node (handleAppendEntries MemoryStorage_ops wit_env wit_append wit_node)"

lemma wit_follower_run:
  "handleAppendEntries MemoryStorage_ops wit_env wit_append wit_node = Some (wit_follower, Inr (ae_success wit_follower))"
  "arSuccess (ae_success wit_follower)"
proof -
  have "map_option snd (handleAppendEntries MemoryStorage_ops wit_env wit_append wit_node) =
      Some (Inr (ae_success wit_follower))" by code_simp
  then show "handleAppendEntries MemoryStorage_ops wit_env wit_append wit_node =
      Some (wit_follower, Inr (ae_success wit_follower))"
    unfolding wit_follower_def by (rule run_state_eq)
qed (simp add: ae_success_def)

theorem append_success_matches_witness:
  "termAtLocked wit_follower 3 = Some 3 \<and> 4 \<le> last_index wit_follower \<and> 3 \<le> commitIndex wit_follower"
proof -
  have "wit_entry 3 3 \<in> set (aeEntries wit_append)" "lastIncludedIndex wit_node < eIndex (wit_entry 3 3)"
    "eIndex (wit_entry 3 3) = 3" "eTerm (wit_entry 3 3) = 3"
    "aePrevLogIndex wit_append + length (aeEntries wit_append) = 4" "min (aeLeaderCommit wit_append) 4 = 3"
    by code_simp+
  then show ?thesis
    using append_success_matches [OF wit_node_ok(1-4) wit_follower_run] by metis
qed

text \<open>A message that was accepted can be delivered again: the second delivery gives the same
  reply and changes nothing but the election deadline and the wake-up flag of the apply loop; in
  particular it writes nothing to the storage.\<close>

theorem append_duplicate_harmless:
  assumes "log_ok n" "commit_ok n" "args_ok args" "no_conflict n (aeEntries args)"
    and "handleAppendEntries ops e args n = Some (n', Inr rep)" "arSuccess rep"
  shows "\<exists>w. handleAppendEntries ops e' args n' =
    Some ((resetElectionDeadlineLocked e' n')\<lparr>applyWake := w\<rparr>, Inr rep)"
  using assms by (rule append_again)

theorem append_duplicate_harmless_witness:
  "\<exists>w. handleAppendEntries MemoryStorage_ops wit_env wit_append wit_follower =
     Some ((resetElectionDeadlineLocked wit_env wit_follower)\<lparr>applyWake := w\<rparr>, Inr (ae_success wit_follower))"
  by (rule append_duplicate_harmless [OF wit_node_ok(1-4) wit_follower_run])

text \<open>The append loop, which walks the log index by index, truncates at the first
  disagreement and appends the rest, leaves exactly the merge of the reference: the entries that
  agree are kept (also beyond the message), from the first disagreement on the message's entries
  replace the log. The only exception is a node that a failing truncation has disabled.\<close>

theorem append_loop_is_merge:
  assumes "log_ok n" "\<not> failed n" "lastIncludedIndex n < idx" "idx \<le> last_index n + 1"
  shows "\<exists>n'. append_loop ops idx es n = Some n' \<and>
    (failed n' \<or> nlog n' = take (idx - lastIncludedIndex n) (nlog n) @
                       merge_entries (drop (idx - lastIncludedIndex n) (nlog n)) es)"
  using append_loop_merge [OF assms, of ops es] by (auto simp: log_write_def)

theorem append_loop_is_merge_witness:
  "\<exists>n'. append_loop MemoryStorage_ops 2 (aeEntries wit_append) wit_node = Some n' \<and>
     (failed n' \<or> nlog n' = [boundary_entry 0 0, wit_entry 1 1, wit_entry 1 2, wit_entry 3 3, wit_entry 3 4])"
proof -
  have "lastIncludedIndex wit_node < 2" "2 \<le> last_index wit_node + 1"
    "take (2 - lastIncludedIndex wit_node) (nlog wit_node) @
       merge_entries (drop (2 - lastIncludedIndex wit_node) (nlog wit_node)) (aeEntries wit_append) =
     [boundary_entry 0 0, wit_entry 1 1, wit_entry 1 2, wit_entry 3 3, wit_entry 3 4]"
    by code_simp+
  then show ?thesis
    using append_loop_is_merge [OF wit_node_ok(1,5), of 2 MemoryStorage_ops "aeEntries wit_append"] by metis
qed

section \<open>InstallSnapshot\<close>

text \<open>C19: a snapshot from a leader that agrees with what this node committed never panics and
  keeps log and indices in order; commit index, applied index and term only grow, whether the
  storage fails or not.\<close>

theorem install_snapshot_safe:
  assumes "log_ok n" "commit_ok n" "snapshot_agrees n args"
  shows "\<exists>n' r. handleInstallSnapshot ops e args n = Some (n', r) \<and> log_ok n' \<and> commit_ok n' \<and>
    commitIndex n \<le> commitIndex n' \<and> lastApplied n \<le> lastApplied n' \<and> currentTerm n \<le> currentTerm n'"
  using assms by (rule handleInstallSnapshot_ok)

definition wit_install :: InstallSnapshotArgs where
  "wit_install = \<lparr>isTerm = 3, isLeaderID = ''n3'', isLastIncludedIndex = 2, isLastIncludedTerm = 1,
     isData = [7, 8]\<rparr>"

theorem install_snapshot_safe_witness:
  "\<exists>n' r. handleInstallSnapshot MemoryStorage_ops wit_env wit_install wit_node = Some (n', r) \<and>
     log_ok n' \<and> commit_ok n' \<and> 2 \<le> currentTerm n'"
proof -
  have "snapshot_agrees wit_node wit_install" "currentTerm wit_node = 2" by code_simp+
  then show ?thesis
    using install_snapshot_safe [OF wit_node_ok(1,2), of wit_install MemoryStorage_ops wit_env] by fastforce
qed

section \<open>The leader\<close>

text \<open>C14: the leader's commit rule. The scan from the last index down moves the commit index to
  the highest index that is of the leader's own term and stored on a majority of the match
  indices (counting the leader), and leaves it alone when there is none or the node is not the
  leader; it never panics.\<close>

theorem commit_rule:
  assumes "log_ok n" "commit_ok n"
  shows "\<exists>c. maybeAdvanceCommitLocked n =
      Some (if c = commitIndex n then n else notifyApply (n\<lparr>commitIndex := c\<rparr>)) \<and>
    commitIndex n \<le> c \<and> c \<le> last_index n \<and> (c = commitIndex n \<or> role n = Leader \<and> committable n c) \<and>
    (role n = Leader \<longrightarrow> (\<forall>j > c. \<not> committable n j))"
  using assms by (rule maybeAdvance_spec)

text \<open>The leader of term 2: ''n2'' has stored all, ''n3'' the first entry.\<close>

definition wit_leader :: "MemoryStorage Node" where
  "wit_leader = wit_node\<lparr>role := Leader, leaderID := ''n1'', nextIndex := [''n2'' \<mapsto> 4, ''n3'' \<mapsto> 2],
     matchIndex := [''n2'' \<mapsto> 3, ''n3'' \<mapsto> 1]\<rparr>"

lemma wit_leader_ok: "log_ok wit_leader" "commit_ok wit_leader" "progress_ok wit_leader"
  by code_simp+

theorem commit_rule_witness:
  "maybeAdvanceCommitLocked wit_leader = Some (notifyApply (wit_leader\<lparr>commitIndex := 3\<rparr>))"
proof -
  have w: "committable wit_leader 3" "\<not> committable wit_leader 0" "\<not> committable wit_leader 1"
    "\<not> committable wit_leader 2" "last_index wit_leader = 3" "role wit_leader = Leader" "commitIndex wit_leader = 1"
    by code_simp+
  obtain c where c: "maybeAdvanceCommitLocked wit_leader =
      Some (if c = commitIndex wit_leader then wit_leader else notifyApply (wit_leader\<lparr>commitIndex := c\<rparr>))"
    "c \<le> 3" "\<forall>j > c. \<not> committable wit_leader j"
    using commit_rule [OF wit_leader_ok(1,2)] w by auto
  then have "c = 3" using w(1) by (metis le_neq_implies_less)
  then show ?thesis using c w by simp
qed

text \<open>A proposal. Only a working leader accepts one; the accepted command becomes the last
  entry of the leader's log, with the returned index and the leader's term, and nothing before
  it changes. A refused proposal on a follower or disabled node changes nothing at all.\<close>

theorem propose_appends:
  assumes "log_ok n" "commit_ok n"
  shows "\<exists>n' idx trm ldr. Propose ops command n = Some (n', idx, trm, ldr) \<and> log_ok n' \<and> commit_ok n' \<and>
    commitIndex n \<le> commitIndex n' \<and>
    (ldr \<longleftrightarrow> role n = Leader \<and> \<not> failed n \<and> \<not> failed n') \<and>
    (ldr \<longrightarrow> idx = last_index n + 1 \<and> trm = currentTerm n \<and> last_index n' = idx \<and>
       nlog n' = nlog n @ [\<lparr>eTerm = trm, eIndex = idx, eCommand = command\<rparr>]) \<and>
    (\<not> ldr \<longrightarrow> idx = 0 \<and> trm = 0 \<and> (failed n \<or> role n \<noteq> Leader \<longrightarrow> n' = n))"
  using assms by (rule Propose_ok)

theorem propose_appends_witness:
  "\<exists>n' idx trm ldr. Propose MemoryStorage_ops [5] wit_leader = Some (n', idx, trm, ldr) \<and> log_ok n' \<and>
     (ldr \<longrightarrow> idx = 4 \<and> last_index n' = 4)"
proof -
  have "last_index wit_leader = 3" by code_simp
  then show ?thesis
    using propose_appends [OF wit_leader_ok(1,2), of MemoryStorage_ops "[5]"] by force
qed

text \<open>What a leader sends fits what a receiver expects: the previous index and term are the
  leader's own, the entries are the rest of its log with consecutive indices and rising terms,
  and reading them never panics, for every next index the replies can have set.\<close>

theorem replicate_well_formed:
  assumes "log_ok n" "commit_ok n" "progress_ok n" "p \<in> set (peers n)"
  shows "\<exists>s. replicateToPeer p trm i n = Some s \<and> (\<forall>args. s = SendAppend args \<longrightarrow>
    role n = Leader \<and> trm = currentTerm n \<and> args_ok args \<and> aeTerm args = trm \<and> aeLeaderID args = i \<and>
    lastIncludedIndex n \<le> aePrevLogIndex args \<and>
    termAtLocked n (aePrevLogIndex args) = Some (aePrevLogTerm args) \<and>
    aeEntries args = drop (aePrevLogIndex args + 1 - lastIncludedIndex n) (nlog n) \<and>
    aePrevLogIndex args + length (aeEntries args) = last_index n \<and>
    aeLeaderCommit args = commitIndex n)"
  using assms by (rule replicateToPeer_ok)

theorem replicate_well_formed_witness:
  "\<exists>s. replicateToPeer ''n3'' 2 ''n1'' wit_leader = Some s \<and>
     (\<forall>args. s = SendAppend args \<longrightarrow> args_ok args \<and> aeLeaderCommit args = 1)"
proof -
  have "''n3'' \<in> set (peers wit_leader)" "commitIndex wit_leader = 1" by code_simp+
  then show ?thesis
    using replicate_well_formed [OF wit_leader_ok, of "''n3''" 2 "''n1''"] by force
qed

text \<open>Digesting the reply keeps the leader's bookkeeping in range: next and match index of
  every peer stay within the log, log and indices stay in order, the commit index never moves
  back, and neither the fast backup nor the commit rule panics.\<close>

theorem append_reply_safe:
  assumes "log_ok n" "commit_ok n" "progress_ok n"
    and "arSuccess reply \<Longrightarrow> trm = currentTerm n \<Longrightarrow> prevIndex + k \<le> last_index n"
    and "\<not> arSuccess reply \<Longrightarrow> trm = currentTerm n \<Longrightarrow> arConflictIndex reply \<le> last_index n + 1"
  shows "\<exists>n'. appendReply ops p trm prevIndex k reply n = Some n' \<and> log_ok n' \<and> commit_ok n' \<and> progress_ok n' \<and>
    commitIndex n \<le> commitIndex n' \<and> nlog n' = nlog n"
  using assms by (rule appendReply_ok)

theorem append_reply_safe_witness:
  "\<exists>n'. appendReply MemoryStorage_ops ''n3'' 2 1 2 (ae_success wit_leader) wit_leader = Some n' \<and>
     log_ok n' \<and> commit_ok n' \<and> progress_ok n' \<and> 1 \<le> commitIndex n'"
proof -
  have w: "last_index wit_leader = 3" "arSuccess (ae_success wit_leader)" "commitIndex wit_leader = 1"
    by code_simp+
  show ?thesis
    using append_reply_safe [OF wit_leader_ok, of "ae_success wit_leader" 2 1 2 MemoryStorage_ops "''n3''"] w by auto
qed

section \<open>Snapshots of the own state machine\<close>

text \<open>Compacting the log behind an applied index loses nothing a peer can ask for: every
  entry beyond the new boundary is unchanged, the terms from the boundary on are unchanged, no
  index moves, and the boundary never moves back.\<close>

theorem snapshot_keeps_tail:
  assumes "log_ok n" "commit_ok n"
  shows "\<exists>n' r. Snapshot ops index data n = Some (n', r) \<and> log_ok n' \<and> commit_ok n' \<and>
    last_index n' = last_index n \<and> commitIndex n' = commitIndex n \<and> lastApplied n' = lastApplied n \<and>
    lastIncludedIndex n \<le> lastIncludedIndex n' \<and>
    (\<forall>i \<ge> lastIncludedIndex n'. termAtLocked n' i = termAtLocked n i) \<and>
    (\<forall>i > lastIncludedIndex n'. entryAtLocked n' i = entryAtLocked n i) \<and>
    (\<not> failed n \<and> r = None \<and> lastIncludedIndex n < index \<longrightarrow> lastIncludedIndex n' = index \<and> snapshotData n' = data)"
  using assms by (rule Snapshot_ok)

theorem snapshot_keeps_tail_witness:
  "\<exists>n' r. Snapshot MemoryStorage_ops 1 [9] wit_leader = Some (n', r) \<and> log_ok n' \<and> last_index n' = 3"
proof -
  have "last_index wit_leader = 3" by code_simp
  then show ?thesis
    using snapshot_keeps_tail [OF wit_leader_ok(1,2), of MemoryStorage_ops 1 "[9]"] by force
qed

end
