(* ===== verification/Raft_Apply.thy ===== *)
theory Raft_Apply
  imports Raft_Leader
begin

text \<open>
  The apply loop of a node (\<open>applyLoop\<close> in src/internal/raft/node.go), the only writer of the apply
  channel. The goroutine's position is an \<open>ApplyPc\<close>; \<open>apply_section\<close> is one critical section, or
  one attempt to send or to wait. Sending blocks while the channel holds its 64 messages.
\<close>

definition applyCh_capacity :: nat where "applyCh_capacity = 64"

datatype ApplyPc =
    ApplyTop \<comment> \<open>at the head of the loop\<close>
  | ApplySend ApplyMsg bool \<comment> \<open>at the channel send, in the batch loop or not\<close>
  | ApplyBatch \<comment> \<open>back in the batch loop after a send\<close>
  | ApplyWait \<comment> \<open>waiting for a wake-up\<close>
  | ApplyDone

definition apply_batch :: "'s Node \<Rightarrow> (ApplyPc \<times> 's Node) option" where
  "apply_batch n =
     (if lastApplied n < commitIndex n
      then do {
        entry \<leftarrow> entryAtLocked n (lastApplied n + 1);
        Some (ApplySend (command_msg entry) True, n\<lparr>lastApplied := lastApplied n + 1\<rparr>)
      }
      else Some (ApplyWait, n))"

fun apply_section :: "ApplyPc \<Rightarrow> 's Node \<Rightarrow> (ApplyPc \<times> 's Node) option" where
  "apply_section ApplyTop n =
     (case pendingSnapshot n of
        Some msg \<Rightarrow> Some (ApplySend msg False, n\<lparr>pendingSnapshot := None\<rparr>)
      | None \<Rightarrow> apply_batch n)"
| "apply_section (ApplySend msg batch) n =
     (if length (applyCh n) < applyCh_capacity
      then Some (if batch then ApplyBatch else ApplyTop, n\<lparr>applyCh := applyCh n @ [msg]\<rparr>)
      else Some (ApplySend msg batch, n))"
| "apply_section ApplyBatch n =
     (if pendingSnapshot n \<noteq> None then Some (ApplyWait, n) else apply_batch n)"
| "apply_section ApplyWait n =
     (if applyWake n then Some (ApplyTop, n\<lparr>applyWake := False\<rparr>) else Some (ApplyWait, n))"
| "apply_section ApplyDone n = Some (ApplyDone, n)"

text \<open>Once \<open>Stop\<close> has closed the stop channel, the loop may leave where it selects on it.\<close>

fun apply_stop :: "ApplyPc \<Rightarrow> ApplyPc" where
  "apply_stop (ApplySend msg batch) = ApplyDone"
| "apply_stop ApplyWait = ApplyDone"
| "apply_stop pc = pc"

text \<open>The reader of the channel.\<close>

definition apply_receive :: "'s Node \<Rightarrow> (ApplyMsg \<times> 's Node) option" where
  "apply_receive n = (case applyCh n of [] \<Rightarrow> None | m # ms \<Rightarrow> Some (m, n\<lparr>applyCh := ms\<rparr>))"

section \<open>The loop never panics and keeps the indices in order\<close>

definition apply_frame :: "'s Node \<Rightarrow> 's Node \<Rightarrow> bool" where
  "apply_frame n n' \<longleftrightarrow> (\<exists>a p c w. n' = n\<lparr>lastApplied := a, pendingSnapshot := p, applyCh := c, applyWake := w\<rparr> \<and>
     lastApplied n \<le> a \<and> a \<le> max (lastApplied n) (commitIndex n))"

lemma apply_frame_refl [simp]: "apply_frame n n"
  unfolding apply_frame_def
  by (rule exI [of _ "lastApplied n"], rule exI [of _ "pendingSnapshot n"], rule exI [of _ "applyCh n"],
      rule exI [of _ "applyWake n"]) simp

lemma apply_frameI:
  assumes "n' = n\<lparr>lastApplied := a, pendingSnapshot := p, applyCh := c, applyWake := w\<rparr>"
    "lastApplied n \<le> a" "a \<le> max (lastApplied n) (commitIndex n)"
  shows "apply_frame n n'"
  using assms unfolding apply_frame_def by blast

lemma apply_batch_frame:
  "apply_batch n = Some (pc', n') \<Longrightarrow> apply_frame n n'"
  by (auto simp: apply_batch_def split: if_splits
      intro: apply_frameI [where a = "lastApplied n + 1" and p = "pendingSnapshot n" and c = "applyCh n" and w = "applyWake n"])

lemma apply_section_frame:
  "apply_section pc n = Some (pc', n') \<Longrightarrow> apply_frame n n'"
proof (induction pc n rule: apply_section.induct)
  case (1 n)
  then show ?case
    by (auto simp: apply_batch_frame split: option.splits
      intro: apply_frameI [where a = "lastApplied n" and p = None and c = "applyCh n" and w = "applyWake n"])
next
  case (2 msg batch n)
  then show ?case
    by (auto split: if_splits
      intro: apply_frameI [where a = "lastApplied n" and p = "pendingSnapshot n" and c = "applyCh n @ [msg]" and w = "applyWake n"])
next
  case (3 n)
  then show ?case by (auto simp: apply_batch_frame split: if_splits)
next
  case (4 n)
  then show ?case
    by (auto split: if_splits
      intro: apply_frameI [where a = "lastApplied n" and p = "pendingSnapshot n" and c = "applyCh n" and w = False])
qed simp

lemma apply_frame_ok:
  assumes "apply_frame n n'"
  shows "log_ok n \<Longrightarrow> log_ok n'" "commit_ok n \<Longrightarrow> commit_ok n'"
  using assms by (auto simp: apply_frame_def log_ok_def commit_ok_def last_index_def)

lemma apply_section_returns:
  assumes "log_ok n" "commit_ok n"
  shows "\<exists>pc' n'. apply_section pc n = Some (pc', n') \<and> log_ok n' \<and> commit_ok n'"
proof -
  have "\<exists>r. apply_batch n = Some r"
    using assms entryAtLocked_ok [OF assms(1), of "lastApplied n + 1"]
    by (auto simp: apply_batch_def commit_ok_def)
  then have "\<exists>r. apply_section pc n = Some r"
    by (cases pc) (auto split: option.splits)
  then show ?thesis
    using apply_frame_ok [OF apply_section_frame] assms by fast
qed

end
