(* ===== verification/Raft_Hard.thy ===== *)
theory Raft_Hard
  imports Raft_Apply Memory_Storage
begin

text \<open>
  The durable half of voting. \<open>hard_storage\<close> is what a node relies on when it persists its term and
  vote before it answers: a successful \<open>SaveHardState\<close> installs the pair, a failing one leaves the
  old or the new pair, nothing else touches it and \<open>Load\<close> returns it. \<open>hs\<close> reads the pair off a
  store; \<open>fits\<close> bounds what a store can hold (an implementation cuts terms to 64 bits).

  Inside the locale every operation of the node is shown to be a \<open>quiet\<close> step: the pair on the
  store moves only upwards (\<open>evolves\<close>), it is the pair in memory as long as the node works, and
  the operation makes nobody a leader.
\<close>

definition evolves :: "nat \<times> node_id \<Rightarrow> nat \<times> node_id \<Rightarrow> bool" where
  "evolves h h' \<longleftrightarrow> fst h < fst h' \<or> fst h = fst h' \<and> (snd h = [] \<or> snd h = snd h')"

lemma evolves_refl [simp]: "evolves h h"
  by (simp add: evolves_def)

lemma evolves_trans: "evolves a b \<Longrightarrow> evolves b c \<Longrightarrow> evolves a c"
  by (auto simp: evolves_def)

lemma evolves_term: "evolves h h' \<Longrightarrow> fst h \<le> fst h'"
  by (auto simp: evolves_def)

lemma commit_scan_shape:
  "commit_scan n i = Some n' \<Longrightarrow> n' = n \<or> (\<exists>c. n' = notifyApply (n\<lparr>commitIndex := c\<rparr>))"
  by (induction n i rule: commit_scan.induct) (auto split: if_splits)

locale hard_storage =
  fixes ops :: "'s Storage"
    and sinv :: "'s \<Rightarrow> bool"
    and hs :: "'s \<Rightarrow> nat \<times> node_id"
    and fits :: "nat \<Rightarrow> node_id \<Rightarrow> bool"
  assumes fits_nobody: "fits t v \<Longrightarrow> fits t []"
    and save_ok: "sinv s \<Longrightarrow> fits t v \<Longrightarrow> SaveHardState ops s t v = (s', None) \<Longrightarrow> sinv s' \<and> hs s' = (t, v)"
    and save_err: "sinv s \<Longrightarrow> fits t v \<Longrightarrow> SaveHardState ops s t v = (s', Some e) \<Longrightarrow>
      sinv s' \<and> (hs s' = hs s \<or> hs s' = (t, v))"
    and append_hs: "sinv s \<Longrightarrow> AppendLog ops s es = (s', r) \<Longrightarrow> sinv s' \<and> hs s' = hs s"
    and truncate_hs: "sinv s \<Longrightarrow> TruncateLog ops s i = (s', r) \<Longrightarrow> sinv s' \<and> hs s' = hs s"
    and snapshot_hs: "sinv s \<Longrightarrow> SaveSnapshot ops s i t d = (s', r) \<Longrightarrow> sinv s' \<and> hs s' = hs s"
    and load_hs: "sinv s \<Longrightarrow> Load ops s = (s', res) \<Longrightarrow> sinv s' \<and> hs s' = hs s \<and>
      (\<forall>ps. res = Inr ps \<longrightarrow> (psCurrentTerm ps, psVotedFor ps) = hs s)"
begin

definition hard_ok :: "'s Node \<Rightarrow> bool" where
  "hard_ok n \<longleftrightarrow> sinv (storage n) \<and> (\<not> failed n \<longrightarrow> hs (storage n) = (currentTerm n, votedFor n))"

definition same_id :: "'s Node \<Rightarrow> 's Node \<Rightarrow> bool" where
  "same_id n n' \<longleftrightarrow> nid n' = nid n \<and> peers n' = peers n"

definition hard_step :: "'s Node \<Rightarrow> 's Node \<Rightarrow> bool" where
  "hard_step n n' \<longleftrightarrow> hard_ok n' \<and> evolves (hs (storage n)) (hs (storage n')) \<and> same_id n n' \<and>
     (failed n \<longrightarrow> failed n') \<and> currentTerm n \<le> currentTerm n'"

definition quiet :: "'s Node \<Rightarrow> 's Node \<Rightarrow> bool" where
  "quiet n n' \<longleftrightarrow> hard_step n n' \<and> (role n' = Leader \<longrightarrow> role n = Leader \<and> currentTerm n' = currentTerm n)"

lemma hard_step_trans: "hard_step a b \<Longrightarrow> hard_step b c \<Longrightarrow> hard_step a c"
  by (auto simp: hard_step_def same_id_def elim: evolves_trans)

lemma quiet_trans: "quiet a b \<Longrightarrow> quiet b c \<Longrightarrow> quiet a c"
  unfolding quiet_def by (metis hard_step_trans)

lemma quietD: "quiet n n' \<Longrightarrow> hard_ok n'"
  by (simp add: quiet_def hard_step_def)

lemma quietI:
  assumes "hard_ok n" "nid n' = nid n" "peers n' = peers n" "currentTerm n' = currentTerm n" "votedFor n' = votedFor n"
    "sinv (storage n')" "hs (storage n') = hs (storage n)" "failed n \<longrightarrow> failed n'"
    "role n' = Leader \<Longrightarrow> role n = Leader"
  shows "quiet n n'"
  using assms by (auto simp: quiet_def hard_step_def hard_ok_def same_id_def)

lemma quiet_refl: "hard_ok n \<Longrightarrow> quiet n n"
  by (rule quietI) (auto simp: hard_ok_def)

section \<open>Writes\<close>

lemma save_hard:
  assumes n: "hard_ok n" "\<not> failed n" and f: "fits t v"
    and e: "evolves (currentTerm n, votedFor n) (t, v)"
  shows "hard_step n (saveHardStateLocked ops t v n)"
    and "\<not> failed (saveHardStateLocked ops t v n) \<Longrightarrow> hs (storage (saveHardStateLocked ops t v n)) = (t, v)"
proof -
  have s: "sinv (storage n)" "hs (storage n) = (currentTerm n, votedFor n)" using n by (auto simp: hard_ok_def)
  have le: "currentTerm n \<le> t" using evolves_term [OF e] by simp
  obtain st r where st: "SaveHardState ops (storage n) t v = (st, r)" by (cases "SaveHardState ops (storage n) t v")
  have *: "hard_step n (saveHardStateLocked ops t v n) \<and>
    (\<not> failed (saveHardStateLocked ops t v n) \<longrightarrow> hs (storage (saveHardStateLocked ops t v n)) = (t, v))"
  proof (cases r)
    case None
    then have "sinv st \<and> hs st = (t, v)" using save_ok [OF s(1) f] st by simp
    then show ?thesis using st None n s e le
      by (simp add: saveHardStateLocked_def Let_def hard_step_def hard_ok_def same_id_def)
  next
    case (Some err)
    then have "sinv st \<and> (hs st = hs (storage n) \<or> hs st = (t, v))" using save_err [OF s(1) f] st by simp
    then show ?thesis using st Some n s e le
      by (auto simp: saveHardStateLocked_def disableLocked_def Let_def hard_step_def hard_ok_def same_id_def)
  qed
  then show "hard_step n (saveHardStateLocked ops t v n)"
    "\<not> failed (saveHardStateLocked ops t v n) \<Longrightarrow> hs (storage (saveHardStateLocked ops t v n)) = (t, v)" by auto
qed

lemma quiet_append: "hard_ok n \<Longrightarrow> quiet n (appendLogLocked ops es n)"
  using append_hs [of "storage n" es]
  by (auto simp: appendLogLocked_def disableLocked_def hard_ok_def Let_def split: prod.splits option.splits
      intro!: quietI)

lemma quiet_truncate:
  assumes n: "hard_ok n" and h: "truncateLogLocked ops i n = Some n'"
  shows "quiet n n'"
proof -
  obtain st r where st: "TruncateLog ops (storage n) i = (st, r)" by (cases "TruncateLog ops (storage n) i")
  then have "sinv st" "hs st = hs (storage n)" using truncate_hs [OF _ st] n by (auto simp: hard_ok_def)
  then have "quiet n (n\<lparr>nlog := l, storage := st\<rparr>)" "quiet n (disableLocked err (n\<lparr>nlog := l, storage := st\<rparr>))" for l err
    using n by (auto simp: disableLocked_def hard_ok_def intro!: quietI)
  moreover have "\<exists>l err. n' = n\<lparr>nlog := l, storage := st\<rparr> \<or> n' = disableLocked err (n\<lparr>nlog := l, storage := st\<rparr>)"
    using h st by (cases r) (auto simp: truncateLogLocked_def Let_def)
  ultimately show ?thesis by auto
qed

lemma quiet_reset: "hard_ok n \<Longrightarrow> quiet n (resetElectionDeadlineLocked e n)"
  by (rule quietI) (auto simp: hard_ok_def)

lemma quiet_follower:
  assumes "hard_ok n" "\<not> failed n" "fits t v" "t > currentTerm n \<or> role n \<noteq> Leader"
  shows "quiet n (becomeFollowerLocked ops t n)"
proof -
  have r: "quiet n (n\<lparr>role := Follower\<rparr>)" using assms(1) by (intro quietI) (auto simp: hard_ok_def)
  have "hard_step (n\<lparr>role := Follower\<rparr>) (saveHardStateLocked ops t [] (n\<lparr>role := Follower\<rparr>))" if "currentTerm n < t"
    using quietD [OF r] assms that fits_nobody [OF assms(3)] by (intro save_hard) (auto simp: evolves_def)
  then show ?thesis
    using r by (auto simp: becomeFollowerLocked_def Let_def quiet_def intro: hard_step_trans)
qed

lemma quiet_fail_save:
  assumes n: "hard_ok n" and s: "SaveSnapshot ops (storage n) i t d = (st, r)"
  shows "quiet n (disableLocked err (n\<lparr>storage := st\<rparr>))"
  using snapshot_hs [OF _ s] n by (intro quietI) (auto simp: disableLocked_def hard_ok_def)

section \<open>The handlers\<close>

lemma quiet_accept:
  assumes n: "hard_ok n" "\<not> failed n" and t: "currentTerm n \<le> trm" and f: "fits trm v"
  shows "quiet n (acceptLeader ops e trm leader n)"
proof -
  define n1 where "n1 = (if trm > currentTerm n then becomeFollowerLocked ops trm n
                else if role n = Candidate then n\<lparr>role := Follower\<rparr> else n)"
  have "quiet n (n\<lparr>role := Follower\<rparr>)" using n(1) by (intro quietI) (auto simp: hard_ok_def)
  then have q1: "quiet n n1"
    using quiet_follower [OF n f] n quiet_refl [OF n(1)] by (simp add: n1_def)
  have "quiet n1 (resetElectionDeadlineLocked e (n1\<lparr>leaderID := leader\<rparr>))"
    using quietD [OF q1] by (intro quietI) (auto simp: hard_ok_def)
  then show ?thesis
    using q1 quiet_trans unfolding acceptLeader_def n1_def [symmetric] Let_def by auto
qed

lemma quiet_append_loop:
  "hard_ok n \<Longrightarrow> append_loop ops idx es n = Some n' \<Longrightarrow> quiet n n'"
proof (induction es arbitrary: idx)
  case Nil
  then show ?case by (simp add: quiet_refl)
next
  case (Cons x es)
  consider (same) "append_loop ops (idx + 1) es n = Some n'"
    | (cut) n1 where "truncateLogLocked ops idx n = Some n1 \<or> n1 = n"
        "n' = n1 \<or> n' = appendLogLocked ops (x # es) n1"
    using Cons.prems(2) by (auto split: if_splits)
  then show ?case
  proof cases
    case same
    then show ?thesis using Cons.IH Cons.prems(1) by blast
  next
    case cut
    then have "quiet n n1" using quiet_truncate [OF Cons.prems(1)] quiet_refl [OF Cons.prems(1)] by blast
    then show ?thesis using cut(2) quiet_append [OF quietD] quiet_trans by blast
  qed
qed

lemma quiet_commit:
  "hard_ok n \<Longrightarrow> quiet n (notifyApply (n\<lparr>commitIndex := c\<rparr>))"
  by (rule quietI) (auto simp: hard_ok_def notifyApply_def)

lemma quiet_reconcile:
  assumes "hard_ok n" "ae_reconcile ops p t es lc n = Some (n', r)"
  shows "quiet n n'"
proof -
  consider "n' = n" | (loop) n1 where "append_loop ops (p + 1) es n = Some n1"
      "n' = n1 \<or> (\<exists>c. n' = notifyApply (n1\<lparr>commitIndex := c\<rparr>))"
    using assms(2) by (auto simp: ae_reconcile_def Let_def split: if_splits)
  then show ?thesis
  proof cases
    case loop
    note q = quiet_append_loop [OF assms(1) loop(1)]
    then show ?thesis using loop(2) quiet_commit [OF quietD [OF q]] quiet_trans [OF q] by auto
  qed (simp add: quiet_refl [OF assms(1)])
qed

lemma quiet_AppendEntries:
  assumes n: "hard_ok n" and f: "fits (aeTerm args) v" and h: "handleAppendEntries ops e args n = Some (n', r)"
  shows "quiet n n'"
proof (cases "failed n \<or> aeTerm args < currentTerm n")
  case True
  then show ?thesis using h quiet_refl [OF n] by (auto simp: handleAppendEntries_def Let_def split: if_splits)
next
  case False
  let ?n1 = "acceptLeader ops e (aeTerm args) (aeLeaderID args) n"
  have q: "quiet n ?n1" using False by (intro quiet_accept [OF n _ _ f]) auto
  have "n' = ?n1 \<or> (\<exists>p t es. ae_reconcile ops p t es (aeLeaderCommit args) ?n1 = Some (n', r))"
    using h False by (auto simp: handleAppendEntries_eq Let_def split: if_splits)
  then show ?thesis using q quiet_reconcile [OF quietD [OF q]] quiet_trans [OF q] by blast
qed

lemma quiet_InstallSnapshot:
  assumes n: "hard_ok n" and f: "fits (isTerm args) v" and h: "handleInstallSnapshot ops e args n = Some (n', r)"
  shows "quiet n n'"
proof (cases "failed n \<or> isTerm args < currentTerm n")
  case True
  then show ?thesis using h quiet_refl [OF n] by (auto simp: handleInstallSnapshot_def Let_def split: if_splits)
next
  case False
  define n1 where "n1 = acceptLeader ops e (isTerm args) (isLeaderID args) n"
  have q: "quiet n n1" unfolding n1_def using False by (intro quiet_accept [OF n _ _ f]) auto
  note n1 = quietD [OF q]
  obtain st res where s: "SaveSnapshot ops (storage n1) (isLastIncludedIndex args) (isLastIncludedTerm args) (isData args) = (st, res)"
    by (cases "SaveSnapshot ops (storage n1) (isLastIncludedIndex args) (isLastIncludedTerm args) (isData args)")
  have ok: "quiet n1 (notifyApply (n1\<lparr>storage := st, nlog := l, lastIncludedIndex := a, lastIncludedTerm := b,
      snapshotData := d, commitIndex := c, lastApplied := la, pendingSnapshot := ps\<rparr>))" for l a b d c la ps
    using snapshot_hs [OF _ s] n1 by (intro quietI) (auto simp: notifyApply_def hard_ok_def)
  have "n' = n1 \<or> quiet n1 n'"
    using h False s ok quiet_fail_save [OF n1 s]
    by (auto simp: handleInstallSnapshot_def Let_def n1_def [symmetric] split: if_splits option.splits)
  then show ?thesis using q quiet_trans [OF q] by blast
qed

text \<open>A granted vote is on the store, and the candidate's log was recent enough.\<close>

lemma quiet_RequestVote:
  assumes n: "hard_ok n" and f: "fits (rvTerm args) v" "fits (rvTerm args) (rvCandidateID args)"
    and h: "handleRequestVote ops e args n = Some (n', r)"
  shows "quiet n n'"
    and "r = Inr rep \<Longrightarrow> rrVoteGranted rep \<Longrightarrow> hs (storage n') = (rvTerm args, rvCandidateID args) \<and> \<not> failed n'"
proof -
  define n1 where "n1 = (if rvTerm args > currentTerm n then becomeFollowerLocked ops (rvTerm args) n else n)"
  have nf: "failed n \<Longrightarrow> n' = n \<and> r = Inl (failErr n)" using h by (auto simp: handleRequestVote_def)
  have q: "quiet n n1" if "\<not> failed n"
    unfolding n1_def using quiet_follower [OF n that f(1)] quiet_refl [OF n] by auto
  have all: "quiet n n' \<and> (\<forall>rep. r = Inr rep \<longrightarrow> rrVoteGranted rep \<longrightarrow>
      hs (storage n') = (rvTerm args, rvCandidateID args) \<and> \<not> failed n')"
  proof (cases "failed n")
    case True
    then show ?thesis using nf quiet_refl [OF n] by simp
  next
    case False
    note q1 = q [OF False]
    define n2 where "n2 = saveHardStateLocked ops (currentTerm n1) (rvCandidateID args) n1"
    have t1: "rvTerm args \<le> currentTerm n1" by (simp add: n1_def)
    consider (same) "n' = n1" "\<forall>rep. r = Inr rep \<longrightarrow> \<not> rrVoteGranted rep"
      | (grant) "\<not> failed n1" "\<not> rvTerm args < currentTerm n1" "votedFor n1 = [] \<or> votedFor n1 = rvCandidateID args"
          "n' = n2 \<and> failed n2 \<and> (\<exists>err. r = Inl err) \<or> \<not> failed n2 \<and> n' = resetElectionDeadlineLocked e n2"
      using h False unfolding handleRequestVote_def n1_def [symmetric] n2_def [symmetric] Let_def
      by (auto split: if_splits)
    then show ?thesis
    proof cases
      case same
      then show ?thesis using q1 by simp
    next
      case grant
      have ct: "currentTerm n1 = rvTerm args" using grant(2) t1 by simp
      have ev: "evolves (currentTerm n1, votedFor n1) (currentTerm n1, rvCandidateID args)"
        using grant(3) by (auto simp: evolves_def)
      have fit: "fits (currentTerm n1) (rvCandidateID args)" using f(2) ct by simp
      note sv = save_hard [OF quietD [OF q1] grant(1) fit ev, folded n2_def]
      have role2: "role n2 = role n1" "currentTerm n2 = currentTerm n1" by (simp_all add: n2_def)
      have q2: "quiet n1 n2" using sv(1) role2 by (simp add: quiet_def)
      have "quiet n2 (resetElectionDeadlineLocked e n2)" by (rule quiet_reset [OF quietD [OF q2]])
      then have "quiet n n'" using grant(4) q1 q2 by (metis quiet_trans)
      then show ?thesis using grant(4) sv(2) ct by auto
    qed
  qed
  then show "quiet n n'" by simp
  show "r = Inr rep \<Longrightarrow> rrVoteGranted rep \<Longrightarrow> hs (storage n') = (rvTerm args, rvCandidateID args) \<and> \<not> failed n'"
    using all by blast
qed

section \<open>The client side\<close>

lemma quiet_maybeAdvance:
  assumes n: "hard_ok n" and h: "maybeAdvanceCommitLocked n = Some n'"
  shows "quiet n n'"
  using h commit_scan_shape [of n _ n'] quiet_commit [OF n] quiet_refl [OF n]
  by (auto simp: maybeAdvanceCommitLocked_def split: if_splits)

lemma quiet_Propose:
  assumes n: "hard_ok n" and h: "Propose ops c n = Some (n', rest)"
  shows "quiet n n'"
proof -
  consider "n' = n" | (app) m where "quiet n m" "n' = m \<or> maybeAdvanceCommitLocked m = Some n'"
    using h quiet_append [OF n] by (auto simp: Propose_def Let_def split: if_splits)
  then show ?thesis
    by cases (use quiet_refl [OF n] quiet_maybeAdvance quietD quiet_trans in blast)+
qed

lemma quiet_Snapshot:
  assumes n: "hard_ok n" and h: "Snapshot ops i d n = Some (n', r)"
  shows "quiet n n'"
proof -
  have ok: "quiet n (n\<lparr>storage := fst (SaveSnapshot ops (storage n) i t d), nlog := l, lastIncludedIndex := i,
      lastIncludedTerm := t, snapshotData := d\<rparr>)" for t l
    using snapshot_hs [OF _ prod.collapse [symmetric], of "storage n" i t d] n by (intro quietI) (auto simp: hard_ok_def)
  have err: "quiet n (disableLocked er (n\<lparr>storage := fst (SaveSnapshot ops (storage n) i t d)\<rparr>))" for t er
    by (rule quiet_fail_save [OF n prod.collapse [symmetric]])
  consider "n' = n" | t er where "n' = disableLocked er (n\<lparr>storage := fst (SaveSnapshot ops (storage n) i t d)\<rparr>)"
    | t l where "n' = n\<lparr>storage := fst (SaveSnapshot ops (storage n) i t d), nlog := l, lastIncludedIndex := i,
      lastIncludedTerm := t, snapshotData := d\<rparr>"
    using h by (auto simp: Snapshot_def Let_def case_prod_beta split: if_splits option.splits)
  then show ?thesis by cases (use quiet_refl [OF n] ok err in simp_all)
qed

lemma quiet_apply: "hard_ok n \<Longrightarrow> apply_section pc n = Some (pc', n') \<Longrightarrow> quiet n n'"
  by (drule apply_section_frame) (auto simp: apply_frame_def hard_ok_def intro!: quietI)

lemma quiet_tick: "hard_ok n \<Longrightarrow> quiet n (fst (tick e n))"
  by (rule quietI) (auto simp: tick_def hard_ok_def Let_def split: if_splits)

lemma quiet_signal: "hard_ok n \<Longrightarrow> quiet n (signalSnapshot i n)"
  by (rule quietI) (auto simp: signalSnapshot_def hard_ok_def split: if_splits)

lemma quiet_noteMatch: "hard_ok n \<Longrightarrow> quiet n (noteMatch p m n)"
  by (rule quietI) (auto simp: hard_ok_def)

lemma quiet_backUp: "hard_ok n \<Longrightarrow> quiet n (backUp p r n)"
  by (rule quietI) (auto simp: hard_ok_def)

lemma quiet_appendReply:
  assumes n: "hard_ok n" and f: "fits (arTerm reply) v"
    and h: "appendReply ops p trm pi k reply n = Some n'"
  shows "quiet n n'"
proof -
  consider "n' = n" | "\<not> failed n" "arTerm reply > currentTerm n" "n' = becomeFollowerLocked ops (arTerm reply) n"
    | "maybeAdvanceCommitLocked (noteMatch p (pi + k) n) = Some n'" | "n' = backUp p reply n"
    using h unfolding appendReply_def by (metis option.inject)
  then show ?thesis
  proof cases
    case 2
    then show ?thesis using quiet_follower [OF n _ f] by simp
  next
    case 3
    have q: "quiet n (noteMatch p (pi + k) n)" by (rule quiet_noteMatch [OF n])
    then show ?thesis using quiet_maybeAdvance [OF quietD [OF q] 3] by (rule quiet_trans)
  qed (use quiet_refl [OF n] quiet_backUp [OF n] in simp_all)
qed

lemma quiet_snapshotReply:
  assumes n: "hard_ok n" and f: "fits (irTerm reply) v"
    and h: "snapshotReply ops p trm i reply n = Some n'"
  shows "quiet n n'"
proof -
  consider "n' = n" | "\<not> failed n" "irTerm reply > currentTerm n" "n' = becomeFollowerLocked ops (irTerm reply) n"
    | "maybeAdvanceCommitLocked (noteMatch p i n) = Some n'"
    using h unfolding snapshotReply_def by (metis option.inject)
  then show ?thesis
  proof cases
    case 2
    then show ?thesis using quiet_follower [OF n _ f] by simp
  next
    case 3
    have q: "quiet n (noteMatch p i n)" by (rule quiet_noteMatch [OF n])
    then show ?thesis using quiet_maybeAdvance [OF quietD [OF q] 3] by (rule quiet_trans)
  qed (use quiet_refl [OF n] in simp_all)
qed

section \<open>Elections\<close>

text \<open>A candidate that asks for votes has its own vote on the store.\<close>

lemma startElection_hard:
  assumes n: "hard_ok n" "nid n \<noteq> []" and f: "\<not> failed n \<Longrightarrow> fits (currentTerm n + 1) (nid n)"
    and h: "startElection ops e n = Some (n', a)"
  shows "quiet n n'"
    and "a = Some args \<Longrightarrow> \<not> failed n' \<and> hs (storage n') = (rvTerm args, rvCandidateID args) \<and>
      rvCandidateID args = nid n \<and> rvTerm args = currentTerm n' \<and> currentTerm n' = currentTerm n + 1"
proof -
  define n0 where "n0 = n\<lparr>role := Candidate, leaderID := []\<rparr>"
  define n1 where "n1 = saveHardStateLocked ops (currentTerm n + 1) (nid n) n0"
  have q0: "quiet n n0" using n by (intro quietI) (auto simp: n0_def hard_ok_def)
  have bc: "becomeCandidateLocked ops e n = (if failed n1 then n1 else resetElectionDeadlineLocked e n1)"
    by (simp add: becomeCandidateLocked_def Let_def n0_def n1_def)
  have r1: "role n1 = Candidate" "currentTerm n1 = currentTerm n + 1" by (simp_all add: n1_def n0_def)
  have *: "quiet n n' \<and> (\<forall>args. a = Some args \<longrightarrow> \<not> failed n' \<and> hs (storage n') = (rvTerm args, rvCandidateID args) \<and>
      rvCandidateID args = nid n \<and> rvTerm args = currentTerm n' \<and> currentTerm n' = currentTerm n + 1)"
  proof (cases "failed n")
    case True
    then show ?thesis using h quiet_refl [OF n(1)] by (simp add: startElection_def)
  next
    case False
    have sv: "hard_step n0 n1" "\<not> failed n1 \<Longrightarrow> hs (storage n1) = (currentTerm n + 1, nid n)"
      using save_hard [OF quietD [OF q0] _ f [OF False]] False by (auto simp: n0_def n1_def evolves_def)
    then have q1: "quiet n n1" using q0 r1 by (auto simp: quiet_def intro: hard_step_trans)
    have q2: "quiet n (resetElectionDeadlineLocked e n1)"
      by (rule quiet_trans [OF q1 quiet_reset [OF quietD [OF q1]]])
    have id: "nid n1 = nid n" using q1 by (simp add: quiet_def hard_step_def same_id_def)
    have "n' = n1 \<and> a = None \<or> \<not> failed n1 \<and> n' = resetElectionDeadlineLocked e n1 \<and>
        (\<exists>li lt. a = Some \<lparr>rvTerm = currentTerm n1, rvCandidateID = nid n1, rvLastLogIndex = li, rvLastLogTerm = lt\<rparr>)"
      using h False by (auto simp: startElection_def bc Let_def split: if_splits)
    then show ?thesis using q1 q2 sv r1 id by auto
  qed
  then show "quiet n n'"
    "a = Some args \<Longrightarrow> \<not> failed n' \<and> hs (storage n') = (rvTerm args, rvCandidateID args) \<and>
      rvCandidateID args = nid n \<and> rvTerm args = currentTerm n' \<and> currentTerm n' = currentTerm n + 1"
    by auto
qed

lemma becomeLeader_hard:
  assumes n: "hard_ok n" and h: "becomeLeaderLocked n = Some n'"
  shows "hard_step n n'" "currentTerm n' = currentTerm n"
  using n h by (auto simp: becomeLeaderLocked_def hard_step_def hard_ok_def same_id_def)

lemma voteReply_hard:
  assumes n: "hard_ok n" and f: "fits (rrTerm reply) v"
    and h: "voteReply ops trm votes reply n = Some (n', votes')"
  shows "hard_step n n'"
    and "role n' = Leader \<Longrightarrow> role n = Leader \<and> currentTerm n' = currentTerm n \<or>
      currentTerm n' = trm \<and> majority (peers n) \<le> votes'"
    and "votes' = votes \<or> votes' = votes + 1 \<and> rrVoteGranted reply"
proof -
  consider (same) "n' = n" "votes' = votes"
    | (down) "\<not> failed n" "rrTerm reply > currentTerm n" "n' = becomeFollowerLocked ops (rrTerm reply) n" "votes' = votes"
    | (won) "rrVoteGranted reply" "currentTerm n = trm" "votes' = votes + 1" "majority (peers n) \<le> votes'"
        "becomeLeaderLocked n = Some n'"
    | (more) "n' = n" "votes' = votes + 1" "rrVoteGranted reply"
    using h by (auto simp: voteReply_def split: if_splits)
  then have "hard_step n n' \<and> (role n' = Leader \<longrightarrow> role n = Leader \<and> currentTerm n' = currentTerm n \<or>
      currentTerm n' = trm \<and> majority (peers n) \<le> votes') \<and> (votes' = votes \<or> votes' = votes + 1 \<and> rrVoteGranted reply)"
  proof cases
    case down
    then show ?thesis using quiet_follower [OF n _ f] by (simp add: quiet_def)
  next
    case won
    then show ?thesis using becomeLeader_hard [OF n] by simp
  qed (use quiet_refl [OF n] in \<open>auto simp: quiet_def\<close>)
  then show "hard_step n n'" "role n' = Leader \<Longrightarrow> role n = Leader \<and> currentTerm n' = currentTerm n \<or>
      currentTerm n' = trm \<and> majority (peers n) \<le> votes'"
    "votes' = votes \<or> votes' = votes + 1 \<and> rrVoteGranted reply" by blast+
qed

section \<open>Restart\<close>

lemma NewNode_hard:
  assumes "sinv st" "NewNode ops e cfg st = Some (st', r)"
  shows "sinv st' \<and> hs st' = hs st \<and> (\<forall>n. r = Inr n \<longrightarrow> hard_ok n \<and> storage n = st' \<and> nid n = cID cfg \<and>
    peers n = cPeers cfg \<and> role n = Follower \<and> cID cfg \<noteq> [])"
proof -
  consider "st' = st" "\<exists>err. r = Inl err" | (load) res where "Load ops st = (st', res)" "cID cfg \<noteq> []"
      "(\<exists>err. r = Inl err) \<or> (\<exists>ps b. res = Inr ps \<and> r = Inr (resetElectionDeadlineLocked e (node_from_state cfg st' ps b)))"
    using assms(2) by (auto simp: NewNode_def split: if_splits prod.splits sum.splits list.splits)
  then show ?thesis
  proof cases
    case load
    then show ?thesis using load_hs [OF assms(1) load(1)]
      by (auto simp: hard_ok_def node_from_state_def)
  qed (use assms in auto)
qed

end

section \<open>MemoryStorage keeps the pair\<close>

definition mem_hs :: "MemoryStorage \<Rightarrow> nat \<times> node_id" where
  "mem_hs m = (msCurrentTerm m, msVotedFor m)"

interpretation mem_hard: hard_storage MemoryStorage_ops "\<lambda>_. True" mem_hs "\<lambda>_ _. True"
  by unfold_locales (auto simp: mem_defs mem_hs_def Let_def split: if_splits)

end
