(* ===== verification/Raft_Cluster.thy ===== *)
theory Raft_Cluster
  imports Raft_Hard
begin

text \<open>
  A cluster: the nodes, the network and the goroutines between the critical sections.

  \<^item> \<open>cReqs\<close> and \<open>cReps\<close> hold every request that was sent and every reply that was produced. Nothing
    is ever removed, so a message can be delivered late, in any order, again, or never: a dropped,
    delayed or duplicated message is a choice of steps.
  \<^item> \<open>cBallots\<close> holds, for the election of a node in a term, the vote counter its goroutines share
    and the peers whose goroutine has not counted yet. A goroutine counts once.
  \<^item> \<open>cAlive\<close>: a crashed node takes no step; a restart runs \<open>NewNode\<close> on what its store holds.

  Each rule is one critical section of src/internal/raft/node.go on one node. The operations
  write to the stores they are given, and may fail there.
\<close>

record 's Cluster =
  cNode :: "node_id \<Rightarrow> 's Node"
  cAlive :: "node_id \<Rightarrow> bool"
  cApplyPc :: "node_id \<Rightarrow> ApplyPc"
  cReqs :: "(node_id \<times> node_id \<times> Request) set" \<comment> \<open>sender, receiver\<close>
  cReps :: "(node_id \<times> node_id \<times> Request \<times> Reply) set" \<comment> \<open>replier, sender of the request\<close>
  cBallots :: "node_id \<Rightarrow> nat \<Rightarrow> (nat \<times> node_id set) option"

definition put :: "node_id \<Rightarrow> 's Node \<Rightarrow> 's Cluster \<Rightarrow> 's Cluster" where
  "put i n c = c\<lparr>cNode := (cNode c)(i := n)\<rparr>"

definition send_all :: "(node_id \<times> node_id \<times> Request) set \<Rightarrow> 's Cluster \<Rightarrow> 's Cluster" where
  "send_all ms c = c\<lparr>cReqs := cReqs c \<union> ms\<rparr>"

definition reply_to :: "node_id \<Rightarrow> node_id \<Rightarrow> Request \<Rightarrow> error option + Reply \<Rightarrow> 's Cluster \<Rightarrow> 's Cluster" where
  "reply_to j i req r c = (case r of Inl _ \<Rightarrow> c | Inr rep \<Rightarrow> c\<lparr>cReps := insert (j, i, req, rep) (cReps c)\<rparr>)"

definition set_ballot :: "node_id \<Rightarrow> nat \<Rightarrow> nat \<Rightarrow> node_id set \<Rightarrow> 's Cluster \<Rightarrow> 's Cluster" where
  "set_ballot i t v ps c = c\<lparr>cBallots := (cBallots c)(i := (cBallots c i)(t \<mapsto> (v, ps)))\<rparr>"

lemmas cluster_ops = put_def send_all_def reply_to_def set_ballot_def

inductive cstep :: "'s Storage \<Rightarrow> (node_id \<Rightarrow> Config) \<Rightarrow> 's Cluster \<Rightarrow> 's Cluster \<Rightarrow> bool"
  for ops cfg where
  start_election: "cAlive c i \<Longrightarrow> startElection ops e (cNode c i) = Some (n, Some args) \<Longrightarrow>
    c' = set_ballot i (rvTerm args) 1 (set (peers n))
           (send_all ((\<lambda>p. (i, p, RequestVoteReq args)) ` set (peers n)) (put i n c)) \<Longrightarrow> cstep ops cfg c c'"
| start_election_fails: "cAlive c i \<Longrightarrow> startElection ops e (cNode c i) = Some (n, None) \<Longrightarrow>
    c' = put i n c \<Longrightarrow> cstep ops cfg c c'"
| elected_alone: "cAlive c i \<Longrightarrow> cBallots c i t = Some b \<Longrightarrow> electedAlone t (cNode c i) = Some n \<Longrightarrow>
    c' = put i n c \<Longrightarrow> cstep ops cfg c c'"
| deliver: "cAlive c j \<Longrightarrow> (i, j, req) \<in> cReqs c \<Longrightarrow> handle ops e req (cNode c j) = Some (n, r) \<Longrightarrow>
    c' = reply_to j i req r (put j n c) \<Longrightarrow> cstep ops cfg c c'"
| vote_reply: "cAlive c i \<Longrightarrow> cBallots c i (rvTerm args) = Some (v, ps) \<Longrightarrow> j \<in> ps \<Longrightarrow> rvCandidateID args = i \<Longrightarrow>
    (j, i, RequestVoteReq args, RequestVoteRep rep) \<in> cReps c \<Longrightarrow>
    voteReply ops (rvTerm args) v rep (cNode c i) = Some (n, v') \<Longrightarrow>
    c' = set_ballot i (rvTerm args) v' (ps - {j}) (put i n c) \<Longrightarrow> cstep ops cfg c c'"
| replicate: "cAlive c i \<Longrightarrow> p \<in> set (peers (cNode c i)) \<Longrightarrow>
    replicateToPeer p t (nid (cNode c i)) (cNode c i) = Some (SendAppend args) \<Longrightarrow>
    c' = send_all {(i, p, AppendEntriesReq args)} c \<Longrightarrow> cstep ops cfg c c'"
| append_reply: "cAlive c i \<Longrightarrow> (j, i, AppendEntriesReq args, AppendEntriesRep rep) \<in> cReps c \<Longrightarrow>
    appendReply ops j (aeTerm args) (aePrevLogIndex args) (length (aeEntries args)) rep (cNode c i) = Some n \<Longrightarrow>
    c' = put i n c \<Longrightarrow> cstep ops cfg c c'"
| send_snapshot: "cAlive c i \<Longrightarrow> p \<in> set (peers (cNode c i)) \<Longrightarrow>
    sendInstallSnapshot t (nid (cNode c i)) (cNode c i) = Some args \<Longrightarrow>
    c' = send_all {(i, p, InstallSnapshotReq args)} c \<Longrightarrow> cstep ops cfg c c'"
| snapshot_reply: "cAlive c i \<Longrightarrow> (j, i, InstallSnapshotReq args, InstallSnapshotRep rep) \<in> cReps c \<Longrightarrow>
    snapshotReply ops j (isTerm args) (isLastIncludedIndex args) rep (cNode c i) = Some n \<Longrightarrow>
    c' = put i n c \<Longrightarrow> cstep ops cfg c c'"
| propose: "cAlive c i \<Longrightarrow> Propose ops command (cNode c i) = Some (n, idx, t, l) \<Longrightarrow>
    c' = put i n c \<Longrightarrow> cstep ops cfg c c'"
| take_snapshot: "cAlive c i \<Longrightarrow> Snapshot ops index data (cNode c i) = Some (n, r) \<Longrightarrow>
    c' = put i n c \<Longrightarrow> cstep ops cfg c c'"
| clock_tick: "cAlive c i \<Longrightarrow> tick e (cNode c i) = (n, acts) \<Longrightarrow>
    c' = put i (signalSnapshot (taSnapshotRequest acts) n) c \<Longrightarrow> cstep ops cfg c c'"
| apply_loop: "cAlive c i \<Longrightarrow> apply_section (cApplyPc c i) (cNode c i) = Some (pc, n) \<Longrightarrow>
    c' = (put i n c)\<lparr>cApplyPc := (cApplyPc c)(i := pc)\<rparr> \<Longrightarrow> cstep ops cfg c c'"
| receive: "cAlive c i \<Longrightarrow> apply_receive (cNode c i) = Some (m, n) \<Longrightarrow> c' = put i n c \<Longrightarrow> cstep ops cfg c c'"
| crash: "cAlive c i \<Longrightarrow> c' = c\<lparr>cAlive := (cAlive c)(i := False)\<rparr> \<Longrightarrow> cstep ops cfg c c'"
| restart: "\<not> cAlive c i \<Longrightarrow> NewNode ops e (cfg i) (storage (cNode c i)) = Some (st, Inr n) \<Longrightarrow>
    c' = (put i n c)\<lparr>cAlive := (cAlive c)(i := True), cApplyPc := (cApplyPc c)(i := ApplyTop)\<rparr> \<Longrightarrow>
    cstep ops cfg c c'"
| restart_fails: "\<not> cAlive c i \<Longrightarrow> NewNode ops e (cfg i) (storage (cNode c i)) = Some (st, Inl err) \<Longrightarrow>
    c' = put i ((cNode c i)\<lparr>storage := st\<rparr>) c \<Longrightarrow> cstep ops cfg c c'"

text \<open>
  Reachable clusters. At the start every node is down, its store is fresh and the network is
  empty. \<open>bound\<close> restricts a run to the terms and votes that the stores can hold.
\<close>

definition cinit :: "'s Cluster \<Rightarrow> bool" where
  "cinit c \<longleftrightarrow> (\<forall>i. \<not> cAlive c i) \<and> (\<forall>i. role (cNode c i) = Follower) \<and>
     cReqs c = {} \<and> cReps c = {} \<and> (\<forall>i t. cBallots c i t = None)"

fun req_fits :: "(nat \<Rightarrow> node_id \<Rightarrow> bool) \<Rightarrow> Request \<Rightarrow> bool" where
  "req_fits fits (RequestVoteReq a) = fits (rvTerm a) (rvCandidateID a)"
| "req_fits fits (AppendEntriesReq a) = fits (aeTerm a) []"
| "req_fits fits (InstallSnapshotReq a) = fits (isTerm a) []"
| "req_fits fits (OtherReq ty) = True"

fun rep_fits :: "(nat \<Rightarrow> node_id \<Rightarrow> bool) \<Rightarrow> Reply \<Rightarrow> bool" where
  "rep_fits fits (RequestVoteRep r) = fits (rrTerm r) []"
| "rep_fits fits (AppendEntriesRep r) = fits (arTerm r) []"
| "rep_fits fits (InstallSnapshotRep r) = fits (irTerm r) []"

definition bounded :: "(nat \<Rightarrow> node_id \<Rightarrow> bool) \<Rightarrow> 's Cluster \<Rightarrow> bool" where
  "bounded fits c \<longleftrightarrow> (\<forall>i. fits (currentTerm (cNode c i)) (votedFor (cNode c i))) \<and>
     (\<forall>(i, j, req) \<in> cReqs c. req_fits fits req) \<and> (\<forall>(j, i, req, rep) \<in> cReps c. rep_fits fits rep)"

inductive run :: "'s Storage \<Rightarrow> (node_id \<Rightarrow> Config) \<Rightarrow> (nat \<Rightarrow> node_id \<Rightarrow> bool) \<Rightarrow> 's Cluster \<Rightarrow> 's Cluster \<Rightarrow> bool"
  for ops cfg fits where
  run_refl: "run ops cfg fits c c"
| run_step: "run ops cfg fits c d \<Longrightarrow> cstep ops cfg d d' \<Longrightarrow> bounded fits d' \<Longrightarrow> run ops cfg fits c d'"

text \<open>A node that is up and takes itself for the leader of term \<open>t\<close>.\<close>

definition leads :: "'s Cluster \<Rightarrow> node_id \<Rightarrow> nat \<Rightarrow> bool" where
  "leads c i t \<longleftrightarrow> cAlive c i \<and> role (cNode c i) = Leader \<and> currentTerm (cNode c i) = t"

text \<open>\<open>voted c j t i\<close>: node \<open>j\<close> gave its vote of term \<open>t\<close> to \<open>i\<close>, itself included.\<close>

definition granted :: "'s Cluster \<Rightarrow> node_id \<Rightarrow> nat \<Rightarrow> node_id \<Rightarrow> bool" where
  "granted c j t i \<longleftrightarrow> (\<exists>args rep. (j, i, RequestVoteReq args, RequestVoteRep rep) \<in> cReps c \<and>
     rvTerm args = t \<and> rvCandidateID args = i \<and> rrVoteGranted rep)"

definition voted :: "'s Cluster \<Rightarrow> node_id \<Rightarrow> nat \<Rightarrow> node_id \<Rightarrow> bool" where
  "voted c j t i \<longleftrightarrow> granted c j t i \<or> j = i \<and> cBallots c i t \<noteq> None"

end
