(* ===== verification/Raft_Election.thy ===== *)
theory Raft_Election
  imports Raft_Cluster
begin

text \<open>
  Election safety: in a cluster with an odd number of members at most one node ever leads a
  term, across crashes, restarts, lost, late and duplicated messages and failing stores. The
  invariant ties every vote in the network to the store of the voter; it is proved inside
  \<open>hard_storage\<close> once and holds for every store that keeps that contract.
\<close>

context hard_storage
begin

definition hsn :: "'s Cluster \<Rightarrow> node_id \<Rightarrow> nat \<times> node_id" where
  "hsn c i = hs (storage (cNode c i))"

definition nodes_ok :: "(node_id \<Rightarrow> Config) \<Rightarrow> 's Cluster \<Rightarrow> bool" where
  "nodes_ok cfg c \<longleftrightarrow> (\<forall>i. sinv (storage (cNode c i))) \<and>
     (\<forall>i. cAlive c i \<longrightarrow> hard_ok (cNode c i) \<and> nid (cNode c i) = i \<and> peers (cNode c i) = cPeers (cfg i) \<and> i \<noteq> [])"

definition net_ok :: "'s Cluster \<Rightarrow> bool" where
  "net_ok c \<longleftrightarrow> (\<forall>i j a. (i, j, RequestVoteReq a) \<in> cReqs c \<longrightarrow> rvCandidateID a = i \<and> i \<noteq> []) \<and>
     (\<forall>j i req rep. (j, i, req, rep) \<in> cReps c \<longrightarrow> (i, j, req) \<in> cReqs c)"

definition votes_ok :: "'s Cluster \<Rightarrow> bool" where
  "votes_ok c \<longleftrightarrow> (\<forall>j t i. voted c j t i \<longrightarrow> i \<noteq> [] \<and> (t < fst (hsn c j) \<or> hsn c j = (t, i))) \<and>
     (\<forall>j t a b. voted c j t a \<longrightarrow> voted c j t b \<longrightarrow> a = b)"

definition ballots_ok :: "(node_id \<Rightarrow> Config) \<Rightarrow> 's Cluster \<Rightarrow> bool" where
  "ballots_ok cfg c \<longleftrightarrow> (\<forall>i t v ps. cBallots c i t = Some (v, ps) \<longrightarrow> ps \<subseteq> set (cPeers (cfg i)) \<and>
     v \<le> 1 + card {j \<in> set (cPeers (cfg i)). granted c j t i \<and> j \<notin> ps})"

definition electors :: "(node_id \<Rightarrow> Config) \<Rightarrow> 's Cluster \<Rightarrow> nat \<Rightarrow> node_id \<Rightarrow> node_id set" where
  "electors cfg c t i = {j \<in> insert i (set (cPeers (cfg i))). voted c j t i}"

definition leaders_ok :: "(node_id \<Rightarrow> Config) \<Rightarrow> 's Cluster \<Rightarrow> bool" where
  "leaders_ok cfg c \<longleftrightarrow> (\<forall>i t. leads c i t \<longrightarrow> majority (cPeers (cfg i)) \<le> card (electors cfg c t i))"

definition cinv :: "(node_id \<Rightarrow> Config) \<Rightarrow> 's Cluster \<Rightarrow> bool" where
  "cinv cfg c \<longleftrightarrow> nodes_ok cfg c \<and> net_ok c \<and> votes_ok c \<and> ballots_ok cfg c \<and> leaders_ok cfg c"

section \<open>The parts of a step\<close>

lemma put_simps [simp]:
  "cNode (put i n c) = (cNode c)(i := n)" "cAlive (put i n c) = cAlive c" "cReqs (put i n c) = cReqs c"
  "cReps (put i n c) = cReps c" "cBallots (put i n c) = cBallots c" "cApplyPc (put i n c) = cApplyPc c"
  by (simp_all add: put_def)

lemma granted_cong: "cReps c' = cReps c \<Longrightarrow> granted c' = granted c"
  by (intro ext) (simp add: granted_def)

lemma voted_cong: "cReps c' = cReps c \<Longrightarrow> cBallots c' = cBallots c \<Longrightarrow> voted c' = voted c"
  by (intro ext) (simp add: voted_def granted_def)

lemma electors_cong: "cReps c' = cReps c \<Longrightarrow> cBallots c' = cBallots c \<Longrightarrow> electors cfg c' = electors cfg c"
  by (intro ext) (simp add: electors_def voted_def granted_def)

lemma electors_mono:
  assumes "\<And>j t i. voted c j t i \<Longrightarrow> voted c' j t i"
  shows "card (electors cfg c t i) \<le> card (electors cfg c' t i)"
  by (rule card_mono) (auto simp: electors_def assms)

lemma cinv_put:
  assumes c: "cinv cfg c" "cAlive c i" and h: "hard_step (cNode c i) n"
    and l: "role n = Leader \<Longrightarrow> majority (cPeers (cfg i)) \<le> card (electors cfg c (currentTerm n) i)"
  shows "cinv cfg (put i n c)"
proof -
  have e: "evolves (hsn c j) (hsn (put i n c) j)" for j
    using h by (simp add: hsn_def hard_step_def)
  have "nodes_ok cfg (put i n c)"
    using c h by (auto simp: cinv_def nodes_ok_def hard_step_def same_id_def hard_ok_def)
  moreover have "votes_ok (put i n c)"
  proof -
    have old: "voted c j t a \<Longrightarrow> a \<noteq> [] \<and> (t < fst (hsn c j) \<or> hsn c j = (t, a))" for j t a
      using c by (simp add: cinv_def votes_ok_def)
    have "a \<noteq> [] \<and> (t < fst (hsn (put i n c) j) \<or> hsn (put i n c) j = (t, a))" if "voted c j t a" for j t a
      using old [OF that] e [of j] by (cases "hsn (put i n c) j") (auto simp: evolves_def)
    then show ?thesis
      using c by (simp add: votes_ok_def cinv_def voted_cong [of "put i n c" c])
  qed
  moreover have "leaders_ok cfg (put i n c)"
    using c l by (auto simp: cinv_def leaders_ok_def leads_def electors_cong [of "put i n c" c])
  ultimately show ?thesis
    using c by (simp add: cinv_def net_ok_def ballots_ok_def granted_cong [of "put i n c" c])
qed

lemma cinv_quiet:
  assumes c: "cinv cfg c" "cAlive c i" and q: "quiet (cNode c i) n"
  shows "cinv cfg (put i n c)"
proof (rule cinv_put [OF c])
  show "hard_step (cNode c i) n" using q by (simp add: quiet_def)
  assume "role n = Leader"
  then have "leads c i (currentTerm n)" using q c(2) by (simp add: quiet_def leads_def)
  then show "majority (cPeers (cfg i)) \<le> card (electors cfg c (currentTerm n) i)"
    using c by (simp add: cinv_def leaders_ok_def)
qed

lemma cinv_send:
  assumes c: "cinv cfg c" and m: "\<And>i j a. (i, j, RequestVoteReq a) \<in> ms \<Longrightarrow> rvCandidateID a = i \<and> i \<noteq> []"
  shows "cinv cfg (send_all ms c)"
proof -
  let ?c = "send_all ms c"
  have f: "cNode ?c = cNode c" "cAlive ?c = cAlive c" "cReps ?c = cReps c" "cBallots ?c = cBallots c" "cReqs ?c = cReqs c \<union> ms"
    by (simp_all add: send_all_def)
  have "net_ok ?c" using c m unfolding cinv_def net_ok_def f by blast
  then show ?thesis
    using c by (simp add: cinv_def nodes_ok_def votes_ok_def ballots_ok_def leaders_ok_def leads_def hsn_def
        f granted_cong [of ?c c] voted_cong [of ?c c] electors_cong [of ?c c])
qed

text \<open>New votes: the pair on the voter's store names the candidate.\<close>

lemma cinv_votes:
  assumes c: "cinv cfg c" and same: "cNode c' = cNode c" "cAlive c' = cAlive c"
    and net: "net_ok c'" and bal: "ballots_ok cfg c'"
    and mono: "\<And>j t i. voted c j t i \<Longrightarrow> voted c' j t i"
    and new: "\<And>j t i. voted c' j t i \<Longrightarrow> \<not> voted c j t i \<Longrightarrow> i \<noteq> [] \<and> hsn c j = (t, i)"
  shows "cinv cfg c'"
proof -
  have h: "hsn c' = hsn c" by (intro ext) (simp add: hsn_def same)
  have old: "voted c j t i \<Longrightarrow> i \<noteq> [] \<and> (t < fst (hsn c j) \<or> hsn c j = (t, i))" for j t i
    using c by (simp add: cinv_def votes_ok_def)
  have uni: "voted c j t a \<Longrightarrow> voted c j t b \<Longrightarrow> a = b" for j t a b
    using c by (simp add: cinv_def votes_ok_def)
  have "votes_ok c'"
    unfolding votes_ok_def h
  proof (intro conjI allI impI)
    fix j t i assume v: "voted c' j t i"
    show "i \<noteq> []" "t < fst (hsn c j) \<or> hsn c j = (t, i)"
      using new [OF v] old [of j t i] by blast+
  next
    fix j t a b assume v: "voted c' j t a" "voted c' j t b"
    show "a = b" using new [OF v(1)] new [OF v(2)] old [of j t a] old [of j t b] uni [of j t a b] by force
  qed
  moreover have "leaders_ok cfg c'"
    using c electors_mono [of c c', OF mono] same
    by (auto simp: cinv_def leaders_ok_def leads_def intro: le_trans)
  ultimately show ?thesis
    using c net bal same by (simp add: cinv_def nodes_ok_def)
qed

lemma cinv_reply:
  assumes c: "cinv cfg c" and m: "(i, j, req) \<in> cReqs c"
    and g: "\<And>a rep. req = RequestVoteReq a \<Longrightarrow> r = Inr (RequestVoteRep rep) \<Longrightarrow> rrVoteGranted rep \<Longrightarrow>
      hsn c j = (rvTerm a, rvCandidateID a)"
  shows "cinv cfg (reply_to j i req r c)"
proof (cases r)
  case (Inl err)
  then show ?thesis using c by (simp add: reply_to_def)
next
  case (Inr rep)
  let ?c = "c\<lparr>cReps := insert (j, i, req, rep) (cReps c)\<rparr>"
  have net: "\<And>i j a. (i, j, RequestVoteReq a) \<in> cReqs c \<Longrightarrow> rvCandidateID a = i \<and> i \<noteq> []"
    using c unfolding cinv_def net_ok_def by blast
  have gr: "granted c k t x \<Longrightarrow> granted ?c k t x" for k t x by (auto simp: granted_def)
  have "cinv cfg ?c"
  proof (rule cinv_votes [OF c])
    show "net_ok ?c" using c m by (auto simp: cinv_def net_ok_def)
    show "voted c k t x \<Longrightarrow> voted ?c k t x" for k t x using gr by (auto simp: voted_def)
    show "x \<noteq> [] \<and> hsn c k = (t, x)" if v: "voted ?c k t x" "\<not> voted c k t x" for k t x
    proof -
      obtain a rp where "k = j" "req = RequestVoteReq a" "rep = RequestVoteRep rp" "rvTerm a = t" "rvCandidateID a = x" "rrVoteGranted rp"
        using v unfolding voted_def granted_def by fastforce
      then show ?thesis using g Inr net m by fastforce
    qed
    have more: "card {k \<in> set (cPeers (cfg x)). granted c k t x \<and> k \<notin> ps} \<le> card {k \<in> set (cPeers (cfg x)). granted ?c k t x \<and> k \<notin> ps}" for t x ps
      using gr by (intro card_mono) auto
    have old: "ps \<subseteq> set (cPeers (cfg x)) \<and> v \<le> 1 + card {k \<in> set (cPeers (cfg x)). granted c k t x \<and> k \<notin> ps}"
      if "cBallots c x t = Some (v, ps)" for x t v ps
      using c that unfolding cinv_def ballots_ok_def by blast
    show "ballots_ok cfg ?c"
      unfolding ballots_ok_def
    proof (intro allI impI conjI)
      fix x t v ps assume b: "cBallots ?c x t = Some (v, ps)"
      show "ps \<subseteq> set (cPeers (cfg x))" using old [of x t v ps] b by simp
      show "v \<le> 1 + card {k \<in> set (cPeers (cfg x)). granted ?c k t x \<and> k \<notin> ps}"
        using old [of x t v ps] b more [of x t ps] by simp
    qed
  qed simp_all
  then show ?thesis using Inr by (simp add: reply_to_def)
qed

lemma cinv_ballot:
  assumes c: "cinv cfg c" and ps: "ps \<subseteq> set (cPeers (cfg i))" and v: "v \<le> 1 + card {j \<in> set (cPeers (cfg i)). granted c j t i \<and> j \<notin> ps}"
    and h: "cBallots c i t = None \<Longrightarrow> i \<noteq> [] \<and> hsn c i = (t, i)"
  shows "cinv cfg (set_ballot i t v ps c)"
proof (rule cinv_votes [OF c])
  let ?c = "set_ballot i t v ps c"
  have g: "granted ?c = granted c" by (rule granted_cong) (simp add: set_ballot_def)
  show "net_ok ?c" using c by (simp add: cinv_def net_ok_def set_ballot_def)
  show "ballots_ok cfg ?c"
    using c ps v unfolding cinv_def ballots_ok_def g by (auto simp: set_ballot_def)
  show "voted c j s a \<Longrightarrow> voted ?c j s a" for j s a
    unfolding voted_def g by (auto simp: set_ballot_def)
  show "a \<noteq> [] \<and> hsn c j = (s, a)" if "voted ?c j s a" "\<not> voted c j s a" for j s a
    using that h unfolding voted_def g by (cases "cBallots c i t") (auto simp: set_ballot_def split: if_splits)
qed (simp_all add: set_ballot_def)

lemma ballot_electors:
  assumes c: "cinv cfg c" and b: "cBallots c i t = Some (v, ps)" and i: "i \<notin> set (cPeers (cfg i))"
  shows "v \<le> card (electors cfg c t i)"
proof -
  let ?G = "{j \<in> set (cPeers (cfg i)). granted c j t i \<and> j \<notin> ps}"
  have "v \<le> 1 + card ?G" using c b unfolding cinv_def ballots_ok_def by blast
  also have "\<dots> = card (insert i ?G)" using i by simp
  also have "\<dots> \<le> card (electors cfg c t i)"
    using b by (intro card_mono) (auto simp: electors_def voted_def)
  finally show ?thesis .
qed

section \<open>Every step keeps the invariant\<close>

lemma handle_hard:
  assumes n: "hard_ok n" and f: "req_fits fits req" and h: "handle ops e req n = Some (n', r)"
  shows "quiet n n' \<and> (\<forall>a rep. req = RequestVoteReq a \<longrightarrow> r = Inr (RequestVoteRep rep) \<longrightarrow> rrVoteGranted rep \<longrightarrow>
    hs (storage n') = (rvTerm a, rvCandidateID a))"
proof (cases req)
  case (RequestVoteReq a)
  then obtain r0 where r0: "handleRequestVote ops e a n = Some (n', r0)" "r = map_sum id RequestVoteRep r0"
    using h by auto
  have "fits (rvTerm a) (rvCandidateID a)" using f RequestVoteReq by simp
  note q = quiet_RequestVote [OF n this this r0(1)]
  have "hs (storage n') = (rvTerm a, rvCandidateID a)" if "r = Inr (RequestVoteRep rep)" "rrVoteGranted rep" for rep
    using q(2) [of rep] that r0(2) by (cases r0) auto
  then show ?thesis using q(1) RequestVoteReq by blast
next
  case (AppendEntriesReq a)
  then show ?thesis using h f quiet_AppendEntries [OF n, of a "[]"] by auto
next
  case (InstallSnapshotReq a)
  then show ?thesis using h f quiet_InstallSnapshot [OF n, of a "[]"] by auto
next
  case (OtherReq ty)
  then show ?thesis using h quiet_refl [OF n] by auto
qed

definition cfg_ok :: "(node_id \<Rightarrow> Config) \<Rightarrow> bool" where
  "cfg_ok cfg \<longleftrightarrow> (\<forall>i. cID (cfg i) = i \<and> i \<notin> set (cPeers (cfg i)))"

lemma alive_ok:
  "cinv cfg c \<Longrightarrow> cAlive c i \<Longrightarrow> hard_ok (cNode c i) \<and> nid (cNode c i) = i \<and> peers (cNode c i) = cPeers (cfg i) \<and> i \<noteq> []"
  by (simp add: cinv_def nodes_ok_def)

lemma start_step:
  assumes c: "cinv cfg c" "cAlive c i" and b: "bounded fits (put i n c)"
    and st: "startElection ops e (cNode c i) = Some (n, a)"
  shows "cinv cfg (put i n c)"
    and "a = Some args \<Longrightarrow> cinv cfg (set_ballot i (rvTerm args) 1 (set (peers n))
           (send_all ((\<lambda>p. (i, p, RequestVoteReq args)) ` set (peers n)) (put i n c)))"
proof -
  note ok = alive_ok [OF c]
  have f: "fits (currentTerm (cNode c i) + 1) (nid (cNode c i))" if nf: "\<not> failed (cNode c i)"
  proof -
    have "currentTerm n = currentTerm (cNode c i) + 1 \<and> votedFor n = nid (cNode c i)"
      using st nf by (auto simp: startElection_def becomeCandidateLocked_def Let_def split: if_splits)
    then show ?thesis using b unfolding bounded_def by (metis fun_upd_same put_simps(1))
  qed
  have id: "nid (cNode c i) \<noteq> []" using ok by simp
  have sh1: "quiet (cNode c i) n"
    by (rule startElection_hard(1) [OF conjunct1 [OF ok] id _ st]) (rule f)
  have sh2: "hs (storage n) = (rvTerm args, rvCandidateID args) \<and> rvCandidateID args = i" if "a = Some args"
  proof -
    have "\<not> failed n \<and> hs (storage n) = (rvTerm args, rvCandidateID args) \<and> rvCandidateID args = nid (cNode c i) \<and>
        rvTerm args = currentTerm n \<and> currentTerm n = currentTerm (cNode c i) + 1"
      by (rule startElection_hard(2) [OF conjunct1 [OF ok] id _ st that]) (rule f)
    then show ?thesis using ok by simp
  qed
  show p: "cinv cfg (put i n c)" by (rule cinv_quiet [OF c sh1])
  assume a: "a = Some args"
  have ca: "rvCandidateID args = i" "hs (storage n) = (rvTerm args, i)" using sh2 [OF a] by auto
  have pe: "set (peers n) \<subseteq> set (cPeers (cfg i))"
    using sh1 ok by (simp add: quiet_def hard_step_def same_id_def)
  let ?c = "send_all ((\<lambda>p. (i, p, RequestVoteReq args)) ` set (peers n)) (put i n c)"
  have s: "cinv cfg ?c" using ca ok by (intro cinv_send [OF p]) auto
  show "cinv cfg (set_ballot i (rvTerm args) 1 (set (peers n)) ?c)"
  proof (rule cinv_ballot [OF s pe])
    show "i \<noteq> [] \<and> hsn ?c i = (rvTerm args, i)" using ca ok by (simp add: hsn_def send_all_def)
  qed simp
qed

lemma elected_step:
  assumes cfg: "cfg_ok cfg" and c: "cinv cfg c" "cAlive c i" and b: "cBallots c i t = Some (v, ps)"
    and h: "electedAlone t (cNode c i) = Some n"
  shows "cinv cfg (put i n c)"
proof -
  note ok = alive_ok [OF c]
  have pe: "peers (cNode c i) = cPeers (cfg i)" using ok by simp
  show ?thesis
  proof (cases "1 \<ge> majority (peers (cNode c i)) \<and> role (cNode c i) = Candidate \<and> currentTerm (cNode c i) = t")
    case False
    then have "n = cNode c i" using h unfolding electedAlone_def by (simp only: if_False option.inject)
    then show ?thesis using cinv_quiet [OF c quiet_refl] ok by simp
  next
    case True
    have won: "becomeLeaderLocked (cNode c i) = Some n" "currentTerm (cNode c i) = t" "majority (cPeers (cfg i)) \<le> 1"
      using h True pe unfolding electedAlone_def by (simp_all only: if_True simp_thms)
    note bl = becomeLeader_hard [OF conjunct1 [OF ok] won(1)]
    have "i \<in> electors cfg c t i" using b by (simp add: electors_def voted_def)
    moreover have "finite (electors cfg c t i)" by (simp add: electors_def)
    ultimately have "1 \<le> card (electors cfg c t i)" by (metis Suc_leI One_nat_def card_gt_0_iff emptyE)
    then show ?thesis using cinv_put [OF c bl(1)] bl(2) won by simp
  qed
qed

lemma vote_step:
  assumes cfg: "cfg_ok cfg" and c: "cinv cfg c" "cAlive c i" and b: "cBallots c i (rvTerm args) = Some (v, ps)"
    and j: "j \<in> ps" and ca: "rvCandidateID args = i" and rep: "(j, i, RequestVoteReq args, RequestVoteRep rep) \<in> cReps c"
    and f: "fits (rrTerm rep) []"
    and h: "voteReply ops (rvTerm args) v rep (cNode c i) = Some (n, v')"
  shows "cinv cfg (set_ballot i (rvTerm args) v' (ps - {j}) (put i n c))"
proof -
  note ok = alive_ok [OF c]
  let ?t = "rvTerm args"
  define c1 where "c1 = set_ballot i ?t v' (ps - {j}) c"
  note vr = voteReply_hard [OF conjunct1 [OF ok] f h]
  have ps: "ps \<subseteq> set (cPeers (cfg i))" "v \<le> 1 + card {k \<in> set (cPeers (cfg i)). granted c k ?t i \<and> k \<notin> ps}"
    using c b unfolding cinv_def ballots_ok_def by blast+
  let ?A = "{k \<in> set (cPeers (cfg i)). granted c k ?t i \<and> k \<notin> ps}"
  let ?B = "{k \<in> set (cPeers (cfg i)). granted c k ?t i \<and> k \<notin> ps - {j}}"
  have sub: "card ?A \<le> card ?B" by (rule card_mono) auto
  have "v' \<le> 1 + card ?B"
  proof (cases "rrVoteGranted rep")
    case True
    then have "granted c j ?t i" using rep ca by (auto simp: granted_def)
    then have "insert j ?A \<subseteq> ?B" using j ps(1) by auto
    then have "card (insert j ?A) \<le> card ?B" by (intro card_mono) auto
    moreover have "card (insert j ?A) = Suc (card ?A)" using j by simp
    ultimately show ?thesis using vr(3) ps(2) by linarith
  next
    case False
    then show ?thesis using vr(3) ps(2) sub by linarith
  qed
  moreover have "ps - {j} \<subseteq> set (cPeers (cfg i))" using ps(1) by blast
  ultimately have c1: "cinv cfg c1" unfolding c1_def using b by (intro cinv_ballot [OF c(1)]) auto
  have al: "cAlive c1 i" "cNode c1 = cNode c" "cBallots c1 i ?t = Some (v', ps - {j})"
    using c(2) by (simp_all add: c1_def set_ballot_def)
  have i: "i \<notin> set (cPeers (cfg i))" using cfg by (simp add: cfg_ok_def)
  have "cinv cfg (put i n c1)"
  proof (rule cinv_put [OF c1 al(1)])
    show "hard_step (cNode c1 i) n" using vr(1) al(2) by simp
    assume "role n = Leader"
    then consider "leads c1 i (currentTerm n)" | "currentTerm n = ?t" "majority (peers (cNode c i)) \<le> v'"
      using vr(2) al by (auto simp: leads_def)
    then show "majority (cPeers (cfg i)) \<le> card (electors cfg c1 (currentTerm n) i)"
    proof cases
      case 1
      then show ?thesis using c1 by (simp add: cinv_def leaders_ok_def)
    next
      case 2
      then show ?thesis using ballot_electors [OF c1 al(3) i] ok by simp
    qed
  qed
  moreover have "put i n c1 = set_ballot i ?t v' (ps - {j}) (put i n c)"
    by (simp add: c1_def put_def set_ballot_def)
  ultimately show ?thesis by simp
qed

lemma restart_step:
  assumes cfg: "cfg_ok cfg" and c: "cinv cfg c" and h: "NewNode ops e (cfg i) (storage (cNode c i)) = Some (st, Inr n)"
  shows "cinv cfg ((put i n c)\<lparr>cAlive := (cAlive c)(i := True), cApplyPc := pcs\<rparr>)" (is "cinv cfg ?c")
proof -
  have si: "sinv (storage (cNode c i))" using c by (simp add: cinv_def nodes_ok_def)
  note nn = NewNode_hard [OF si h]
  have i: "cID (cfg i) = i" using cfg by (simp add: cfg_ok_def)
  have hh: "hsn ?c = hsn c" using nn by (intro ext) (simp add: hsn_def)
  have f: "cReps ?c = cReps c" "cBallots ?c = cBallots c" "cReqs ?c = cReqs c" by simp_all
  have "nodes_ok cfg ?c" using c nn i by (auto simp: cinv_def nodes_ok_def hard_ok_def)
  moreover have "leaders_ok cfg ?c"
    using c nn unfolding cinv_def leaders_ok_def electors_cong [OF f(1,2)] by (auto simp: leads_def)
  moreover have "votes_ok ?c"
    using c unfolding cinv_def votes_ok_def voted_cong [OF f(1,2)] hh by blast
  moreover have "ballots_ok cfg ?c"
    using c unfolding cinv_def ballots_ok_def granted_cong [OF f(1)] f by blast
  moreover have "net_ok ?c"
    using c unfolding cinv_def net_ok_def f by blast
  ultimately show ?thesis by (simp add: cinv_def)
qed

lemma crash_step:
  assumes c: "cinv cfg c"
  shows "cinv cfg (c\<lparr>cAlive := (cAlive c)(i := False)\<rparr>)" (is "cinv cfg ?c")
proof -
  have f: "cReps ?c = cReps c" "cBallots ?c = cBallots c" by simp_all
  show ?thesis
    using c unfolding cinv_def votes_ok_def ballots_ok_def leaders_ok_def granted_cong [OF f(1)] voted_cong [OF f] electors_cong [OF f]
    by (auto simp: nodes_ok_def net_ok_def hsn_def leads_def)
qed

lemma restart_fails_step:
  assumes c: "cinv cfg c" "\<not> cAlive c i" and h: "NewNode ops e (cfg i) (storage (cNode c i)) = Some (st, Inl err)"
  shows "cinv cfg (put i ((cNode c i)\<lparr>storage := st\<rparr>) c)" (is "cinv cfg ?c")
proof -
  have "sinv (storage (cNode c i))" using c by (simp add: cinv_def nodes_ok_def)
  note nn = NewNode_hard [OF this h]
  have hh: "hsn ?c = hsn c" using nn by (intro ext) (simp add: hsn_def)
  have f: "cReps ?c = cReps c" "cBallots ?c = cBallots c" by simp_all
  show ?thesis
    using c nn unfolding cinv_def votes_ok_def ballots_ok_def leaders_ok_def granted_cong [OF f(1)] voted_cong [OF f] electors_cong [OF f] hh
    by (auto simp: nodes_ok_def net_ok_def leads_def)
qed

lemma cinv_apply_pc: "cinv cfg (c\<lparr>cApplyPc := pcs\<rparr>) = cinv cfg c"
proof -
  let ?c = "c\<lparr>cApplyPc := pcs\<rparr>"
  have f: "cReps ?c = cReps c" "cBallots ?c = cBallots c" by simp_all
  show ?thesis
    unfolding cinv_def votes_ok_def ballots_ok_def leaders_ok_def granted_cong [OF f(1)] voted_cong [OF f] electors_cong [OF f]
    by (simp add: nodes_ok_def net_ok_def hsn_def leads_def)
qed

theorem cstep_cinv:
  assumes cfg: "cfg_ok cfg" and c: "cinv cfg c" and b: "bounded fits c" "bounded fits c'" and st: "cstep ops cfg c c'"
  shows "cinv cfg c'"
  using st
proof cases
  case (start_election i e n args)
  have "bounded fits (put i n c)"
    using b(2) start_election by (auto simp: bounded_def set_ballot_def send_all_def)
  then show ?thesis using start_step(2) [OF c start_election(1) _ start_election(2) refl] start_election(3) by simp
next
  case (start_election_fails i e n)
  then show ?thesis using start_step(1) [OF c, of i n e None] b by simp
next
  case (elected_alone i t bal n)
  then show ?thesis using elected_step [OF cfg c] by (cases bal) auto
next
  case (deliver j i req e n r)
  note ok = alive_ok [OF c deliver(1)]
  have "req_fits fits req" using b(1) deliver by (auto simp: bounded_def)
  note hh = handle_hard [OF conjunct1 [OF ok] this deliver(3)]
  show ?thesis unfolding deliver(4)
    using cinv_quiet [OF c deliver(1) conjunct1 [OF hh]] deliver(2) hh
    by (intro cinv_reply) (auto simp: hsn_def)
next
  case (vote_reply i args v ps j rep n v')
  have "fits (rrTerm rep) []" using b(1) vote_reply by (fastforce simp: bounded_def)
  then show ?thesis using vote_step [OF cfg c] vote_reply by blast
next
  case (replicate i p t args)
  then show ?thesis using cinv_send [OF c, of "{(i, p, AppendEntriesReq args)}"] by simp
next
  case (append_reply i j args rep n)
  have "fits (arTerm rep) []" using b(1) append_reply by (fastforce simp: bounded_def)
  then show ?thesis using cinv_quiet [OF c append_reply(1) quiet_appendReply] alive_ok [OF c append_reply(1)] append_reply by blast
next
  case (send_snapshot i p t args)
  then show ?thesis using cinv_send [OF c, of "{(i, p, InstallSnapshotReq args)}"] by simp
next
  case (snapshot_reply i j args rep n)
  have "fits (irTerm rep) []" using b(1) snapshot_reply by (fastforce simp: bounded_def)
  then show ?thesis using cinv_quiet [OF c snapshot_reply(1) quiet_snapshotReply] alive_ok [OF c snapshot_reply(1)] snapshot_reply by blast
next
  case (propose i command n idx t l)
  then show ?thesis using cinv_quiet [OF c propose(1) quiet_Propose] alive_ok [OF c propose(1)] by blast
next
  case (take_snapshot i index data n r)
  then show ?thesis using cinv_quiet [OF c take_snapshot(1) quiet_Snapshot] alive_ok [OF c take_snapshot(1)] by blast
next
  case (clock_tick i e n acts)
  have "quiet (cNode c i) n" using quiet_tick [of "cNode c i" e] alive_ok [OF c clock_tick(1)] clock_tick(2) by simp
  then have "quiet (cNode c i) (signalSnapshot (taSnapshotRequest acts) n)"
    using quiet_signal [OF quietD] quiet_trans by blast
  then show ?thesis using cinv_quiet [OF c clock_tick(1)] clock_tick(3) by simp
next
  case (apply_loop i pc n)
  then show ?thesis using cinv_quiet [OF c apply_loop(1) quiet_apply] alive_ok [OF c apply_loop(1)] cinv_apply_pc by blast
next
  case (receive i m n)
  have "quiet (cNode c i) n" using receive(2) alive_ok [OF c receive(1)]
    by (auto simp: apply_receive_def hard_ok_def split: list.splits intro!: quietI)
  then show ?thesis using cinv_quiet [OF c receive(1)] receive(3) by simp
next
  case (crash i)
  then show ?thesis using crash_step [OF c] by simp
next
  case (restart i e st n)
  then show ?thesis using restart_step [OF cfg c] by blast
next
  case (restart_fails i e st err)
  then show ?thesis using restart_fails_step [OF c] by blast
qed

section \<open>Election safety\<close>

lemma cinit_cinv:
  assumes "cinit c" "\<And>i. sinv (storage (cNode c i))"
  shows "cinv cfg c"
  using assms
  by (auto simp: cinit_def cinv_def nodes_ok_def net_ok_def votes_ok_def ballots_ok_def leaders_ok_def
      leads_def voted_def granted_def)

lemma run_cinv:
  assumes "run ops cfg fits c d" "cfg_ok cfg" "cinv cfg c" "bounded fits c"
  shows "cinv cfg d \<and> bounded fits d"
  using assms by (induction rule: run.induct) (auto intro: cstep_cinv)

lemma cstep_voted:
  assumes "cstep ops cfg c c'" "voted c j t i"
  shows "voted c' j t i"
proof -
  have "cReps c \<subseteq> cReps c' \<and> (\<forall>i t. cBallots c i t \<noteq> None \<longrightarrow> cBallots c' i t \<noteq> None)"
    using assms(1) by cases (auto simp: cluster_ops split: sum.splits)
  then show ?thesis using assms(2) unfolding voted_def granted_def by blast
qed

lemma run_voted: "run ops cfg fits c d \<Longrightarrow> voted c j t i \<Longrightarrow> voted d j t i"
  by (induction rule: run.induct) (auto intro: cstep_voted)

definition members_ok :: "(node_id \<Rightarrow> Config) \<Rightarrow> node_id set \<Rightarrow> bool" where
  "members_ok cfg M \<longleftrightarrow> finite M \<and> odd (card M) \<and>
     (\<forall>i \<in> M. distinct (cPeers (cfg i)) \<and> set (cPeers (cfg i)) = M - {i})"

lemma one_leader:
  assumes cfg: "cfg_ok cfg" "members_ok cfg M" and c: "cinv cfg c" "bounded fits c"
    and r: "run ops cfg fits c d" and l: "leads c i t" "leads d j t" and m: "i \<in> M" "j \<in> M"
  shows "i = j"
proof -
  have d: "cinv cfg d" using run_cinv [OF r cfg(1) c] by simp
  have size: "insert k (set (cPeers (cfg k))) = M \<and> length (cPeers (cfg k)) = card M - 1 \<and>
      card M < 2 * majority (cPeers (cfg k))" if "k \<in> M" for k
  proof -
    have "distinct (cPeers (cfg k))" "set (cPeers (cfg k)) = M - {k}" "finite M" "odd (card M)"
      using cfg(2) that by (auto simp: members_ok_def)
    moreover from this have "length (cPeers (cfg k)) = card M - 1"
      using distinct_card that by fastforce
    moreover have "0 < card M" using calculation that card_gt_0_iff by blast
    ultimately show ?thesis using that by (auto simp: majority_def elim!: oddE)
  qed
  have "electors cfg c t i \<subseteq> electors cfg d t i"
    using run_voted [OF r] by (auto simp: electors_def)
  then have "card (electors cfg c t i) \<le> card (electors cfg d t i)"
    by (intro card_mono) (auto simp: electors_def)
  moreover have "majority (cPeers (cfg i)) \<le> card (electors cfg c t i)" "majority (cPeers (cfg j)) \<le> card (electors cfg d t j)"
    using c(1) d l by (simp_all add: cinv_def leaders_ok_def)
  moreover have "majority (cPeers (cfg i)) = majority (cPeers (cfg j))"
    using size [OF m(1)] size [OF m(2)] by (simp add: majority_def)
  ultimately have "card M < card (electors cfg d t i) + card (electors cfg d t j)"
    using size [OF m(1)] by linarith
  moreover have "electors cfg d t i \<subseteq> M" "electors cfg d t j \<subseteq> M"
    using size m by (auto simp: electors_def)
  ultimately have "electors cfg d t i \<inter> electors cfg d t j \<noteq> {}"
    using cfg(2) by (intro quorum_overlap [of M]) (auto simp: members_ok_def)
  then obtain k where "voted d k t i" "voted d k t j" by (auto simp: electors_def)
  then show ?thesis using d unfolding cinv_def votes_ok_def by blast
qed

end

end
