(* ===== verification/Raft_Runs.thy ===== *)
theory Raft_Runs
  imports Raft_Election
begin

text \<open>
  Concrete runs of a cluster. An \<open>Action\<close> names a step, \<open>act\<close> performs it when the step relation
  allows it, and \<open>acts\<close> a list of them; what they compute is a run (\<open>acts_run\<close>). The witnesses
  and the counterexamples are such lists.
\<close>

datatype Action =
    Start node_id
  | Alone node_id nat
  | Deliver node_id node_id Request
  | CountVote node_id node_id RequestVoteArgs RequestVoteReply
  | Replicate node_id node_id nat
  | CountAppend node_id node_id AppendEntriesArgs AppendEntriesReply
  | ShipSnapshot node_id node_id nat
  | CountSnapshot node_id node_id InstallSnapshotArgs InstallSnapshotReply
  | Client node_id bytes
  | TakeSnapshot node_id nat bytes
  | Apply node_id
  | Receive node_id
  | Crash node_id
  | Restart node_id

fun act :: "'s Storage \<Rightarrow> (node_id \<Rightarrow> Config) \<Rightarrow> env \<Rightarrow> Action \<Rightarrow> 's Cluster \<Rightarrow> 's Cluster option" where
  "act ops cfg e (Start i) c =
     (if \<not> cAlive c i then None else
      case startElection ops e (cNode c i) of
        None \<Rightarrow> None
      | Some (n, None) \<Rightarrow> Some (put i n c)
      | Some (n, Some args) \<Rightarrow> Some (set_ballot i (rvTerm args) 1 (set (peers n))
           (send_all ((\<lambda>p. (i, p, RequestVoteReq args)) ` set (peers n)) (put i n c))))"
| "act ops cfg e (Alone i t) c =
     (if \<not> cAlive c i \<or> cBallots c i t = None then None
      else map_option (\<lambda>n. put i n c) (electedAlone t (cNode c i)))"
| "act ops cfg e (Deliver i j req) c =
     (if \<not> cAlive c j \<or> (i, j, req) \<notin> cReqs c then None
      else map_option (\<lambda>(n, r). reply_to j i req r (put j n c)) (handle ops e req (cNode c j)))"
| "act ops cfg e (CountVote i j args rep) c =
     (if \<not> cAlive c i \<or> rvCandidateID args \<noteq> i \<or> (j, i, RequestVoteReq args, RequestVoteRep rep) \<notin> cReps c then None
      else case cBallots c i (rvTerm args) of
        None \<Rightarrow> None
      | Some (v, ps) \<Rightarrow>
          if j \<notin> ps then None
          else map_option (\<lambda>(n, v'). set_ballot i (rvTerm args) v' (ps - {j}) (put i n c))
                 (voteReply ops (rvTerm args) v rep (cNode c i)))"
| "act ops cfg e (Replicate i p t) c =
     (if \<not> cAlive c i \<or> p \<notin> set (peers (cNode c i)) then None
      else case replicateToPeer p t (nid (cNode c i)) (cNode c i) of
        Some (SendAppend args) \<Rightarrow> Some (send_all {(i, p, AppendEntriesReq args)} c)
      | _ \<Rightarrow> None)"
| "act ops cfg e (CountAppend i j args rep) c =
     (if \<not> cAlive c i \<or> (j, i, AppendEntriesReq args, AppendEntriesRep rep) \<notin> cReps c then None
      else map_option (\<lambda>n. put i n c)
        (appendReply ops j (aeTerm args) (aePrevLogIndex args) (length (aeEntries args)) rep (cNode c i)))"
| "act ops cfg e (ShipSnapshot i p t) c =
     (if \<not> cAlive c i \<or> p \<notin> set (peers (cNode c i)) then None
      else map_option (\<lambda>args. send_all {(i, p, InstallSnapshotReq args)} c)
        (sendInstallSnapshot t (nid (cNode c i)) (cNode c i)))"
| "act ops cfg e (CountSnapshot i j args rep) c =
     (if \<not> cAlive c i \<or> (j, i, InstallSnapshotReq args, InstallSnapshotRep rep) \<notin> cReps c then None
      else map_option (\<lambda>n. put i n c)
        (snapshotReply ops j (isTerm args) (isLastIncludedIndex args) rep (cNode c i)))"
| "act ops cfg e (Client i command) c =
     (if \<not> cAlive c i then None
      else map_option (\<lambda>(n, idx, t, l). put i n c) (Propose ops command (cNode c i)))"
| "act ops cfg e (TakeSnapshot i index data) c =
     (if \<not> cAlive c i then None
      else map_option (\<lambda>(n, r). put i n c) (Snapshot ops index data (cNode c i)))"
| "act ops cfg e (Apply i) c =
     (if \<not> cAlive c i then None
      else map_option (\<lambda>(pc, n). (put i n c)\<lparr>cApplyPc := (cApplyPc c)(i := pc)\<rparr>)
        (apply_section (cApplyPc c i) (cNode c i)))"
| "act ops cfg e (Receive i) c =
     (if \<not> cAlive c i then None
      else map_option (\<lambda>(m, n). put i n c) (apply_receive (cNode c i)))"
| "act ops cfg e (Crash i) c =
     (if \<not> cAlive c i then None else Some (c\<lparr>cAlive := (cAlive c)(i := False)\<rparr>))"
| "act ops cfg e (Restart i) c =
     (if cAlive c i then None
      else case NewNode ops e (cfg i) (storage (cNode c i)) of
        Some (st, Inr n) \<Rightarrow> Some ((put i n c)\<lparr>cAlive := (cAlive c)(i := True), cApplyPc := (cApplyPc c)(i := ApplyTop)\<rparr>)
      | _ \<Rightarrow> None)"

fun acts :: "'s Storage \<Rightarrow> (node_id \<Rightarrow> Config) \<Rightarrow> env \<Rightarrow> Action list \<Rightarrow> 's Cluster \<Rightarrow> 's Cluster option" where
  "acts ops cfg e [] c = Some c"
| "acts ops cfg e (a # as) c = (case act ops cfg e a c of None \<Rightarrow> None | Some d \<Rightarrow> acts ops cfg e as d)"

lemma act_cstep: "act ops cfg e a c = Some c' \<Longrightarrow> cstep ops cfg c c'"
proof (induction a)
  case (Start i)
  then obtain n a where n: "cAlive c i" "startElection ops e (cNode c i) = Some (n, a)"
    by (auto split: if_splits option.splits)
  then show ?case
    using Start cstep.start_election [of c i ops e n _ c' cfg] cstep.start_election_fails [of c i ops e n c' cfg]
    by (cases a) auto
next
  case (Alone i t)
  then show ?case by (auto split: if_splits intro: elected_alone)
next
  case (Deliver i j req)
  then show ?case by (auto split: if_splits intro: deliver)
next
  case (CountVote i j args rep)
  then show ?case by (auto split: if_splits option.splits intro: vote_reply)
next
  case (Replicate i p t)
  then show ?case by (auto split: if_splits option.splits Sending.splits intro: replicate)
next
  case (CountAppend i j args rep)
  then show ?case by (auto split: if_splits intro: append_reply)
next
  case (ShipSnapshot i p t)
  then show ?case by (auto split: if_splits intro: send_snapshot)
next
  case (CountSnapshot i j args rep)
  then show ?case by (auto split: if_splits intro: snapshot_reply)
next
  case (Client i command)
  then show ?case by (auto split: if_splits intro: propose)
next
  case (TakeSnapshot i index data)
  then show ?case by (auto split: if_splits intro: take_snapshot)
next
  case (Apply i)
  then show ?case by (auto split: if_splits intro: apply_loop)
next
  case (Receive i)
  then show ?case by (auto split: if_splits intro: receive)
next
  case (Crash i)
  then show ?case by (auto split: if_splits intro: crash)
next
  case (Restart i)
  then show ?case by (auto split: if_splits option.splits sum.splits intro: restart)
qed

lemma bounded_True [simp]: "bounded (\<lambda>t v. True) c"
proof -
  have "req_fits (\<lambda>t v. True) req" "rep_fits (\<lambda>t v. True) rep" for req rep
    by (cases req; simp) (cases rep; simp)
  then show ?thesis by (auto simp: bounded_def)
qed

lemma run_trans_step:
  "run ops cfg fits d e \<Longrightarrow> cstep ops cfg c d \<Longrightarrow> bounded fits d \<Longrightarrow> run ops cfg fits c e"
  by (induction rule: run.induct) (auto intro: run.intros)

lemma acts_run: "acts ops cfg e as c = Some d \<Longrightarrow> run ops cfg (\<lambda>t v. True) c d"
proof (induction as arbitrary: c)
  case (Cons a as)
  then obtain c1 where "act ops cfg e a c = Some c1" "acts ops cfg e as c1 = Some d" by (auto split: option.splits)
  then show ?case using Cons.IH run_trans_step [OF _ act_cstep bounded_True] by blast
qed (simp add: run_refl)

section \<open>Clusters on MemoryStorage\<close>

definition demo_env :: env where
  "demo_env = \<lparr>env_now = 1000, env_Int63n = \<lambda>k. 0\<rparr>"

definition demo_cfg :: "node_id list \<Rightarrow> node_id \<Rightarrow> Config" where
  "demo_cfg ms i = \<lparr>cID = i, cPeers = filter (\<lambda>p. p \<noteq> i) ms, cTransport = True, cElectionTimeoutMin = 0,
     cElectionTimeoutMax = 0, cHeartbeatInterval = 0, cTickInterval = 0, cRPCTimeout = 0, cSnapshotThreshold = 2\<rparr>"

definition demo_cluster :: "node_id list \<Rightarrow> MemoryStorage Cluster" where
  "demo_cluster ms = \<lparr>cNode = \<lambda>i. node_from_state (demo_cfg ms i) NewMemoryStorage (mem_view NewMemoryStorage)
       (boundary_entry 0 0), cAlive = \<lambda>i. False, cApplyPc = \<lambda>i. ApplyTop, cReqs = {}, cReps = {},
     cBallots = \<lambda>i t. None\<rparr>"

lemma demo_init: "cinit (demo_cluster ms)" "mem_hard.cfg_ok (demo_cfg ms)"
  by (auto simp: cinit_def demo_cluster_def node_from_state_def mem_hard.cfg_ok_def demo_cfg_def)

definition demo_vote :: "node_id \<Rightarrow> RequestVoteArgs" where
  "demo_vote i = \<lparr>rvTerm = 1, rvCandidateID = i, rvLastLogIndex = 0, rvLastLogTerm = 0\<rparr>"

definition demo_grant :: RequestVoteReply where
  "demo_grant = \<lparr>rrTerm = 1, rrVoteGranted = True\<rparr>"

definition demo_election :: "Action list" where
  "demo_election = [Restart ''n1'', Restart ''n2'', Start ''n1'', Deliver ''n1'' ''n2'' (RequestVoteReq (demo_vote ''n1'')),
     CountVote ''n1'' ''n2'' (demo_vote ''n1'') demo_grant]"

section \<open>Election safety\<close>

text \<open>C1: election safety. In a cluster whose members form an odd set and list each other as peers,
  if some member leads a term at one point of a run and some member leads the same term at that
  or any later point, they are the same node; a run interleaves elections, late, lost and
  duplicated messages, proposals, snapshots, crashes and restarts in any order.\<close>

theorem election_safety:
  assumes "mem_hard.cfg_ok cfg" "mem_hard.members_ok cfg M" "cinit c0"
    and "run MemoryStorage_ops cfg (\<lambda>t v. True) c0 c" "run MemoryStorage_ops cfg (\<lambda>t v. True) c d"
    and "i \<in> M" "j \<in> M" "leads c i t" "leads d j t"
  shows "i = j"
proof -
  have "mem_hard.cinv cfg c0" using mem_hard.cinit_cinv [OF assms(3)] by simp
  then have "mem_hard.cinv cfg c" using mem_hard.run_cinv [OF assms(4,1)] by simp
  then show ?thesis using mem_hard.one_leader [OF assms(1,2) _ _ assms(5,8,9,6,7)] by simp
qed

text \<open>''n1'' wins term 1 with the vote of ''n2''; it still leads after ''n3'' has come up.\<close>

definition demo_members :: "node_id list" where
  "demo_members = [''n1'', ''n2'', ''n3'']"

definition demo_elected :: "MemoryStorage Cluster option" where
  "demo_elected = acts MemoryStorage_ops (demo_cfg demo_members) demo_env demo_election (demo_cluster demo_members)"

definition demo_later :: "MemoryStorage Cluster option" where
  "demo_later = acts MemoryStorage_ops (demo_cfg demo_members) demo_env [Restart ''n3'', Start ''n3''] (the demo_elected)"

lemma case_the: "(case x of None \<Rightarrow> False | Some d \<Rightarrow> P d) \<Longrightarrow> x \<noteq> None \<and> P (the x)"
  by (cases x) auto

lemma demo_elected_run:
  "demo_elected \<noteq> None" "leads (the demo_elected) ''n1'' 1" "demo_later \<noteq> None" "leads (the demo_later) ''n1'' 1"
proof -
  have "case demo_elected of None \<Rightarrow> False | Some d \<Rightarrow> leads d ''n1'' 1"
    "case demo_later of None \<Rightarrow> False | Some d \<Rightarrow> leads d ''n1'' 1"
    by code_simp+
  note this [THEN case_the]
  then show "demo_elected \<noteq> None" "leads (the demo_elected) ''n1'' 1" "demo_later \<noteq> None" "leads (the demo_later) ''n1'' 1"
    by iprover+
qed

theorem election_safety_witness:
  "leads (the demo_elected) ''n1'' 1 \<and> \<not> leads (the demo_later) ''n2'' 1 \<and> \<not> leads (the demo_later) ''n3'' 1"
proof -
  have r1: "run MemoryStorage_ops (demo_cfg demo_members) (\<lambda>t v. True) (demo_cluster demo_members) (the demo_elected)"
    by (rule acts_run [of _ _ demo_env demo_election]) (use demo_elected_run(1) in \<open>auto simp: demo_elected_def\<close>)
  have r2: "run MemoryStorage_ops (demo_cfg demo_members) (\<lambda>t v. True) (the demo_elected) (the demo_later)"
    by (rule acts_run [of _ _ demo_env "[Restart ''n3'', Start ''n3'']"]) (use demo_elected_run(3) in \<open>auto simp: demo_later_def\<close>)
  have m: "mem_hard.members_ok (demo_cfg demo_members) {''n1'', ''n2'', ''n3''}"
    by (auto simp: mem_hard.members_ok_def demo_cfg_def demo_members_def)
  note es = election_safety [OF demo_init(2) m demo_init(1) r1 r2, of "''n1''" _ 1]
  show ?thesis using es [of "''n2''"] es [of "''n3''"] demo_elected_run(2) by auto
qed

text \<open>The run of the even cluster.\<close>

definition split_members :: "node_id list" where
  "split_members = [''n1'', ''n2'', ''n3'', ''n4'']"

definition split_election :: "Action list" where
  "split_election = [Restart ''n1'', Restart ''n2'', Restart ''n3'', Restart ''n4'',
     Start ''n1'', Start ''n3'',
     Deliver ''n1'' ''n2'' (RequestVoteReq (demo_vote ''n1'')), CountVote ''n1'' ''n2'' (demo_vote ''n1'') demo_grant,
     Deliver ''n3'' ''n4'' (RequestVoteReq (demo_vote ''n3'')), CountVote ''n3'' ''n4'' (demo_vote ''n3'') demo_grant]"

definition split_brain :: "MemoryStorage Cluster option" where
  "split_brain = acts MemoryStorage_ops (demo_cfg split_members) demo_env split_election (demo_cluster split_members)"

text \<open>C33: the majority counts \<open>len(peers)/2 + 1\<close> over the peers without the node itself. For an even
  number of members this is half of them, so a run of four members reaches a state with two
  leaders of term 1.\<close>

theorem even_cluster_two_leaders:
  "\<exists>d. run MemoryStorage_ops (demo_cfg split_members) (\<lambda>t v. True) (demo_cluster split_members) d \<and>
     leads d ''n1'' 1 \<and> leads d ''n3'' 1"
proof -
  have "case split_brain of None \<Rightarrow> False | Some d \<Rightarrow> leads d ''n1'' 1 \<and> leads d ''n3'' 1"
    by code_simp
  then show ?thesis using acts_run by (fastforce simp: split_brain_def split: option.splits)
qed

end
