(* ===== verification/Disk_Codec.thy ===== *)
theory Disk_Codec
  imports Raft_Types
begin

text \<open>
  The byte formats of the disk storage (src/internal/storage/wal.go): big-endian integers
  (\<open>encoding/binary\<close>), the CRC-32 of \<open>hash/crc32\<close> with the IEEE polynomial, the payload of a log
  record, the record with its header, the hardstate file and the snapshot file.

  Go's \<open>PutUint64\<close> and \<open>PutUint32(uint32(n))\<close> cut a number to its width; so does \<open>be_bytes\<close>.
\<close>

section \<open>Big-endian integers\<close>

fun be_bytes :: "nat \<Rightarrow> nat \<Rightarrow> bytes" where
  "be_bytes 0 x = []"
| "be_bytes (Suc k) x = of_nat (x div 256 ^ k) # be_bytes k x"

definition be_nat :: "bytes \<Rightarrow> nat" where
  "be_nat bs = fold (\<lambda>b a. a * 256 + unat b) bs 0"

definition PutUint64 :: "nat \<Rightarrow> bytes" where "PutUint64 x = be_bytes 8 x"
definition PutUint32 :: "nat \<Rightarrow> bytes" where "PutUint32 x = be_bytes 4 x"

lemma length_be_bytes [simp]: "length (be_bytes k x) = k"
  by (induction k) auto

lemma length_PutUint [simp]: "length (PutUint64 x) = 8" "length (PutUint32 x) = 4"
  by (simp_all add: PutUint64_def PutUint32_def)

lemma unat_byte [simp]: "unat (of_nat x :: byte) = x mod 256"
  by (simp add: unat_of_nat)

lemma fold_be: "fold (\<lambda>b a. a * 256 + unat b) (be_bytes k x) a = a * 256 ^ k + x mod 256 ^ k"
proof (induction k arbitrary: a)
  case (Suc k)
  have "x mod 256 ^ Suc k = 256 ^ k * (x div 256 ^ k mod 256) + x mod 256 ^ k"
    by (metis mod_mult2_eq mult.commute power_Suc2)
  then show ?case using Suc by (simp add: algebra_simps)
qed simp

lemma be_nat_bytes: "be_nat (be_bytes k x) = x mod 256 ^ k"
  by (simp add: be_nat_def fold_be)

lemma be_nat_Put [simp]:
  "x < 2 ^ 64 \<Longrightarrow> be_nat (PutUint64 x) = x" "x < 2 ^ 32 \<Longrightarrow> be_nat (PutUint32 x) = x"
  by (simp_all add: PutUint64_def PutUint32_def be_nat_bytes)

lemma fold_be_start: "fold (\<lambda>b a. a * 256 + unat b) bs a = a * 256 ^ length bs + be_nat bs"
proof (induction bs arbitrary: a)
  case (Cons b bs)
  have "be_nat (b # bs) = unat b * 256 ^ length bs + be_nat bs"
    using Cons [of "unat b"] by (simp add: be_nat_def)
  then show ?case using Cons [of "a * 256 + unat b"] by (simp add: algebra_simps)
qed (simp add: be_nat_def)

lemma be_nat_Cons: "be_nat (b # bs) = unat b * 256 ^ length bs + be_nat bs"
  using fold_be_start [of bs "unat b"] by (simp add: be_nat_def)

lemma byte_less: "unat (b :: byte) < 256"
  using unsigned_less [of b, where 'a = nat] by simp

lemma be_nat_less: "be_nat bs < 256 ^ length bs"
proof (induction bs)
  case (Cons b bs)
  have "(unat b + 1) * 256 ^ length bs \<le> 256 * 256 ^ length bs"
    using byte_less [of b] by (intro mult_right_mono) auto
  then have "unat b * 256 ^ length bs + 256 ^ length bs \<le> 256 * 256 ^ length bs"
    by (simp only: add_mult_distrib mult_1)
  moreover have "256 ^ length (b # bs) = (256 * 256 ^ length bs :: nat)" by simp
  ultimately show ?case using Cons unfolding be_nat_Cons by linarith
qed (simp add: be_nat_def)

lemma be_bytes_nat: "length bs = k \<Longrightarrow> be_bytes k (be_nat bs) = bs"
proof (induction bs arbitrary: k)
  case (Cons b bs)
  have "be_bytes j (x + y * 256 ^ j) = be_bytes j x" for j x y
  proof (induction j arbitrary: y)
    case (Suc j)
    have "(x + y * 256 ^ Suc j) div 256 ^ j = x div 256 ^ j + y * 256"
      by (simp add: mult.assoc [symmetric] div_mult_self1)
    moreover have "(of_nat (x div 256 ^ j + y * 256) :: byte) = of_nat (x div 256 ^ j)"
      by (rule word_unat_eq_iff [THEN iffD2]) (simp only: unat_byte mod_mult_self1)
    moreover have "be_bytes j (x + y * 256 ^ Suc j) = be_bytes j x"
      using Suc [of "y * 256"] by (simp add: mult.assoc)
    ultimately show ?case by (simp only: be_bytes.simps)
  qed simp
  from this [of "length bs" "be_nat bs" "unat b"] show ?case
    using Cons be_nat_less [of bs] by (auto simp: be_nat_Cons add.commute)
qed simp

lemma Put_be_nat:
  "length bs = 8 \<Longrightarrow> PutUint64 (be_nat bs) = bs" "length bs = 4 \<Longrightarrow> PutUint32 (be_nat bs) = bs"
  by (simp_all add: PutUint64_def PutUint32_def be_bytes_nat)

section \<open>CRC-32\<close>

unbundle bit_operations_syntax

definition crc_bit :: "32 word \<Rightarrow> 32 word" where
  "crc_bit c = (if bit c 0 then drop_bit 1 c XOR 0xEDB88320 else drop_bit 1 c)"

definition crc_byte :: "byte \<Rightarrow> 32 word \<Rightarrow> 32 word" where
  "crc_byte b c = (crc_bit ^^ 8) (c XOR ucast b)"

definition ChecksumIEEE :: "bytes \<Rightarrow> 32 word" where
  "ChecksumIEEE bs = NOT (fold crc_byte bs (NOT 0))"

text \<open>The check value of this CRC, for the digits 1 to 9.\<close>

text \<open>The checksum of the text a, computed by the kernel.\<close>

lemma ChecksumIEEE_a: "ChecksumIEEE [0x61] = 0xE8B7BE43"
  by code_simp

text \<open>
  The register is updated by a bijection, so two payloads of the same length that differ in one
  byte never have the same checksum.
\<close>

lemma xor_cancel: "(a XOR b) XOR b = (a :: 32 word)"
  by (simp add: xor.assoc)

lemma crc_bit_inj: "crc_bit a = crc_bit b \<Longrightarrow> a = b"
proof -
  assume eq: "crc_bit a = crc_bit b"
  have top: "bit (crc_bit c) 31 = bit c 0" for c
    by (auto simp: crc_bit_def bit_simps dest: bit_imp_le_length)
  have b0: "bit a 0 = bit b 0" using eq top by metis
  then have "drop_bit 1 a = drop_bit 1 b"
    using eq unfolding crc_bit_def by (metis xor_cancel)
  then have "bit a (Suc k) = bit b (Suc k)" for k
    by (metis bit_drop_bit_eq comp_apply plus_1_eq_Suc)
  with b0 show "a = b" by (intro bit_eqI) (metis not0_implies_Suc)
qed

lemma crc_bits_inj: "(crc_bit ^^ k) a = (crc_bit ^^ k) b \<Longrightarrow> a = b"
  by (induction k) (auto dest: crc_bit_inj)

lemma crc_byte_inj: "crc_byte x c = crc_byte x d \<Longrightarrow> c = d"
  unfolding crc_byte_def by (drule crc_bits_inj) (metis xor_cancel)

lemma crc_byte_inj_byte: "crc_byte x c = crc_byte y c \<Longrightarrow> x = y"
proof -
  assume "crc_byte x c = crc_byte y c"
  then have "c XOR ucast x = c XOR ucast y" unfolding crc_byte_def by (rule crc_bits_inj)
  then have "(ucast x :: 32 word) = ucast y" by (metis xor_cancel xor.commute)
  then show "x = y" by (simp add: bit_eq_iff bit_simps)
qed

lemma fold_crc_inj: "fold crc_byte bs c = fold crc_byte bs d \<Longrightarrow> c = d"
  by (induction bs arbitrary: c d) (auto dest: crc_byte_inj)

lemma ChecksumIEEE_one_byte:
  assumes "x \<noteq> y"
  shows "ChecksumIEEE (xs @ x # ys) \<noteq> ChecksumIEEE (xs @ y # ys)"
proof
  assume "ChecksumIEEE (xs @ x # ys) = ChecksumIEEE (xs @ y # ys)"
  then have "fold crc_byte ys (crc_byte x (fold crc_byte xs (NOT 0))) = fold crc_byte ys (crc_byte y (fold crc_byte xs (NOT 0)))"
    by (simp add: ChecksumIEEE_def)
  then show False using assms by (metis fold_crc_inj crc_byte_inj_byte)
qed

section \<open>The payload of a log record\<close>

definition encodeEntry :: "LogEntry \<Rightarrow> bytes" where
  "encodeEntry e = PutUint64 (eTerm e) @ PutUint64 (eIndex e) @ PutUint32 (length (eCommand e)) @ eCommand e"

definition decodeEntry :: "bytes \<Rightarrow> error + LogEntry" where
  "decodeEntry payload =
     (if length payload < 20 then Inl (Errorf ''storage: truncated entry payload'' [])
      else let cmdLen = be_nat (take 4 (drop 16 payload))
           in if cmdLen \<noteq> length payload - 20 then Inl (Errorf ''storage: entry command length mismatch'' [])
              else Inr \<lparr>eTerm = be_nat (take 8 payload), eIndex = be_nat (take 8 (drop 8 payload)),
                        eCommand = (if cmdLen > 0 then drop 20 payload else [])\<rparr>)"

definition entry_fits :: "LogEntry \<Rightarrow> bool" where
  "entry_fits e \<longleftrightarrow> eTerm e < 2 ^ 64 \<and> eIndex e < 2 ^ 64 \<and> length (eCommand e) < 2 ^ 32"

lemma length_encodeEntry: "length (encodeEntry e) = 20 + length (eCommand e)"
  by (simp add: encodeEntry_def)

lemma decode_encode: "entry_fits e \<Longrightarrow> decodeEntry (encodeEntry e) = Inr e"
  by (auto simp: decodeEntry_def encodeEntry_def entry_fits_def Let_def)

lemma encode_decode:
  assumes "decodeEntry p = Inr e"
  shows "encodeEntry e = p" "entry_fits e"
proof -
  have l: "20 \<le> length p" "be_nat (take 4 (drop 16 p)) = length p - 20"
    and e: "e = \<lparr>eTerm = be_nat (take 8 p), eIndex = be_nat (take 8 (drop 8 p)),
      eCommand = (if length p - 20 > 0 then drop 20 p else [])\<rparr>"
    using assms by (auto simp: decodeEntry_def Let_def split: if_splits)
  have c: "eCommand e = drop 20 p" using e l by simp
  have "PutUint32 (length (eCommand e)) = take 4 (drop 16 p)"
    using Put_be_nat(2) [of "take 4 (drop 16 p)"] l c by simp
  moreover have "PutUint64 (eTerm e) = take 8 p" "PutUint64 (eIndex e) = take 8 (drop 8 p)"
    using Put_be_nat(1) [of "take 8 p"] Put_be_nat(1) [of "take 8 (drop 8 p)"] l e by simp_all
  moreover have "p = take 8 p @ take 8 (drop 8 p) @ take 4 (drop 16 p) @ drop 20 p"
    using append_take_drop_id [of 8 p] append_take_drop_id [of 8 "drop 8 p"] append_take_drop_id [of 4 "drop 16 p"]
    by (simp add: drop_drop)
  ultimately show "encodeEntry e = p" using c by (simp add: encodeEntry_def)
  have "be_nat (take 8 p) < 256 ^ 8" "be_nat (take 8 (drop 8 p)) < 256 ^ 8" "be_nat (take 4 (drop 16 p)) < 256 ^ 4"
    using be_nat_less [of "take 8 p"] be_nat_less [of "take 8 (drop 8 p)"] be_nat_less [of "take 4 (drop 16 p)"] l by simp_all
  then show "entry_fits e" using e c l by (simp add: entry_fits_def)
qed

section \<open>A record: header and payload\<close>

definition recordHeaderSize :: nat where "recordHeaderSize = 8"

text \<open>\<open>64 << 20\<close>\<close>

definition maxRecordPayload :: nat where "maxRecordPayload = 67108864"

definition record_header :: "bytes \<Rightarrow> bytes" where
  "record_header payload = PutUint32 (length payload) @ PutUint32 (unat (ChecksumIEEE payload))"

definition encode_record :: "LogEntry \<Rightarrow> bytes" where
  "encode_record e = record_header (encodeEntry e) @ encodeEntry e"

lemma length_encode_record: "length (encode_record e) = 28 + length (eCommand e)"
  by (simp add: encode_record_def record_header_def length_encodeEntry)

text \<open>Reading one record off the front of the file, as one pass of the scan loop does.\<close>

definition read_record :: "bytes \<Rightarrow> (LogEntry \<times> nat) option" where
  "read_record bs =
     (if length bs < recordHeaderSize then None
      else let payloadLen = be_nat (take 4 bs); wantCRC = be_nat (take 4 (drop 4 bs))
           in if payloadLen > maxRecordPayload then None
              else if length (drop recordHeaderSize bs) < payloadLen then None
              else let payload = take payloadLen (drop recordHeaderSize bs)
                   in if unat (ChecksumIEEE payload) \<noteq> wantCRC then None
                      else case decodeEntry payload of
                             Inl err \<Rightarrow> None
                           | Inr e \<Rightarrow> Some (e, recordHeaderSize + payloadLen))"

definition record_fits :: "LogEntry \<Rightarrow> bool" where
  "record_fits e \<longleftrightarrow> eTerm e < 2 ^ 64 \<and> eIndex e < 2 ^ 64 \<and> 20 + length (eCommand e) \<le> maxRecordPayload"

lemma record_fits_entry: "record_fits e \<Longrightarrow> entry_fits e"
  by (simp add: record_fits_def entry_fits_def maxRecordPayload_def)

lemma read_encode_record:
  assumes "record_fits e"
  shows "read_record (encode_record e @ rest) = Some (e, length (encode_record e))"
proof -
  have l: "length (encodeEntry e) \<le> maxRecordPayload" "length (encodeEntry e) < 2 ^ 32"
    using assms by (simp_all add: record_fits_def length_encodeEntry maxRecordPayload_def)
  have crc: "unat (ChecksumIEEE (encodeEntry e)) < 2 ^ 32"
    using unsigned_less [of "ChecksumIEEE (encodeEntry e)"] by simp
  have "take 4 (encode_record e @ rest) = PutUint32 (length (encodeEntry e))"
    "take 4 (drop 4 (encode_record e @ rest)) = PutUint32 (unat (ChecksumIEEE (encodeEntry e)))"
    "drop 8 (encode_record e @ rest) = encodeEntry e @ rest"
    by (simp_all add: encode_record_def record_header_def)
  moreover have "length (encode_record e) = 8 + length (encodeEntry e)"
    by (simp add: encode_record_def record_header_def)
  ultimately show ?thesis
    using l crc decode_encode [OF record_fits_entry [OF assms]]
    by (simp add: read_record_def recordHeaderSize_def Let_def)
qed

text \<open>What the reader accepts is exactly the encoding of the entry it returns.\<close>

lemma read_record_exact:
  assumes "read_record bs = Some (e, len)"
  shows "take len bs = encode_record e" "record_fits e" "len = length (encode_record e)"
proof -
  define n where "n = be_nat (take 4 bs)"
  define p where "p = take n (drop 8 bs)"
  have l: "8 \<le> length bs" "n \<le> maxRecordPayload" "n \<le> length (drop 8 bs)" "len = 8 + n"
    and d: "unat (ChecksumIEEE p) = be_nat (take 4 (drop 4 bs))" "decodeEntry p = Inr e"
    using assms
    by (auto simp: read_record_def recordHeaderSize_def Let_def n_def p_def split: if_splits sum.splits)
  have p: "encodeEntry e = p" "length p = n" using encode_decode(1) [OF d(2)] l by (simp_all add: p_def)
  have "PutUint32 n = take 4 bs" "PutUint32 (unat (ChecksumIEEE p)) = take 4 (drop 4 bs)"
    using Put_be_nat(2) [of "take 4 bs"] Put_be_nat(2) [of "take 4 (drop 4 bs)"] l d by (simp_all add: n_def)
  moreover have "take (8 + n) bs = take 4 bs @ take 4 (drop 4 bs) @ take n (drop 8 bs)"
    using l(1) by (simp add: take_add [of 4 4, simplified] take_add [of 8 n] drop_drop)
  ultimately show t: "take len bs = encode_record e"
    using p l by (simp add: encode_record_def record_header_def p_def [symmetric])
  show "len = length (encode_record e)" using t l by (metis length_take min.absorb2 add_le_imp_le_diff length_drop add.commute le_diff_conv2)
  show "record_fits e"
    using encode_decode(2) [OF d(2)] p l by (simp add: entry_fits_def record_fits_def length_encodeEntry [symmetric])
qed

text \<open>A record that is cut short is not read: the signature of a crash in the middle of an append.\<close>

lemma read_torn_record:
  assumes "record_fits e" "k < length (encode_record e)"
  shows "read_record (take k (encode_record e)) = None"
proof (cases "k < 8")
  case False
  have l: "length (encodeEntry e) < 2 ^ 32"
    using assms by (simp add: record_fits_def length_encodeEntry maxRecordPayload_def)
  have "take 4 (take k (encode_record e)) = PutUint32 (length (encodeEntry e))"
    using False by (simp add: encode_record_def record_header_def min_absorb1)
  then have "be_nat (take 4 (take k (encode_record e))) = length (encodeEntry e)" using l by simp
  moreover have "length (encode_record e) = 8 + length (encodeEntry e)"
    by (simp add: encode_record_def record_header_def)
  moreover from this have "k - 8 < length (encodeEntry e)" using assms(2) False by simp
  ultimately show ?thesis
    using False by (simp add: read_record_def recordHeaderSize_def Let_def del: take_take)
qed (simp add: read_record_def recordHeaderSize_def min_def)

section \<open>The hardstate and the snapshot file\<close>

definition string_bytes :: "string \<Rightarrow> bytes" where "string_bytes s = map of_char s"
definition bytes_string :: "bytes \<Rightarrow> string" where "bytes_string bs = map (\<lambda>b. char_of (unat b)) bs"

lemma bytes_string_string [simp]: "bytes_string (string_bytes s) = s"
proof -
  have "char_of (unat (of_char c :: byte)) = c" for c
  proof -
    have "(of_char c :: byte) = of_nat (of_char c)" by (simp add: of_nat_of_char)
    then show ?thesis by simp
  qed
  then show ?thesis by (simp add: string_bytes_def bytes_string_def comp_def)
qed

definition encodeHardState :: "nat \<Rightarrow> node_id \<Rightarrow> bytes" where
  "encodeHardState t v = PutUint64 t @ PutUint32 (length v) @ string_bytes v"

text \<open>The length check adds in \<open>uint32\<close>.\<close>

definition decodeHardState :: "bytes \<Rightarrow> error + (nat \<times> node_id)" where
  "decodeHardState data =
     (if length data < 12 then Inl (Errorf ''storage: hardstate file too short (%d bytes)'' [NatArg (length data)])
      else if (12 + be_nat (take 4 (drop 8 data))) mod 2 ^ 32 \<noteq> length data
      then Inl (Errorf ''storage: hardstate votedFor length mismatch'' [])
      else Inr (be_nat (take 8 data), bytes_string (drop 12 data)))"

definition hard_fits :: "nat \<Rightarrow> node_id \<Rightarrow> bool" where
  "hard_fits t v \<longleftrightarrow> t < 2 ^ 64 \<and> 12 + length v < 2 ^ 32"

lemma decode_encode_hard: "hard_fits t v \<Longrightarrow> decodeHardState (encodeHardState t v) = Inr (t, v)"
  by (simp add: decodeHardState_def encodeHardState_def hard_fits_def string_bytes_def [of v, symmetric])
    (simp add: string_bytes_def)

definition encodeSnapshot :: "nat \<Rightarrow> nat \<Rightarrow> bytes \<Rightarrow> bytes" where
  "encodeSnapshot i t data = PutUint64 i @ PutUint64 t @ PutUint32 (length data) @ data"

definition decodeSnapshot :: "bytes \<Rightarrow> error + (nat \<times> nat \<times> bytes)" where
  "decodeSnapshot raw =
     (if length raw < 20 then Inl (Errorf ''storage: snapshot file too short (%d bytes)'' [NatArg (length raw)])
      else let dataLen = be_nat (take 4 (drop 16 raw))
           in if (20 + dataLen) mod 2 ^ 32 \<noteq> length raw
              then Inl (Errorf ''storage: snapshot data length mismatch'' [])
              else Inr (be_nat (take 8 raw), be_nat (take 8 (drop 8 raw)), if dataLen > 0 then drop 20 raw else []))"

definition snap_fits :: "nat \<Rightarrow> nat \<Rightarrow> bytes \<Rightarrow> bool" where
  "snap_fits i t data \<longleftrightarrow> i < 2 ^ 64 \<and> t < 2 ^ 64 \<and> 20 + length data < 2 ^ 32"

lemma decode_encode_snapshot: "snap_fits i t data \<Longrightarrow> decodeSnapshot (encodeSnapshot i t data) = Inr (i, t, data)"
  by (simp add: decodeSnapshot_def encodeSnapshot_def snap_fits_def Let_def)

end
