(* ===== verification/Disk_Storage.thy ===== *)
theory Disk_Storage
  imports Disk_Codec
begin

text \<open>
  \<open>DiskStorage\<close> (src/internal/storage/wal.go) over a small model of its directory.

  \<open>Fs\<close> maps file names to contents. Every system call first takes an entry of \<open>faults\<close>: nothing
  or \<open>None\<close> lets it succeed, \<open>Some k\<close> makes it fail, a write or a copy after \<open>k\<close> bytes. A call that
  fails returns the wrapped error at once, as the code does, so a crash in the middle of an
  operation is a fault at that point. A rename takes effect at once or not at all. File contents
  survive a crash of the process; the loss of unsynced data in a power failure is not modelled.

  The open WAL handle is the flag \<open>dOpen\<close>: every write goes to the end of the file, so the
  position of the handle is not state. \<open>None\<close> results do not occur here: the code has no panics
  on the values the node passes.
\<close>

section \<open>Files and system calls\<close>

record Fs =
  files :: "string \<rightharpoonup> bytes"
  faults :: "nat option list"

definition io_error :: error where "io_error = Errorf ''input/output error'' []"

definition take_fault :: "Fs \<Rightarrow> nat option \<times> Fs" where
  "take_fault fs = (case faults fs of [] \<Rightarrow> (None, fs) | f # fl \<Rightarrow> (f, fs\<lparr>faults := fl\<rparr>))"

definition content :: "Fs \<Rightarrow> string \<Rightarrow> bytes" where
  "content fs name = (case files fs name of None \<Rightarrow> [] | Some bs \<Rightarrow> bs)"

definition set_file :: "string \<Rightarrow> bytes \<Rightarrow> Fs \<Rightarrow> Fs" where
  "set_file name bs fs = fs\<lparr>files := (files fs)(name \<mapsto> bs)\<rparr>"

text \<open>A system call without a partial effect: on success it changes the files by \<open>f\<close>.\<close>

definition sys_call :: "(Fs \<Rightarrow> Fs) \<Rightarrow> string \<Rightarrow> Fs \<Rightarrow> Fs \<times> error option" where
  "sys_call f msg fs = (case take_fault fs of
     (None, fs1) \<Rightarrow> (f fs1, None) | (Some k, fs1) \<Rightarrow> (fs1, Some (Wrapf msg [] io_error)))"

definition sys_write :: "string \<Rightarrow> bytes \<Rightarrow> string \<Rightarrow> Fs \<Rightarrow> Fs \<times> error option" where
  "sys_write name bs msg fs = (case take_fault fs of
     (None, fs1) \<Rightarrow> (set_file name (content fs1 name @ bs) fs1, None)
   | (Some k, fs1) \<Rightarrow> (set_file name (content fs1 name @ take k bs) fs1, Some (Wrapf msg [] io_error)))"

definition fs_rename :: "string \<Rightarrow> string \<Rightarrow> Fs \<Rightarrow> Fs" where
  "fs_rename a b fs = fs\<lparr>files := (files fs)(b := files fs a, a := None)\<rparr>"

text \<open>Steps in sequence, up to the first error.\<close>

definition fs_seq :: "(Fs \<Rightarrow> Fs \<times> error option) \<Rightarrow> (Fs \<Rightarrow> Fs \<times> error option) \<Rightarrow> Fs \<Rightarrow> Fs \<times> error option" where
  "fs_seq f g fs = (case f fs of (fs1, None) \<Rightarrow> g fs1 | (fs1, Some err) \<Rightarrow> (fs1, Some err))"

fun fs_steps :: "(Fs \<Rightarrow> Fs \<times> error option) list \<Rightarrow> Fs \<Rightarrow> Fs \<times> error option" where
  "fs_steps [] fs = (fs, None)"
| "fs_steps (f # fl) fs = fs_seq f (fs_steps fl) fs"

section \<open>The storage\<close>

definition hardStateFileName :: string where "hardStateFileName = ''hardstate''"
definition walFileName :: string where "walFileName = ''log.wal''"
definition snapshotFileName :: string where "snapshotFileName = ''snapshot''"

record DiskStorage =
  dFs :: Fs
  dOpen :: bool
  dOffsets :: "nat list"
  dLastIncludedIndex :: nat
  dLastIncludedTerm :: nat

definition NewDiskStorage :: "Fs \<Rightarrow> Fs \<times> (error + DiskStorage)" where
  "NewDiskStorage fs = (case fs_steps
       [sys_call id ''storage: creating data dir %s: %w'',
        sys_call (\<lambda>fs. set_file walFileName (content fs walFileName) fs) ''storage: opening wal: %w''] fs of
     (fs1, Some err) \<Rightarrow> (fs1, Inl err)
   | (fs1, None) \<Rightarrow> (fs1, Inr \<lparr>dFs = fs1, dOpen = True, dOffsets = [], dLastIncludedIndex = 0, dLastIncludedTerm = 0\<rparr>))"

definition disk_Close :: "DiskStorage \<Rightarrow> DiskStorage \<times> error option" where
  "disk_Close d = (if \<not> dOpen d then (d, Some (Errorf ''file already closed'' []))
     else let (fs, r) = sys_call id ''close'' (dFs d) in (d\<lparr>dFs := fs, dOpen := False\<rparr>, r))"

text \<open>Write to a temporary file, fsync, close, rename over the old one.\<close>

definition write_replace :: "string \<Rightarrow> bytes \<Rightarrow> string list \<Rightarrow> Fs \<Rightarrow> Fs \<times> error option" where
  "write_replace name buf msgs = fs_steps
     [sys_call (set_file (name @ ''.tmp'') []) (msgs ! 0),
      sys_write (name @ ''.tmp'') buf (msgs ! 1),
      sys_call id (msgs ! 2),
      sys_call id (msgs ! 3),
      sys_call (fs_rename (name @ ''.tmp'') name) (msgs ! 4)]"

definition disk_SaveHardState :: "DiskStorage \<Rightarrow> nat \<Rightarrow> node_id \<Rightarrow> DiskStorage \<times> error option" where
  "disk_SaveHardState d t v =
     (let (fs, r) = write_replace hardStateFileName (encodeHardState t v)
        [''storage: creating hardstate temp file: %w'', ''storage: writing hardstate: %w'',
         ''storage: fsyncing hardstate: %w'', ''storage: closing hardstate temp file: %w'',
         ''storage: installing hardstate: %w''] (dFs d)
      in (d\<lparr>dFs := fs\<rparr>, r))"

text \<open>One record: seek to the end, write the header, write the payload.\<close>

definition closed_error :: "string \<Rightarrow> error" where
  "closed_error msg = Wrapf msg [] (Errorf ''file already closed'' [])"

fun append_records :: "LogEntry list \<Rightarrow> DiskStorage \<Rightarrow> DiskStorage \<times> error option" where
  "append_records [] d = (d, None)"
| "append_records (e # es) d =
     (let offset = length (content (dFs d) walFileName);
          payload = encodeEntry e;
          (fs, r) = fs_steps
            [sys_call id ''storage: seeking wal: %w'',
             sys_write walFileName (record_header payload) ''storage: writing wal record header: %w'',
             sys_write walFileName payload ''storage: writing wal record: %w''] (dFs d)
      in case r of
           Some err \<Rightarrow> (d\<lparr>dFs := fs\<rparr>, Some err)
         | None \<Rightarrow> append_records es (d\<lparr>dFs := fs, dOffsets := dOffsets d @ [offset]\<rparr>))"

definition disk_AppendLog :: "DiskStorage \<Rightarrow> LogEntry list \<Rightarrow> DiskStorage \<times> error option" where
  "disk_AppendLog d es =
     (if \<not> dOpen d then (d, Some (closed_error ''storage: seeking wal: %w''))
      else case append_records es d of
        (d1, Some err) \<Rightarrow> (d1, Some err)
      | (d1, None) \<Rightarrow>
          let (fs, r) = sys_call id ''storage: fsyncing wal: %w'' (dFs d1) in (d1\<lparr>dFs := fs\<rparr>, r))"

definition truncate_file :: "string \<Rightarrow> nat \<Rightarrow> Fs \<Rightarrow> Fs" where
  "truncate_file name n fs = set_file name (take n (content fs name)) fs"

definition disk_TruncateLog :: "DiskStorage \<Rightarrow> nat \<Rightarrow> DiskStorage \<times> error option" where
  "disk_TruncateLog d fromIndex =
     (if fromIndex \<le> dLastIncludedIndex d
      then (d, Some (Errorf ''storage: TruncateLog: fromIndex %d is at or before the snapshot boundary %d''
                       [NatArg fromIndex, NatArg (dLastIncludedIndex d)]))
      else
        let pos = fromIndex - dLastIncludedIndex d - 1
        in if pos \<ge> length (dOffsets d) then (d, None)
           else if \<not> dOpen d then (d, Some (closed_error ''storage: truncating wal: %w''))
           else let (fs, r) = fs_steps
                  [sys_call (truncate_file walFileName (dOffsets d ! pos)) ''storage: truncating wal: %w'',
                   sys_call id ''storage: seeking wal after truncate: %w'',
                   sys_call id ''storage: fsyncing wal after truncate: %w''] (dFs d)
                in (case r of
                      Some err \<Rightarrow> (d\<lparr>dFs := fs\<rparr>, Some err)
                    | None \<Rightarrow> (d\<lparr>dFs := fs, dOffsets := take pos (dOffsets d)\<rparr>, None)))"

definition writeSnapshotFileLocked :: "DiskStorage \<Rightarrow> nat \<Rightarrow> nat \<Rightarrow> bytes \<Rightarrow> DiskStorage \<times> error option" where
  "writeSnapshotFileLocked d i t data =
     (let (fs, r) = write_replace snapshotFileName (encodeSnapshot i t data)
        [''storage: creating snapshot temp file: %w'', ''storage: writing snapshot: %w'',
         ''storage: fsyncing snapshot: %w'', ''storage: closing snapshot temp file: %w'',
         ''storage: installing snapshot: %w''] (dFs d)
      in (d\<lparr>dFs := fs\<rparr>, r))"

text \<open>
  \<open>compactWALLocked\<close>: copy the tail of the WAL to a new file, rename it over the WAL, close the
  old handle and open the new file. Once the rename is done the old handle is of no use: a
  failure to close or to reopen leaves the storage without an open WAL.
\<close>

definition compactWALLocked :: "DiskStorage \<Rightarrow> nat \<Rightarrow> nat \<Rightarrow> DiskStorage \<times> error option" where
  "compactWALLocked d lastIndex lastTerm =
     (let relPos = lastIndex - dLastIncludedIndex d;
          wal = content (dFs d) walFileName;
          cutPoint = (if relPos < length (dOffsets d) then dOffsets d ! relPos else length wal);
          newOffsets = (if relPos < length (dOffsets d)
                        then map (\<lambda>off. off - cutPoint) (drop relPos (dOffsets d)) else []);
          tmpName = walFileName @ ''.compact''
      in if \<not> dOpen d then (d, Some (closed_error ''storage: seeking wal: %w''))
         else
           let (fs1, r1) = fs_steps
             [(if relPos < length (dOffsets d) then (\<lambda>fs. (fs, None)) else sys_call id ''storage: seeking wal: %w''),
              sys_call (set_file tmpName []) ''storage: creating compacted wal: %w'',
              sys_call id ''storage: seeking source wal: %w'',
              sys_write tmpName (drop cutPoint wal) ''storage: copying surviving wal entries: %w'',
              sys_call id ''storage: fsyncing compacted wal: %w'',
              sys_call id ''storage: closing compacted wal: %w'',
              sys_call (fs_rename tmpName walFileName) ''storage: installing compacted wal: %w''] (dFs d)
           in case r1 of
                Some err \<Rightarrow> (d\<lparr>dFs := fs1\<rparr>, Some err)
              | None \<Rightarrow>
                  let (fs2, r2) = fs_steps
                    [sys_call id ''storage: closing old wal handle: %w'',
                     sys_call id ''storage: reopening compacted wal: %w'',
                     sys_call id ''storage: seeking new wal handle: %w''] fs1
                  in (case r2 of
                        Some err \<Rightarrow> (d\<lparr>dFs := fs2, dOpen := False\<rparr>, Some err)
                      | None \<Rightarrow> (d\<lparr>dFs := fs2, dOffsets := newOffsets, dLastIncludedIndex := lastIndex,
                                   dLastIncludedTerm := lastTerm\<rparr>, None)))"

definition disk_SaveSnapshot :: "DiskStorage \<Rightarrow> nat \<Rightarrow> nat \<Rightarrow> bytes \<Rightarrow> DiskStorage \<times> error option" where
  "disk_SaveSnapshot d i t data = (case writeSnapshotFileLocked d i t data of
     (d1, Some err) \<Rightarrow> (d1, Some err)
   | (d1, None) \<Rightarrow> compactWALLocked d1 i t)"

section \<open>Loading\<close>

definition sys_read :: "string \<Rightarrow> string \<Rightarrow> Fs \<Rightarrow> Fs \<times> (error + bytes option)" where
  "sys_read name msg fs = (case take_fault fs of
     (None, fs1) \<Rightarrow> (fs1, Inr (files fs1 name)) | (Some k, fs1) \<Rightarrow> (fs1, Inl (Wrapf msg [] io_error)))"

definition loadHardState :: "Fs \<Rightarrow> Fs \<times> (error + (nat \<times> node_id))" where
  "loadHardState fs = (case sys_read hardStateFileName ''storage: reading hardstate: %w'' fs of
     (fs1, Inl err) \<Rightarrow> (fs1, Inl err)
   | (fs1, Inr None) \<Rightarrow> (fs1, Inr (0, []))
   | (fs1, Inr (Some data)) \<Rightarrow> (fs1, decodeHardState data))"

definition loadSnapshot :: "Fs \<Rightarrow> Fs \<times> (error + (nat \<times> nat \<times> bytes))" where
  "loadSnapshot fs = (case sys_read snapshotFileName ''storage: reading snapshot: %w'' fs of
     (fs1, Inl err) \<Rightarrow> (fs1, Inl err)
   | (fs1, Inr None) \<Rightarrow> (fs1, Inr (0, 0, []))
   | (fs1, Inr (Some raw)) \<Rightarrow> (fs1, decodeSnapshot raw))"

text \<open>
  The scan loop from position \<open>pos\<close>, expecting the record of index \<open>expected\<close> there: the entries,
  their offsets and the position it stops at. A read error of the device is taken like the end
  of the file by the code; the model has no such errors inside the loop.
\<close>

lemma read_record_length: "read_record bs = Some (e, len) \<Longrightarrow> 8 \<le> len \<and> len \<le> length bs"
  by (auto simp: read_record_def recordHeaderSize_def Let_def split: if_splits sum.splits)

function scan_records :: "nat \<Rightarrow> nat \<Rightarrow> bytes \<Rightarrow> LogEntry list \<times> nat list \<times> nat" where
  "scan_records expected pos bs = (case read_record bs of
     None \<Rightarrow> ([], [], pos)
   | Some (e, len) \<Rightarrow>
       if eIndex e \<noteq> expected then ([], [], pos)
       else let (es, offs, end) = scan_records (expected + 1) (pos + len) (drop len bs)
            in (e # es, pos # offs, end))"
  by pat_completeness auto
termination
  by (relation "measure (\<lambda>(i, p, bs). length bs)") (auto dest!: read_record_length)

declare scan_records.simps [simp del]

definition scanAndRepairWAL :: "nat \<Rightarrow> DiskStorage \<Rightarrow> DiskStorage \<times> (error + (LogEntry list \<times> nat list))" where
  "scanAndRepairWAL baseIndex d =
     (if \<not> dOpen d then (d, Inl (closed_error ''storage: seeking wal: %w''))
      else case sys_call id ''storage: seeking wal: %w'' (dFs d) of
        (fs0, Some err) \<Rightarrow> (d\<lparr>dFs := fs0\<rparr>, Inl err)
      | (fs0, None) \<Rightarrow>
          let (entries, offsets, pos) = scan_records (baseIndex + 1) 0 (content fs0 walFileName);
              (fs, r) = fs_steps
                [sys_call (truncate_file walFileName pos) ''storage: truncating torn wal tail: %w'',
                 sys_call id ''storage: seeking wal after repair: %w'',
                 sys_call id ''storage: fsyncing wal after repair: %w''] fs0
          in (d\<lparr>dFs := fs\<rparr>, case r of Some err \<Rightarrow> Inl err | None \<Rightarrow> Inr (entries, offsets)))"

definition disk_Load :: "DiskStorage \<Rightarrow> DiskStorage \<times> (error + PersistentState)" where
  "disk_Load d = (case loadHardState (dFs d) of
     (fs1, Inl err) \<Rightarrow> (d\<lparr>dFs := fs1\<rparr>, Inl err)
   | (fs1, Inr (t, v)) \<Rightarrow> (case loadSnapshot fs1 of
       (fs2, Inl err) \<Rightarrow> (d\<lparr>dFs := fs2\<rparr>, Inl err)
     | (fs2, Inr (i, st, data)) \<Rightarrow>
         (case scanAndRepairWAL i (d\<lparr>dFs := fs2, dLastIncludedIndex := i, dLastIncludedTerm := st\<rparr>) of
            (d3, Inl err) \<Rightarrow> (d3, Inl err)
          | (d3, Inr (entries, offsets)) \<Rightarrow>
              (d3\<lparr>dOffsets := offsets\<rparr>,
               Inr \<lparr>psCurrentTerm = t, psVotedFor = v,
                    psLog = \<lparr>eTerm = st, eIndex = i, eCommand = []\<rparr> # entries, psSnapshotData = data\<rparr>))))"

definition DiskStorage_ops :: "DiskStorage Storage" where
  "DiskStorage_ops = \<lparr>SaveHardState = disk_SaveHardState, AppendLog = disk_AppendLog,
     TruncateLog = disk_TruncateLog, SaveSnapshot = disk_SaveSnapshot, Load = disk_Load\<rparr>"

end
