(* ===== verification/Disk_Recovery.thy ===== *)
theory Disk_Recovery
  imports Disk_Storage
begin

text \<open>
  \<open>DiskStorage\<close> keeps the storage contract: what \<open>Load\<close> returns is a function of the files
  (\<open>disk_view\<close>), every call that succeeds has its reference effect on it, and a call that fails
  part of the way, which is how a crash looks, leaves files that load again.
\<close>

section \<open>System calls\<close>

lemma take_fault_files: "take_fault fs = (f, fs1) \<Longrightarrow> files fs1 = files fs"
  by (auto simp: take_fault_def split: list.splits)

lemma sys_call_cases:
  assumes "sys_call f msg fs = (fs', r)"
  obtains fs1 where "files fs1 = files fs" "r = None \<and> fs' = f fs1 \<or> r \<noteq> None \<and> fs' = fs1"
proof -
  obtain x fs1 where t: "take_fault fs = (x, fs1)" by (cases "take_fault fs")
  then show ?thesis
    using assms that [OF take_fault_files [OF t]] by (cases x) (auto simp: sys_call_def)
qed

lemma content_cong: "files a = files b \<Longrightarrow> content a = content b"
  by (intro ext) (simp add: content_def)

lemma set_file_files [simp]: "files (set_file n bs fs) = (files fs)(n \<mapsto> bs)"
  by (simp add: set_file_def)

lemma content_upd [simp]: "files fs' = (files fs)(n \<mapsto> bs) \<Longrightarrow> content fs' m = (if m = n then bs else content fs m)"
  by (simp add: content_def)

lemma sys_write_cases:
  assumes "sys_write name bs msg fs = (fs', r)"
  obtains k where "files fs' = (files fs)(name \<mapsto> content fs name @ take k bs)" "r = None \<Longrightarrow> length bs \<le> k"
proof -
  obtain f fs1 where t: "take_fault fs = (f, fs1)" by (cases "take_fault fs")
  have c: "files fs1 = files fs" "content fs1 = content fs"
    using take_fault_files [OF t] content_cong by blast+
  show ?thesis
  proof (cases f)
    case None
    then show ?thesis using that [of "length bs"] assms t c by (auto simp: sys_write_def)
  next
    case (Some k)
    then show ?thesis using that [of k] assms t c by (auto simp: sys_write_def)
  qed
qed

lemma sys_call_files: "sys_call id msg fs = (fs', r) \<Longrightarrow> files fs' = files fs"
  by (erule sys_call_cases) auto

lemma fs_steps_Cons:
  assumes "fs_steps (f # fl) fs = (fs', r)"
  obtains (err) "f fs = (fs', r)" "r \<noteq> None" | (ok) fs1 where "f fs = (fs1, None)" "fs_steps fl fs1 = (fs', r)"
  using assms by (auto simp: fs_seq_def split: prod.splits option.splits)

text \<open>The files a step may change, whatever its outcome.\<close>

definition touches :: "string set \<Rightarrow> (Fs \<Rightarrow> Fs \<times> error option) \<Rightarrow> bool" where
  "touches A f \<longleftrightarrow> (\<forall>fs fs' r. f fs = (fs', r) \<longrightarrow> (\<forall>n. n \<notin> A \<longrightarrow> files fs' n = files fs n))"

lemma touchesD: "touches A f \<Longrightarrow> f fs = (fs', r) \<Longrightarrow> n \<notin> A \<Longrightarrow> files fs' n = files fs n"
  by (auto simp: touches_def)

lemma touches_call:
  assumes "\<And>fs n. n \<notin> A \<Longrightarrow> files (f fs) n = files fs n"
  shows "touches A (sys_call f msg)"
  using assms unfolding touches_def by (metis sys_call_cases)

lemma touches_write: "name \<in> A \<Longrightarrow> touches A (sys_write name bs msg)"
  unfolding touches_def by (metis fun_upd_other sys_write_cases)

lemma fs_steps_ok [simp]:
  "fs_steps (f # fl) fs = (fs', None) \<longleftrightarrow> (\<exists>fs1. f fs = (fs1, None) \<and> fs_steps fl fs1 = (fs', None))"
  by (auto simp: fs_seq_def split: prod.splits option.splits)

lemma fs_steps_snoc:
  "fs_steps (fl @ [f]) fs = (fs', r) \<Longrightarrow>
     (\<exists>fs1. fs_steps fl fs = (fs1, None) \<and> f fs1 = (fs', r)) \<or> r \<noteq> None \<and> fs_steps fl fs = (fs', r)"
  by (induction fl arbitrary: fs) (auto simp: fs_seq_def split: prod.splits option.splits)

lemma touches_steps:
  assumes "\<And>f. f \<in> set fl \<Longrightarrow> touches A f"
  shows "touches A (fs_steps fl)"
  using assms
proof (induction fl)
  case (Cons f fl)
  then have "touches A f" "touches A (fs_steps fl)" by simp_all
  then show ?case
    unfolding touches_def by (auto simp: fs_seq_def split: prod.splits option.splits)
qed (simp add: touches_def)

declare fs_steps.simps(2) [simp del]

text \<open>\<open>write_replace\<close> installs the new content or leaves the old one; no other file but its own changes.\<close>

lemma write_replace_spec:
  assumes "write_replace name buf msgs fs = (fs', r)"
  shows "n \<noteq> name \<Longrightarrow> n \<noteq> name @ ''.tmp'' \<Longrightarrow> files fs' n = files fs n"
    and "files fs' name = (if r = None then Some buf else files fs name)"
proof -
  let ?tmp = "name @ ''.tmp''"
  let ?pre = "[sys_call (set_file ?tmp []) (msgs ! 0), sys_write ?tmp buf (msgs ! 1), sys_call id (msgs ! 2), sys_call id (msgs ! 3)]"
  have pre: "touches {?tmp} (fs_steps ?pre)"
    by (rule touches_steps) (auto intro!: touches_call intro: touches_write split: if_splits)
  have ok: "files fs1 ?tmp = Some buf" if "fs_steps ?pre fs = (fs1, None)" for fs1
    using that by (auto elim!: sys_call_cases sys_write_cases simp: content_def)
  have "fs_steps (?pre @ [sys_call (fs_rename ?tmp name) (msgs ! 4)]) fs = (fs', r)"
    using assms by (simp add: write_replace_def)
  from fs_steps_snoc [OF this]
  have "(n \<noteq> name \<longrightarrow> n \<noteq> ?tmp \<longrightarrow> files fs' n = files fs n) \<and> files fs' name = (if r = None then Some buf else files fs name)" for n
  proof (elim disjE exE conjE)
    fix fs1 assume 1: "fs_steps ?pre fs = (fs1, None)" "sys_call (fs_rename ?tmp name) (msgs ! 4) fs1 = (fs', r)"
    have "m \<noteq> ?tmp \<Longrightarrow> files fs1 m = files fs m" for m using touchesD [OF pre 1(1)] by simp
    then show ?thesis
      using ok [OF 1(1)] by (rule_tac sys_call_cases [OF 1(2)]) (auto simp: fs_rename_def)
  next
    assume 2: "r \<noteq> None" "fs_steps ?pre fs = (fs', r)"
    have "m \<noteq> ?tmp \<Longrightarrow> files fs' m = files fs m" for m using touchesD [OF pre 2(2)] by simp
    then show ?thesis using 2(1) by auto
  qed
  then show "n \<noteq> name \<Longrightarrow> n \<noteq> ?tmp \<Longrightarrow> files fs' n = files fs n"
    "files fs' name = (if r = None then Some buf else files fs name)" by blast+
qed

section \<open>Records in the WAL\<close>

definition wal_bytes :: "LogEntry list \<Rightarrow> bytes" where
  "wal_bytes es = concat (map encode_record es)"

fun record_offsets :: "nat \<Rightarrow> LogEntry list \<Rightarrow> nat list" where
  "record_offsets p [] = []"
| "record_offsets p (e # es) = p # record_offsets (p + length (encode_record e)) es"

lemma wal_bytes_simps [simp]:
  "wal_bytes [] = []" "wal_bytes (e # es) = encode_record e @ wal_bytes es" "wal_bytes (xs @ ys) = wal_bytes xs @ wal_bytes ys"
  by (simp_all add: wal_bytes_def)

lemma length_record_offsets [simp]: "length (record_offsets p es) = length es"
  by (induction es arbitrary: p) auto

lemma record_offsets_append:
  "record_offsets p (xs @ ys) = record_offsets p xs @ record_offsets (p + length (wal_bytes xs)) ys"
  by (induction xs arbitrary: p) (auto simp: add.assoc)

lemma record_offsets_nth: "k < length es \<Longrightarrow> record_offsets p es ! k = p + length (wal_bytes (take k es))"
proof (induction es arbitrary: p k)
  case (Cons e es)
  then show ?case by (cases k) (auto simp: add.assoc)
qed simp

lemma record_offsets_shift: "c \<le> p \<Longrightarrow> map (\<lambda>o'. o' - c) (record_offsets p es) = record_offsets (p - c) es"
  by (induction es arbitrary: p) (auto simp: le_diff_conv2 intro!: arg_cong2 [of _ _ _ _ record_offsets])

lemma record_offsets_take: "take k (record_offsets p es) = record_offsets p (take k es)"
proof (induction es arbitrary: p k)
  case (Cons e es)
  then show ?case by (cases k) auto
qed simp

lemma record_offsets_drop:
  "k \<le> length es \<Longrightarrow> drop k (record_offsets p es) = record_offsets (p + length (wal_bytes (take k es))) (drop k es)"
  using record_offsets_append [of p "take k es" "drop k es"] by simp

lemma wal_bytes_split: "wal_bytes (take k es) @ wal_bytes (drop k es) = wal_bytes es"
  by (metis append_take_drop_id wal_bytes_simps(3))

lemma scan_append:
  assumes "indexed i es" "\<forall>e \<in> set es. record_fits e"
  shows "scan_records i p (wal_bytes es @ rest) =
    (let (es', offs, end) = scan_records (i + length es) (p + length (wal_bytes es)) rest
     in (es @ es', record_offsets p es @ offs, end))"
  using assms
proof (induction es arbitrary: i p)
  case (Cons e es)
  have "read_record (encode_record e @ (wal_bytes es @ rest)) = Some (e, length (encode_record e))"
    using Cons.prems by (intro read_encode_record) simp
  then show ?case
    using Cons.IH [of "Suc i" "p + length (encode_record e)"] Cons.prems
    by (subst scan_records.simps) (simp add: add.assoc split: prod.splits)
qed (simp split: prod.splits)

lemma scan_stop: "read_record bs = None \<Longrightarrow> scan_records i p bs = ([], [], p)"
  by (subst scan_records.simps) simp

lemma scan_nil [simp]: "scan_records i p [] = ([], [], p)"
  by (rule scan_stop) (simp add: read_record_def recordHeaderSize_def)

lemma scan_whole:
  "indexed i es \<Longrightarrow> \<forall>e \<in> set es. record_fits e \<Longrightarrow>
     scan_records i p (wal_bytes es) = (es, record_offsets p es, p + length (wal_bytes es))"
  using scan_append [of i es p "[]"] by simp

text \<open>A prefix of the records, cut anywhere: the complete records of it are read.\<close>

lemma scan_prefix:
  assumes "indexed i es" "\<forall>e \<in> set es. record_fits e"
  shows "\<exists>j \<le> length es. scan_records i p (take k (wal_bytes es)) =
    (take j es, record_offsets p (take j es), p + length (wal_bytes (take j es))) \<and>
    (length (wal_bytes es) \<le> k \<longrightarrow> j = length es)"
  using assms
proof (induction es arbitrary: i p k)
  case (Cons e es)
  show ?case
  proof (cases "k < length (encode_record e)")
    case True
    then have "read_record (take k (wal_bytes (e # es))) = None"
      using Cons.prems read_torn_record [of e k] by simp
    then show ?thesis using True by (intro exI [of _ 0]) (simp add: scan_stop)
  next
    case False
    obtain j where j: "j \<le> length es" "scan_records (Suc i) (p + length (encode_record e)) (take (k - length (encode_record e)) (wal_bytes es)) =
      (take j es, record_offsets (p + length (encode_record e)) (take j es), p + length (encode_record e) + length (wal_bytes (take j es)))"
      "length (wal_bytes es) \<le> k - length (encode_record e) \<longrightarrow> j = length es"
      using Cons.IH [of "Suc i" "p + length (encode_record e)" "k - length (encode_record e)"] Cons.prems by auto
    have "take k (wal_bytes (e # es)) = wal_bytes [e] @ take (k - length (encode_record e)) (wal_bytes es)"
      using False by simp
    then show ?thesis
      using scan_append [of i "[e]" p "take (k - length (encode_record e)) (wal_bytes es)"] Cons.prems j False
      by (intro exI [of _ "Suc j"]) (simp add: add.assoc)
  qed
qed simp

text \<open>What the scan accepts: consecutive entries, and the bytes before its end are their records.\<close>

lemma scan_exact:
  assumes "scan_records i p bs = (es, offs, end)"
  shows "indexed i es \<and> (\<forall>e \<in> set es. record_fits e) \<and> offs = record_offsets p es \<and>
    end = p + length (wal_bytes es) \<and> take (end - p) bs = wal_bytes es \<and> end - p \<le> length bs"
  using assms
proof (induction i p bs arbitrary: es offs "end" rule: scan_records.induct)
  case (1 i p bs)
  show ?case
  proof (cases "read_record bs")
    case None
    then show ?thesis using 1(2) by (simp add: scan_stop)
  next
    case (Some r)
    obtain e len where r: "r = (e, len)" by (cases r)
    note rr = read_record_exact [OF Some [unfolded r]] read_record_length [OF Some [unfolded r]]
    show ?thesis
    proof (cases "eIndex e = i")
      case False
      then show ?thesis using 1(2) Some r by (subst (asm) scan_records.simps) simp
    next
      case True
      obtain es1 offs1 end1 where s: "scan_records (i + 1) (p + len) (drop len bs) = (es1, offs1, end1)"
        by (metis prod_cases3)
      have eq: "es = e # es1" "offs = p # offs1" "end = end1"
        using 1(2) Some r True s by (subst (asm) scan_records.simps, simp)+
      have IH: "indexed (i + 1) es1" "\<forall>e \<in> set es1. record_fits e" "offs1 = record_offsets (p + len) es1"
        "end1 = p + len + length (wal_bytes es1)" "take (end1 - (p + len)) (drop len bs) = wal_bytes es1"
        "end1 - (p + len) \<le> length (drop len bs)"
        using 1(1) [OF Some r [symmetric] _ s] True by auto
      have "take (len + (end1 - (p + len))) bs = encode_record e @ wal_bytes es1"
        using rr(1) IH(5) by (simp add: take_add)
      moreover have "end1 - p = len + (end1 - (p + len))" using IH(4) by simp
      ultimately show ?thesis using IH rr True eq by (auto simp: add.assoc)
    qed
  qed
qed

section \<open>What Load sees\<close>

lemmas file_names = hardStateFileName_def walFileName_def snapshotFileName_def

definition hard_file :: "Fs \<Rightarrow> error + (nat \<times> node_id)" where
  "hard_file fs = (case files fs hardStateFileName of None \<Rightarrow> Inr (0, []) | Some data \<Rightarrow> decodeHardState data)"

definition snap_file :: "Fs \<Rightarrow> error + (nat \<times> nat \<times> bytes)" where
  "snap_file fs = (case files fs snapshotFileName of None \<Rightarrow> Inr (0, 0, []) | Some raw \<Rightarrow> decodeSnapshot raw)"

definition wal_file :: "DiskStorage \<Rightarrow> bytes" where
  "wal_file d = content (dFs d) walFileName"

definition disk_recov :: "DiskStorage \<Rightarrow> bool" where
  "disk_recov d \<longleftrightarrow> (\<exists>p. hard_file (dFs d) = Inr p) \<and> (\<exists>q. snap_file (dFs d) = Inr q)"

definition disk_hs :: "DiskStorage \<Rightarrow> nat \<times> node_id" where
  "disk_hs d = (case hard_file (dFs d) of Inr p \<Rightarrow> p | Inl e \<Rightarrow> (0, []))"

definition disk_snap :: "DiskStorage \<Rightarrow> nat \<times> nat \<times> bytes" where
  "disk_snap d = (case snap_file (dFs d) of Inr q \<Rightarrow> q | Inl e \<Rightarrow> (0, 0, []))"

definition make_view :: "nat \<times> node_id \<Rightarrow> nat \<times> nat \<times> bytes \<Rightarrow> LogEntry list \<Rightarrow> PersistentState" where
  "make_view h q es = (case q of (i, t, data) \<Rightarrow>
     \<lparr>psCurrentTerm = fst h, psVotedFor = snd h, psLog = boundary_entry t i # es, psSnapshotData = data\<rparr>)"

definition wal_entries :: "DiskStorage \<Rightarrow> LogEntry list" where
  "wal_entries d = fst (scan_records (fst (disk_snap d) + 1) 0 (wal_file d))"

definition disk_view :: "DiskStorage \<Rightarrow> PersistentState" where
  "disk_view d = make_view (disk_hs d) (disk_snap d) (wal_entries d)"

definition disk_inv :: "DiskStorage \<Rightarrow> bool" where
  "disk_inv d \<longleftrightarrow> dOpen d \<and> disk_recov d \<and>
     dLastIncludedIndex d = fst (disk_snap d) \<and>
     wal_file d = wal_bytes (wal_entries d) \<and> dOffsets d = record_offsets 0 (wal_entries d)"

fun disk_fits :: "StorageCall \<Rightarrow> bool" where
  "disk_fits (CallSaveHardState t v) = hard_fits t v"
| "disk_fits (CallAppendLog es) = (\<forall>e \<in> set es. record_fits e)"
| "disk_fits (CallTruncateLog k) = True"
| "disk_fits (CallSaveSnapshot i t data) = snap_fits i t data"

lemma wal_entries_ok: "indexed (fst (disk_snap d) + 1) (wal_entries d)" "\<forall>e \<in> set (wal_entries d). record_fits e"
proof -
  obtain es offs e where s: "scan_records (fst (disk_snap d) + 1) 0 (wal_file d) = (es, offs, e)"
    by (metis prod_cases3)
  have "wal_entries d = es" by (simp only: wal_entries_def s fst_conv)
  then show "indexed (fst (disk_snap d) + 1) (wal_entries d)" "\<forall>e \<in> set (wal_entries d). record_fits e"
    using scan_exact [OF s] by blast+
qed

lemma wal_entries_eq:
  "wal_file d = wal_bytes es \<Longrightarrow> indexed (fst (disk_snap d) + 1) es \<Longrightarrow> \<forall>e \<in> set es. record_fits e \<Longrightarrow> wal_entries d = es"
  by (simp add: wal_entries_def scan_whole)

lemma make_view_simps [simp]:
  "psLog (make_view h q es) = boundary_entry (fst (snd q)) (fst q) # es"
  "ps_boundary (make_view h q es) = fst q"
  by (simp_all add: make_view_def ps_boundary_def boundary_entry_def split: prod.splits)

lemma disk_view_wf: "ps_wf (disk_view d)"
  using wal_entries_ok [of d] by (simp add: ps_wf_def disk_view_def) (simp add: boundary_entry_def)

lemma disk_same:
  assumes "files (dFs d') hardStateFileName = files (dFs d) hardStateFileName"
  shows "hard_file (dFs d') = hard_file (dFs d)" "disk_hs d' = disk_hs d"
  using assms by (simp_all add: hard_file_def disk_hs_def)

lemma disk_same_snap:
  assumes "files (dFs d') snapshotFileName = files (dFs d) snapshotFileName"
  shows "snap_file (dFs d') = snap_file (dFs d)" "disk_snap d' = disk_snap d"
  using assms by (simp_all add: snap_file_def disk_snap_def)

section \<open>SaveHardState\<close>

lemma SaveHardState_spec:
  assumes "disk_SaveHardState d t v = (d', r)"
  shows "\<And>n. n \<noteq> hardStateFileName \<Longrightarrow> n \<noteq> hardStateFileName @ ''.tmp'' \<Longrightarrow> files (dFs d') n = files (dFs d) n"
    and "files (dFs d') hardStateFileName = (if r = None then Some (encodeHardState t v) else files (dFs d) hardStateFileName)"
    and "d' = d\<lparr>dFs := dFs d'\<rparr>"
proof -
  obtain fs where w: "write_replace hardStateFileName (encodeHardState t v)
        [''storage: creating hardstate temp file: %w'', ''storage: writing hardstate: %w'',
         ''storage: fsyncing hardstate: %w'', ''storage: closing hardstate temp file: %w'',
         ''storage: installing hardstate: %w''] (dFs d) = (fs, r)" and d: "d' = d\<lparr>dFs := fs\<rparr>"
    using assms by (auto simp: disk_SaveHardState_def Let_def split: prod.splits)
  show "\<And>n. n \<noteq> hardStateFileName \<Longrightarrow> n \<noteq> hardStateFileName @ ''.tmp'' \<Longrightarrow> files (dFs d') n = files (dFs d) n"
    "files (dFs d') hardStateFileName = (if r = None then Some (encodeHardState t v) else files (dFs d) hardStateFileName)"
    "d' = d\<lparr>dFs := dFs d'\<rparr>"
    using write_replace_spec [OF w] d by simp_all
qed

lemma SaveHardState_view:
  assumes "disk_SaveHardState d t v = (d', r)" "hard_fits t v"
  shows "disk_hs d' = (if r = None then (t, v) else disk_hs d)" "disk_snap d' = disk_snap d" "wal_file d' = wal_file d"
    "disk_recov d \<Longrightarrow> disk_recov d'" "disk_inv d \<Longrightarrow> disk_inv d'"
proof -
  note sp = SaveHardState_spec [OF assms(1)]
  have f: "files (dFs d') snapshotFileName = files (dFs d) snapshotFileName" "files (dFs d') walFileName = files (dFs d) walFileName"
    using sp(1) by (simp_all add: file_names)
  show h: "disk_hs d' = (if r = None then (t, v) else disk_hs d)"
    using sp(2) decode_encode_hard [OF assms(2)] by (auto simp: disk_hs_def hard_file_def)
  show s: "disk_snap d' = disk_snap d" by (rule disk_same_snap(2) [OF f(1)])
  show w: "wal_file d' = wal_file d" using f(2) by (simp add: wal_file_def content_def)
  show rc: "disk_recov d \<Longrightarrow> disk_recov d'"
    using sp(2) decode_encode_hard [OF assms(2)] disk_same_snap(1) [OF f(1)]
    by (auto simp: disk_recov_def hard_file_def)
  have "wal_entries d' = wal_entries d" by (simp add: wal_entries_def s w)
  moreover have "dOpen d' = dOpen d" "dLastIncludedIndex d' = dLastIncludedIndex d" "dOffsets d' = dOffsets d"
    by (subst sp(3), simp)+
  ultimately show "disk_inv d \<Longrightarrow> disk_inv d'"
    using s w rc by (simp add: disk_inv_def)
qed

section \<open>AppendLog\<close>

text \<open>The bytes of the records, all of them or cut somewhere; nothing else changes.\<close>

lemma append_one:
  assumes "fs_steps [sys_call id a, sys_write n x b, sys_write n y c] fs = (fs', r)"
  shows "\<exists>k. files fs' = (files fs)(n := files fs' n) \<and> content fs' n = content fs n @ take k (x @ y) \<and>
    (r = None \<longrightarrow> length (x @ y) \<le> k)"
proof (cases rule: fs_steps_Cons [OF assms])
  case 1
  then have "files fs' = files fs" by (auto dest: sys_call_files)
  then show ?thesis using 1 content_cong [of fs' fs] by (intro exI [of _ 0]) auto
next
  case (2 fs1)
  have c1: "files fs1 = files fs" "content fs1 = content fs"
    using sys_call_files [OF 2(1)] content_cong by blast+
  show ?thesis
  proof (cases rule: fs_steps_Cons [OF 2(2)])
    case 1
    obtain k where k: "files fs' = (files fs1)(n \<mapsto> content fs1 n @ take k x)" using sys_write_cases [OF 1(1)] by metis
    then show ?thesis using 1(2) c1 by (intro exI [of _ "min k (length x)"]) (auto simp: min_def)
  next
    case (2 fs2)
    obtain k where k: "files fs2 = (files fs1)(n \<mapsto> content fs1 n @ take k x)" "length x \<le> k"
      using sys_write_cases [OF 2(1)] by metis
    have c2: "content fs2 n = content fs n @ x" using k c1 by simp
    have "sys_write n y c fs2 = (fs', r)" using 2(2) by (auto elim!: fs_steps_Cons)
    then obtain j where j: "files fs' = (files fs2)(n \<mapsto> content fs2 n @ take j y)" "r = None \<Longrightarrow> length y \<le> j"
      using sys_write_cases by metis
    show ?thesis using j k c1 c2 by (intro exI [of _ "length x + j"]) auto
  qed
qed

lemma append_records_spec:
  assumes "append_records es d = (d', r)"
  shows "\<exists>k. files (dFs d') = (files (dFs d))(walFileName := files (dFs d') walFileName) \<and>
    wal_file d' = wal_file d @ take k (wal_bytes es) \<and>
    d' = d\<lparr>dFs := dFs d', dOffsets := dOffsets d'\<rparr> \<and>
    (r = None \<longrightarrow> length (wal_bytes es) \<le> k \<and> dOffsets d' = dOffsets d @ record_offsets (length (wal_file d)) es)"
  using assms
proof (induction es arbitrary: d)
  case Nil
  then show ?case by (intro exI [of _ 0]) auto
next
  case (Cons e es)
  let ?st = "[sys_call id ''storage: seeking wal: %w'',
              sys_write walFileName (record_header (encodeEntry e)) ''storage: writing wal record header: %w'',
              sys_write walFileName (encodeEntry e) ''storage: writing wal record: %w'']"
  obtain fs s where f: "fs_steps ?st (dFs d) = (fs, s)" by (cases "fs_steps ?st (dFs d)")
  obtain j where j: "files fs = (files (dFs d))(walFileName := files fs walFileName)"
    "content fs walFileName = wal_file d @ take j (encode_record e)" "s = None \<Longrightarrow> length (encode_record e) \<le> j"
    using append_one [OF f] by (auto simp: wal_file_def encode_record_def)
  show ?case
  proof (cases s)
    case (Some err)
    then have d': "d' = d\<lparr>dFs := fs\<rparr>" "r = Some err" using Cons.prems f by (simp_all add: Let_def)
    have "wal_file d' = wal_file d @ take (min j (length (encode_record e))) (wal_bytes (e # es))"
      using j(2) d' by (simp add: wal_file_def min_def)
    then show ?thesis using j(1) d' by (intro exI [of _ "min j (length (encode_record e))"]) simp
  next
    case None
    let ?d = "d\<lparr>dFs := fs, dOffsets := dOffsets d @ [length (wal_file d)]\<rparr>"
    have "append_records es ?d = (d', r)" using Cons.prems f None by (simp add: Let_def wal_file_def)
    from Cons.IH [OF this] obtain k where k0: "files (dFs d') = (files (dFs ?d))(walFileName := files (dFs d') walFileName)"
      and k: "wal_file d' = wal_file ?d @ take k (wal_bytes es)" "d' = ?d\<lparr>dFs := dFs d', dOffsets := dOffsets d'\<rparr>"
      "r = None \<longrightarrow> length (wal_bytes es) \<le> k \<and> dOffsets d' = dOffsets ?d @ record_offsets (length (wal_file ?d)) es"
      by blast
    have w: "wal_file ?d = wal_file d @ encode_record e" using j None by (simp add: wal_file_def)
    have fl: "files (dFs d') = (files (dFs d))(walFileName := files (dFs d') walFileName)"
      by (subst k0, simp, subst j(1)) simp
    have dd: "d' = d\<lparr>dFs := dFs d', dOffsets := dOffsets d'\<rparr>" by (subst k(2)) simp
    show ?thesis using fl k(1,3) w dd
      by (intro exI [of _ "length (encode_record e) + k"]) simp
  qed
qed

lemma AppendLog_spec:
  assumes "disk_AppendLog d es = (d', r)"
  shows "\<exists>k. files (dFs d') = (files (dFs d))(walFileName := files (dFs d') walFileName) \<and>
    wal_file d' = wal_file d @ take k (wal_bytes es) \<and>
    d' = d\<lparr>dFs := dFs d', dOffsets := dOffsets d'\<rparr> \<and>
    (r = None \<longrightarrow> length (wal_bytes es) \<le> k \<and> dOffsets d' = dOffsets d @ record_offsets (length (wal_file d)) es)"
proof (cases "dOpen d")
  case False
  then show ?thesis using assms by (intro exI [of _ 0]) (auto simp: disk_AppendLog_def)
next
  case True
  obtain d1 s where a: "append_records es d = (d1, s)" by (cases "append_records es d")
  show ?thesis
  proof (cases s)
    case (Some err)
    then have "append_records es d = (d', r)" using assms True a by (simp add: disk_AppendLog_def)
    then show ?thesis by (rule append_records_spec)
  next
    case None
    obtain fs where fs: "sys_call id ''storage: fsyncing wal: %w'' (dFs d1) = (fs, r)" "d' = d1\<lparr>dFs := fs\<rparr>"
      using assms True a None by (auto simp: disk_AppendLog_def Let_def split: prod.splits)
    have f: "files fs = files (dFs d1)" by (rule sys_call_files [OF fs(1)])
    have w: "wal_file d' = wal_file d1" using fs(2) content_cong [OF f] by (simp add: wal_file_def)
    obtain k where k: "files (dFs d1) = (files (dFs d))(walFileName := files (dFs d1) walFileName)"
      "wal_file d1 = wal_file d @ take k (wal_bytes es)" "d1 = d\<lparr>dFs := dFs d1, dOffsets := dOffsets d1\<rparr>"
      "length (wal_bytes es) \<le> k" "dOffsets d1 = dOffsets d @ record_offsets (length (wal_file d)) es"
      using append_records_spec [OF a] None by blast
    have "d' = d\<lparr>dFs := dFs d', dOffsets := dOffsets d'\<rparr>" unfolding fs(2) by (subst k(3)) simp
    moreover have "files (dFs d') = (files (dFs d))(walFileName := files (dFs d') walFileName)"
      using k(1) f fs(2) by simp
    moreover have "dOffsets d' = dOffsets d1" using fs(2) by simp
    ultimately show ?thesis using k(2,4,5) w by metis
  qed
qed

lemma AppendLog_view:
  assumes "disk_AppendLog d es = (d', r)"
  shows "disk_hs d' = disk_hs d" "disk_snap d' = disk_snap d" "hard_file (dFs d') = hard_file (dFs d)"
    "disk_recov d \<Longrightarrow> disk_recov d'" "dOpen d' = dOpen d" "dLastIncludedIndex d' = dLastIncludedIndex d"
proof -
  obtain k where k: "files (dFs d') = (files (dFs d))(walFileName := files (dFs d') walFileName)"
    "d' = d\<lparr>dFs := dFs d', dOffsets := dOffsets d'\<rparr>"
    using AppendLog_spec [OF assms] by blast
  have f: "files (dFs d') hardStateFileName = files (dFs d) hardStateFileName"
    "files (dFs d') snapshotFileName = files (dFs d) snapshotFileName"
    by (subst k(1), simp add: file_names)+
  show "disk_hs d' = disk_hs d" "disk_snap d' = disk_snap d" "hard_file (dFs d') = hard_file (dFs d)"
    "disk_recov d \<Longrightarrow> disk_recov d'"
    using disk_same [OF f(1)] disk_same_snap [OF f(2)] by (simp_all add: disk_recov_def)
  show "dOpen d' = dOpen d" "dLastIncludedIndex d' = dLastIncludedIndex d" by (subst k(2), simp)+
qed

lemma AppendLog_entries:
  assumes d: "disk_inv d" and es: "indexed (fst (disk_snap d) + 1 + length (wal_entries d)) es" "\<forall>e \<in> set es. record_fits e"
    and a: "disk_AppendLog d es = (d', r)"
  shows "\<exists>j. wal_entries d' = wal_entries d @ take j es \<and> (r = None \<longrightarrow> j = length es \<and> disk_inv d')"
proof -
  let ?i = "fst (disk_snap d) + 1" and ?old = "wal_entries d"
  obtain k where k: "wal_file d' = wal_file d @ take k (wal_bytes es)"
    "r = None \<longrightarrow> length (wal_bytes es) \<le> k \<and> dOffsets d' = dOffsets d @ record_offsets (length (wal_file d)) es"
    using AppendLog_spec [OF a] by blast
  note v = AppendLog_view [OF a]
  have w: "wal_file d = wal_bytes ?old" using d by (simp add: disk_inv_def)
  note old = wal_entries_ok [of d]
  obtain j where j: "j \<le> length es" "scan_records (?i + length ?old) (length (wal_bytes ?old)) (take k (wal_bytes es)) =
      (take j es, record_offsets (length (wal_bytes ?old)) (take j es), length (wal_bytes ?old) + length (wal_bytes (take j es)))"
      "length (wal_bytes es) \<le> k \<longrightarrow> j = length es"
    using scan_prefix [OF es, of "length (wal_bytes ?old)" k] by blast
  have e': "wal_entries d' = ?old @ take j es"
    using scan_append [OF old, of 0 "take k (wal_bytes es)"] j(2)
    by (simp add: wal_entries_def [of d'] v(2) k(1) w)
  have "disk_inv d'" if "r = None"
    using that j(3) k d v e' w by (simp add: disk_inv_def record_offsets_append)
  then show ?thesis using e' j(3) k(2) by blast
qed

end
