(* ===== verification/Disk_Contract.thy ===== *)
theory Disk_Contract
  imports Disk_Recovery Raft_Hard
begin

text \<open>
  The rest of the contract of \<open>DiskStorage\<close>: truncation, snapshots with the compaction of the WAL,
  and loading; then the interpretations of \<open>raft_storage\<close> and \<open>hard_storage\<close> on it.
\<close>

section \<open>TruncateLog\<close>

lemma fs_steps_tail:
  assumes "fs_steps [sys_call f a, sys_call id b, sys_call id c] fs = (fs', r)"
  shows "\<exists>fs1. files fs1 = files fs \<and> (files fs' = files (f fs1) \<or> r \<noteq> None \<and> files fs' = files fs)"
proof (cases rule: fs_steps_Cons [OF assms])
  case 1
  then show ?thesis by (metis sys_call_cases)
next
  case (2 fs1)
  have t: "touches {} (fs_steps [sys_call id b, sys_call id c])"
    by (rule touches_steps) (auto intro!: touches_call)
  have "files fs' = files fs1" using touchesD [OF t 2(2)] by blast
  then show ?thesis using 2(1) by (metis sys_call_cases option.distinct(1))
qed

lemma TruncateLog_spec:
  assumes d: "disk_inv d" and k: "dLastIncludedIndex d < k" and t: "disk_TruncateLog d k = (d', r)"
  shows "disk_recov d'" "disk_hs d' = disk_hs d" "disk_snap d' = disk_snap d"
    and "wal_entries d' = take (k - dLastIncludedIndex d - 1) (wal_entries d) \<or> r \<noteq> None \<and> wal_entries d' = wal_entries d"
    and "r = None \<Longrightarrow> disk_inv d'"
proof -
  let ?es = "wal_entries d" and ?pos = "k - dLastIncludedIndex d - 1"
  have inv: "dOpen d" "disk_recov d" "dLastIncludedIndex d = fst (disk_snap d)" "wal_file d = wal_bytes ?es"
    "dOffsets d = record_offsets 0 ?es"
    using d by (auto simp: disk_inv_def)
  note ok = wal_entries_ok [of d]
  have all: "disk_recov d' \<and> disk_hs d' = disk_hs d \<and> disk_snap d' = disk_snap d \<and>
    (wal_entries d' = take ?pos ?es \<or> r \<noteq> None \<and> wal_entries d' = ?es) \<and> (r = None \<longrightarrow> disk_inv d')"
  proof (cases "?pos \<ge> length ?es")
    case True
    then have "d' = d" "r = None" using t k inv by (simp_all add: disk_TruncateLog_def Let_def)
    then show ?thesis using d True inv by simp
  next
    case False
    let ?off = "length (wal_bytes (take ?pos ?es))"
    have off: "dOffsets d ! ?pos = ?off" using inv(5) record_offsets_nth [of ?pos ?es 0] False by simp
    let ?st = "[sys_call (truncate_file walFileName ?off) ''storage: truncating wal: %w'',
                   sys_call id ''storage: seeking wal after truncate: %w'',
                   sys_call id ''storage: fsyncing wal after truncate: %w'']"
    obtain fs where fs: "fs_steps ?st (dFs d) = (fs, r)"
      and d': "d' = (if r = None then d\<lparr>dFs := fs, dOffsets := take ?pos (dOffsets d)\<rparr> else d\<lparr>dFs := fs\<rparr>)"
      using t k False inv off
      by (auto simp: disk_TruncateLog_def Let_def simp del: fs_steps_ok split: prod.splits option.splits)
    obtain fs1 where f1: "files fs1 = files (dFs d)"
      "files fs = files (truncate_file walFileName ?off fs1) \<or> r \<noteq> None \<and> files fs = files (dFs d)"
      using fs_steps_tail [OF fs] by blast
    have dfs: "dFs d' = fs" using d' by simp
    have c: "content fs1 walFileName = wal_bytes ?es" using content_cong [OF f1(1)] inv(4) by (simp add: wal_file_def)
    have "take ?off (wal_bytes ?es) = wal_bytes (take ?pos ?es)"
      using wal_bytes_split [of ?pos ?es] by (metis append_eq_conv_conj)
    then have w: "files (dFs d') = (files (dFs d))(walFileName \<mapsto> wal_bytes (take ?pos ?es)) \<or> r \<noteq> None \<and> files (dFs d') = files (dFs d)"
      using f1 c dfs by (auto simp: truncate_file_def)
    have same: "files (dFs d') hardStateFileName = files (dFs d) hardStateFileName"
      "files (dFs d') snapshotFileName = files (dFs d) snapshotFileName"
      using w by (auto simp: file_names)
    note s1 = disk_same [OF same(1)] and s2 = disk_same_snap [OF same(2)]
    have rc: "disk_recov d'" using inv(2) s1(1) s2(1) by (simp add: disk_recov_def)
    show ?thesis
    proof (cases "r \<noteq> None \<and> files (dFs d') = files (dFs d)")
      case True
      then have "wal_file d' = wal_file d" using content_cong [of "dFs d'" "dFs d"] by (simp add: wal_file_def)
      then have "wal_entries d' = ?es" using s2(2) by (simp add: wal_entries_def)
      then show ?thesis using True rc s1 s2 by auto
    next
      case no: False
      then have wf: "wal_file d' = wal_bytes (take ?pos ?es)" using w by (auto simp: wal_file_def content_def)
      have e': "wal_entries d' = take ?pos ?es"
        by (rule wal_entries_eq [OF wf]) (use ok s2 in \<open>auto dest: in_set_takeD\<close>)
      have "disk_inv d'" if "r = None"
        using that rc inv s2 wf e' d' by (simp add: disk_inv_def record_offsets_take)
      then show ?thesis using e' rc s1 s2 by simp
    qed
  qed
  then show "disk_recov d'" "disk_hs d' = disk_hs d" "disk_snap d' = disk_snap d"
    "wal_entries d' = take ?pos ?es \<or> r \<noteq> None \<and> wal_entries d' = ?es" "r = None \<Longrightarrow> disk_inv d'" by blast+
qed

text \<open>Whatever the state of the storage, the hard state file is not touched.\<close>

lemma TruncateLog_hard:
  assumes "disk_TruncateLog d k = (d', r)"
  shows "hard_file (dFs d') = hard_file (dFs d)" "disk_hs d' = disk_hs d"
proof -
  have f: "files (dFs d') hardStateFileName = files (dFs d) hardStateFileName"
  proof -
    have "files fs hardStateFileName = files (dFs d) hardStateFileName"
      if s: "fs_steps [sys_call (truncate_file walFileName n) a, sys_call id b, sys_call id c] (dFs d) = (fs, s)" for fs n a b c s
      using fs_steps_tail [OF s] by (auto simp: truncate_file_def file_names)
    then show ?thesis using assms
      by (auto simp: disk_TruncateLog_def Let_def simp del: fs_steps_ok split: prod.splits option.splits if_splits)
  qed
  show "hard_file (dFs d') = hard_file (dFs d)" "disk_hs d' = disk_hs d" by (rule disk_same [OF f])+
qed

section \<open>SaveSnapshot\<close>

lemma writeSnapshot_spec:
  assumes "writeSnapshotFileLocked d i t data = (d', r)"
  shows "\<And>n. n \<noteq> snapshotFileName \<Longrightarrow> n \<noteq> snapshotFileName @ ''.tmp'' \<Longrightarrow> files (dFs d') n = files (dFs d) n"
    and "files (dFs d') snapshotFileName = (if r = None then Some (encodeSnapshot i t data) else files (dFs d) snapshotFileName)"
    and "d' = d\<lparr>dFs := dFs d'\<rparr>"
proof -
  obtain fs where w: "write_replace snapshotFileName (encodeSnapshot i t data)
        [''storage: creating snapshot temp file: %w'', ''storage: writing snapshot: %w'',
         ''storage: fsyncing snapshot: %w'', ''storage: closing snapshot temp file: %w'',
         ''storage: installing snapshot: %w''] (dFs d) = (fs, r)" and d: "d' = d\<lparr>dFs := fs\<rparr>"
    using assms by (auto simp: writeSnapshotFileLocked_def Let_def split: prod.splits)
  show "\<And>n. n \<noteq> snapshotFileName \<Longrightarrow> n \<noteq> snapshotFileName @ ''.tmp'' \<Longrightarrow> files (dFs d') n = files (dFs d) n"
    "files (dFs d') snapshotFileName = (if r = None then Some (encodeSnapshot i t data) else files (dFs d) snapshotFileName)"
    "d' = d\<lparr>dFs := dFs d'\<rparr>"
    using write_replace_spec [OF w] d by simp_all
qed

text \<open>The compaction: on success the WAL is its own tail; otherwise it is that or unchanged.\<close>

definition cut_point :: "DiskStorage \<Rightarrow> nat \<Rightarrow> nat" where
  "cut_point d i = (let relPos = i - dLastIncludedIndex d
     in if relPos < length (dOffsets d) then dOffsets d ! relPos else length (wal_file d))"

definition compact_steps :: "DiskStorage \<Rightarrow> nat \<Rightarrow> (Fs \<Rightarrow> Fs \<times> error option) list" where
  "compact_steps d i =
    [(if i - dLastIncludedIndex d < length (dOffsets d) then (\<lambda>fs. (fs, None)) else sys_call id ''storage: seeking wal: %w''),
     sys_call (set_file (walFileName @ ''.compact'') []) ''storage: creating compacted wal: %w'',
     sys_call id ''storage: seeking source wal: %w'',
     sys_write (walFileName @ ''.compact'') (drop (cut_point d i) (wal_file d)) ''storage: copying surviving wal entries: %w'',
     sys_call id ''storage: fsyncing compacted wal: %w'',
     sys_call id ''storage: closing compacted wal: %w'']"

lemma compact_steps_spec:
  assumes "fs_steps (compact_steps d i @ [sys_call (fs_rename (walFileName @ ''.compact'') walFileName) m]) fs = (fs', r)"
  shows "n \<noteq> walFileName \<Longrightarrow> n \<noteq> walFileName @ ''.compact'' \<Longrightarrow> files fs' n = files fs n"
    and "files fs' walFileName = (if r = None then Some (drop (cut_point d i) (wal_file d)) else files fs walFileName)"
proof -
  let ?tmp = "walFileName @ ''.compact''"
  have "touches {?tmp} (\<lambda>fs. (fs, None))" by (simp add: touches_def)
  then have pre: "touches {?tmp} (fs_steps (compact_steps d i))"
    by (intro touches_steps) (auto simp: compact_steps_def intro!: touches_call intro: touches_write split: if_splits)
  have ok: "files fs1 ?tmp = Some (drop (cut_point d i) (wal_file d))" if "fs_steps (compact_steps d i) fs = (fs1, None)" for fs1
    using that unfolding compact_steps_def by (auto elim!: sys_call_cases sys_write_cases simp: content_def split: if_splits)
  from fs_steps_snoc [OF assms]
  have "(n \<noteq> walFileName \<longrightarrow> n \<noteq> ?tmp \<longrightarrow> files fs' n = files fs n) \<and>
    files fs' walFileName = (if r = None then Some (drop (cut_point d i) (wal_file d)) else files fs walFileName)" for n
  proof (elim disjE exE conjE)
    fix fs1 assume 1: "fs_steps (compact_steps d i) fs = (fs1, None)" "sys_call (fs_rename ?tmp walFileName) m fs1 = (fs', r)"
    have "k \<noteq> ?tmp \<Longrightarrow> files fs1 k = files fs k" for k using touchesD [OF pre 1(1)] by simp
    then show ?thesis
      using ok [OF 1(1)] by (rule_tac sys_call_cases [OF 1(2)]) (auto simp: fs_rename_def)
  next
    assume 2: "r \<noteq> None" "fs_steps (compact_steps d i) fs = (fs', r)"
    have "k \<noteq> ?tmp \<Longrightarrow> files fs' k = files fs k" for k using touchesD [OF pre 2(2)] by simp
    then show ?thesis using 2(1) by auto
  qed
  then show "n \<noteq> walFileName \<Longrightarrow> n \<noteq> ?tmp \<Longrightarrow> files fs' n = files fs n"
    "files fs' walFileName = (if r = None then Some (drop (cut_point d i) (wal_file d)) else files fs walFileName)"
    by blast+
qed

lemma compact_spec:
  assumes o: "dOpen d" and c: "compactWALLocked d i t = (d', r)"
  shows "\<And>n. n \<noteq> walFileName \<Longrightarrow> n \<noteq> walFileName @ ''.compact'' \<Longrightarrow> files (dFs d') n = files (dFs d) n"
    and "files (dFs d') walFileName = Some (drop (cut_point d i) (wal_file d)) \<or>
      r \<noteq> None \<and> files (dFs d') walFileName = files (dFs d) walFileName"
    and "r = None \<Longrightarrow> d' = d\<lparr>dFs := dFs d', dLastIncludedIndex := i, dLastIncludedTerm := t,
      dOffsets := map (\<lambda>off. off - cut_point d i) (drop (i - dLastIncludedIndex d) (dOffsets d))\<rparr>"
proof -
  let ?pre = "compact_steps d i @ [sys_call (fs_rename (walFileName @ ''.compact'') walFileName) ''storage: installing compacted wal: %w'']"
  let ?post = "[sys_call id ''storage: closing old wal handle: %w'',
                     sys_call id ''storage: reopening compacted wal: %w'',
                     sys_call id ''storage: seeking new wal handle: %w'']"
  obtain fs1 r1 where s1: "fs_steps ?pre (dFs d) = (fs1, r1)" by (cases "fs_steps ?pre (dFs d)")
  obtain fs2 r2 where s2: "fs_steps ?post fs1 = (fs2, r2)" by (cases "fs_steps ?post fs1")
  have t: "touches {} (fs_steps ?post)" by (rule touches_steps) (auto intro!: touches_call)
  have f2: "files fs2 = files fs1" using touchesD [OF t s2] by blast
  have offs: "(if i - dLastIncludedIndex d < length (dOffsets d)
                        then map (\<lambda>off. off - cut_point d i) (drop (i - dLastIncludedIndex d) (dOffsets d)) else [])
     = map (\<lambda>off. off - cut_point d i) (drop (i - dLastIncludedIndex d) (dOffsets d))" by simp
  have d': "(d', r) = (case r1 of Some err \<Rightarrow> (d\<lparr>dFs := fs1\<rparr>, Some err)
      | None \<Rightarrow> (case r2 of Some err \<Rightarrow> (d\<lparr>dFs := fs2, dOpen := False\<rparr>, Some err)
         | None \<Rightarrow> (d\<lparr>dFs := fs2, dOffsets := map (\<lambda>off. off - cut_point d i) (drop (i - dLastIncludedIndex d) (dOffsets d)),
             dLastIncludedIndex := i, dLastIncludedTerm := t\<rparr>, None)))"
    using c o s1 s2 offs
    unfolding compactWALLocked_def Let_def compact_steps_def append.simps cut_point_def wal_file_def
    by (simp only: prod.case if_False not_True_eq_False simp_thms)
  note cs = compact_steps_spec [OF s1]
  show "\<And>n. n \<noteq> walFileName \<Longrightarrow> n \<noteq> walFileName @ ''.compact'' \<Longrightarrow> files (dFs d') n = files (dFs d) n"
    using cs(1) d' f2 by (auto split: option.splits)
  show "files (dFs d') walFileName = Some (drop (cut_point d i) (wal_file d)) \<or>
      r \<noteq> None \<and> files (dFs d') walFileName = files (dFs d) walFileName"
    using cs(2) d' f2 by (auto split: option.splits if_splits)
  show "r = None \<Longrightarrow> d' = d\<lparr>dFs := dFs d', dLastIncludedIndex := i, dLastIncludedTerm := t,
      dOffsets := map (\<lambda>off. off - cut_point d i) (drop (i - dLastIncludedIndex d) (dOffsets d))\<rparr>"
    using d' by (auto split: option.splits)
qed

lemma SaveSnapshot_frame:
  assumes "disk_SaveSnapshot d i t data = (d', r)"
  shows "hard_file (dFs d') = hard_file (dFs d)" "disk_hs d' = disk_hs d"
proof -
  obtain d1 r1 where w: "writeSnapshotFileLocked d i t data = (d1, r1)" by (cases "writeSnapshotFileLocked d i t data")
  have f1: "files (dFs d1) hardStateFileName = files (dFs d) hardStateFileName"
    using writeSnapshot_spec(1) [OF w, of hardStateFileName] by (simp add: file_names)
  have f2: "files (dFs d') hardStateFileName = files (dFs d1) hardStateFileName"
  proof (cases "r1 = None \<and> dOpen d1")
    case True
    then have "compactWALLocked d1 i t = (d', r)" using assms w by (simp add: disk_SaveSnapshot_def)
    then show ?thesis using compact_spec(1) [of d1 i t d' r hardStateFileName] True by (simp add: file_names)
  next
    case False
    then have "d' = d1" using assms w
      by (auto simp: disk_SaveSnapshot_def compactWALLocked_def Let_def split: option.splits)
    then show ?thesis by simp
  qed
  show "hard_file (dFs d') = hard_file (dFs d)" "disk_hs d' = disk_hs d"
    by (rule disk_same [OF trans [OF f2 f1]])+
qed

lemma SaveSnapshot_ok:
  assumes d: "disk_inv d" and i: "dLastIncludedIndex d < i" and f: "snap_fits i t data"
    and s: "disk_SaveSnapshot d i t data = (d', None)"
  shows "disk_inv d'" "disk_hs d' = disk_hs d" "disk_snap d' = (i, t, data)"
    "wal_entries d' = drop (i - dLastIncludedIndex d) (wal_entries d)"
proof -
  let ?es = "wal_entries d" and ?k = "i - dLastIncludedIndex d"
  have inv: "dOpen d" "disk_recov d" "dLastIncludedIndex d = fst (disk_snap d)" "wal_file d = wal_bytes ?es"
    "dOffsets d = record_offsets 0 ?es"
    using d by (auto simp: disk_inv_def)
  note ok = wal_entries_ok [of d]
  obtain d1 where w: "writeSnapshotFileLocked d i t data = (d1, None)" and c: "compactWALLocked d1 i t = (d', None)"
    using s by (auto simp: disk_SaveSnapshot_def split: prod.splits option.splits)
  note ws = writeSnapshot_spec [OF w]
  have d1: "dOpen d1" "dOffsets d1 = dOffsets d" "dLastIncludedIndex d1 = dLastIncludedIndex d"
    by (subst ws(3), use inv in simp)+
  have w1: "wal_file d1 = wal_bytes ?es"
    using ws(1) [of walFileName] inv(4) by (simp add: wal_file_def content_def file_names)
  note cs = compact_spec [OF d1(1) c]
  have snap: "files (dFs d') snapshotFileName = Some (encodeSnapshot i t data)"
    using cs(1) [of snapshotFileName] ws(2) by (simp add: file_names)
  show hs: "disk_hs d' = disk_hs d" by (rule SaveSnapshot_frame(2) [OF s])
  have sf: "snap_file (dFs d') = Inr (i, t, data)" using snap decode_encode_snapshot [OF f] by (simp add: snap_file_def)
  then show sn: "disk_snap d' = (i, t, data)" by (simp add: disk_snap_def)
  have cut: "cut_point d1 i = length (wal_bytes (take ?k ?es))"
    using d1 w1 inv(5) record_offsets_nth [of ?k ?es 0] by (auto simp: cut_point_def Let_def)
  have "drop (cut_point d1 i) (wal_bytes ?es) = wal_bytes (drop ?k ?es)"
    unfolding cut using wal_bytes_split [of ?k ?es] by (metis append_eq_conv_conj)
  then have wf: "wal_file d' = wal_bytes (drop ?k ?es)"
    using cs(2) w1 by (simp add: wal_file_def content_def)
  have ix: "indexed (i + 1) (drop ?k ?es)"
  proof (cases "?k \<le> length ?es")
    case True
    then show ?thesis using indexed_drop [OF ok(1) True] i inv(3) by simp
  qed simp
  show e': "wal_entries d' = drop ?k ?es"
    by (rule wal_entries_eq [OF wf]) (use ix ok sn in \<open>auto dest: in_set_dropD\<close>)
  have "map (\<lambda>off. off - cut_point d1 i) (drop ?k (dOffsets d1)) = record_offsets 0 (drop ?k ?es)"
  proof (cases "?k \<le> length ?es")
    case True
    then show ?thesis unfolding cut d1(2) inv(5)
      using record_offsets_shift [of "length (wal_bytes (take ?k ?es))" "length (wal_bytes (take ?k ?es))"]
      by (simp add: record_offsets_drop)
  qed (simp add: d1(2) inv(5))
  then have "dOffsets d' = record_offsets 0 (wal_entries d')" "dLastIncludedIndex d' = i" "dOpen d'"
    using d1 e' by (subst cs(3), simp, simp)+
  moreover have "disk_recov d'"
    using sf inv(2) SaveSnapshot_frame(1) [OF s] by (simp add: disk_recov_def)
  ultimately show "disk_inv d'" using wf e' sn by (simp add: disk_inv_def)
qed

section \<open>Load\<close>

lemma sys_read_cases:
  assumes "sys_read n msg fs = (fs1, r)"
  shows "files fs1 = files fs" "r = Inr (files fs n) \<or> (\<exists>e. r = Inl e)"
proof -
  obtain x fs0 where "take_fault fs = (x, fs0)" by (cases "take_fault fs")
  with take_fault_files [OF this] show "files fs1 = files fs" "r = Inr (files fs n) \<or> (\<exists>e. r = Inl e)"
    using assms by (auto simp: sys_read_def split: option.splits)
qed

lemma loadHardState_spec:
  assumes "loadHardState fs = (fs1, r)"
  shows "files fs1 = files fs" "r = Inr p \<Longrightarrow> hard_file fs = Inr p"
proof -
  obtain fs0 r0 where "sys_read hardStateFileName ''storage: reading hardstate: %w'' fs = (fs0, r0)"
    by (cases "sys_read hardStateFileName ''storage: reading hardstate: %w'' fs")
  with sys_read_cases [OF this] show "files fs1 = files fs" "r = Inr p \<Longrightarrow> hard_file fs = Inr p"
    using assms by (auto simp: loadHardState_def hard_file_def split: sum.splits option.splits)
qed

lemma loadSnapshot_spec:
  assumes "loadSnapshot fs = (fs1, r)"
  shows "files fs1 = files fs" "r = Inr q \<Longrightarrow> snap_file fs = Inr q"
proof -
  obtain fs0 r0 where "sys_read snapshotFileName ''storage: reading snapshot: %w'' fs = (fs0, r0)"
    by (cases "sys_read snapshotFileName ''storage: reading snapshot: %w'' fs")
  with sys_read_cases [OF this] show "files fs1 = files fs" "r = Inr q \<Longrightarrow> snap_file fs = Inr q"
    using assms by (auto simp: loadSnapshot_def snap_file_def split: sum.splits option.splits)
qed

lemma scanAndRepair_spec:
  assumes sc: "scan_records (i + 1) 0 (wal_file d) = (es, offs, end)" and h: "scanAndRepairWAL i d = (d', r)"
  shows "\<And>n. n \<noteq> walFileName \<Longrightarrow> files (dFs d') n = files (dFs d) n"
    and "wal_file d' = wal_file d \<or> wal_file d' = wal_bytes es"
    and "r = Inr (es', offs') \<Longrightarrow> es' = es \<and> offs' = offs \<and> wal_file d' = wal_bytes es"
    and "d' = d\<lparr>dFs := dFs d'\<rparr>" and "r = Inr x \<Longrightarrow> dOpen d"
proof -
  have all: "(\<forall>n. n \<noteq> walFileName \<longrightarrow> files (dFs d') n = files (dFs d) n) \<and>
    (wal_file d' = wal_file d \<or> wal_file d' = wal_bytes es) \<and>
    (\<forall>es' offs'. r = Inr (es', offs') \<longrightarrow> es' = es \<and> offs' = offs \<and> wal_file d' = wal_bytes es) \<and>
    d' = d\<lparr>dFs := dFs d'\<rparr> \<and> (\<forall>x. r = Inr x \<longrightarrow> dOpen d)"
  proof (cases "dOpen d")
    case False
    then show ?thesis using h by (auto simp: scanAndRepairWAL_def)
  next
    case True
    obtain fs0 r0 where s0: "sys_call id ''storage: seeking wal: %w'' (dFs d) = (fs0, r0)"
      by (cases "sys_call id ''storage: seeking wal: %w'' (dFs d)")
    note f0 = sys_call_files [OF s0]
    have c0: "content fs0 walFileName = wal_file d" using content_cong [OF f0] by (simp add: wal_file_def)
    show ?thesis
    proof (cases r0)
      case (Some err)
      then have "d' = d\<lparr>dFs := fs0\<rparr>" "r = Inl err" using h True s0 by (simp_all add: scanAndRepairWAL_def)
      then show ?thesis using f0 c0 by (simp add: wal_file_def)
    next
      case None
      let ?st = "[sys_call (truncate_file walFileName end) ''storage: truncating torn wal tail: %w'',
                 sys_call id ''storage: seeking wal after repair: %w'',
                 sys_call id ''storage: fsyncing wal after repair: %w'']"
      obtain fs r1 where s1: "fs_steps ?st fs0 = (fs, r1)" by (cases "fs_steps ?st fs0")
      have d': "d' = d\<lparr>dFs := fs\<rparr>" "r = (case r1 of Some err \<Rightarrow> Inl err | None \<Rightarrow> Inr (es, offs))"
        using h True s0 None c0 sc s1
        by (auto simp: scanAndRepairWAL_def Let_def simp del: fs_steps_ok split: option.splits)
      obtain fs2 where f2: "files fs2 = files fs0" "files fs = files (truncate_file walFileName end fs2) \<or> r1 \<noteq> None \<and> files fs = files fs0"
        using fs_steps_tail [OF s1] by blast
      have t: "take end (wal_file d) = wal_bytes es" using scan_exact [OF sc] by (metis diff_zero)
      have "content fs2 walFileName = wal_file d" using content_cong [OF f2(1)] c0 by simp
      then have fs: "files fs = (files (dFs d))(walFileName \<mapsto> wal_bytes es) \<or> r1 \<noteq> None \<and> files fs = files (dFs d)"
        using f2 f0 t by (auto simp: truncate_file_def)
      then have "wal_file d' = wal_bytes es \<or> r1 \<noteq> None \<and> wal_file d' = wal_file d"
        using d'(1) content_cong [of fs "dFs d"] by (auto simp: wal_file_def)
      then show ?thesis using d' fs True by (auto split: option.splits)
    qed
  qed
  then show "\<And>n. n \<noteq> walFileName \<Longrightarrow> files (dFs d') n = files (dFs d) n"
    "wal_file d' = wal_file d \<or> wal_file d' = wal_bytes es"
    "r = Inr (es', offs') \<Longrightarrow> es' = es \<and> offs' = offs \<and> wal_file d' = wal_bytes es"
    "d' = d\<lparr>dFs := dFs d'\<rparr>" "r = Inr x \<Longrightarrow> dOpen d" by blast+
qed

lemma Load_spec:
  assumes "disk_Load d = (d', r)"
  shows "hard_file (dFs d') = hard_file (dFs d)" "snap_file (dFs d') = snap_file (dFs d)"
    "wal_entries d' = wal_entries d"
    "r = Inr ps \<Longrightarrow> ps = disk_view d \<and> disk_inv d'"
proof -
  have all: "hard_file (dFs d') = hard_file (dFs d) \<and> snap_file (dFs d') = snap_file (dFs d) \<and>
    wal_entries d' = wal_entries d \<and> (\<forall>ps. r = Inr ps \<longrightarrow> ps = disk_view d \<and> disk_inv d')"
  proof -
    obtain fs1 r1 where h: "loadHardState (dFs d) = (fs1, r1)" by (cases "loadHardState (dFs d)")
    note hh = loadHardState_spec [OF h]
    have wal1: "hard_file fs1 = hard_file (dFs d)" "snap_file fs1 = snap_file (dFs d)" "content fs1 = content (dFs d)"
      using hh(1) content_cong [OF hh(1)] by (simp_all add: hard_file_def snap_file_def)
    obtain fs2 r2 where s: "loadSnapshot fs1 = (fs2, r2)" by (cases "loadSnapshot fs1")
    note ss = loadSnapshot_spec [OF s]
    have wal2: "hard_file fs2 = hard_file (dFs d)" "snap_file fs2 = snap_file (dFs d)" "content fs2 = content (dFs d)"
      using ss(1) wal1 content_cong [OF ss(1)] by (simp_all add: hard_file_def snap_file_def)
    have same: "wal_entries d1 = wal_entries d" if "snap_file (dFs d1) = snap_file (dFs d)" "content (dFs d1) = content (dFs d)" for d1
      using that by (simp add: wal_entries_def disk_snap_def wal_file_def)
    consider (hard) "\<exists>e. r1 = Inl e" | (snap) p where "r1 = Inr p" "\<exists>e. r2 = Inl e"
      | (scan) t v i st data where "r1 = Inr (t, v)" "r2 = Inr (i, st, data)"
      by (metis sum.exhaust surj_pair)
    then show ?thesis
    proof cases
      case hard
      then have "d' = d\<lparr>dFs := fs1\<rparr>" "\<exists>e. r = Inl e" using assms h by (auto simp: disk_Load_def)
      then show ?thesis using wal1 same [of d'] by auto
    next
      case snap
      then have "d' = d\<lparr>dFs := fs2\<rparr>" "\<exists>e. r = Inl e" using assms h s by (auto simp: disk_Load_def split: prod.splits)
      then show ?thesis using wal2 same [of d'] by auto
    next
      case scan
      let ?d2 = "d\<lparr>dFs := fs2, dLastIncludedIndex := i, dLastIncludedTerm := st\<rparr>"
      have sn: "snap_file (dFs d) = Inr (i, st, data)" "hard_file (dFs d) = Inr (t, v)"
        using ss(2) hh(2) scan wal1 by simp_all
      then have ds: "disk_snap d = (i, st, data)" "disk_hs d = (t, v)" by (simp_all add: disk_snap_def disk_hs_def)
      obtain es offs e where sc: "scan_records (i + 1) 0 (wal_file ?d2) = (es, offs, e)" by (metis prod_cases3)
      obtain d3 r3 where sr: "scanAndRepairWAL i ?d2 = (d3, r3)" by (cases "scanAndRepairWAL i ?d2")
      note sp = scanAndRepair_spec [OF sc sr]
      have w2: "wal_file ?d2 = wal_file d" using wal2(3) by (simp add: wal_file_def)
      have es: "wal_entries d = es"
        using sc w2 ds by (simp add: wal_entries_def)
      have f3: "hard_file (dFs d3) = hard_file (dFs d)" "snap_file (dFs d3) = snap_file (dFs d)"
        using sp(1) [of hardStateFileName] sp(1) [of snapshotFileName] wal2 by (simp_all add: hard_file_def snap_file_def file_names)
      then have ds3: "disk_snap d3 = disk_snap d" by (simp add: disk_snap_def)
      have ex: "indexed (i + 1) es" "\<forall>e \<in> set es. record_fits e" "offs = record_offsets 0 es"
        using scan_exact [OF sc] by auto
      have e3: "wal_entries d3 = es"
      proof (cases "wal_file d3 = wal_bytes es")
        case True
        then show ?thesis using ex ds ds3 by (intro wal_entries_eq) auto
      next
        case False
        then have "wal_file d3 = wal_file d" using sp(2) w2 by simp
        then show ?thesis using es ds3 by (simp add: wal_entries_def)
      qed
      have rr: "(d', r) = (case r3 of Inl err \<Rightarrow> (d3, Inl err) | Inr (entries, offsets) \<Rightarrow>
          (d3\<lparr>dOffsets := offsets\<rparr>, Inr \<lparr>psCurrentTerm = t, psVotedFor = v,
             psLog = \<lparr>eTerm = st, eIndex = i, eCommand = []\<rparr> # entries, psSnapshotData = data\<rparr>))"
        using assms h s scan sr by (simp add: disk_Load_def split: sum.splits)
      show ?thesis
      proof (cases r3)
        case (Inl err)
        then show ?thesis using rr f3 e3 es by simp
      next
        case (Inr x)
        then have x: "x = (es, offs)" "wal_file d3 = wal_bytes es" using sp(3) by (cases x; simp)+
        have d': "d' = d3\<lparr>dOffsets := offs\<rparr>" "r = Inr (disk_view d)"
          using rr Inr x ds es by (simp_all add: disk_view_def make_view_def boundary_entry_def)
        have o: "dOpen d3" "dLastIncludedIndex d3 = i" using sp(5) [OF Inr] by (subst sp(4), simp)+
        have e': "wal_entries d' = es" "disk_snap d' = disk_snap d" "wal_file d' = wal_bytes es"
          using e3 ds3 x(2) d'(1) by (simp_all add: wal_entries_def disk_snap_def wal_file_def)
        have "disk_inv d'"
          using o ex ds e' d'(1) sn f3 by (simp add: disk_inv_def disk_recov_def)
        then show ?thesis using d' f3 e' es by simp
      qed
    qed
  qed
  then show "hard_file (dFs d') = hard_file (dFs d)" "snap_file (dFs d') = snap_file (dFs d)"
    "wal_entries d' = wal_entries d" "r = Inr ps \<Longrightarrow> ps = disk_view d \<and> disk_inv d'" by blast+
qed

section \<open>The interpretations\<close>

lemma eIndex_boundary: "eIndex (boundary_entry t i) = i"
  by (simp add: boundary_entry_def)

lemmas disk_ops_simps = DiskStorage_ops_def Storage.simps

lemma disk_call_ok:
  assumes d: "disk_inv d" and l: "ps_legal (disk_view d) c" and f: "disk_fits c"
    and c: "storage_call DiskStorage_ops d c = (d', None)"
  shows "disk_inv d' \<and> disk_view d' = ps_call c (disk_view d)"
proof -
  have L: "ps_boundary (disk_view d) = dLastIncludedIndex d" using d by (simp add: disk_view_def disk_inv_def)
  have B: "dLastIncludedIndex d = fst (disk_snap d)" using d by (simp add: disk_inv_def)
  show ?thesis
  proof (cases c)
    case (CallSaveHardState t v)
    then have s: "disk_SaveHardState d t v = (d', None)" "hard_fits t v" using c f by (simp_all add: disk_ops_simps)
    note v = SaveHardState_view [OF s]
    have "wal_entries d' = wal_entries d" using v by (simp add: wal_entries_def)
    then show ?thesis using v d CallSaveHardState by (simp add: disk_view_def make_view_def split: prod.splits)
  next
    case (CallAppendLog es)
    then have a: "disk_AppendLog d es = (d', None)" "\<forall>e \<in> set es. record_fits e" using c f by (simp_all add: disk_ops_simps)
    have "indexed (fst (disk_snap d) + 1 + length (wal_entries d)) es"
      using l CallAppendLog by (simp add: disk_view_def)
    then have "wal_entries d' = wal_entries d @ es \<and> disk_inv d'"
      using AppendLog_entries [OF d _ a(2) a(1)] by auto
    then show ?thesis using AppendLog_view [OF a(1)] CallAppendLog
      by (simp add: disk_view_def make_view_def split: prod.splits)
  next
    case (CallTruncateLog k)
    then have t: "disk_TruncateLog d k = (d', None)" "dLastIncludedIndex d < k" using c l L by (simp_all add: disk_ops_simps)
    note sp = TruncateLog_spec [OF d t(2,1)]
    have "take (k - dLastIncludedIndex d) (boundary_entry x y # wal_entries d) = boundary_entry x y # wal_entries d'" for x y
      using sp(4) t(2) by (cases "k - dLastIncludedIndex d") auto
    then show ?thesis using sp L B CallTruncateLog
      by (simp add: disk_view_def make_view_def ps_boundary_def eIndex_boundary split: prod.splits)
  next
    case (CallSaveSnapshot i t data)
    then have s: "disk_SaveSnapshot d i t data = (d', None)" "dLastIncludedIndex d < i" "snap_fits i t data"
      using c l f L by (simp_all add: disk_ops_simps)
    note sp = SaveSnapshot_ok [OF d s(2,3,1)]
    then show ?thesis using L B CallSaveSnapshot
      by (simp add: disk_view_def make_view_def ps_boundary_def eIndex_boundary split: prod.splits)
  qed
qed

interpretation disk: raft_storage DiskStorage_ops disk_inv disk_recov disk_view disk_fits
proof unfold_locales
  fix s assume "disk_inv s" then show "disk_recov s" by (simp add: disk_inv_def)
next
  fix s show "ps_wf (disk_view s)" by (rule disk_view_wf)
next
  fix s c s' assume "disk_inv s" "ps_legal (disk_view s) c" "disk_fits c" "storage_call DiskStorage_ops s c = (s', None)"
  then show "disk_inv s' \<and> disk_view s' = ps_call c (disk_view s)" by (rule disk_call_ok)
next
  fix s t v s' e assume a: "disk_inv s" "disk_fits (CallSaveHardState t v)" "SaveHardState DiskStorage_ops s t v = (s', Some e)"
  then have "disk_SaveHardState s t v = (s', Some e)" "hard_fits t v" by (simp_all add: disk_ops_simps)
  note v = SaveHardState_view [OF this]
  then have "wal_entries s' = wal_entries s" by (simp add: wal_entries_def)
  then show "disk_recov s' \<and> disk_view s' = disk_view s" using v a(1) by (simp add: disk_view_def disk_inv_def)
next
  fix s es s' e
  assume a: "disk_inv s" "ps_legal (disk_view s) (CallAppendLog es)" "disk_fits (CallAppendLog es)" "AppendLog DiskStorage_ops s es = (s', Some e)"
  then have h: "disk_AppendLog s es = (s', Some e)" by (simp add: disk_ops_simps)
  have "indexed (fst (disk_snap s) + 1 + length (wal_entries s)) es" using a(2) by (simp add: disk_view_def)
  then obtain j where "wal_entries s' = wal_entries s @ take j es"
    using AppendLog_entries [OF a(1) _ _ h] a(3) by auto
  then show "disk_recov s' \<and> (\<exists>j. disk_view s' = ps_call (CallAppendLog (take j es)) (disk_view s))"
    using AppendLog_view [OF h] a(1) by (auto simp: disk_view_def make_view_def disk_inv_def split: prod.splits intro!: exI [of _ j])
next
  fix s k s' e
  assume a: "disk_inv s" "ps_legal (disk_view s) (CallTruncateLog k)" "TruncateLog DiskStorage_ops s k = (s', Some e)"
  have L: "dLastIncludedIndex s = fst (disk_snap s)" using a(1) by (simp add: disk_inv_def)
  have h: "disk_TruncateLog s k = (s', Some e)" "dLastIncludedIndex s < k"
    using a L by (simp_all add: disk_ops_simps disk_view_def)
  note sp = TruncateLog_spec [OF a(1) h(2,1)]
  have tk: "take (k - dLastIncludedIndex s) (boundary_entry x y # w) = boundary_entry x y # take (k - dLastIncludedIndex s - 1) w" for x y w
    using h(2) by (cases "k - dLastIncludedIndex s") auto
  show "disk_recov s' \<and> (disk_view s' = disk_view s \<or> disk_view s' = ps_call (CallTruncateLog k) (disk_view s))"
    using sp tk L by (auto simp: disk_view_def make_view_def ps_boundary_def eIndex_boundary split: prod.splits)
next
  fix s s' r assume a: "disk_recov s" "Load DiskStorage_ops s = (s', r)"
  then have "disk_Load s = (s', r)" by (simp add: disk_ops_simps)
  note sp = Load_spec [OF this]
  then show "disk_recov s' \<and> disk_view s' = disk_view s \<and> (\<forall>ps. r = Inr ps \<longrightarrow> ps = disk_view s \<and> disk_inv s')"
    using a(1) by (simp add: disk_recov_def disk_view_def disk_hs_def disk_snap_def)
qed

definition disk_hard_ok :: "DiskStorage \<Rightarrow> bool" where
  "disk_hard_ok d \<longleftrightarrow> (\<exists>p. hard_file (dFs d) = Inr p)"

interpretation disk_hard: hard_storage DiskStorage_ops disk_hard_ok disk_hs hard_fits
proof unfold_locales
  fix t v show "hard_fits t v \<Longrightarrow> hard_fits t []" by (simp add: hard_fits_def)
next
  fix s t v s' assume a: "disk_hard_ok s" "hard_fits t v" "SaveHardState DiskStorage_ops s t v = (s', None)"
  then have h: "disk_SaveHardState s t v = (s', None)" by (simp add: disk_ops_simps)
  show "disk_hard_ok s' \<and> disk_hs s' = (t, v)"
    using SaveHardState_view(1) [OF h a(2)] SaveHardState_spec(2) [OF h] decode_encode_hard [OF a(2)]
    by (simp add: disk_hard_ok_def hard_file_def)
next
  fix s t v s' e assume a: "disk_hard_ok s" "hard_fits t v" "SaveHardState DiskStorage_ops s t v = (s', Some e)"
  then have h: "disk_SaveHardState s t v = (s', Some e)" by (simp add: disk_ops_simps)
  have f: "files (dFs s') hardStateFileName = files (dFs s) hardStateFileName" using SaveHardState_spec(2) [OF h] by simp
  show "disk_hard_ok s' \<and> (disk_hs s' = disk_hs s \<or> disk_hs s' = (t, v))"
    using disk_same [OF f] a(1) by (simp add: disk_hard_ok_def)
next
  fix s es s' r assume a: "disk_hard_ok s" "AppendLog DiskStorage_ops s es = (s', r)"
  have "disk_AppendLog s es = (s', r)" using a(2) by (simp only: disk_ops_simps)
  note v = AppendLog_view [OF this]
  show "disk_hard_ok s' \<and> disk_hs s' = disk_hs s"
    using a(1) unfolding disk_hard_ok_def v(1,3) by blast
next
  fix s i s' r assume a: "disk_hard_ok s" "TruncateLog DiskStorage_ops s i = (s', r)"
  have "disk_TruncateLog s i = (s', r)" using a(2) by (simp only: disk_ops_simps)
  note v = TruncateLog_hard [OF this]
  show "disk_hard_ok s' \<and> disk_hs s' = disk_hs s"
    using a(1) unfolding disk_hard_ok_def v by blast
next
  fix s i t d s' r assume a: "disk_hard_ok s" "SaveSnapshot DiskStorage_ops s i t d = (s', r)"
  have "disk_SaveSnapshot s i t d = (s', r)" using a(2) by (simp only: disk_ops_simps)
  note v = SaveSnapshot_frame [OF this]
  show "disk_hard_ok s' \<and> disk_hs s' = disk_hs s"
    using a(1) unfolding disk_hard_ok_def v by blast
next
  fix s s' res assume a: "disk_hard_ok s" "Load DiskStorage_ops s = (s', res)"
  have "disk_Load s = (s', res)" using a(2) by (simp only: disk_ops_simps)
  note sp = Load_spec [OF this]
  have "(psCurrentTerm (disk_view s), psVotedFor (disk_view s)) = disk_hs s"
    by (simp add: disk_view_def make_view_def split: prod.splits)
  then show "disk_hard_ok s' \<and> disk_hs s' = disk_hs s \<and> (\<forall>ps. res = Inr ps \<longrightarrow> (psCurrentTerm ps, psVotedFor ps) = disk_hs s)"
    using a(1) sp(4) unfolding disk_hard_ok_def disk_hs_def sp(1) by blast
qed

end
