(* ===== verification/Disk_Properties.thy ===== *)
theory Disk_Properties
  imports Disk_Contract
begin

text \<open>
  What \<open>DiskStorage\<close> promises across a crash of the process. \<open>disk_open\<close> is what a starting server
  does with a data directory: open the storage, load the state. The first section shows that calls
  return without an error when no system call fails; the second states the properties, over
  sequences of storage calls followed by a reopening of the same directory.
\<close>

definition disk_open :: "Fs \<Rightarrow> error + DiskStorage \<times> PersistentState" where
  "disk_open fs = (case NewDiskStorage fs of
     (fs1, Inl err) \<Rightarrow> Inl err
   | (fs1, Inr d) \<Rightarrow> (case disk_Load d of (d1, Inl err) \<Rightarrow> Inl err | (d1, Inr ps) \<Rightarrow> Inr (d1, ps)))"

section \<open>Calls that meet no fault\<close>

definition quiet_step :: "(Fs \<Rightarrow> Fs \<times> error option) \<Rightarrow> bool" where
  "quiet_step f \<longleftrightarrow> (\<forall>fs fs' r. faults fs = [] \<longrightarrow> f fs = (fs', r) \<longrightarrow> r = None \<and> faults fs' = [])"

lemma quiet_stepD: "quiet_step f \<Longrightarrow> faults fs = [] \<Longrightarrow> f fs = (fs', r) \<Longrightarrow> r = None \<and> faults fs' = []"
  unfolding quiet_step_def by blast

lemma quiet_call:
  assumes "\<And>fs. faults (f fs) = faults fs"
  shows "quiet_step (sys_call f msg)"
  unfolding quiet_step_def
proof (intro allI impI)
  fix fs fs' r assume a: "faults fs = []" "sys_call f msg fs = (fs', r)"
  then have "fs' = f fs" "r = None" by (simp_all add: sys_call_def take_fault_def)
  then show "r = None \<and> faults fs' = []" using assms [of fs] a(1) by simp
qed

lemma faults_file_ops [simp]:
  "faults (set_file n bs fs) = faults fs" "faults (fs_rename a b fs) = faults fs" "faults (truncate_file n k fs) = faults fs"
  by (simp_all add: set_file_def fs_rename_def truncate_file_def)

lemma quiet_write: "quiet_step (sys_write n bs msg)"
  by (auto simp: quiet_step_def sys_write_def take_fault_def)

lemma quiet_steps: "(\<And>f. f \<in> set fl \<Longrightarrow> quiet_step f) \<Longrightarrow> quiet_step (fs_steps fl)"
proof (induction fl)
  case Nil
  then show ?case by (simp add: quiet_step_def)
next
  case (Cons f fl)
  have f: "quiet_step f" "quiet_step (fs_steps fl)" using Cons by simp_all
  show ?case unfolding quiet_step_def
  proof (intro allI impI)
    fix fs fs' r assume a: "faults fs = []" "fs_steps (f # fl) fs = (fs', r)"
    obtain fs1 r1 where 1: "f fs = (fs1, r1)" by (cases "f fs")
    have "r1 = None \<and> faults fs1 = []" by (rule quiet_stepD [OF f(1) a(1) 1])
    then show "r = None \<and> faults fs' = []"
      using quiet_stepD [OF f(2), of fs1 fs' r] a(2) 1 by (simp add: fs_steps.simps(2) fs_seq_def)
  qed
qed

lemma quiet_replace: "quiet_step (write_replace name buf msgs)"
proof -
  have "quiet_step (fs_steps [sys_call (set_file (name @ ''.tmp'') []) (msgs ! 0),
      sys_write (name @ ''.tmp'') buf (msgs ! 1), sys_call id (msgs ! 2), sys_call id (msgs ! 3),
      sys_call (fs_rename (name @ ''.tmp'') name) (msgs ! 4)])"
    by (rule quiet_steps) (auto intro: quiet_call quiet_write simp del: fs_steps_ok)
  then show ?thesis unfolding quiet_step_def write_replace_def .
qed

lemma quiet_records: "append_records es d = (d', r) \<Longrightarrow> faults (dFs d) = [] \<Longrightarrow> r = None \<and> faults (dFs d') = [] \<and> dOpen d' = dOpen d"
proof (induction es arbitrary: d)
  case (Cons e es)
  let ?st = "[sys_call id ''storage: seeking wal: %w'',
              sys_write walFileName (record_header (encodeEntry e)) ''storage: writing wal record header: %w'',
              sys_write walFileName (encodeEntry e) ''storage: writing wal record: %w'']"
  obtain fs s where f: "fs_steps ?st (dFs d) = (fs, s)" by (cases "fs_steps ?st (dFs d)")
  have "quiet_step (fs_steps ?st)" by (rule quiet_steps) (auto intro: quiet_call quiet_write)
  then have "s = None \<and> faults fs = []" using Cons.prems(2) f by (rule quiet_stepD)
  then show ?case using Cons.IH Cons.prems(1) f by (simp add: Let_def)
qed simp

definition quiet_disk :: "DiskStorage \<Rightarrow> bool" where
  "quiet_disk d \<longleftrightarrow> faults (dFs d) = [] \<and> dOpen d"

lemma quiet_save: "disk_SaveHardState d t v = (d', r) \<Longrightarrow> quiet_disk d \<Longrightarrow> r = None \<and> quiet_disk d'"
  by (auto simp: disk_SaveHardState_def quiet_disk_def Let_def split: prod.splits dest: quiet_stepD [OF quiet_replace])

lemma quiet_AppendLog:
  assumes "disk_AppendLog d es = (d', r)" "quiet_disk d"
  shows "r = None \<and> quiet_disk d'"
proof -
  obtain d1 s where a: "append_records es d = (d1, s)" by (cases "append_records es d")
  have d1: "s = None" "faults (dFs d1) = []" "dOpen d1" using quiet_records [OF a] assms(2) by (auto simp: quiet_disk_def)
  obtain fs q where q: "sys_call id ''storage: fsyncing wal: %w'' (dFs d1) = (fs, q)" by (metis surj_pair)
  have "quiet_step (sys_call id ''storage: fsyncing wal: %w'')" by (rule quiet_call) simp
  from quiet_stepD [OF this d1(2) q] show ?thesis
    using assms a d1 q by (auto simp: disk_AppendLog_def quiet_disk_def Let_def)
qed

lemma quiet_Truncate:
  assumes t: "disk_TruncateLog d k = (d', r)" "quiet_disk d" "dLastIncludedIndex d < k"
  shows "r = None \<and> quiet_disk d'"
proof -
  let ?st = "\<lambda>off. [sys_call (truncate_file walFileName off) ''storage: truncating wal: %w'',
                   sys_call id ''storage: seeking wal after truncate: %w'',
                   sys_call id ''storage: fsyncing wal after truncate: %w'']"
  have q: "quiet_step (fs_steps (?st off))" for off by (rule quiet_steps) (auto intro: quiet_call)
  let ?off = "dOffsets d ! (k - dLastIncludedIndex d - 1)"
  obtain fs s where f: "fs_steps (?st ?off) (dFs d) = (fs, s)" by (cases "fs_steps (?st ?off) (dFs d)")
  have "s = None \<and> faults fs = []" using quiet_stepD [OF q _ f] t(2) by (simp add: quiet_disk_def)
  then show ?thesis using t f
    by (simp add: disk_TruncateLog_def quiet_disk_def Let_def del: fs_steps_ok split: if_splits) auto
qed

lemma quiet_compact:
  assumes c: "compactWALLocked d i t = (d', r)" and d: "quiet_disk d"
  shows "r = None \<and> quiet_disk d'"
proof -
  let ?pre = "compact_steps d i @ [sys_call (fs_rename (walFileName @ ''.compact'') walFileName) ''storage: installing compacted wal: %w'']"
  let ?post = "[sys_call id ''storage: closing old wal handle: %w'',
                     sys_call id ''storage: reopening compacted wal: %w'',
                     sys_call id ''storage: seeking new wal handle: %w'']"
  obtain fs1 r1 where s1: "fs_steps ?pre (dFs d) = (fs1, r1)" by (cases "fs_steps ?pre (dFs d)")
  have "quiet_step (\<lambda>fs. (fs, None))" by (simp add: quiet_step_def)
  then have "quiet_step (fs_steps ?pre)"
    by (intro quiet_steps) (auto simp: compact_steps_def intro: quiet_call quiet_write split: if_splits)
  from quiet_stepD [OF this _ s1] have 1: "r1 = None" "faults fs1 = []" using d by (simp_all add: quiet_disk_def)
  obtain fs2 r2 where s2: "fs_steps ?post fs1 = (fs2, r2)" by (cases "fs_steps ?post fs1")
  have "quiet_step (fs_steps ?post)" by (intro quiet_steps) (auto intro: quiet_call)
  from quiet_stepD [OF this 1(2) s2] have 2: "r2 = None" "faults fs2 = []" by simp_all
  have o: "dOpen d" using d by (simp add: quiet_disk_def)
  have "\<exists>offs. (d', r) = (d\<lparr>dFs := fs2, dOffsets := offs, dLastIncludedIndex := i, dLastIncludedTerm := t\<rparr>, None)"
    using c o s1 s2 1 2
    unfolding compactWALLocked_def Let_def compact_steps_def append.simps cut_point_def wal_file_def
    by (simp only: prod.case if_False not_True_eq_False simp_thms option.case) blast
  then show ?thesis using 2 o by (auto simp: quiet_disk_def)
qed

lemma quiet_storage_call:
  assumes q: "quiet_disk d" and i: "disk_inv d" and l: "ps_legal (disk_view d) c"
  shows "\<exists>d'. storage_call DiskStorage_ops d c = (d', None) \<and> quiet_disk d'"
proof (cases c)
  case (CallSaveHardState t v)
  then show ?thesis using quiet_save [OF _ q] by (simp add: disk_ops_simps) (metis surj_pair)
next
  case (CallAppendLog es)
  then show ?thesis using quiet_AppendLog [OF _ q] by (simp add: disk_ops_simps) (metis surj_pair)
next
  case (CallTruncateLog k)
  have "dLastIncludedIndex d < k" using l i CallTruncateLog by (simp add: disk_view_def disk_inv_def)
  then show ?thesis using quiet_Truncate [OF _ q] CallTruncateLog by (simp add: disk_ops_simps) (metis surj_pair)
next
  case (CallSaveSnapshot k t data)
  obtain d1 r1 where w: "writeSnapshotFileLocked d k t data = (d1, r1)" by (metis surj_pair)
  have "r1 = None \<and> quiet_disk d1" using w q quiet_stepD [OF quiet_replace]
    by (auto simp: writeSnapshotFileLocked_def quiet_disk_def Let_def split: prod.splits)
  then show ?thesis using quiet_compact [of d1] CallSaveSnapshot w
    by (simp add: disk_ops_simps disk_SaveSnapshot_def) (metis surj_pair)
qed

lemma quiet_storage_calls:
  "quiet_disk d \<Longrightarrow> disk_inv d \<Longrightarrow> legal_calls disk_fits (disk_view d) cs \<Longrightarrow>
     \<exists>d'. storage_calls DiskStorage_ops d cs = (d', None) \<and> quiet_disk d'"
proof (induction cs arbitrary: d)
  case (Cons c cs)
  have c: "ps_legal (disk_view d) c" "disk_fits c" "legal_calls disk_fits (ps_call c (disk_view d)) cs"
    using Cons.prems(3) by simp_all
  obtain d1 where d1: "storage_call DiskStorage_ops d c = (d1, None)" "quiet_disk d1"
    using quiet_storage_call [OF Cons.prems(1,2) c(1)] by blast
  have v: "disk_inv d1" "disk_view d1 = ps_call c (disk_view d)"
    using disk_call_ok [OF Cons.prems(2) c(1,2) d1(1)] by simp_all
  show ?case using Cons.IH [OF d1(2) v(1)] c(3) v(2) d1(1) by simp
qed simp

section \<open>Opening a directory\<close>

lemma disk_view_same:
  assumes "hard_file (dFs d') = hard_file (dFs d)" "snap_file (dFs d') = snap_file (dFs d)" "wal_file d' = wal_file d"
  shows "disk_view d' = disk_view d" "disk_recov d' = disk_recov d"
  using assms by (simp_all add: disk_view_def disk_hs_def disk_snap_def wal_entries_def disk_recov_def)

lemma New_spec:
  assumes n: "NewDiskStorage fs = (fs1, r)"
  shows "r = Inr d1 \<Longrightarrow> dFs d1 = fs1 \<and> dOpen d1" "hard_file fs1 = hard_file fs" "snap_file fs1 = snap_file fs"
    "content fs1 walFileName = content fs walFileName"
    "faults fs = [] \<Longrightarrow> faults fs1 = [] \<and> (\<exists>d1. r = Inr d1)"
proof -
  let ?st = "[sys_call id ''storage: creating data dir %s: %w'',
        sys_call (\<lambda>fs. set_file walFileName (content fs walFileName) fs) ''storage: opening wal: %w'']"
  obtain s where f: "fs_steps ?st fs = (fs1, s)"
    and r: "r = (case s of Some e \<Rightarrow> Inl e | None \<Rightarrow> Inr \<lparr>dFs = fs1, dOpen = True, dOffsets = [], dLastIncludedIndex = 0, dLastIncludedTerm = 0\<rparr>)"
    using n by (auto simp: NewDiskStorage_def simp del: fs_steps_ok split: prod.splits option.splits)
  show "r = Inr d1 \<Longrightarrow> dFs d1 = fs1 \<and> dOpen d1" using r by (auto split: option.splits)
  have "touches {walFileName} (fs_steps ?st)"
    by (rule touches_steps) (auto intro!: touches_call split: if_splits)
  then have "k \<noteq> walFileName \<Longrightarrow> files fs1 k = files fs k" for k using f touchesD by blast
  then show "hard_file fs1 = hard_file fs" "snap_file fs1 = snap_file fs"
    by (simp_all add: hard_file_def snap_file_def file_names)
  have "files fs1 walFileName = files fs walFileName \<or> content fs1 walFileName = content fs walFileName"
    using f by (elim fs_steps_Cons) (auto elim!: sys_call_cases fs_steps_Cons simp: content_def)
  then show "content fs1 walFileName = content fs walFileName" by (auto simp: content_def)
  have "quiet_step (fs_steps ?st)" by (rule quiet_steps) (auto intro: quiet_call)
  from quiet_stepD [OF this _ f] show "faults fs = [] \<Longrightarrow> faults fs1 = [] \<and> (\<exists>d1. r = Inr d1)" using r by auto
qed

text \<open>Opening the directory of a store: whatever comes back is the view, and something comes back
  when no system call fails.\<close>

lemma disk_open_view:
  assumes "disk_open (dFs d) = Inr (d2, ps)"
  shows "disk_inv d2" "ps = disk_view d" "disk_view d2 = ps"
proof -
  obtain fs1 d1 where n: "NewDiskStorage (dFs d) = (fs1, Inr d1)" and l: "disk_Load d1 = (d2, Inr ps)"
    using assms by (auto simp: disk_open_def split: prod.splits sum.splits)
  note ns = New_spec [OF n]
  have v: "disk_view d1 = disk_view d" using ns by (intro disk_view_same) (auto simp: wal_file_def)
  note ls = Load_spec [OF l]
  show "disk_inv d2" "ps = disk_view d" using ls(4) v by auto
  show "disk_view d2 = ps"
    using ls v by (simp add: disk_view_def disk_hs_def disk_snap_def)
qed

lemma quiet_Load:
  assumes q: "quiet_disk d" and c: "disk_recov d"
  shows "\<exists>d' ps. disk_Load d = (d', Inr ps) \<and> quiet_disk d'"
proof -
  obtain h where h: "hard_file (dFs d) = Inr h" using c by (auto simp: disk_recov_def)
  obtain i t data where s: "snap_file (dFs d) = Inr (i, t, data)" using c by (auto simp: disk_recov_def)
  have f: "faults (dFs d) = []" "dOpen d" using q by (simp_all add: quiet_disk_def)
  have lh: "loadHardState (dFs d) = (dFs d, Inr h)"
    using h f by (auto simp: loadHardState_def sys_read_def take_fault_def hard_file_def split: option.splits)
  have ls: "loadSnapshot (dFs d) = (dFs d, Inr (i, t, data))"
    using s f by (auto simp: loadSnapshot_def sys_read_def take_fault_def snap_file_def split: option.splits)
  let ?d2 = "d\<lparr>dFs := dFs d, dLastIncludedIndex := i, dLastIncludedTerm := t\<rparr>"
  obtain es offs e where sc: "scan_records (i + 1) 0 (content (dFs d) walFileName) = (es, offs, e)" by (metis prod_cases3)
  let ?st = "[sys_call (truncate_file walFileName e) ''storage: truncating torn wal tail: %w'',
                 sys_call id ''storage: seeking wal after repair: %w'',
                 sys_call id ''storage: fsyncing wal after repair: %w'']"
  obtain fs r where st: "fs_steps ?st (dFs d) = (fs, r)" by (cases "fs_steps ?st (dFs d)")
  have "quiet_step (fs_steps ?st)" by (rule quiet_steps) (auto intro: quiet_call)
  from quiet_stepD [OF this f(1) st] have r: "r = None" "faults fs = []" by simp_all
  have sk: "sys_call id ''storage: seeking wal: %w'' (dFs d) = (dFs d, None)"
    using f by (simp add: sys_call_def take_fault_def)
  have "scanAndRepairWAL i ?d2 = (?d2\<lparr>dFs := fs\<rparr>, Inr (es, offs))"
    using sc st r sk f by (simp add: scanAndRepairWAL_def Let_def del: fs_steps_ok)
  then show ?thesis using lh ls r f by (cases h) (simp add: disk_Load_def quiet_disk_def)
qed

lemma quiet_open:
  assumes f: "faults (dFs d) = []" and c: "disk_recov d"
  shows "\<exists>d2. disk_open (dFs d) = Inr (d2, disk_view d) \<and> quiet_disk d2 \<and> disk_inv d2"
proof -
  obtain fs1 r where n: "NewDiskStorage (dFs d) = (fs1, r)" by (cases "NewDiskStorage (dFs d)")
  note ns = New_spec [OF n]
  obtain d1 where d1: "r = Inr d1" "faults fs1 = []" using ns(5) f by blast
  have o: "dFs d1 = fs1" "dOpen d1" using ns(1) [OF d1(1)] by simp_all
  then have q: "quiet_disk d1" using d1 by (simp add: quiet_disk_def)
  have "disk_recov d1" using ns(2,3) c o by (simp add: disk_recov_def)
  from quiet_Load [OF q this] obtain d2 ps where l: "disk_Load d1 = (d2, Inr ps)" "quiet_disk d2" by blast
  have op: "disk_open (dFs d) = Inr (d2, ps)" using n d1 l by (simp add: disk_open_def)
  show ?thesis using disk_open_view [OF op] op l(2) by simp
qed

section \<open>A snapshot that fails half-way\<close>

lemma wal_stale_drop:
  assumes "wal_file d = wal_bytes es" "indexed k es" "k \<le> fst (disk_snap d)" "\<forall>e \<in> set es. record_fits e"
  shows "wal_entries d = []"
proof (cases es)
  case Nil
  then show ?thesis using assms(1) by (simp add: wal_entries_def)
next
  case (Cons e es')
  then have "read_record (wal_file d) = Some (e, length (encode_record e))"
    using assms(1,4) read_encode_record by simp
  moreover have "eIndex e \<noteq> fst (disk_snap d) + 1" using assms(2,3) Cons by simp
  ultimately show ?thesis unfolding wal_entries_def by (subst scan_records.simps) simp
qed

lemma SaveSnapshot_files:
  assumes d: "disk_inv d" and f: "snap_fits i t data" and s: "disk_SaveSnapshot d i t data = (d', r)"
  shows "disk_recov d'" "disk_hs d' = disk_hs d"
    "r \<noteq> None \<and> disk_snap d' = disk_snap d \<and> wal_file d' = wal_file d \<or>
     disk_snap d' = (i, t, data) \<and> (r \<noteq> None \<and> wal_file d' = wal_file d \<or>
       wal_file d' = wal_bytes (drop (i - dLastIncludedIndex d) (wal_entries d)))"
proof -
  let ?es = "wal_entries d" and ?k = "i - dLastIncludedIndex d"
  have inv: "dOpen d" "disk_recov d" "wal_file d = wal_bytes ?es" "dOffsets d = record_offsets 0 ?es"
    using d by (auto simp: disk_inv_def)
  show h: "disk_hs d' = disk_hs d" by (rule SaveSnapshot_frame(2) [OF s])
  obtain d1 r1 where w: "writeSnapshotFileLocked d i t data = (d1, r1)" by (metis surj_pair)
  note ws = writeSnapshot_spec [OF w]
  have d1: "dOpen d1" "dOffsets d1 = dOffsets d" "dLastIncludedIndex d1 = dLastIncludedIndex d"
    by (subst ws(3), use inv in simp)+
  have w1: "wal_file d1 = wal_file d" using ws(1) [of walFileName] by (simp add: wal_file_def content_def file_names)
  have "(\<exists>q. snap_file (dFs d') = Inr q) \<and> (r \<noteq> None \<and> disk_snap d' = disk_snap d \<and> wal_file d' = wal_file d \<or>
     disk_snap d' = (i, t, data) \<and> (r \<noteq> None \<and> wal_file d' = wal_file d \<or> wal_file d' = wal_bytes (drop ?k ?es)))"
  proof (cases r1)
    case (Some err)
    then have d': "d' = d1" "r = Some err" using s w by (simp_all add: disk_SaveSnapshot_def)
    have "files (dFs d') snapshotFileName = files (dFs d) snapshotFileName" using ws(2) Some d' by simp
    from disk_same_snap [OF this] show ?thesis using d' w1 inv(2) by (simp add: disk_recov_def)
  next
    case None
    have c: "compactWALLocked d1 i t = (d', r)" using s w None by (simp add: disk_SaveSnapshot_def)
    note cs = compact_spec [OF d1(1) c]
    have "files (dFs d') snapshotFileName = Some (encodeSnapshot i t data)"
      using cs(1) [of snapshotFileName] ws(2) None by (simp add: file_names)
    then have sf: "snap_file (dFs d') = Inr (i, t, data)" using decode_encode_snapshot [OF f] by (simp add: snap_file_def)
    have cut: "cut_point d1 i = length (wal_bytes (take ?k ?es))"
      using d1 w1 inv(3,4) record_offsets_nth [of ?k ?es 0] by (auto simp: cut_point_def Let_def)
    have "drop (cut_point d1 i) (wal_bytes ?es) = wal_bytes (drop ?k ?es)"
      unfolding cut using wal_bytes_split [of ?k ?es] by (metis append_eq_conv_conj)
    then have "wal_file d' = wal_bytes (drop ?k ?es) \<or> r \<noteq> None \<and> wal_file d' = wal_file d"
      using cs(2) w1 inv(3) by (auto simp: wal_file_def content_def)
    then show ?thesis using sf by (auto simp: disk_snap_def)
  qed
  then show "disk_recov d'"
    "r \<noteq> None \<and> disk_snap d' = disk_snap d \<and> wal_file d' = wal_file d \<or>
     disk_snap d' = (i, t, data) \<and> (r \<noteq> None \<and> wal_file d' = wal_file d \<or>
       wal_file d' = wal_bytes (drop ?k ?es))"
    using SaveSnapshot_frame(1) [OF s] inv(2) by (simp_all add: disk_recov_def)
qed

lemma SaveSnapshot_any:
  assumes d: "disk_inv d" and l: "ps_legal (disk_view d) (CallSaveSnapshot i t data)" and f: "snap_fits i t data"
    and s: "disk_SaveSnapshot d i t data = (d', r)"
  shows "disk_recov d' \<and> (disk_view d' = disk_view d \<or> disk_view d' = ps_call (CallSaveSnapshot i t data) (disk_view d) \<or>
    disk_view d' = (ps_call (CallSaveSnapshot i t data) (disk_view d))\<lparr>psLog := [boundary_entry t i]\<rparr>)"
proof -
  let ?es = "wal_entries d" and ?k = "i - dLastIncludedIndex d"
  have L: "dLastIncludedIndex d = fst (disk_snap d)" "wal_file d = wal_bytes ?es" using d by (auto simp: disk_inv_def)
  have i: "fst (disk_snap d) < i" using l by (simp add: disk_view_def)
  note sf = SaveSnapshot_files [OF d f s] and ok = wal_entries_ok [of d]
  from sf(3) consider (old) "disk_snap d' = disk_snap d" "wal_file d' = wal_file d"
    | (stale) "disk_snap d' = (i, t, data)" "wal_file d' = wal_file d"
    | (new) "disk_snap d' = (i, t, data)" "wal_file d' = wal_bytes (drop ?k ?es)" by blast
  then have "disk_view d' = disk_view d \<or> disk_view d' = ps_call (CallSaveSnapshot i t data) (disk_view d) \<or>
    disk_view d' = (ps_call (CallSaveSnapshot i t data) (disk_view d))\<lparr>psLog := [boundary_entry t i]\<rparr>"
  proof cases
    case old
    then show ?thesis using sf(2) by (simp add: disk_view_def wal_entries_def)
  next
    case stale
    have "wal_entries d' = []" by (rule wal_stale_drop [of _ ?es "fst (disk_snap d) + 1"]) (use stale L ok i in auto)
    then show ?thesis using stale sf(2) by (simp add: disk_view_def make_view_def split: prod.splits)
  next
    case new
    have "indexed (i + 1) (drop ?k ?es)"
    proof (cases "?k \<le> length ?es")
      case True
      then show ?thesis using indexed_drop [OF ok(1) True] i L by simp
    qed simp
    then have e': "wal_entries d' = drop ?k ?es"
      by (intro wal_entries_eq [OF new(2)]) (use ok new in \<open>auto dest: in_set_dropD\<close>)
    show ?thesis using e' new sf(2) L i
      by (simp add: disk_view_def make_view_def ps_boundary_def eIndex_boundary split: prod.splits)
  qed
  then show ?thesis using sf(1) by blast
qed

section \<open>Properties\<close>

text \<open>C10: A restart loses nothing. Take a data directory that opens with the state \<open>ps\<close>, any
  sequence of storage calls that the node may make and that return without an error, and a restart
  of the process: \<open>NewDiskStorage\<close> and \<open>Load\<close> on the same directory, if they succeed, give exactly
  the state the reference effects of the calls lead to from \<open>ps\<close> (term, vote, snapshot, every log
  entry); and if no system call fails they do succeed.\<close>

theorem restart_recovers:
  assumes "disk_open fs = Inr (d, ps)" "legal_calls disk_fits ps cs" "storage_calls DiskStorage_ops d cs = (d1, None)"
  shows "(\<forall>d2 ps2. disk_open (dFs d1) = Inr (d2, ps2) \<longrightarrow> ps2 = fold ps_call cs ps) \<and>
    (faults (dFs d1) = [] \<longrightarrow> (\<exists>d2. disk_open (dFs d1) = Inr (d2, fold ps_call cs ps)))"
proof -
  have "disk_open (dFs (d\<lparr>dFs := fs\<rparr>)) = Inr (d, ps)" using assms(1) by simp
  note o = disk_open_view [OF this]
  have v: "disk_inv d1" "disk_view d1 = fold ps_call cs ps"
    using disk.calls_view [OF o(1)] assms(2,3) o(3) by auto
  then have "disk_recov d1" by (simp add: disk_inv_def)
  then show ?thesis using quiet_open [of d1] disk_open_view(2) [of d1] v by auto
qed


text \<open>A directory that is still empty, and what it opens to.\<close>

definition empty_dir :: Fs where
  "empty_dir = \<lparr>files = (\<lambda>n. None), faults = []\<rparr>"

definition empty_state :: PersistentState where
  "empty_state = \<lparr>psCurrentTerm = 0, psVotedFor = [], psLog = [boundary_entry 0 0], psSnapshotData = []\<rparr>"

lemma open_empty: "\<exists>d. disk_open empty_dir = Inr (d, empty_state) \<and> quiet_disk d \<and> disk_inv d"
proof -
  let ?d = "\<lparr>dFs = empty_dir, dOpen = True, dOffsets = [], dLastIncludedIndex = 0, dLastIncludedTerm = 0\<rparr>"
  have h: "hard_file empty_dir = Inr (0, [])" "snap_file empty_dir = Inr (0, 0, [])" "content empty_dir walFileName = []"
    by (simp_all add: hard_file_def snap_file_def content_def empty_dir_def)
  then have "disk_view ?d = empty_state" "disk_recov ?d"
    by (simp_all add: disk_view_def disk_hs_def disk_snap_def wal_entries_def wal_file_def make_view_def empty_state_def disk_recov_def)
  then show ?thesis using quiet_open [of ?d] by (simp add: empty_dir_def)
qed

lemma open_empty_calls:
  assumes "legal_calls disk_fits empty_state cs"
  shows "\<exists>d d1. disk_open empty_dir = Inr (d, empty_state) \<and> storage_calls DiskStorage_ops d cs = (d1, None) \<and>
    quiet_disk d1 \<and> disk_inv d1"
proof -
  obtain d where d: "disk_open empty_dir = Inr (d, empty_state)" "quiet_disk d" "disk_inv d" using open_empty by blast
  have "disk_open (dFs (d\<lparr>dFs := empty_dir\<rparr>)) = Inr (d, empty_state)" using d(1) by simp
  from disk_open_view(3) [OF this] have v: "disk_view d = empty_state" .
  then obtain d1 where d1: "storage_calls DiskStorage_ops d cs = (d1, None)" "quiet_disk d1"
    using quiet_storage_calls [OF d(2,3)] assms by auto
  have "disk_inv d1" using disk.calls_view [OF d(3) _ d1(1)] assms v by simp
  then show ?thesis using d d1 by blast
qed

definition sample_calls :: "StorageCall list" where
  "sample_calls = [CallSaveHardState 3 ''a'',
     CallAppendLog [\<lparr>eTerm = 1, eIndex = 1, eCommand = [7]\<rparr>, \<lparr>eTerm = 3, eIndex = 2, eCommand = []\<rparr>, \<lparr>eTerm = 3, eIndex = 3, eCommand = [8, 9]\<rparr>]]"

lemma sample_legal: "legal_calls disk_fits empty_state sample_calls"
  by (simp add: sample_calls_def empty_state_def boundary_entry_def hard_fits_def record_fits_def maxRecordPayload_def ps_boundary_def)

theorem restart_recovers_witness:
  "\<exists>d d1 d2. disk_open empty_dir = Inr (d, empty_state) \<and> storage_calls DiskStorage_ops d sample_calls = (d1, None) \<and>
    disk_open (dFs d1) = Inr (d2, \<lparr>psCurrentTerm = 3, psVotedFor = ''a'', psLog = [boundary_entry 0 0,
      \<lparr>eTerm = 1, eIndex = 1, eCommand = [7]\<rparr>, \<lparr>eTerm = 3, eIndex = 2, eCommand = []\<rparr>, \<lparr>eTerm = 3, eIndex = 3, eCommand = [8, 9]\<rparr>],
      psSnapshotData = []\<rparr>)"
proof -
  obtain d d1 where d: "disk_open empty_dir = Inr (d, empty_state)" "storage_calls DiskStorage_ops d sample_calls = (d1, None)" "quiet_disk d1"
    using open_empty_calls [OF sample_legal] by blast
  have f: "faults (dFs d1) = []" using d(3) by (simp add: quiet_disk_def)
  have "fold ps_call sample_calls empty_state = \<lparr>psCurrentTerm = 3, psVotedFor = ''a'', psLog = [boundary_entry 0 0,
      \<lparr>eTerm = 1, eIndex = 1, eCommand = [7]\<rparr>, \<lparr>eTerm = 3, eIndex = 2, eCommand = []\<rparr>, \<lparr>eTerm = 3, eIndex = 3, eCommand = [8, 9]\<rparr>],
      psSnapshotData = []\<rparr>" by (simp add: sample_calls_def empty_state_def)
  then show ?thesis using restart_recovers [OF d(1) sample_legal d(2)] f d by (metis (no_types, lifting))
qed


definition with_faults :: "nat option list \<Rightarrow> DiskStorage \<Rightarrow> DiskStorage" where
  "with_faults fl d = d\<lparr>dFs := (dFs d)\<lparr>faults := fl\<rparr>\<rparr>"

lemma snapshot_crash_files:
  assumes "dOpen d" "disk_SaveSnapshot (with_faults [None, None, None, None, None, Some 0] d) i t data = (d2, r)"
  shows "r \<noteq> None" "faults (dFs d2) = []" "files (dFs d2) snapshotFileName = Some (encodeSnapshot i t data)"
    "wal_file d2 = wal_file d"
  using assms
  by (auto simp: disk_SaveSnapshot_def writeSnapshotFileLocked_def write_replace_def fs_steps.simps(2) fs_seq_def
      sys_call_def sys_write_def take_fault_def compactWALLocked_def Let_def with_faults_def fs_rename_def
      wal_file_def content_def file_names set_file_def split: if_splits)

text \<open>C35: A crash in \<open>SaveSnapshot\<close> between the installation of the snapshot file and the installation of
  the compacted WAL loses every log entry after the snapshot. Let the sixth system call of
  \<open>SaveSnapshot\<close> fail: the snapshot file has been replaced, the WAL still starts right after the old
  snapshot. The next start succeeds, reads the new boundary, finds that the first record of the WAL
  is not the one it expects, and cuts the whole WAL off: the state it returns has the snapshot and an
  empty log, although entries beyond the snapshot had been written and synced.\<close>

theorem snapshot_crash_drops_log:
  assumes "disk_open fs = Inr (d, ps)" "legal_calls disk_fits ps (cs @ [CallSaveSnapshot i t data])"
    and "storage_calls DiskStorage_ops d cs = (d1, None)"
    and "disk_SaveSnapshot (with_faults [None, None, None, None, None, Some 0] d1) i t data = (d2, r)"
  shows "r \<noteq> None \<and> (\<exists>d3. disk_open (dFs d2) = Inr (d3,
    (ps_call (CallSaveSnapshot i t data) (fold ps_call cs ps))\<lparr>psLog := [boundary_entry t i]\<rparr>))"
proof -
  have "disk_open (dFs (d\<lparr>dFs := fs\<rparr>)) = Inr (d, ps)" using assms(1) by simp
  note o = disk_open_view [OF this]
  have leg: "legal_calls disk_fits ps cs" "ps_legal (fold ps_call cs ps) (CallSaveSnapshot i t data)" "snap_fits i t data"
    using assms(2) by (simp_all add: legal_calls_append)
  have v: "disk_inv d1" "disk_view d1 = fold ps_call cs ps"
    using disk.calls_view [OF o(1)] assms(3) leg(1) o(3) by auto
  let ?d1 = "with_faults [None, None, None, None, None, Some 0] d1"
  have same: "hard_file (dFs ?d1) = hard_file (dFs d1)" "snap_file (dFs ?d1) = snap_file (dFs d1)" "wal_file ?d1 = wal_file d1"
    by (simp_all add: with_faults_def hard_file_def snap_file_def wal_file_def content_def)
  have vf: "disk_view ?d1 = disk_view d1" by (rule disk_view_same [OF same])
  have inv: "disk_inv ?d1" using v(1) same
    by (simp add: disk_inv_def disk_snap_def wal_entries_def disk_recov_def) (simp add: with_faults_def)
  have "dOpen d1" using v(1) by (simp add: disk_inv_def)
  note sc = snapshot_crash_files [OF this assms(4)]
  have sn: "disk_snap d2 = (i, t, data)" using sc(3) decode_encode_snapshot [OF leg(3)] by (simp add: disk_snap_def snap_file_def)
  have rc: "disk_recov d2" "disk_hs d2 = disk_hs d1" using SaveSnapshot_files(1,2) [OF inv leg(3) assms(4)] same(1) by (simp_all add: disk_hs_def)
  have "fst (disk_snap d1) < i" using leg(2) v(2) by (simp add: disk_view_def flip: v(2))
  moreover have "wal_file d2 = wal_bytes (wal_entries d1)" using sc(4) v(1) by (simp add: disk_inv_def)
  ultimately have "wal_entries d2 = []"
    by (intro wal_stale_drop [of _ "wal_entries d1" "fst (disk_snap d1) + 1"]) (use wal_entries_ok [of d1] sn in auto)
  then have "disk_view d2 = (ps_call (CallSaveSnapshot i t data) (disk_view d1))\<lparr>psLog := [boundary_entry t i]\<rparr>"
    using sn rc(2) by (simp add: disk_view_def make_view_def split: prod.splits)
  then show ?thesis using quiet_open [OF sc(2) rc(1)] sc(1) v(2) by auto
qed

theorem snapshot_crash_drops_log_witness:
  "\<exists>d d1 d2 d3 r. disk_open empty_dir = Inr (d, empty_state) \<and> storage_calls DiskStorage_ops d sample_calls = (d1, None) \<and>
    disk_SaveSnapshot (with_faults [None, None, None, None, None, Some 0] d1) 1 1 [5] = (d2, r) \<and> r \<noteq> None \<and>
    disk_open (dFs d2) = Inr (d3, \<lparr>psCurrentTerm = 3, psVotedFor = ''a'', psLog = [boundary_entry 1 1], psSnapshotData = [5]\<rparr>)"
proof -
  obtain d d1 where d: "disk_open empty_dir = Inr (d, empty_state)" "storage_calls DiskStorage_ops d sample_calls = (d1, None)"
    using open_empty_calls [OF sample_legal] by blast
  have l: "legal_calls disk_fits empty_state (sample_calls @ [CallSaveSnapshot 1 1 [5]])"
    unfolding legal_calls_append
    by (simp add: sample_legal snap_fits_def) (simp add: sample_calls_def empty_state_def ps_boundary_def boundary_entry_def)
  obtain d2 r where s: "disk_SaveSnapshot (with_faults [None, None, None, None, None, Some 0] d1) 1 1 [5] = (d2, r)" by (metis surj_pair)
  have e: "(ps_call (CallSaveSnapshot 1 1 [5]) (fold ps_call sample_calls empty_state))\<lparr>psLog := [boundary_entry 1 1]\<rparr> =
    \<lparr>psCurrentTerm = 3, psVotedFor = ''a'', psLog = [boundary_entry 1 1], psSnapshotData = [5]\<rparr>"
    by (simp add: sample_calls_def empty_state_def)
  show ?thesis using snapshot_crash_drops_log [OF d(1) l d(2) s] d s unfolding e by blast
qed

text \<open>C24: The WAL reader and the WAL writer agree exactly: reading a record off the front of any bytes
  gives the entry \<open>e\<close> and the length \<open>n\<close> if and only if \<open>e\<close> fits the record format (64-bit term and
  index, payload of at most 64 MiB) and the first \<open>n\<close> bytes are the header, checksum and payload the
  writer produces for \<open>e\<close>.\<close>

theorem record_exact:
  "read_record bs = Some (e, n) \<longleftrightarrow> record_fits e \<and> n = length (encode_record e) \<and> take n bs = encode_record e"
proof
  assume "read_record bs = Some (e, n)"
  from read_record_exact [OF this] show "record_fits e \<and> n = length (encode_record e) \<and> take n bs = encode_record e" by simp
next
  assume a: "record_fits e \<and> n = length (encode_record e) \<and> take n bs = encode_record e"
  then have "bs = encode_record e @ drop n bs" by (metis append_take_drop_id)
  then show "read_record bs = Some (e, n)" using a read_encode_record by metis
qed

text \<open>A record with one damaged byte in its payload is not read, whatever follows it: its checksum
  differs, so the scan stops there and the entry is never taken for a different one.\<close>

theorem damaged_record_rejected:
  assumes "record_fits e" "k < length (encodeEntry e)" "b \<noteq> encodeEntry e ! k"
  shows "read_record (record_header (encodeEntry e) @ (encodeEntry e)[k := b] @ rest) = None"
proof -
  let ?p = "encodeEntry e" and ?q = "(encodeEntry e)[k := b]"
  have l: "length ?p < 2 ^ 32" using assms(1) by (simp add: record_fits_def length_encodeEntry maxRecordPayload_def)
  have c: "unat (ChecksumIEEE ?p) < 2 ^ 32" using unsigned_less [of "ChecksumIEEE ?p"] by simp
  have "?p = take k ?p @ ?p ! k # drop (Suc k) ?p" "?q = take k ?p @ b # drop (Suc k) ?p"
    using assms(2) by (simp_all add: id_take_nth_drop upd_conv_take_nth_drop)
  then have "ChecksumIEEE ?q \<noteq> ChecksumIEEE ?p" using ChecksumIEEE_one_byte [OF assms(3)] by metis
  then have "unat (ChecksumIEEE ?q) \<noteq> unat (ChecksumIEEE ?p)" by (metis unsigned_word_eqI)
  then show ?thesis using l c by (simp add: read_record_def record_header_def recordHeaderSize_def Let_def)
qed

theorem damaged_record_rejected_witness:
  "read_record (record_header (encodeEntry \<lparr>eTerm = 1, eIndex = 2, eCommand = [5]\<rparr>) @
    (encodeEntry \<lparr>eTerm = 1, eIndex = 2, eCommand = [5]\<rparr>)[20 := 6] @ [1]) = None"
  by (rule damaged_record_rejected) (simp_all add: record_fits_def maxRecordPayload_def encodeEntry_def nth_append)

lemma too_large:
  assumes "maxRecordPayload < length (encodeEntry e)" "length (encodeEntry e) < 2 ^ 32"
  shows "read_record (take k (encode_record e @ rest)) = None"
proof (cases "k < 8")
  case False
  then have "take 4 (take k (encode_record e @ rest)) = PutUint32 (length (encodeEntry e))"
    by (simp add: encode_record_def record_header_def min_absorb1)
  then have "be_nat (take 4 (take k (encode_record e @ rest))) = length (encodeEntry e)" using assms(2) by simp
  then show ?thesis using assms(1) by (simp add: read_record_def Let_def del: take_take)
next
  case True
  then have "length (take k (encode_record e @ rest)) < recordHeaderSize" by (simp only: length_take recordHeaderSize_def)
  then show ?thesis by (simp only: read_record_def if_True)
qed

text \<open>C39: An entry whose payload exceeds 64 MiB is written but can never be read back. If \<open>AppendLog\<close> is
  given such an entry first, then whatever it returns (it returns no error unless a system call
  fails) a restart comes back without that entry and without all that were appended after it, as if
  the call had not been made.\<close>

theorem oversized_record_lost:
  assumes "disk_open fs = Inr (d, ps)" "legal_calls disk_fits ps cs" "storage_calls DiskStorage_ops d cs = (d1, None)"
    and "maxRecordPayload < 20 + length (eCommand e)" "20 + length (eCommand e) < 2 ^ 32"
    and "disk_AppendLog d1 (e # es) = (d2, r)" "disk_open (dFs d2) = Inr (d3, ps3)"
  shows "ps3 = fold ps_call cs ps"
proof -
  have "disk_open (dFs (d\<lparr>dFs := fs\<rparr>)) = Inr (d, ps)" using assms(1) by simp
  note o = disk_open_view [OF this]
  have v: "disk_inv d1" "disk_view d1 = fold ps_call cs ps"
    using disk.calls_view [OF o(1)] assms(2,3) o(3) by auto
  obtain k where k: "wal_file d2 = wal_file d1 @ take k (wal_bytes (e # es))" using AppendLog_spec [OF assms(6)] by blast
  note av = AppendLog_view [OF assms(6)]
  have "read_record (take k (wal_bytes (e # es))) = None"
    using too_large [of e k] assms(4,5) by (simp add: length_encodeEntry)
  then have "wal_entries d2 = wal_entries d1"
    using k v(1) av(2) scan_append [OF wal_entries_ok [of d1], of 0 "take k (wal_bytes (e # es))"]
    by (simp add: disk_inv_def wal_entries_def [of d2] scan_stop)
  then have "disk_view d2 = disk_view d1" using av by (simp add: disk_view_def)
  then show ?thesis using disk_open_view(2) [OF assms(7)] v(2) by simp
qed

theorem oversized_record_lost_witness:
  "\<exists>d d1 d2 d3. disk_open empty_dir = Inr (d, empty_state) \<and> storage_calls DiskStorage_ops d sample_calls = (d1, None) \<and>
    disk_AppendLog d1 [\<lparr>eTerm = 3, eIndex = 4, eCommand = replicate (64 * 2 ^ 20) 0\<rparr>] = (d2, None) \<and>
    disk_open (dFs d2) = Inr (d3, fold ps_call sample_calls empty_state)"
proof -
  let ?e = "\<lparr>eTerm = 3, eIndex = 4, eCommand = replicate (64 * 2 ^ 20) 0\<rparr>"
  obtain d d1 where d: "disk_open empty_dir = Inr (d, empty_state)" "storage_calls DiskStorage_ops d sample_calls = (d1, None)" "quiet_disk d1" "disk_inv d1"
    using open_empty_calls [OF sample_legal] by blast
  obtain d2 r where s: "disk_AppendLog d1 [?e] = (d2, r)" by (metis surj_pair)
  have r: "r = None" "quiet_disk d2" using quiet_AppendLog [OF s d(3)] by simp_all
  have "disk_recov d2" using AppendLog_view(4) [OF s] d(4) by (simp add: disk_inv_def)
  then obtain d3 ps3 where d3: "disk_open (dFs d2) = Inr (d3, ps3)" using quiet_open [of d2] r by (auto simp: quiet_disk_def)
  have l: "length (eCommand ?e) = 64 * 2 ^ 20" by (simp only: LogEntry.simps length_replicate)
  have "ps3 = fold ps_call sample_calls empty_state"
    by (rule oversized_record_lost [OF d(1) sample_legal d(2) _ _ s d3]) (unfold l maxRecordPayload_def, simp_all)
  then show ?thesis using d(1,2) s r(1) d3 by blast
qed

end
