(* ===== verification/Raft_Snapshots.thy ===== *)
theory Raft_Snapshots
  imports Raft_Properties Disk_Properties
begin

text \<open>
  Two things \<open>handleInstallSnapshot\<close> does not do: it does not compare the snapshot with what was
  applied already, and it does not truncate the log on the storage when it discards the log in
  memory.
\<close>

lemma acceptLeader_same_term:
  assumes "\<not> failed n"
  shows "storage (acceptLeader ops e (currentTerm n) l n) = storage n" "\<not> failed (acceptLeader ops e (currentTerm n) l n)"
    "currentTerm (acceptLeader ops e (currentTerm n) l n) = currentTerm n"
  using assms by (simp_all add: acceptLeader_def Let_def resetElectionDeadlineLocked_def)

lemma entryAt_index: "log_ok n \<Longrightarrow> entryAtLocked n i = Some x \<Longrightarrow> eIndex x = i"
  using indexed_nth [OF log_okD(3), of n "i - lastIncludedIndex n"]
  by (auto simp: entryAtLocked_def split: if_splits)

text \<open>What an accepted snapshot of the current term leaves behind.\<close>

lemma install_accepted:
  assumes n: "log_ok n" "\<not> failed n" and t: "isTerm args = currentTerm n" and i: "lastIncludedIndex n < isLastIncludedIndex args"
    and s: "SaveSnapshot ops (storage n) (isLastIncludedIndex args) (isLastIncludedTerm args) (isData args) = (st, None)"
  shows "\<exists>n' r. handleInstallSnapshot ops e args n = Some (n', Inr r) \<and> storage n' = st \<and>
    nlog n' = (if isLastIncludedIndex args \<le> last_index n \<and> termAtLocked n (isLastIncludedIndex args) = Some (isLastIncludedTerm args)
      then drop (isLastIncludedIndex args - lastIncludedIndex n) (nlog n)
      else [boundary_entry (isLastIncludedTerm args) (isLastIncludedIndex args)]) \<and>
    lastIncludedIndex n' = isLastIncludedIndex args \<and>
    lastApplied n' = max (lastApplied n) (isLastIncludedIndex args) \<and>
    commitIndex n' = max (commitIndex n) (isLastIncludedIndex args) \<and>
    pendingSnapshot n' = Some (snapshot_msg (isData args) (isLastIncludedIndex args) (isLastIncludedTerm args))"
proof -
  let ?n1 = "acceptLeader ops e (isTerm args) (isLeaderID args) n"
  have same: "log_same n ?n1" by (rule acceptLeader_same)
  note a = acceptLeader_same_term [OF n(2), of ops e "isLeaderID args", folded t]
  have n1: "log_ok ?n1" using same n(1) by (simp add: log_same_ok)
  have eq: "commitIndex ?n1 = commitIndex n" "lastApplied ?n1 = lastApplied n" "lastIncludedIndex ?n1 = lastIncludedIndex n"
    "nlog ?n1 = nlog n" "last_index ?n1 = last_index n" "termAtLocked ?n1 k = termAtLocked n k" for k
    using same by (auto simp: log_same_def termAtLocked_def entryAtLocked_def last_index_def)
  have il: "installed_log args ?n1 = Some (if isLastIncludedIndex args \<le> last_index n \<and> termAtLocked n (isLastIncludedIndex args) = Some (isLastIncludedTerm args)
      then drop (isLastIncludedIndex args - lastIncludedIndex n) (nlog n)
      else [boundary_entry (isLastIncludedTerm args) (isLastIncludedIndex args)])"
    using installed_log_ok [OF n1, of args] i unfolding eq by simp
  show ?thesis using n(2) t i s a eq il
    by (simp add: handleInstallSnapshot_def Let_def notifyApply_def)
qed

text \<open>C34: A snapshot below the applied index rolls the state machine back. Let a node that works take a
  snapshot of its term whose index lies between its own snapshot and what it has applied. The handler
  accepts it, the apply loop next delivers the snapshot, and the command it delivers after that is the
  one after the old applied index: the commands between the snapshot and the applied index, which the
  restored state does not have, are never delivered again.\<close>

theorem stale_snapshot_skips_commands:
  assumes "log_ok n" "commit_ok n" "\<not> failed n" "isTerm args = currentTerm n"
    and "lastIncludedIndex n < isLastIncludedIndex args" "isLastIncludedIndex args < lastApplied n" "lastApplied n < commitIndex n"
    and "termAtLocked n (isLastIncludedIndex args) = Some (isLastIncludedTerm args)"
    and "SaveSnapshot ops (storage n) (isLastIncludedIndex args) (isLastIncludedTerm args) (isData args) = (st, None)"
  shows "\<exists>n' r n1 n2 m. handleInstallSnapshot ops e args n = Some (n', Inr r) \<and>
    apply_section ApplyTop n' = Some (ApplySend (snapshot_msg (isData args) (isLastIncludedIndex args) (isLastIncludedTerm args)) False, n1) \<and>
    apply_section ApplyTop n1 = Some (ApplySend m True, n2) \<and> amCommandValid m \<and>
    amCommandIndex m = lastApplied n + 1 \<and> isLastIncludedIndex args + 1 < amCommandIndex m"
proof -
  let ?i = "isLastIncludedIndex args"
  obtain n' r where h: "handleInstallSnapshot ops e args n = Some (n', Inr r)"
    "lastApplied n' = max (lastApplied n) ?i" "commitIndex n' = max (commitIndex n) ?i" "lastIncludedIndex n' = ?i"
    "pendingSnapshot n' = Some (snapshot_msg (isData args) ?i (isLastIncludedTerm args))"
    using install_accepted [OF assms(1,3,4,5,9)] by blast
  have "snapshot_agrees n args"
    using assms(4,8) log_ok_terms [OF assms(1)]
    by (auto simp: snapshot_agrees_def) (use nth_mem in \<open>fastforce simp: termAtLocked_def entryAtLocked_def split: if_splits\<close>)
  then have ok: "log_ok n'" "commit_ok n'" using handleInstallSnapshot_ok [OF assms(1,2), of args ops e] h(1) by auto
  have la: "lastApplied n' = lastApplied n" "commitIndex n' = commitIndex n" using h(2,3) assms(6,7) by simp_all
  let ?n1 = "n'\<lparr>pendingSnapshot := None\<rparr>"
  have a1: "apply_section ApplyTop n' = Some (ApplySend (snapshot_msg (isData args) ?i (isLastIncludedTerm args)) False, ?n1)"
    using h(5) by simp
  obtain x where x: "entryAtLocked n' (lastApplied n + 1) = Some x"
    using entryAtLocked_ok [OF ok(1), of "lastApplied n + 1"] ok(2) la h(4) assms(6,7) by (auto simp: commit_ok_def)
  note ix = entryAt_index [OF ok(1) x]
  have "entryAtLocked ?n1 (lastApplied n + 1) = Some x" using x by (simp add: entryAtLocked_def split: if_splits)
  then have a2: "apply_section ApplyTop ?n1 = Some (ApplySend (command_msg x) True, ?n1\<lparr>lastApplied := lastApplied n + 1\<rparr>)"
    using la assms(7) by (simp add: apply_batch_def)
  show ?thesis using h(1) a1 a2 ix assms(6) by (intro exI conjI) (auto simp: command_msg_def)
qed

definition wit_ahead :: "MemoryStorage Node" where
  "wit_ahead = wit_node\<lparr>commitIndex := 3, lastApplied := 2\<rparr>"

definition wit_behind :: InstallSnapshotArgs where
  "wit_behind = \<lparr>isTerm = 2, isLeaderID = ''n3'', isLastIncludedIndex = 1, isLastIncludedTerm = 1, isData = [7]\<rparr>"

theorem stale_snapshot_skips_commands_witness:
  "\<exists>n' r n1 n2 m. handleInstallSnapshot MemoryStorage_ops wit_env wit_behind wit_ahead = Some (n', Inr r) \<and>
    apply_section ApplyTop n' = Some (ApplySend (snapshot_msg [7] 1 1) False, n1) \<and>
    apply_section ApplyTop n1 = Some (ApplySend m True, n2) \<and> amCommandIndex m = 3"
proof -
  have w: "log_ok wit_ahead" "commit_ok wit_ahead" "\<not> failed wit_ahead" "isTerm wit_behind = currentTerm wit_ahead"
    "lastIncludedIndex wit_ahead < isLastIncludedIndex wit_behind" "isLastIncludedIndex wit_behind < lastApplied wit_ahead"
    "lastApplied wit_ahead < commitIndex wit_ahead"
    "termAtLocked wit_ahead (isLastIncludedIndex wit_behind) = Some (isLastIncludedTerm wit_behind)"
    by code_simp+
  have "\<exists>st. SaveSnapshot MemoryStorage_ops (storage wit_ahead) (isLastIncludedIndex wit_behind) (isLastIncludedTerm wit_behind) (isData wit_behind) = (st, None)"
    by (simp add: mem_defs)
  then obtain st where "SaveSnapshot MemoryStorage_ops (storage wit_ahead) (isLastIncludedIndex wit_behind) (isLastIncludedTerm wit_behind) (isData wit_behind) = (st, None)"
    by blast
  from stale_snapshot_skips_commands [OF w this, of wit_env] show ?thesis
    by (auto simp: wit_behind_def wit_ahead_def)
qed

text \<open>A conflicting snapshot leaves the discarded log on the disk. Let a node on \<open>DiskStorage\<close> whose log
  is what its disk holds take a snapshot of its term that lies inside its log with a different term.
  In memory the whole log is dropped; on the disk the entries after the snapshot stay, so a restart
  comes back with entries that the node had discarded, following a boundary they do not belong to.\<close>

theorem conflicting_snapshot_keeps_stale_log:
  assumes "log_ok n" "\<not> failed n" "isTerm args = currentTerm n"
    and "lastIncludedIndex n < isLastIncludedIndex args" "isLastIncludedIndex args < last_index n"
    and "termAtLocked n (isLastIncludedIndex args) \<noteq> Some (isLastIncludedTerm args)"
    and "disk_inv (storage n)" "psLog (disk_view (storage n)) = nlog n"
    and "snap_fits (isLastIncludedIndex args) (isLastIncludedTerm args) (isData args)"
    and "SaveSnapshot DiskStorage_ops (storage n) (isLastIncludedIndex args) (isLastIncludedTerm args) (isData args) = (st, None)"
  shows "\<exists>n' r. handleInstallSnapshot DiskStorage_ops e args n = Some (n', Inr r) \<and>
    nlog n' = [boundary_entry (isLastIncludedTerm args) (isLastIncludedIndex args)] \<and>
    (\<forall>d ps. disk_open (dFs (storage n')) = Inr (d, ps) \<longrightarrow>
      psLog ps = boundary_entry (isLastIncludedTerm args) (isLastIncludedIndex args) #
        drop (isLastIncludedIndex args + 1 - lastIncludedIndex n) (nlog n) \<and> psLog ps \<noteq> nlog n')"
proof -
  let ?i = "isLastIncludedIndex args" and ?t = "isLastIncludedTerm args"
  obtain n' r where h: "handleInstallSnapshot DiskStorage_ops e args n = Some (n', Inr r)" "storage n' = st"
    "nlog n' = [boundary_entry ?t ?i]"
    using install_accepted [OF assms(1-4,10), of e] assms(6) by auto
  have hd: "hd (nlog n) = boundary_entry (fst (snd (disk_snap (storage n)))) (fst (disk_snap (storage n)))"
    using assms(8) by (metis disk_view_def list.sel(1) make_view_simps(1))
  have b: "fst (disk_snap (storage n)) = lastIncludedIndex n"
  proof -
    have "eIndex (nlog n ! 0) = lastIncludedIndex n" using indexed_nth [OF log_okD(3) [OF assms(1)], of 0] log_okD(2) [OF assms(1)] by simp
    then show ?thesis using hd log_okD(1) [OF assms(1)] by (simp add: hd_conv_nth eIndex_boundary)
  qed
  have leg: "ps_legal (disk_view (storage n)) (CallSaveSnapshot ?i ?t (isData args))"
    using assms(4) b by (simp add: disk_view_def)
  have sc: "storage_call DiskStorage_ops (storage n) (CallSaveSnapshot ?i ?t (isData args)) = (st, None)" using assms(10) by simp
  have v: "disk_view st = ps_call (CallSaveSnapshot ?i ?t (isData args)) (disk_view (storage n))"
    using disk_call_ok [OF assms(7) leg _ sc] assms(9) by simp
  have bb: "ps_boundary (disk_view (storage n)) = lastIncludedIndex n" using b by (simp add: disk_view_def)
  then have lg: "psLog (disk_view st) = boundary_entry ?t ?i # drop (?i + 1 - lastIncludedIndex n) (nlog n)"
    unfolding v using assms(4,8) by (simp add: Suc_diff_le)
  have "drop (?i + 1 - lastIncludedIndex n) (nlog n) \<noteq> []"
    using assms(4,5) log_okD(2) [OF assms(1)] by (auto simp: last_index_def)
  then have "psLog ps = boundary_entry ?t ?i # drop (?i + 1 - lastIncludedIndex n) (nlog n) \<and> psLog ps \<noteq> nlog n'"
    if "disk_open (dFs (storage n')) = Inr (d, ps)" for d ps
    using disk_open_view(2) [OF that] h(2,3) lg by simp
  then show ?thesis using h by blast
qed

text \<open>A node whose disk holds the terms 1, 3, 3 takes a snapshot of index 2 and term 2.\<close>

definition wit_stale :: InstallSnapshotArgs where
  "wit_stale = \<lparr>isTerm = 3, isLeaderID = ''n3'', isLastIncludedIndex = 2, isLastIncludedTerm = 2, isData = [9]\<rparr>"

theorem conflicting_snapshot_keeps_stale_log_witness:
  "\<exists>(n :: DiskStorage Node) n' r d ps. handleInstallSnapshot DiskStorage_ops wit_env wit_stale n = Some (n', Inr r) \<and>
    nlog n' = [boundary_entry 2 2] \<and> disk_open (dFs (storage n')) = Inr (d, ps) \<and>
    psLog ps = [boundary_entry 2 2, \<lparr>eTerm = 3, eIndex = 3, eCommand = [8, 9]\<rparr>]"
proof -
  let ?ps = "fold ps_call sample_calls empty_state"
  obtain d0 d1 where d: "disk_open empty_dir = Inr (d0, empty_state)" "storage_calls DiskStorage_ops d0 sample_calls = (d1, None)"
    "quiet_disk d1" "disk_inv d1"
    using open_empty_calls [OF sample_legal] by blast
  have "disk_inv d0" "disk_view d0 = empty_state" using disk_open_view [of "d0\<lparr>dFs := empty_dir\<rparr>" d0 empty_state] d(1) by simp_all
  then have v: "disk_view d1 = ?ps" using disk.calls_view [of d0 sample_calls d1] sample_legal d(2) by simp
  define n where "n = node_from_state (wit_cfg ''n1'' [''n2'', ''n3'']) d1 ?ps (boundary_entry 0 0)"
  have ps: "psLog ?ps = [boundary_entry 0 0, \<lparr>eTerm = 1, eIndex = 1, eCommand = [7]\<rparr>, \<lparr>eTerm = 3, eIndex = 2, eCommand = []\<rparr>,
      \<lparr>eTerm = 3, eIndex = 3, eCommand = [8, 9]\<rparr>]" "psCurrentTerm ?ps = 3"
    by (simp_all add: sample_calls_def empty_state_def)
  have f: "nlog n = psLog ?ps" "currentTerm n = 3" "storage n = d1" "\<not> failed n" "lastIncludedIndex n = 0" "lastIncludedTerm n = 0"
    using ps by (simp_all add: n_def node_from_state_def boundary_entry_def)
  have ok: "log_ok n" "last_index n = 3" "termAtLocked n 2 = Some 3"
    using f ps by (simp_all add: log_ok_def last_index_def termAtLocked_def entryAtLocked_def boundary_entry_def terms_sorted_def)
  have a: "isLastIncludedIndex wit_stale = 2" "isLastIncludedTerm wit_stale = 2" "isTerm wit_stale = 3" "isData wit_stale = [9]"
    by (simp_all add: wit_stale_def)
  have leg: "ps_legal (disk_view d1) (CallSaveSnapshot 2 2 [9])" using v ps by (simp add: ps_boundary_def boundary_entry_def)
  obtain st where st: "storage_call DiskStorage_ops d1 (CallSaveSnapshot 2 2 [9]) = (st, None)" "quiet_disk st"
    using quiet_storage_call [OF d(3,4) leg] by blast
  have fits: "snap_fits 2 2 [9]" by (simp add: snap_fits_def)
  have "disk_inv st" using disk_call_ok [OF d(4) leg _ st(1)] fits by simp
  then have "disk_recov st" by (simp add: disk_inv_def)
  then obtain d2 ps2 where o: "disk_open (dFs st) = Inr (d2, ps2)" using quiet_open [of st] st(2) by (auto simp: quiet_disk_def)
  have sv: "SaveSnapshot DiskStorage_ops (storage n) (isLastIncludedIndex wit_stale) (isLastIncludedTerm wit_stale) (isData wit_stale) = (st, None)"
    using st(1) f a by simp
  have hyp: "isTerm wit_stale = currentTerm n" "lastIncludedIndex n < isLastIncludedIndex wit_stale"
    "isLastIncludedIndex wit_stale < last_index n" "termAtLocked n (isLastIncludedIndex wit_stale) \<noteq> Some (isLastIncludedTerm wit_stale)"
    "disk_inv (storage n)" "psLog (disk_view (storage n)) = nlog n"
    "snap_fits (isLastIncludedIndex wit_stale) (isLastIncludedTerm wit_stale) (isData wit_stale)"
    using f ok a d(4) v fits by simp_all
  obtain n' r where n': "handleInstallSnapshot DiskStorage_ops wit_env wit_stale n = Some (n', Inr r)" "nlog n' = [boundary_entry 2 2]"
    "\<forall>d ps. disk_open (dFs (storage n')) = Inr (d, ps) \<longrightarrow>
      psLog ps = boundary_entry 2 2 # drop (2 + 1 - lastIncludedIndex n) (nlog n) \<and> psLog ps \<noteq> nlog n'"
    using conflicting_snapshot_keeps_stale_log [OF ok(1) f(4) hyp sv, of wit_env] unfolding a by blast
  moreover have "storage n' = st"
    using install_accepted [OF ok(1) f(4) hyp(1,2) sv, of wit_env] n'(1) by auto
  moreover have "drop (2 + 1 - lastIncludedIndex n) (nlog n) = [\<lparr>eTerm = 3, eIndex = 3, eCommand = [8, 9]\<rparr>]"
    using f ps by simp
  ultimately show ?thesis using o by metis
qed

end
