(* ===== verification/Raft_Protocol.thy ===== *)
theory Raft_Protocol
  imports Raft_Types "HOL-Library.Sublist"
begin

text \<open>
  The protocol the nodes are meant to run, without snapshots, messages, timers or storage: every
  node has a term and a whole log, every term has at most one leader with a log of its own, a
  candidate has the log it asks votes with. An entry is committed in a term when a quorum has
  acknowledged it there. \<open>pinv\<close> is the invariant; \<open>leader_complete\<close> and \<open>sealed_agree\<close> are what it
  gives: later leaders hold what was committed, and committed logs agree.

  The cluster of \<open>Raft_Cluster\<close> is shown to follow these steps in \<open>Raft_Refinement\<close>.
\<close>

section \<open>Logs\<close>

text \<open>The term at an index (indices count from 1; index 0 stands before the first entry).\<close>

definition tm :: "LogEntry list \<Rightarrow> nat \<Rightarrow> nat" where
  "tm X k = (if k = 0 then 0 else eTerm (X ! (k - 1)))"

definition lastT :: "LogEntry list \<Rightarrow> nat" where
  "lastT X = tm X (length X)"

definition up_to_date :: "LogEntry list \<Rightarrow> LogEntry list \<Rightarrow> bool" where
  "up_to_date X L \<longleftrightarrow> lastT L < lastT X \<or> lastT L = lastT X \<and> length L \<le> length X"

text \<open>
  \<open>adopts L X R\<close>: a node with log \<open>L\<close> that is told \<open>X\<close> may end with \<open>R\<close>: it keeps its log when \<open>X\<close> is
  already in it, and otherwise it has a part of \<open>X\<close> that reaches at least as far as \<open>L\<close> and \<open>X\<close> agree.
\<close>

definition adopts :: "LogEntry list \<Rightarrow> LogEntry list \<Rightarrow> LogEntry list \<Rightarrow> bool" where
  "adopts L X R \<longleftrightarrow> R = L \<or> \<not> prefix X L \<and> prefix R X \<and>
     (\<forall>k \<le> length X. k \<le> length L \<longrightarrow> take k L = take k X \<longrightarrow> k \<le> length R)"

lemma tm_0 [simp]: "tm X 0 = 0"
  by (simp add: tm_def)

lemma tm_take: "k \<le> n \<Longrightarrow> tm (take n X) k = tm X k"
  by (cases k) (auto simp: tm_def)

lemma tm_eq: "take n X = take n Y \<Longrightarrow> k \<le> n \<Longrightarrow> tm X k = tm Y k"
  by (metis tm_take)

lemma tm_append: "k \<le> length X \<Longrightarrow> tm (X @ Y) k = tm X k"
  by (cases k) (auto simp: tm_def nth_append)

lemma tm_prefix: "prefix X Y \<Longrightarrow> k \<le> length X \<Longrightarrow> tm Y k = tm X k"
  by (auto simp: prefix_def tm_append)

lemma tm_in: "0 < k \<Longrightarrow> k \<le> length X \<Longrightarrow> \<exists>x \<in> set X. tm X k = eTerm x"
  by (cases k) (auto simp: tm_def Suc_le_eq intro: nth_mem)

lemma tm_mono: "terms_sorted X \<Longrightarrow> i \<le> j \<Longrightarrow> j \<le> length X \<Longrightarrow> tm X i \<le> tm X j"
  using terms_sorted_nth_mono [of X "i - 1" "j - 1"] by (auto simp: tm_def)

lemma prefix_take_eq: "prefix X Y \<Longrightarrow> k \<le> length X \<Longrightarrow> take k Y = take k X"
  by (auto simp: prefix_def)

lemma adopts_prefix: "adopts L (take p Y) R \<Longrightarrow> R = L \<or> prefix R Y"
  using prefix_order.trans [OF _ take_is_prefix [of p Y], of R] by (auto simp: adopts_def)

text \<open>What \<open>L\<close> and the source of \<open>X\<close> have in common survives.\<close>

lemma adopts_keeps:
  assumes a: "adopts L (take p Y) R" and k: "k \<le> length L" "k \<le> length Y" "take k L = take k Y"
  shows "k \<le> length R \<and> take k R = take k Y"
proof (cases "R = L")
  case False
  then have np: "\<not> prefix (take p Y) L" and R: "prefix R (take p Y)"
    and reach: "\<And>m. m \<le> length (take p Y) \<Longrightarrow> m \<le> length L \<Longrightarrow> take m L = take m (take p Y) \<Longrightarrow> m \<le> length R"
    using a by (auto simp: adopts_def)
  have "k \<le> p"
  proof (rule ccontr)
    assume "\<not> k \<le> p"
    then have "take p Y = take p L" using k(3) by (metis nat_le_linear take_eq_take_mono)
    then show False using np take_is_prefix by metis
  qed
  then have "k \<le> length R" using reach [of k] k by (simp add: min_absorb1)
  moreover have "take k R = take k (take p Y)" using prefix_take_eq [OF R calculation] by simp
  ultimately show ?thesis using \<open>k \<le> p\<close> by (simp add: min_absorb1)
qed (use k in simp)

section \<open>The protocol\<close>

record Protocol =
  pTerm :: "node_id \<Rightarrow> nat"
  pLog :: "node_id \<Rightarrow> LogEntry list"
  pWon :: "nat \<Rightarrow> node_id option"
  pLead :: "nat \<Rightarrow> LogEntry list"
  pCand :: "node_id \<Rightarrow> nat \<Rightarrow> LogEntry list option"
  pVotes :: "(node_id \<times> nat \<times> node_id) set" \<comment> \<open>voter, term, candidate\<close>
  pAcks :: "(node_id \<times> nat \<times> nat) set" \<comment> \<open>node, term, index\<close>

definition pinit :: "Protocol \<Rightarrow> bool" where
  "pinit g \<longleftrightarrow> (\<forall>j. pLog g j = []) \<and> (\<forall>t. pWon g t = None) \<and> (\<forall>t. pLead g t = []) \<and>
     (\<forall>i t. pCand g i t = None) \<and> pVotes g = {} \<and> pAcks g = {}"

definition quorum :: "node_id set \<Rightarrow> node_id set \<Rightarrow> bool" where
  "quorum M Q \<longleftrightarrow> Q \<subseteq> M \<and> card M < 2 * card Q"

inductive pstep :: "node_id set \<Rightarrow> Protocol \<Rightarrow> Protocol \<Rightarrow> bool" for M where
  raise_term: "pTerm g j \<le> t \<Longrightarrow> pstep M g (g\<lparr>pTerm := (pTerm g)(j := t)\<rparr>)"
| campaign: "U = Suc (pTerm g i) \<Longrightarrow>
    pstep M g (g\<lparr>pTerm := (pTerm g)(i := U), pCand := (pCand g)(i := (pCand g i)(U \<mapsto> pLog g i)),
      pVotes := insert (i, U, i) (pVotes g)\<rparr>)"
| vote: "pTerm g j = U \<Longrightarrow> pWon g U = None \<Longrightarrow> pCand g i U = Some X \<Longrightarrow> (\<forall>a. (j, U, a) \<in> pVotes g \<longrightarrow> a = i) \<Longrightarrow>
    up_to_date X (pLog g j) \<Longrightarrow> pstep M g (g\<lparr>pVotes := insert (j, U, i) (pVotes g)\<rparr>)"
| win: "pWon g U = None \<Longrightarrow> pCand g i U = Some X \<Longrightarrow> quorum M Q \<Longrightarrow> (\<forall>j \<in> Q. (j, U, i) \<in> pVotes g) \<Longrightarrow>
    pstep M g (g\<lparr>pWon := (pWon g)(U \<mapsto> i), pLead := (pLead g)(U := X)\<rparr>)"
| extend: "pWon g U \<noteq> None \<Longrightarrow> eTerm x = U \<Longrightarrow> eIndex x = Suc (length (pLead g U)) \<Longrightarrow>
    pstep M g (g\<lparr>pLead := (pLead g)(U := pLead g U @ [x])\<rparr>)"
| adopt: "pWon g (pTerm g j) \<noteq> None \<Longrightarrow> adopts (pLog g j) (take p (pLead g (pTerm g j))) R \<Longrightarrow>
    pstep M g (g\<lparr>pLog := (pLog g)(j := R)\<rparr>)"
| ack: "pTerm g j = t \<Longrightarrow> 0 < k \<Longrightarrow> k \<le> length (pLead g t) \<Longrightarrow> tm (pLead g t) k = t \<Longrightarrow>
    k \<le> length (pLog g j) \<Longrightarrow> take k (pLog g j) = take k (pLead g t) \<Longrightarrow>
    pstep M g (g\<lparr>pAcks := insert (j, t, k) (pAcks g)\<rparr>)"

abbreviation psteps :: "node_id set \<Rightarrow> Protocol \<Rightarrow> Protocol \<Rightarrow> bool" where
  "psteps M \<equiv> (pstep M)\<^sup>*\<^sup>*"

definition committed :: "node_id set \<Rightarrow> Protocol \<Rightarrow> nat \<Rightarrow> nat \<Rightarrow> bool" where
  "committed M g t k \<longleftrightarrow> (\<exists>Q. quorum M Q \<and> (\<forall>j \<in> Q. (j, t, k) \<in> pAcks g))"

section \<open>The invariant\<close>

text \<open>
  \<open>anchored g X\<close>: up to each of its entries the log is what the leader of that entry's term had;
  two anchored logs with an entry of the same term at the same index agree up to there.
  \<open>holds g t k X\<close>: the log has the first \<open>k\<close> entries of the leader of term \<open>t\<close>. \<open>lost g t k U\<close>: some
  leader between \<open>t\<close> and \<open>U\<close> does not.
\<close>

definition anchored :: "Protocol \<Rightarrow> LogEntry list \<Rightarrow> bool" where
  "anchored g X \<longleftrightarrow> indexed 1 X \<and> terms_sorted X \<and>
     (\<forall>k. 0 < k \<longrightarrow> k \<le> length X \<longrightarrow> prefix (take k X) (pLead g (tm X k)))"

definition holds :: "Protocol \<Rightarrow> nat \<Rightarrow> nat \<Rightarrow> LogEntry list \<Rightarrow> bool" where
  "holds g t k X \<longleftrightarrow> k \<le> length X \<and> take k X = take k (pLead g t)"

definition lost :: "Protocol \<Rightarrow> nat \<Rightarrow> nat \<Rightarrow> nat \<Rightarrow> bool" where
  "lost g t k U \<longleftrightarrow> (\<exists>s. t < s \<and> s < U \<and> pWon g s \<noteq> None \<and> \<not> holds g t k (pLead g s))"

definition inv_logs :: "Protocol \<Rightarrow> bool" where
  "inv_logs g \<longleftrightarrow> (\<forall>j. anchored g (pLog g j) \<and> (\<forall>x \<in> set (pLog g j). eTerm x \<le> pTerm g j)) \<and>
     (\<forall>U. anchored g (pLead g U) \<and> (\<forall>x \<in> set (pLead g U). eTerm x \<le> U)) \<and>
     (\<forall>i U X. pCand g i U = Some X \<longrightarrow> anchored g X \<and> (\<forall>x \<in> set X. eTerm x < U) \<and> 0 < U \<and> U \<le> pTerm g i)"

definition inv_votes :: "Protocol \<Rightarrow> bool" where
  "inv_votes g \<longleftrightarrow> (\<forall>j U i. (j, U, i) \<in> pVotes g \<longrightarrow> U \<le> pTerm g j \<and> pCand g i U \<noteq> None) \<and>
     (\<forall>j U a b. (j, U, a) \<in> pVotes g \<longrightarrow> (j, U, b) \<in> pVotes g \<longrightarrow> a = b)"

definition inv_leaders :: "node_id set \<Rightarrow> Protocol \<Rightarrow> bool" where
  "inv_leaders M g \<longleftrightarrow> (\<forall>U. pWon g U = None \<longrightarrow> pLead g U = []) \<and>
     (\<forall>U i. pWon g U = Some i \<longrightarrow> (\<exists>X Q. pCand g i U = Some X \<and> prefix X (pLead g U) \<and>
        quorum M Q \<and> (\<forall>j \<in> Q. (j, U, i) \<in> pVotes g)))"

definition inv_acks :: "Protocol \<Rightarrow> bool" where
  "inv_acks g \<longleftrightarrow> (\<forall>j t k. (j, t, k) \<in> pAcks g \<longrightarrow> t \<le> pTerm g j \<and> 0 < k \<and> k \<le> length (pLead g t) \<and>
     tm (pLead g t) k = t \<and> (holds g t k (pLog g j) \<or> lost g t k (Suc (pTerm g j))))"

definition inv_promises :: "Protocol \<Rightarrow> bool" where
  "inv_promises g \<longleftrightarrow> (\<forall>j t k U i X. (j, t, k) \<in> pAcks g \<longrightarrow> (j, U, i) \<in> pVotes g \<longrightarrow> t < U \<longrightarrow>
     pCand g i U = Some X \<longrightarrow> holds g t k X \<or> lost g t k U)"

definition pinv :: "node_id set \<Rightarrow> Protocol \<Rightarrow> bool" where
  "pinv M g \<longleftrightarrow> inv_logs g \<and> inv_votes g \<and> inv_leaders M g \<and> inv_acks g \<and> inv_promises g"

lemma pinit_pinv: "pinit g \<Longrightarrow> pinv M g"
  by (simp add: pinit_def pinv_def inv_logs_def inv_votes_def inv_leaders_def inv_acks_def inv_promises_def
      anchored_def terms_sorted_def)

lemma anchored_prefix: "anchored g Y \<Longrightarrow> prefix X Y \<Longrightarrow> anchored g X"
proof -
  assume Y: "anchored g Y" and p: "prefix X Y"
  then obtain Z where Z: "Y = X @ Z" by (auto simp: prefix_def)
  have "prefix (take k X) (pLead g (tm X k))" if "0 < k" "k \<le> length X" for k
    using Y that unfolding Z anchored_def by (auto dest!: spec [of _ k] simp: tm_append)
  then show ?thesis using Y unfolding Z by (simp add: anchored_def terms_sorted_append)
qed

lemma anchoredD: "anchored g X \<Longrightarrow> 0 < k \<Longrightarrow> k \<le> length X \<Longrightarrow> prefix (take k X) (pLead g (tm X k))"
  by (simp add: anchored_def)

text \<open>Log matching.\<close>

lemma anchored_match:
  assumes "anchored g X" "anchored g Y" "k \<le> length X" "k \<le> length Y" "tm X k = tm Y k"
  shows "take k X = take k Y"
proof (cases "k = 0")
  case False
  then have "prefix (take k X) (pLead g (tm X k))" "prefix (take k Y) (pLead g (tm X k))"
    using anchoredD [OF assms(1), of k] anchoredD [OF assms(2), of k] assms(3-5) by simp_all
  then show ?thesis using assms(3,4) by (auto simp: prefix_def append_eq_append_conv)
qed simp

lemma anchored_last: "anchored g X \<Longrightarrow> X \<noteq> [] \<Longrightarrow> prefix X (pLead g (lastT X))"
  by (auto simp: anchored_def lastT_def dest!: spec [of _ "length X"])

lemma lost_mono: "lost g t k U \<Longrightarrow> U \<le> V \<Longrightarrow> lost g t k V"
  by (auto simp: lost_def)

section \<open>Every step keeps it\<close>

text \<open>What changes when the leaders' logs grow.\<close>

definition grows :: "Protocol \<Rightarrow> Protocol \<Rightarrow> bool" where
  "grows g g' \<longleftrightarrow> (\<forall>U. prefix (pLead g U) (pLead g' U)) \<and> (\<forall>U. pWon g U \<noteq> None \<longrightarrow> pWon g' U = pWon g U) \<and>
     (\<forall>U i. pCand g i U \<noteq> None \<longrightarrow> pCand g' i U = pCand g i U) \<and> pVotes g \<subseteq> pVotes g' \<and> pAcks g \<subseteq> pAcks g' \<and>
     (\<forall>j. pTerm g j \<le> pTerm g' j)"

lemma grows_refl [simp]: "grows g g"
  by (simp add: grows_def)

lemma growsD:
  assumes "grows g g'"
  shows "prefix (pLead g U) (pLead g' U)" "pWon g U \<noteq> None \<Longrightarrow> pWon g' U = pWon g U"
    "pCand g i U \<noteq> None \<Longrightarrow> pCand g' i U = pCand g i U" "pVotes g \<subseteq> pVotes g'" "pAcks g \<subseteq> pAcks g'"
    "pTerm g j \<le> pTerm g' j"
  using assms unfolding grows_def by blast+

lemma grows_trans:
  assumes ab: "grows a b" and bc: "grows b c"
  shows "grows a c"
  unfolding grows_def
proof (intro conjI allI impI)
  show "prefix (pLead a U) (pLead c U)" for U
    using growsD(1) [OF ab] growsD(1) [OF bc] prefix_order.trans by blast
  show "pWon c U = pWon a U" if "pWon a U \<noteq> None" for U
    using growsD(2) [OF ab that] growsD(2) [OF bc, of U] that by simp
  show "pCand c i U = pCand a i U" if "pCand a i U \<noteq> None" for i U
    using growsD(3) [OF ab that] growsD(3) [OF bc, of i U] that by simp
qed (use growsD(4-6) [OF ab] growsD(4-6) [OF bc] le_trans in blast)+

lemma pinvD:
  assumes "pinv M g"
  shows "inv_logs g" "inv_votes g" "inv_leaders M g" "inv_acks g" "inv_promises g"
  using assms by (simp_all add: pinv_def)

lemma inv_logsD:
  assumes "inv_logs g"
  shows "anchored g (pLog g j)" "x \<in> set (pLog g j) \<Longrightarrow> eTerm x \<le> pTerm g j"
    "anchored g (pLead g U)" "x \<in> set (pLead g U) \<Longrightarrow> eTerm x \<le> U"
    "pCand g i U = Some X \<Longrightarrow> anchored g X" "pCand g i U = Some X \<Longrightarrow> x \<in> set X \<Longrightarrow> eTerm x < U"
    "pCand g i U = Some X \<Longrightarrow> 0 < U" "pCand g i U = Some X \<Longrightarrow> U \<le> pTerm g i"
  using assms by (auto simp: inv_logs_def)

lemma anchored_grows: "anchored g X \<Longrightarrow> grows g g' \<Longrightarrow> anchored g' X"
  unfolding anchored_def grows_def by (metis prefix_order.trans)

lemma holds_grows:
  "grows g g' \<Longrightarrow> k \<le> length (pLead g t) \<Longrightarrow> holds g' t k X = holds g t k X"
  using prefix_take_eq [OF growsD(1), of g g' k t] by (simp add: holds_def)

lemma pLead_0: "pinv M g \<Longrightarrow> pLead g 0 = []"
  using inv_logsD(7) [OF pinvD(1), of M g _ 0] pinvD(3) [of M g] unfolding inv_leaders_def by fastforce

text \<open>A leader that had lost something of term \<open>t\<close> does not get it back: what it appends has its own term.\<close>

lemma lost_grows:
  assumes g: "grows g g'" and k: "0 < k" "k \<le> length (pLead g t)" "tm (pLead g t) k = t"
    and ext: "\<And>U m. pWon g U \<noteq> None \<Longrightarrow> length (pLead g U) < m \<Longrightarrow> m \<le> length (pLead g' U) \<Longrightarrow> tm (pLead g' U) m = U"
    and l: "lost g t k U"
  shows "lost g' t k U"
proof -
  obtain s where s: "t < s" "s < U" "pWon g s \<noteq> None" "\<not> holds g t k (pLead g s)" using l by (auto simp: lost_def)
  have p: "prefix (pLead g s) (pLead g' s)" "prefix (pLead g t) (pLead g' t)" using g by (simp_all add: grows_def)
  have "\<not> holds g' t k (pLead g' s)"
  proof
    assume h: "holds g' t k (pLead g' s)"
    show False
    proof (cases "k \<le> length (pLead g s)")
      case True
      then show False using h s(4) p k(2) by (simp add: holds_def prefix_take_eq)
    next
      case False
      then have "tm (pLead g' s) k = s" using ext [OF s(3)] h by (simp add: holds_def)
      moreover have "tm (pLead g' s) k = tm (pLead g' t) k" using h by (auto simp: holds_def intro: tm_eq [of k])
      ultimately show False using k p(2) s(1) by (simp add: tm_prefix)
    qed
  qed
  then show ?thesis using s g by (auto simp: lost_def grows_def)
qed

text \<open>What a vote promises.\<close>

lemma vote_promise:
  assumes g: "pinv M g" and X: "anchored g X" "\<And>x. x \<in> set X \<Longrightarrow> eTerm x < U" and L: "anchored g L"
    and h: "holds g t k L" and k: "0 < k" "k \<le> length (pLead g t)" "tm (pLead g t) k = t"
    and u: "up_to_date X L" and nl: "\<not> lost g t k U"
  shows "holds g t k X"
proof -
  have tL: "tm L k = t" using h k by (metis holds_def order_refl tm_eq)
  have "t \<le> lastT L" using tm_mono [of L k "length L"] L h tL by (simp add: holds_def anchored_def lastT_def)
  then have tX: "t \<le> lastT X" using u by (auto simp: up_to_date_def)
  have "pLead g t \<noteq> []" using k by auto
  then have "t \<noteq> 0" using pLead_0 [OF g] by metis
  then have ne: "X \<noteq> []" using tX by (auto simp: lastT_def)
  then have p: "prefix X (pLead g (lastT X))" by (rule anchored_last [OF X(1)])
  show ?thesis
  proof (cases "lastT X = t")
    case True
    then have "length L \<le> length X" using u \<open>t \<le> lastT L\<close> by (auto simp: up_to_date_def)
    then have "k \<le> length X" using h by (simp add: holds_def)
    then show ?thesis using p True by (simp add: holds_def prefix_take_eq)
  next
    case False
    let ?s = "lastT X"
    have s: "t < ?s" "?s < U" using False tX X(2) tm_in [of "length X" X] ne by (auto simp: lastT_def)
    have "pWon g ?s \<noteq> None" using p ne pinvD(3) [OF g] by (auto simp: inv_leaders_def)
    then have hs: "holds g t k (pLead g ?s)" using nl s by (auto simp: lost_def)
    have "k < length X"
    proof (rule ccontr)
      assume "\<not> k < length X"
      then have "tm (pLead g t) (length X) = tm (pLead g ?s) (length X)" using hs by (auto simp: holds_def intro: tm_eq [of k])
      also have "\<dots> = ?s" using p by (simp add: tm_prefix lastT_def)
      finally have "?s \<le> t"
        using tm_mono [of "pLead g t" "length X" k] inv_logsD(3) [OF pinvD(1) [OF g], of t] k \<open>\<not> k < length X\<close>
        by (simp add: anchored_def)
      then show False using s by simp
    qed
    then show ?thesis using p hs by (simp add: holds_def prefix_take_eq)
  qed
qed

lemma pstep_grows:
  assumes g: "pinv M g" and st: "pstep M g g'"
  shows "grows g g'" "pWon g U \<noteq> None \<Longrightarrow> length (pLead g U) < m \<Longrightarrow> m \<le> length (pLead g' U) \<Longrightarrow> tm (pLead g' U) m = U"
proof -
  have c: "pCand g i (Suc (pTerm g i)) = None" for i
    using inv_logsD(8) [OF pinvD(1) [OF g], of i "Suc (pTerm g i)"] by fastforce
  have l: "pWon g U = None \<Longrightarrow> pLead g U = []" for U using pinvD(3) [OF g] by (simp add: inv_leaders_def)
  show "grows g g'" using st by cases (auto simp: grows_def c l)
  show "pWon g U \<noteq> None \<Longrightarrow> length (pLead g U) < m \<Longrightarrow> m \<le> length (pLead g' U) \<Longrightarrow> tm (pLead g' U) m = U"
    using st by cases (auto simp: tm_def nth_append split: if_splits)
qed

lemma pstep_logs:
  assumes g: "pinv M g" and st: "pstep M g g'"
  shows "inv_logs g'"
proof -
  note gr = pstep_grows(1) [OF g st]
  note D = inv_logsD [OF pinvD(1) [OF g]]
  have a: "anchored g X \<Longrightarrow> anchored g' X" for X using anchored_grows gr by blast
  from st show ?thesis
  proof cases
    case (raise_term j t)
    then show ?thesis using a D unfolding inv_logs_def
      by (auto intro: order_trans [OF D(2)] order_trans [OF D(8)])
  next
    case (campaign U i)
    then show ?thesis using a D unfolding inv_logs_def
      by (auto intro: le_SucI simp: less_Suc_eq_le)
  next
    case (vote j U i X)
    then show ?thesis using a D unfolding inv_logs_def by auto
  next
    case (win U i X Q)
    then show ?thesis using a D less_imp_le [OF D(6)] unfolding inv_logs_def by auto
  next
    case (extend U x)
    have "anchored g' (pLead g U @ [x])"
    proof -
      have old: "anchored g' (pLead g U)" by (rule a [OF D(3)])
      have "prefix (take k (pLead g U @ [x])) (pLead g' (tm (pLead g U @ [x]) k))"
        if "0 < k" "k \<le> length (pLead g U @ [x])" for k
      proof (cases "k \<le> length (pLead g U)")
        case True
        then show ?thesis using old that by (simp add: anchoredD tm_append)
      next
        case False
        then have "k = Suc (length (pLead g U))" using that by simp
        then show ?thesis using extend by (simp add: tm_def)
      qed
      then show ?thesis using old extend D(4) by (auto simp: anchored_def terms_sorted_append terms_sorted_def [of "[x]"])
    qed
    then show ?thesis using extend a D unfolding inv_logs_def by auto
  next
    case (adopt j p R)
    have "prefix R (pLead g (pTerm g j)) \<or> R = pLog g j"
      using adopts_prefix [OF adopt(3)] by blast
    then have "anchored g R \<and> (\<forall>x \<in> set R. eTerm x \<le> pTerm g j)"
      using D(1) [of j] D(2) [of _ j] anchored_prefix [OF D(3)] D(4) set_mono_prefix by blast
    then show ?thesis using adopt a D unfolding inv_logs_def by auto
  next
    case (ack j t k)
    then show ?thesis using a D unfolding inv_logs_def by auto
  qed
qed

lemma pstep_votes:
  assumes g: "pinv M g" and st: "pstep M g g'"
  shows "inv_votes g'"
proof -
  note V = pinvD(2) [OF g]
  note gr = pstep_grows(1) [OF g st]
  have old: "U \<le> pTerm g' j \<and> pCand g' i U \<noteq> None" if "(j, U, i) \<in> pVotes g" for j U i
    using V that growsD(3,6) [OF gr] unfolding inv_votes_def by (metis le_trans)
  have "(j, Suc (pTerm g j), i) \<notin> pVotes g" for j i using V unfolding inv_votes_def by fastforce
  with st V old show ?thesis by cases (auto simp: inv_votes_def)
qed

lemma pstep_leaders:
  assumes g: "pinv M g" and st: "pstep M g g'"
  shows "inv_leaders M g'"
proof -
  note L = pinvD(3) [OF g]
  note gr = pstep_grows(1) [OF g st]
  have old: "\<exists>X Q. pCand g' i U = Some X \<and> prefix X (pLead g' U) \<and> quorum M Q \<and> (\<forall>j \<in> Q. (j, U, i) \<in> pVotes g')"
    if w: "pWon g U = Some i" for U i
  proof -
    obtain X Q where "pCand g i U = Some X" "prefix X (pLead g U)" "quorum M Q" "\<forall>j \<in> Q. (j, U, i) \<in> pVotes g"
      using L w unfolding inv_leaders_def by blast
    then show ?thesis using growsD(1) [OF gr, of U] growsD(3,4) [OF gr] prefix_order.trans by (metis option.discI subsetD)
  qed
  from st show ?thesis
  proof cases
    case (win U i X Q)
    then show ?thesis using L old by (auto simp: inv_leaders_def split: if_splits)
  next
    case (extend U x)
    then show ?thesis using L old by (auto simp: inv_leaders_def)
  qed (use L old in \<open>auto simp: inv_leaders_def\<close>)
qed

lemma pstep_acks:
  assumes g: "pinv M g" and st: "pstep M g g'"
  shows "inv_acks g'"
proof -
  note A = pinvD(4) [OF g]
  note gr = pstep_grows [OF g st]
  have old: "t \<le> pTerm g' j \<and> 0 < k \<and> k \<le> length (pLead g' t) \<and> tm (pLead g' t) k = t \<and>
      (holds g' t k (pLog g j) \<or> lost g' t k (Suc (pTerm g' j)))" if a: "(j, t, k) \<in> pAcks g" for j t k
  proof -
    have k: "t \<le> pTerm g j" "0 < k" "k \<le> length (pLead g t)" "tm (pLead g t) k = t"
      "holds g t k (pLog g j) \<or> lost g t k (Suc (pTerm g j))"
      using A a unfolding inv_acks_def by blast+
    note p = growsD(1) [OF gr(1), of t]
    have "lost g t k (Suc (pTerm g j)) \<Longrightarrow> lost g' t k (Suc (pTerm g' j))"
      using lost_mono [OF lost_grows [OF gr(1) k(2-4) gr(2)]] growsD(6) [OF gr(1), of j] by simp
    then show ?thesis
      using k growsD(6) [OF gr(1), of j] holds_grows [OF gr(1) k(3)] prefix_length_le [OF p] tm_prefix [OF p k(3)] by auto
  qed
  from st show ?thesis
  proof cases
    case (adopt j p R)
    have h: "holds g' t k R \<or> lost g' t k (Suc (pTerm g' j))" if a: "(j, t, k) \<in> pAcks g" for t k
    proof (cases "lost g' t k (Suc (pTerm g j))")
      case False
      note o = old [OF a]
      have T: "pTerm g' j = pTerm g j" "pLead g' = pLead g" using adopt by simp_all
      have hl: "holds g' t k (pLog g j)" "k \<le> length (pLead g t)" "t \<le> pTerm g j" using o False T by auto
      have "holds g' t k (pLead g (pTerm g j))"
        using False adopt hl by (cases "t = pTerm g j") (auto simp: lost_def holds_def)
      then show ?thesis
        using adopts_keeps [OF adopt(3), of k] hl T by (simp add: holds_def)
    qed (use adopt in simp)
    show ?thesis using old h adopt unfolding inv_acks_def by auto
  next
    case (ack i s m)
    have "holds g' s m (pLog g i)" using ack by (simp add: holds_def)
    then show ?thesis using old ack unfolding inv_acks_def by auto
  qed (use old in \<open>auto simp: inv_acks_def\<close>)
qed

lemma pstep_promises:
  assumes g: "pinv M g" and st: "pstep M g g'"
  shows "inv_promises g'"
proof -
  note A = pinvD(4) [OF g]
  note P = pinvD(5) [OF g]
  note gr = pstep_grows [OF g st]
  note D = inv_logsD [OF pinvD(1) [OF g]]
  have ak: "t \<le> pTerm g j \<and> 0 < k \<and> k \<le> length (pLead g t) \<and> tm (pLead g t) k = t \<and>
      (holds g t k (pLog g j) \<or> lost g t k (Suc (pTerm g j)))" if "(j, t, k) \<in> pAcks g" for j t k
    using A that unfolding inv_acks_def by blast
  have vt: "U \<le> pTerm g j \<and> pCand g i U \<noteq> None" if "(j, U, i) \<in> pVotes g" for j U i
    using pinvD(2) [OF g] that unfolding inv_votes_def by blast
  have step: "holds g' t k X \<or> lost g' t k U" if "(j, t, k) \<in> pAcks g" "holds g t k X \<or> lost g t k U" for j t k X U
    using that(2) ak [OF that(1)] holds_grows [OF gr(1), of k t X] lost_grows [OF gr(1) _ _ _ gr(2), of k t U] by blast
  have old: "holds g' t k X \<or> lost g' t k U"
    if a: "(j, t, k) \<in> pAcks g" and v: "(j, U, i) \<in> pVotes g" and "t < U" "pCand g' i U = Some X" for j t k U i X
  proof -
    have "pCand g i U = Some X" using vt [OF v] growsD(3) [OF gr(1)] that(4) by metis
    then show ?thesis using step [OF a] P a v that(3) unfolding inv_promises_def by blast
  qed
  from st show ?thesis
  proof cases
    case (campaign U i)
    have new: "holds g' t k (pLog g i) \<or> lost g' t k U" if "(i, t, k) \<in> pAcks g" for t k
      using step [OF that] ak [OF that] campaign by blast
    show ?thesis unfolding inv_promises_def
    proof (intro allI impI)
      fix j t k V a X
      assume h: "(j, t, k) \<in> pAcks g'" "(j, V, a) \<in> pVotes g'" "t < V" "pCand g' a V = Some X"
      show "holds g' t k X \<or> lost g' t k V"
      proof (cases "(j, V, a) \<in> pVotes g")
        case True
        then show ?thesis using old h campaign by simp
      next
        case False
        then show ?thesis using h new campaign by simp
      qed
    qed
  next
    case (vote j U i X)
    have new: "holds g' t k X \<or> lost g' t k U" if "(j, t, k) \<in> pAcks g" "t < U" for t k
    proof (rule step [OF that(1)])
      note k = ak [OF that(1)]
      show "holds g t k X \<or> lost g t k U"
      proof (cases "lost g t k U")
        case False
        then have "\<not> lost g t k (Suc U)" using vote(3) by (auto simp: lost_def less_Suc_eq)
        then have "holds g t k (pLog g j)" using k vote(2) by blast
        then have "holds g t k X"
          using vote_promise [OF g D(5) [OF vote(4)] D(6) [OF vote(4)] D(1) _ _ _ _ vote(6) False] k by blast
        then show ?thesis by simp
      qed simp
    qed
    show ?thesis unfolding inv_promises_def
    proof (intro allI impI)
      fix a t k V b Y
      assume h: "(a, t, k) \<in> pAcks g'" "(a, V, b) \<in> pVotes g'" "t < V" "pCand g' b V = Some Y"
      show "holds g' t k Y \<or> lost g' t k V"
      proof (cases "(a, V, b) \<in> pVotes g")
        case True
        then show ?thesis using old h vote by simp
      next
        case False
        then show ?thesis using h new vote by simp
      qed
    qed
  next
    case (ack j t k)
    show ?thesis unfolding inv_promises_def
    proof (intro allI impI)
      fix a s m V b Y
      assume h: "(a, s, m) \<in> pAcks g'" "(a, V, b) \<in> pVotes g'" "s < V" "pCand g' b V = Some Y"
      then show "holds g' s m Y \<or> lost g' s m V" using old [of a s m V b Y] vt [of a V b] ack by auto
    qed
  qed (use old in \<open>auto simp: inv_promises_def\<close>)
qed

theorem pstep_pinv: "pinv M g \<Longrightarrow> pstep M g g' \<Longrightarrow> pinv M g'"
  using pstep_logs pstep_votes pstep_leaders pstep_acks pstep_promises unfolding pinv_def [of M g'] by blast

lemma psteps_pinv: "psteps M g g' \<Longrightarrow> pinv M g \<Longrightarrow> pinv M g' \<and> grows g g'"
  by (induction rule: rtranclp_induct) (auto intro: pstep_pinv grows_trans pstep_grows(1))

section \<open>Safety\<close>

lemma committed_ack:
  assumes g: "pinv M g" and c: "committed M g t k"
  shows "0 < k" "k \<le> length (pLead g t)" "tm (pLead g t) k = t" "pWon g t \<noteq> None"
proof -
  obtain Q where Q: "card M < 2 * card Q" "\<forall>j \<in> Q. (j, t, k) \<in> pAcks g" using c by (auto simp: committed_def quorum_def)
  then obtain j where "j \<in> Q" by (metis card.empty equals0I less_nat_zero_code mult_0_right)
  then have k: "0 < k \<and> k \<le> length (pLead g t) \<and> tm (pLead g t) k = t"
    using Q(2) pinvD(4) [OF g] unfolding inv_acks_def by blast
  then show "0 < k" "k \<le> length (pLead g t)" "tm (pLead g t) k = t" by simp_all
  have "pLead g t \<noteq> []" using k by auto
  then show "pWon g t \<noteq> None" using pinvD(3) [OF g] by (auto simp: inv_leaders_def)
qed

lemma quorums_meet:
  assumes "finite M" "quorum M P" "quorum M Q"
  shows "P \<inter> Q \<noteq> {}"
  using assms by (intro quorum_overlap [of M]) (auto simp: quorum_def)

text \<open>Leader completeness: every later leader has what was committed.\<close>

theorem leader_complete:
  assumes M: "finite M" and g: "pinv M g" and c: "committed M g t k"
  shows "t < U \<Longrightarrow> pWon g U \<noteq> None \<Longrightarrow> holds g t k (pLead g U)"
proof (induction U rule: less_induct)
  case (less U)
  then obtain i where "pWon g U = Some i" by auto
  then obtain X Q where X: "pCand g i U = Some X" "prefix X (pLead g U)" "quorum M Q" "\<forall>j \<in> Q. (j, U, i) \<in> pVotes g"
    using pinvD(3) [OF g] unfolding inv_leaders_def by blast
  obtain P where P: "quorum M P" "\<forall>j \<in> P. (j, t, k) \<in> pAcks g" using c by (auto simp: committed_def)
  obtain j where j: "j \<in> P" "j \<in> Q" using quorums_meet [OF M P(1) X(3)] by blast
  then have "holds g t k X \<or> lost g t k U"
    using pinvD(5) [OF g] P(2) X(1,4) less.prems(1) unfolding inv_promises_def by blast
  moreover have "\<not> lost g t k U" using less.IH unfolding lost_def by blast
  ultimately have "holds g t k X" by blast
  then show ?case using prefix_length_le [OF X(2)] prefix_take_eq [OF X(2)] by (simp add: holds_def)
qed

text \<open>\<open>sealed M g t X k\<close>: the first \<open>k\<close> entries of the log are part of what was committed by term \<open>t\<close>.\<close>

definition sealed :: "node_id set \<Rightarrow> Protocol \<Rightarrow> nat \<Rightarrow> LogEntry list \<Rightarrow> nat \<Rightarrow> bool" where
  "sealed M g T X k \<longleftrightarrow> k = 0 \<or> (\<exists>t \<le> T. \<exists>m \<ge> k. committed M g t m \<and> k \<le> length X \<and> take k X = take k (pLead g t))"

lemma sealed_0 [simp]: "sealed M g T X 0"
  by (simp add: sealed_def)

lemma sealed_length: "sealed M g T X k \<Longrightarrow> k \<le> length X"
  by (auto simp: sealed_def)

lemma sealed_le: "sealed M g T X k \<Longrightarrow> m \<le> k \<Longrightarrow> sealed M g T X m"
  unfolding sealed_def by (metis dual_order.trans le_zero_eq take_eq_take_mono)

lemma sealed_term: "sealed M g T X k \<Longrightarrow> T \<le> T' \<Longrightarrow> sealed M g T' X k"
  unfolding sealed_def by (metis le_trans)

lemma sealed_cong: "sealed M g T X k \<Longrightarrow> k \<le> length Y \<Longrightarrow> take k Y = take k X \<Longrightarrow> sealed M g T Y k"
  unfolding sealed_def by metis

text \<open>A leader has everything sealed by its term.\<close>

lemma sealed_lead:
  assumes M: "finite M" and g: "pinv M g" and s: "sealed M g T X k" and U: "T \<le> U" "pWon g U \<noteq> None"
  shows "k \<le> length (pLead g U) \<and> take k X = take k (pLead g U)"
proof (cases "k = 0")
  case False
  then obtain t m where t: "t \<le> T" "k \<le> m" "committed M g t m" "take k X = take k (pLead g t)"
    using s by (auto simp: sealed_def)
  have "m \<le> length (pLead g U) \<and> take m (pLead g U) = take m (pLead g t)"
    using leader_complete [OF M g t(3), of U] U t(1) committed_ack(2) [OF g t(3)]
    by (cases "t = U") (auto simp: holds_def)
  then show ?thesis using t(2,4) take_eq_take_mono [of m "pLead g U" "pLead g t" k] by simp
qed simp

theorem sealed_agree:
  assumes M: "finite M" and g: "pinv M g" and s: "sealed M g T X k" "sealed M g U Y m" and le: "k \<le> m"
  shows "take k X = take k Y"
proof (cases "k = 0")
  case False
  then obtain t a where t: "t \<le> T" "k \<le> a" "committed M g t a" "take k X = take k (pLead g t)"
    using s(1) by (auto simp: sealed_def)
  obtain u b where u: "u \<le> U" "m \<le> b" "committed M g u b" "take m Y = take m (pLead g u)"
    using s(2) False le by (auto simp: sealed_def)
  have kY: "take k Y = take k (pLead g u)" using take_eq_take_mono [OF u(4) le] .
  have "take k (pLead g t) = take k (pLead g u)"
  proof (cases t u rule: linorder_cases)
    case less
    then have "take a (pLead g u) = take a (pLead g t)"
      using leader_complete [OF M g t(3) _ committed_ack(4) [OF g u(3)]] by (simp add: holds_def)
    then show ?thesis using take_eq_take_mono t(2) by metis
  next
    case greater
    then have "take b (pLead g t) = take b (pLead g u)"
      using leader_complete [OF M g u(3) _ committed_ack(4) [OF g t(3)]] by (simp add: holds_def)
    then show ?thesis using take_eq_take_mono [of b _ _ k] u(2) le by simp
  qed simp
  then show ?thesis using t(4) kY by simp
qed simp

lemma committed_grows: "committed M g t k \<Longrightarrow> grows g g' \<Longrightarrow> committed M g' t k"
  using growsD(5) unfolding committed_def by blast

lemma sealed_grows:
  assumes g: "pinv M g" and gr: "grows g g'" and s: "sealed M g T X k"
  shows "sealed M g' T X k"
proof (cases "k = 0")
  case False
  then obtain t m where t: "t \<le> T" "k \<le> m" "committed M g t m" "k \<le> length X" "take k X = take k (pLead g t)"
    using s by (auto simp: sealed_def)
  have "take k (pLead g' t) = take k (pLead g t)"
    using prefix_take_eq [OF growsD(1) [OF gr]] committed_ack(2) [OF g t(3)] t(2) by simp
  then show ?thesis using t committed_grows [OF t(3) gr] unfolding sealed_def by metis
qed simp

text \<open>What is sealed survives an adoption from a leader of a term that is not older.\<close>

lemma sealed_adopts:
  assumes M: "finite M" and g: "pinv M g" and s: "sealed M g T L k" and U: "T \<le> U" "pWon g U \<noteq> None"
    and a: "adopts L (take p (pLead g U)) R"
  shows "sealed M g T R k"
  using adopts_keeps [OF a, of k] sealed_lead [OF M g s U] sealed_length [OF s] sealed_cong [OF s] by simp

end
