(* ===== verification/Raft_Sync.thy ===== *)
theory Raft_Sync
  imports Raft_Hard Raft_Protocol
begin

text \<open>
  One node and its store against the whole log it stands for. A node keeps the log from its
  snapshot on; \<open>full n L\<close> says that what it keeps is the rest of \<open>L\<close>, \<open>stores L s\<close> that a restart
  on the store \<open>s\<close> gives the rest of \<open>L\<close>. \<open>log_storage\<close> joins the two storage contracts (log and
  vote); inside it, the operations of a node are shown to move \<open>L\<close> the way the protocol of
  \<open>Raft_Protocol\<close> lets a log move.
\<close>

section \<open>What a node keeps of a log\<close>

definition full :: "'s Node \<Rightarrow> LogEntry list \<Rightarrow> bool" where
  "full n L \<longleftrightarrow> lastIncludedIndex n \<le> length L \<and> nlog n \<noteq> [] \<and> eIndex (hd (nlog n)) = lastIncludedIndex n \<and>
     eTerm (hd (nlog n)) = lastIncludedTerm n \<and> lastIncludedTerm n = tm L (lastIncludedIndex n) \<and>
     tl (nlog n) = drop (lastIncludedIndex n) L"

lemma fullD:
  assumes "full n L"
  shows "lastIncludedIndex n \<le> length L" "nlog n = hd (nlog n) # drop (lastIncludedIndex n) L"
    "length (nlog n) = Suc (length L - lastIncludedIndex n)" "last_index n = length L"
    "lastIncludedTerm n = tm L (lastIncludedIndex n)"
  using assms by (cases "nlog n"; auto simp: full_def last_index_def)+

lemma full_entry:
  assumes f: "full n L" and i: "lastIncludedIndex n < i" "i \<le> length L"
  shows "entryAtLocked n i = Some (L ! (i - 1))"
proof -
  obtain m where m: "i = Suc (lastIncludedIndex n + m)" using i(1) less_imp_Suc_add by blast
  have "nlog n ! Suc m = L ! (lastIncludedIndex n + m)"
    by (subst fullD(2) [OF f]) (use m i(2) in simp)
  then show ?thesis using m i(2) fullD(3) [OF f] by (simp add: entryAtLocked_def)
qed

lemma full_term:
  assumes f: "full n L" and i: "lastIncludedIndex n \<le> i" "i \<le> length L"
  shows "termAtLocked n i = Some (tm L i)"
proof (cases "i = lastIncludedIndex n")
  case True
  then show ?thesis using f by (auto simp: termAtLocked_def entryAtLocked_def full_def hd_conv_nth)
next
  case False
  then show ?thesis using full_entry [OF f] i by (simp add: termAtLocked_def tm_def)
qed

lemma full_set: "full n L \<Longrightarrow> set (nlog n) \<subseteq> insert (hd (nlog n)) (set L)"
  by (metis fullD(2) insert_mono list.simps(15) set_drop_subset)

lemma full_lastT:
  assumes "full n L"
  shows "eTerm (last (nlog n)) = lastT L"
proof (cases "drop (lastIncludedIndex n) L = []")
  case True
  then have "lastIncludedIndex n = length L" using fullD(1) [OF assms] by simp
  moreover have "nlog n = [hd (nlog n)]" using fullD(2) [OF assms] True by simp
  then have "last (nlog n) = hd (nlog n)" by (metis last.simps)
  ultimately show ?thesis using assms by (simp add: full_def lastT_def)
next
  case False
  then have "last (nlog n) = last L" by (subst fullD(2) [OF assms]) simp
  then show ?thesis using False by (auto simp: lastT_def tm_def last_conv_nth)
qed

lemma full_log_ok:
  assumes f: "full n L" and L: "indexed 1 L" "terms_sorted L" "\<And>x. x \<in> set L \<Longrightarrow> eTerm x \<le> currentTerm n"
  shows "log_ok n"
proof -
  let ?b = "lastIncludedIndex n"
  have b: "?b \<le> length L" by (rule fullD(1) [OF f])
  have h: "eIndex (hd (nlog n)) = ?b" "eTerm (hd (nlog n)) = tm L ?b" using f by (auto simp: full_def)
  have i: "indexed ?b (nlog n)"
    by (subst fullD(2) [OF f]) (use h indexed_drop [OF L(1) b] in simp)
  have "tm L ?b \<le> eTerm x" if x: "x \<in> set (drop ?b L)" for x
  proof -
    obtain k where "k < length (drop ?b L)" "drop ?b L ! k = x" using x unfolding in_set_conv_nth by blast
    then have "tm L (Suc (?b + k)) = eTerm x" "Suc (?b + k) \<le> length L" by (auto simp: tm_def)
    then show ?thesis using tm_mono [OF L(2), of ?b "Suc (?b + k)"] by simp
  qed
  then have "sorted (tm L ?b # map eTerm (drop ?b L))" using terms_sorted_drop [OF L(2)] by (auto simp: terms_sorted_def)
  then have s: "terms_sorted (nlog n)" by (subst fullD(2) [OF f]) (simp add: terms_sorted_def h)
  have "lastT L \<le> currentTerm n" using L(3) tm_in [of "length L" L] by (cases "L = []") (auto simp: lastT_def)
  then show ?thesis using f i s full_lastT [OF f] by (simp add: log_ok_def full_def)
qed

lemma full_cong:
  "nlog n' = nlog n \<Longrightarrow> lastIncludedIndex n' = lastIncludedIndex n \<Longrightarrow> lastIncludedTerm n' = lastIncludedTerm n \<Longrightarrow>
   full n' L = full n L"
  by (simp add: full_def)

lemma full_up_to_date:
  assumes f: "full n L" and c: "candidateLogUpToDateLocked n (length X) (lastT X) = Some b"
    and l: "log_ok n"
  shows "b = up_to_date X L"
  using c lastLogInfoLocked_ok [OF l] full_lastT [OF f] fullD(4) [OF f]
  by (auto simp: candidateLogUpToDateLocked_def up_to_date_def split: if_splits)

text \<open>An AppendEntries message that carries a piece of the log \<open>Y\<close>.\<close>

definition ae_end :: "AppendEntriesArgs \<Rightarrow> nat" where
  "ae_end a = aePrevLogIndex a + length (aeEntries a)"

definition carries :: "LogEntry list \<Rightarrow> AppendEntriesArgs \<Rightarrow> bool" where
  "carries Y a \<longleftrightarrow> ae_end a \<le> length Y \<and> aeEntries a = drop (aePrevLogIndex a) (take (ae_end a) Y) \<and>
     aePrevLogTerm a = tm Y (aePrevLogIndex a) \<and> aeLeaderCommit a \<le> ae_end a"

text \<open>\<open>leader_log T Y\<close>: the shape of a log that a leader of term \<open>T\<close> has.\<close>

definition leader_log :: "nat \<Rightarrow> LogEntry list \<Rightarrow> bool" where
  "leader_log T Y \<longleftrightarrow> indexed 1 Y \<and> terms_sorted Y \<and> (\<forall>x \<in> set Y. eTerm x \<le> T)"

lemma leader_log_piece:
  assumes Y: "leader_log T Y" and q: "q \<le> p" "p \<le> length Y"
  shows "entries_ok q (tm Y q) T (drop q (take p Y))"
proof -
  let ?es = "drop q (take p Y)"
  have "indexed (q + 1) ?es" using indexed_drop [of 1 "take p Y" q] Y q by (simp add: leader_log_def)
  moreover have "tm Y q \<le> eTerm x \<and> eTerm x \<le> T" if x: "x \<in> set ?es" for x
  proof -
    obtain k where k: "k < length ?es" "x = ?es ! k" using x unfolding in_set_conv_nth by blast
    then have "q + k < p" "?es ! k = Y ! (q + k)" using q by auto
    then have "tm Y (Suc (q + k)) = eTerm x" "Suc (q + k) \<le> length Y" using k q by (auto simp: tm_def)
    moreover have "x \<in> set Y" using x by (meson in_set_dropD in_set_takeD)
    ultimately show ?thesis using tm_mono [of Y q "Suc (q + k)"] Y by (simp add: leader_log_def)
  qed
  moreover have "terms_sorted ?es" using Y by (simp add: leader_log_def)
  ultimately show ?thesis by (simp add: entries_ok_def)
qed

lemma leader_log_args: "leader_log (aeTerm a) Y \<Longrightarrow> carries Y a \<Longrightarrow> args_ok a"
  using leader_log_piece [of "aeTerm a" Y "aePrevLogIndex a" "ae_end a"] by (simp add: args_ok_def carries_def ae_end_def)

lemma carries_no_conflict:
  assumes Y: "leader_log (aeTerm a) Y" and c: "carries Y a" and f: "full n L"
    and ok: "commitIndex n \<le> length L" "take (commitIndex n) L = take (commitIndex n) Y"
  shows "no_conflict n (aeEntries a)"
  unfolding no_conflict_def
proof (intro ballI impI)
  fix x assume x: "x \<in> set (aeEntries a)" and i: "lastIncludedIndex n \<le> eIndex x" "eIndex x \<le> commitIndex n"
  have "x \<in> set Y" using x c unfolding carries_def by (metis in_set_dropD in_set_takeD)
  then obtain k where k: "k < length Y" "x = Y ! k" by (auto simp: in_set_conv_nth)
  then have ix: "eIndex x = Suc k" using Y indexed_nth [of 1 Y k] by (simp add: leader_log_def)
  have "termAtLocked n (eIndex x) = Some (tm L (eIndex x))" using full_term [OF f] i ok(1) by simp
  also have "tm L (eIndex x) = tm Y (eIndex x)" using tm_eq [OF ok(2)] i(2) by simp
  finally show "termAtLocked n (eIndex x) = Some (eTerm x)" using k ix by (simp add: tm_def)
qed

section \<open>The store\<close>

text \<open>
  Two things can part a store from its node. Installing a snapshot that contradicts the log drops the
  log in memory, the store keeps what follows the snapshot: \<open>store_current\<close> says that this has not
  happened. A snapshot that fails half-way can lose the log of the store: \<open>snapshot_error\<close> says that
  a node was disabled by that.
\<close>

definition store_current :: "('s \<Rightarrow> PersistentState) \<Rightarrow> 's Node \<Rightarrow> bool" where
  "store_current view n \<longleftrightarrow>
     psLog (view (storage n)) = boundary_entry (lastIncludedTerm n) (lastIncludedIndex n) # tl (nlog n)"

fun snapshot_error :: "error option \<Rightarrow> bool" where
  "snapshot_error (Some (Wrapf f as (Wrapf m bs e))) = (m = ''saving snapshot: %w'' \<or> m = ''saving installed snapshot: %w'')"
| "snapshot_error e = False"

definition snapshot_fault :: "'s Node \<Rightarrow> bool" where
  "snapshot_fault n \<longleftrightarrow> failed n \<and> snapshot_error (failErr n)"

locale log_storage = raft_storage ops sinv recov view fits + hard: hard_storage ops hinv hs hfits
  for ops :: "'s Storage" and sinv recov view fits hinv hs hfits +
  fixes efits :: "LogEntry \<Rightarrow> bool"
  assumes hs_view: "recov s \<Longrightarrow> hinv s \<and> hs s = (psCurrentTerm (view s), psVotedFor (view s))"
    and fits_hard: "hfits t v \<Longrightarrow> fits (CallSaveHardState t v)"
    and fits_entries: "(\<forall>x \<in> set es. efits x) \<Longrightarrow> fits (CallAppendLog es)"
    and fits_truncate: "fits (CallTruncateLog k)"
begin

definition bound :: "'s \<Rightarrow> nat" where
  "bound s = ps_boundary (view s)"

definition stores :: "LogEntry list \<Rightarrow> 's \<Rightarrow> bool" where
  "stores L s \<longleftrightarrow> recov s \<and> bound s \<le> length L \<and>
     psLog (view s) = boundary_entry (tm L (bound s)) (bound s) # drop (bound s) L"

definition synced :: "'s Node \<Rightarrow> bool" where
  "synced n \<longleftrightarrow> sinv (storage n) \<and> store_current view n"

definition node_at :: "'s Node \<Rightarrow> LogEntry list \<Rightarrow> bool" where
  "node_at n L \<longleftrightarrow> stores L (storage n) \<and> bound (storage n) = lastIncludedIndex n \<and>
     (\<not> failed n \<longrightarrow> synced n \<and> full n L)"

lemma synced_bound: "synced n \<Longrightarrow> bound (storage n) = lastIncludedIndex n"
  by (simp add: synced_def store_current_def bound_def ps_boundary_def boundary_entry_def)

lemma synced_stores: "synced n \<Longrightarrow> full n L \<Longrightarrow> stores L (storage n)"
  using inv_recov synced_bound [of n] by (auto simp: stores_def synced_def store_current_def full_def)

lemma node_atI: "synced n \<Longrightarrow> full n L \<Longrightarrow> node_at n L"
  by (simp add: node_at_def synced_stores synced_bound)

lemma node_atD: "node_at n L \<Longrightarrow> \<not> failed n \<Longrightarrow> synced n \<and> full n L \<and> sinv (storage n) \<and> bound (storage n) = lastIncludedIndex n"
  using synced_bound by (auto simp: node_at_def synced_def store_current_def)

lemma node_at_stores: "node_at n L \<Longrightarrow> stores L (storage n)"
  by (simp add: node_at_def)

lemma node_at_cong:
  "node_at n L \<Longrightarrow> storage n' = storage n \<Longrightarrow> nlog n' = nlog n \<Longrightarrow> lastIncludedIndex n' = lastIncludedIndex n \<Longrightarrow>
   lastIncludedTerm n' = lastIncludedTerm n \<Longrightarrow> failed n \<longrightarrow> failed n' \<Longrightarrow> node_at n' L"
  by (auto simp: node_at_def synced_def store_current_def full_def)

lemma stores_view: "stores L s \<Longrightarrow> recov s' \<Longrightarrow> psLog (view s') = psLog (view s) \<Longrightarrow> stores L s'"
  by (simp add: stores_def bound_def ps_boundary_def)

lemma node_at_bound: "node_at n L \<Longrightarrow> bound (storage n) = lastIncludedIndex n"
  by (simp add: node_at_def)

lemma node_at_failed: "stores L (storage n) \<Longrightarrow> bound (storage n) = lastIncludedIndex n \<Longrightarrow> failed n \<Longrightarrow> node_at n L"
  by (simp add: node_at_def)

lemma log_same_node_at:
  assumes "node_at n L" "log_same n n'" "storage n' = storage n" "failed n \<longrightarrow> failed n'"
  shows "node_at n' L"
  using assms by (intro node_at_cong [OF assms(1)]) (auto simp: log_same_def)

section \<open>Term and vote\<close>

lemma save_at:
  assumes n: "node_at n L" "\<not> failed n" and f: "hfits t v"
  shows "node_at (saveHardStateLocked ops t v n) L"
proof -
  note s = node_atD [OF n]
  obtain st r where st: "SaveHardState ops (storage n) t v = (st, r)" by fastforce
  show ?thesis
  proof (cases r)
    case None
    then have "sinv st \<and> view st = ps_call (CallSaveHardState t v) (view (storage n))"
      using call_ok [of "storage n" "CallSaveHardState t v" st] s fits_hard [OF f] st by simp
    then show ?thesis using s st None
      by (intro node_atI) (auto simp: saveHardStateLocked_def Let_def synced_def store_current_def full_def)
  next
    case (Some err)
    then have "recov st \<and> view st = view (storage n)"
      using hard_err [of "storage n" t v st err] s fits_hard [OF f] st by simp
    moreover from this have "bound st = lastIncludedIndex n" using s by (simp add: bound_def)
    ultimately show ?thesis using stores_view [OF node_at_stores [OF n(1)]] st Some
      by (intro node_at_failed) (auto simp: saveHardStateLocked_def disableLocked_def Let_def)
  qed
qed

lemma reset_at: "node_at n L \<Longrightarrow> node_at (resetElectionDeadlineLocked e n) L"
  by (rule log_same_node_at) auto

lemma follower_at:
  assumes n: "node_at n L" "\<not> failed n" and f: "hfits t []"
  shows "node_at (becomeFollowerLocked ops t n) L"
proof -
  have "node_at (n\<lparr>role := Follower\<rparr>) L" by (rule node_at_cong [OF n(1)]) auto
  then show ?thesis using save_at [OF _ _ f] n(2) by (auto simp: becomeFollowerLocked_def Let_def)
qed

lemma accept_at:
  assumes n: "node_at n L" "\<not> failed n" and f: "hfits t []"
  shows "node_at (acceptLeader ops e t l n) L"
proof -
  define n1 where "n1 = (if t > currentTerm n then becomeFollowerLocked ops t n
                else if role n = Candidate then n\<lparr>role := Follower\<rparr> else n)"
  have 1: "node_at n1 L"
    unfolding n1_def using follower_at [OF n f] n(1) by (auto intro: node_at_cong [OF n(1)])
  then have "node_at (n1\<lparr>leaderID := l\<rparr>) L" by (rule node_at_cong) auto
  then show ?thesis using 1 reset_at unfolding acceptLeader_def n1_def [symmetric] Let_def by auto
qed

section \<open>Appending and truncating\<close>

lemma append_at:
  assumes n: "node_at n L" "\<not> failed n" and es: "indexed (length L + 1) es" "\<forall>x \<in> set es. efits x"
  shows "\<exists>j. stores (L @ take j es) (storage (appendLogLocked ops es n)) \<and>
    bound (storage (appendLogLocked ops es n)) = lastIncludedIndex n \<and> (\<not> failed (appendLogLocked ops es n) \<longrightarrow> length es \<le> j \<and> synced (appendLogLocked ops es n) \<and> full (appendLogLocked ops es n) (L @ es))"
proof -
  note s = node_atD [OF n]
  have b: "lastIncludedIndex n \<le> length L" "length (psLog (view (storage n))) = Suc (length L - lastIncludedIndex n)"
    using fullD(1) [of n L] s by (auto simp: synced_def store_current_def full_def)
  have lg: "psLog (view (storage n)) = boundary_entry (lastIncludedTerm n) (lastIncludedIndex n) # drop (lastIncludedIndex n) L"
    using s by (auto simp: synced_def store_current_def full_def)
  have legal: "ps_legal (view (storage n)) (CallAppendLog es)" using es(1) b s by (simp add: bound_def)
  obtain st r where st: "AppendLog ops (storage n) es = (st, r)" by fastforce
  let ?n = "appendLogLocked ops es n"
  show ?thesis
  proof (cases r)
    case None
    then have v: "sinv st \<and> view st = ps_call (CallAppendLog es) (view (storage n))"
      using call_ok [of "storage n" "CallAppendLog es" st] s fits_entries [OF es(2)] st legal by simp
    have n': "?n = n\<lparr>nlog := nlog n @ es, storage := st\<rparr>" using st None by (simp add: appendLogLocked_def Let_def)
    have "full ?n (L @ es)" using s by (auto simp: n' full_def tm_append)
    moreover have "synced ?n" using s v by (auto simp: n' synced_def store_current_def full_def)
    moreover have "lastIncludedIndex ?n = lastIncludedIndex n" by (simp add: n')
    ultimately show ?thesis using synced_stores synced_bound by (intro exI [of _ "length es"]) simp
  next
    case (Some err)
    then obtain j where v: "recov st" "view st = ps_call (CallAppendLog (take j es)) (view (storage n))"
      using append_err [of "storage n" es st err] s fits_entries [OF es(2)] st legal by auto
    have n': "storage ?n = st" "failed ?n" using st Some by (simp_all add: appendLogLocked_def disableLocked_def Let_def)
    have "stores (L @ take j es) st"
      using v lg b(1) s by (auto simp: stores_def bound_def ps_boundary_def tm_append boundary_entry_def full_def)
    moreover have "bound st = lastIncludedIndex n" using v lg by (simp add: bound_def ps_boundary_def boundary_entry_def)
    ultimately show ?thesis using n' by auto
  qed
qed

lemma truncate_at:
  assumes n: "node_at n L" "\<not> failed n" and i: "lastIncludedIndex n < i" "i \<le> length L"
    and h: "truncateLogLocked ops i n = Some n'"
  shows "(stores L (storage n') \<or> stores (take (i - 1) L) (storage n')) \<and> bound (storage n') = lastIncludedIndex n \<and>
    (\<not> failed n' \<longrightarrow> synced n' \<and> full n' (take (i - 1) L))"
proof -
  note s = node_atD [OF n]
  let ?b = "lastIncludedIndex n"
  obtain m where m: "i = Suc (?b + m)" using i(1) less_imp_Suc_add by blast
  have lg: "psLog (view (storage n)) = boundary_entry (lastIncludedTerm n) ?b # drop ?b L" "?b \<le> length L"
    using s by (auto simp: synced_def store_current_def full_def)
  have nl: "nlog n = hd (nlog n) # drop ?b L" using fullD(2) [of n L] s by blast
  obtain st r where st: "TruncateLog ops (storage n) i = (st, r)" by fastforce
  have legal: "ps_legal (view (storage n)) (CallTruncateLog i)" using i s by (simp add: bound_def)
  have tk: "take (i - 1) L = take ?b L @ take m (drop ?b L)" using m i(2) by (simp add: take_add)
  have cut: "tm (take (i - 1) L) ?b = tm L ?b" "drop ?b (take (i - 1) L) = take m (drop ?b L)" "?b \<le> length (take (i - 1) L)"
    using m i(2) by (auto simp: tm_take drop_take)
  have view': "psLog (ps_call (CallTruncateLog i) (view (storage n))) = boundary_entry (lastIncludedTerm n) ?b # take m (drop ?b L)"
    using lg s m by (simp add: bound_def)
  have cuts: "stores (take (i - 1) L) st \<and> bound st = ?b" if "recov st" "view st = ps_call (CallTruncateLog i) (view (storage n))"
  proof -
    have "bound st = ?b" using that(2) view' unfolding bound_def ps_boundary_def by (simp add: boundary_entry_def)
    then show ?thesis using that view' cut s unfolding stores_def by (auto simp: full_def)
  qed
  have sp: "slice_pos n i = Some (Suc m)" using m i(2) fullD(3) [of n L] s by (auto simp: slice_pos_def)
  show ?thesis
  proof (cases r)
    case None
    then have v: "sinv st \<and> view st = ps_call (CallTruncateLog i) (view (storage n))"
      using call_ok [of "storage n" "CallTruncateLog i" st] s fits_truncate st legal by simp
    have n': "n' = n\<lparr>nlog := hd (nlog n) # take m (drop ?b L), storage := st\<rparr>"
      using h st None sp nl by (auto simp: truncateLogLocked_def Let_def) (metis take_Suc_Cons)
    have "full n' (take (i - 1) L)" using s cut by (auto simp: n' full_def)
    moreover have "synced n'" using s v view' by (simp add: n' synced_def store_current_def)
    moreover have "lastIncludedIndex n' = ?b" by (simp add: n')
    ultimately show ?thesis using synced_stores synced_bound by metis
  next
    case (Some err)
    then have v: "recov st \<and> (view st = view (storage n) \<or> view st = ps_call (CallTruncateLog i) (view (storage n)))"
      using truncate_err [of "storage n" i st err] s st legal by simp
    have n': "storage n' = st" "failed n'" using h st Some sp by (auto simp: truncateLogLocked_def disableLocked_def Let_def)
    have "bound st = ?b" if "view st = view (storage n)" using that s by (simp add: bound_def)
    then show ?thesis using v cuts stores_view [OF node_at_stores [OF n(1)], of st] n' by auto
  qed
qed

text \<open>
  The append loop of AppendEntries. \<open>Y\<close> is the leader's log, the message carries it from \<open>q\<close> to \<open>p\<close>;
  the node's log agrees with it up to \<open>q\<close> and, by log matching, wherever the terms agree.
\<close>

lemma loop_at:
  assumes n: "node_at n L" "\<not> failed n" "log_ok n"
    and Y: "indexed 1 Y" "p \<le> length Y"
    and match: "\<And>k. k \<le> length L \<Longrightarrow> k \<le> length Y \<Longrightarrow> tm L k = tm Y k \<Longrightarrow> take k L = take k Y"
  shows "lastIncludedIndex n \<le> q \<Longrightarrow> q \<le> length L \<Longrightarrow> take q L = take q Y \<Longrightarrow>
    append_loop ops (q + 1) (drop q (take p Y)) n = Some n' \<Longrightarrow> \<forall>x \<in> set (nlog n'). efits x \<Longrightarrow>
    \<exists>R. adopts L (take p Y) R \<and> stores R (storage n') \<and> bound (storage n') = lastIncludedIndex n \<and>
      (\<not> failed n' \<longrightarrow> synced n' \<and> full n' R \<and> R = (if prefix (take p Y) L then L else take p Y))"
proof (induction "p - q" arbitrary: q)
  case 0
  then have "take p L = take p Y" using take_eq_take_mono [of q L Y p] by simp
  then have "prefix (take p Y) L" by (metis take_is_prefix)
  moreover have "n' = n" using 0 by simp
  ultimately show ?case using node_atD [OF n(1,2)] node_at_stores [OF n(1)] by (intro exI [of _ L]) (simp add: adopts_def)
next
  case (Suc d)
  note s = node_atD [OF n(1,2)]
  let ?b = "lastIncludedIndex n" and ?X = "take p Y"
  have q: "q < p" "q < length Y" using Suc.hyps(2) Y(2) by auto
  have dr: "drop q ?X = Y ! q # drop (Suc q) ?X" using q by (subst drop_eq_Cons_nth) auto
  have lst: "lastIndexLocked n = Some (length L)" using lastIndexLocked_ok [OF n(3)] fullD(4) s by metis
  have tY: "tm Y (Suc q) = eTerm (Y ! q)" by (simp add: tm_def)
  show ?case
  proof (cases "q < length L \<and> tm L (Suc q) = tm Y (Suc q)")
    case True
    have t: "termAtLocked n (q + 1) = Some (tm L (Suc q))" using full_term [of n L "q + 1"] s Suc.prems(1) True by simp
    have "append_loop ops (Suc q + 1) (drop (Suc q) ?X) n = Some n'"
      using Suc.prems(4) True lst t tY unfolding dr by simp
    moreover have "take (Suc q) L = take (Suc q) Y" using match True q by simp
    ultimately show ?thesis using Suc.hyps True Suc.prems(1,5) by (intro Suc.hyps(1)) auto
  next
    case False
    have differ: "m \<le> q" if m: "m \<le> length ?X" "m \<le> length L" "take m L = take m ?X" for m
    proof (rule ccontr)
      assume "\<not> m \<le> q"
      then have "tm L (Suc q) = tm ?X (Suc q)" "q < length L" using tm_eq [OF m(3)] m(2) by auto
      then show False using False q by (simp add: tm_take)
    qed
    have np: "\<not> prefix ?X L"
    proof
      assume p: "prefix ?X L"
      then have "length ?X \<le> q" using prefix_take_eq [OF p order_refl] prefix_length_le [OF p] by (intro differ) simp_all
      then show False using q Y(2) by simp
    qed
    have part: "adopts L ?X (take (q + j) ?X)" for j
      unfolding adopts_def
    proof (intro disjI2 conjI allI impI np take_is_prefix)
      fix m assume "m \<le> length ?X" "m \<le> length L" "take m L = take m ?X"
      then show "m \<le> length (take (q + j) ?X)" using differ [of m] q Y(2) by simp
    qed
    have keepL: "adopts L ?X L" by (simp add: adopts_def)
    have tq: "take q L = take q ?X" using Suc.prems(3) q by (simp add: min_absorb1)
    have rest: "take q ?X @ take j (drop q ?X) = take (q + j) ?X" for j by (simp only: take_add)
    have es: "indexed (q + 1) (drop q ?X)" using indexed_drop [of 1 ?X q] indexed_take [OF Y(1)] q Y(2) by auto
    obtain n1 where n1: "n1 = n \<and> q = length L \<or> q < length L \<and> truncateLogLocked ops (q + 1) n = Some n1"
      and n': "n' = (if failed n1 then n1 else appendLogLocked ops (drop q ?X) n1)"
    proof (cases "q < length L")
      case True
      have t: "termAtLocked n (q + 1) = Some (tm L (Suc q))" using full_term [of n L "q + 1"] s Suc.prems(1) True by simp
      have ne: "tm L (Suc q) \<noteq> eTerm (Y ! q)" using True False tY by simp
      have "append_loop ops (q + 1) (drop q ?X) n = do {
          n1 \<leftarrow> truncateLogLocked ops (q + 1) n; if failed n1 then Some n1 else Some (appendLogLocked ops (drop q ?X) n1)}"
        unfolding dr using True lst t ne by simp
      then obtain n1 where n1: "truncateLogLocked ops (q + 1) n = Some n1"
        "(if failed n1 then Some n1 else Some (appendLogLocked ops (drop q ?X) n1)) = Some n'"
        using Suc.prems(4) by auto
      then have "n' = (if failed n1 then n1 else appendLogLocked ops (drop q ?X) n1)" by (simp split: if_splits)
      then show thesis using that n1(1) True by blast
    next
      case no: False
      have "append_loop ops (q + 1) (drop q ?X) n = Some (appendLogLocked ops (drop q ?X) n)"
        unfolding dr using no lst n(2) by simp
      then show thesis using that [of n] Suc.prems(2,4) no n(2) by simp
    qed
    have n1': "(stores L (storage n1) \<or> stores (take q ?X) (storage n1)) \<and> bound (storage n1) = ?b \<and> (\<not> failed n1 \<longrightarrow> synced n1 \<and> full n1 (take q ?X))"
    proof (cases "q < length L")
      case True
      then show ?thesis using truncate_at [OF n(1,2), of "q + 1" n1] n1 Suc.prems(1) tq by simp
    next
      case no: False
      then have "L = take q ?X" using tq Suc.prems(2) by simp
      then show ?thesis using n1 no s node_at_stores [OF n(1)] by auto
    qed
    show ?thesis
    proof (cases "failed n1")
      case True
      then show ?thesis using n1' n' keepL part [of 0] by auto
    next
      case nf: False
      have at1: "node_at n1 (take q ?X)" using n1' nf by (intro node_atI) auto
      have len: "length (take q ?X) = q" using q Y(2) by simp
      have ap: "n' = appendLogLocked ops (drop q ?X) n1" using n' nf by simp
      have "\<forall>x \<in> set (drop q ?X). efits x"
        using Suc.prems(5) log_writeD(1) [OF appendLogLocked_write [of n1 "drop q ?X" ops]] unfolding ap by simp
      moreover have "lastIncludedIndex n1 = ?b" using node_at_bound [OF at1] n1' by simp
      ultimately obtain j where j: "stores (take (q + j) ?X) (storage n')" "bound (storage n') = ?b"
        "\<not> failed n' \<longrightarrow> length (drop q ?X) \<le> j \<and> synced n' \<and> full n' ?X"
        using append_at [OF at1 nf, of "drop q ?X", unfolded rest append_take_drop_id len, folded ap] es by auto
      have "take (q + j) ?X = ?X" if "\<not> failed n'"
        using j(3) that q Y(2) by (intro take_all) auto
      then show ?thesis using j np part [of j] by (intro exI [of _ "take (q + j) ?X"]) auto
    qed
  qed
qed

section \<open>AppendEntries\<close>

text \<open>
  The state and the reply of the handler, for a message of a term that is not older than the node's
  and a leader's log that has what the node committed.
\<close>

definition ae_result :: "AppendEntriesArgs \<Rightarrow> LogEntry list \<Rightarrow> LogEntry list \<Rightarrow> LogEntry list \<Rightarrow> 's Node \<Rightarrow> 's Node \<Rightarrow>
    error option + AppendEntriesReply \<Rightarrow> bool" where
  "ae_result a Y L R n n' r \<longleftrightarrow> adopts L (take (ae_end a) Y) R \<and> node_at n' R \<and>
     (case r of Inl err \<Rightarrow> failed n' \<and> commitIndex n' = commitIndex n
      | Inr rep \<Rightarrow> \<not> failed n' \<and> arTerm rep = aeTerm a \<and>
          (if arSuccess rep then ae_end a \<le> length R \<and> take (ae_end a) R = take (ae_end a) Y \<and>
             (commitIndex n' = commitIndex n \<or> commitIndex n' = aeLeaderCommit a)
           else commitIndex n' = commitIndex n \<and> arConflictIndex rep \<le> length Y + 1))"

lemma reconcile_shape:
  assumes "ae_reconcile ops q t es lc n = Some (n', r)"
  shows "n' = n \<and> (\<exists>rep. r = Inr rep \<and> \<not> arSuccess rep) \<or> (\<exists>n1. append_loop ops (q + 1) es n = Some n1 \<and>
    (n' = n1 \<or> \<not> failed n1 \<and> (\<exists>c. n' = notifyApply (n1\<lparr>commitIndex := c\<rparr>))) \<and> (\<forall>rep. r = Inr rep \<longrightarrow> arSuccess rep) \<and>
    (\<exists>l \<ge> q. lastIndexLocked n = Some l) \<and> termAtLocked n q = Some t)"
  using assms by (auto simp: ae_reconcile_def Let_def ae_conflict_def ae_success_def simp del: append_loop.simps split: if_splits)

lemma reconcile_at:
  assumes n: "node_at n L" "\<not> failed n" "log_ok n"
    and Y: "leader_log (aeTerm a) Y" "carries Y a" "currentTerm n = aeTerm a"
    and match: "\<And>k. k \<le> length L \<Longrightarrow> k \<le> length Y \<Longrightarrow> tm L k = tm Y k \<Longrightarrow> take k L = take k Y"
    and q: "lastIncludedIndex n \<le> q" "q \<le> ae_end a"
    and h: "ae_reconcile ops q (tm Y q) (drop q (take (ae_end a) Y)) (aeLeaderCommit a) n = Some (n', r)"
    and f: "\<forall>x \<in> set (nlog n'). efits x"
  shows "\<exists>R. ae_result a Y L R n n' r"
proof -
  note s = node_atD [OF n(1,2)]
  let ?X = "take (ae_end a) Y"
  have p: "ae_end a \<le> length Y" "aeLeaderCommit a \<le> ae_end a" using Y(2) by (auto simp: carries_def)
  have keep: "adopts L ?X L" by (simp add: adopts_def)
  have es: "entries_ok q (tm Y q) (currentTerm n) (drop q ?X)"
    using leader_log_piece [OF Y(1) q(2) p(1)] Y(3) by simp
  have o: "ae_outcome q (tm Y q) (drop q ?X) (aeLeaderCommit a) n n' r"
    using ae_reconcile_ok [OF n(3,2) q(1) es, of ops "aeLeaderCommit a"] h by auto
  from reconcile_shape [OF h] consider (refused) rep where "n' = n" "r = Inr rep" "\<not> arSuccess rep"
    | (loop) n1 l where "q \<le> l" "lastIndexLocked n = Some l" "termAtLocked n q = Some (tm Y q)"
        "append_loop ops (q + 1) (drop q ?X) n = Some n1" "\<forall>rep. r = Inr rep \<longrightarrow> arSuccess rep"
        "n' = n1 \<or> \<not> failed n1 \<and> (\<exists>c. n' = notifyApply (n1\<lparr>commitIndex := c\<rparr>))" by blast
  then show ?thesis
  proof cases
    case refused
    then show ?thesis using n(1,2) keep o Y(3) q(2) p by (intro exI [of _ L]) (auto simp: ae_result_def ae_outcome_def)
  next
    case loop
    note ql = loop(1-3) and n1 = loop(4,5) and n' = loop(6)
    have same: "storage n' = storage n1" "failed n' = failed n1" "nlog n' = nlog n1"
      "lastIncludedIndex n' = lastIncludedIndex n1" "lastIncludedTerm n' = lastIncludedTerm n1"
      "failed n' \<Longrightarrow> n' = n1"
      using n' by (auto simp: notifyApply_def)
    have qL: "q \<le> length L" using ql(1,2) lastIndexLocked_ok [OF n(3)] fullD(4) [of n L] s by simp
    then have "tm L q = tm Y q" using ql(3) full_term [of n L q] s q(1) by simp
    then have agree: "take q L = take q Y" using match qL q(2) p(1) by simp
    have "indexed 1 Y" using Y(1) by (simp add: leader_log_def)
    moreover have "\<forall>x \<in> set (nlog n1). efits x" using f same(3) by simp
    ultimately obtain R where R: "adopts L ?X R" "stores R (storage n1)" "bound (storage n1) = lastIncludedIndex n"
      "\<not> failed n1 \<Longrightarrow> synced n1 \<and> full n1 R \<and> R = (if prefix ?X L then L else ?X)"
      using loop_at [OF n _ p(1) match q(1) qL agree n1(1)] by blast
    have n1c: "commitIndex n1 = commitIndex n" "lastIncludedIndex n1 = lastIncludedIndex n"
      using append_loop_merge [OF n(3,2), of "q + 1" ops "drop q ?X"] n1(1) q(1) qL fullD(4) [of n L] s
      by (auto dest: log_writeD(5,7))
    then have at: "node_at n' R" using R same by (auto simp: node_at_def synced_def store_current_def full_def)
    have err: "failed n' \<Longrightarrow> commitIndex n' = commitIndex n" using same(6) n1c(1) by simp
    show ?thesis
    proof (cases r)
      case (Inl er)
      then show ?thesis using R(1) at err o by (intro exI [of _ R]) (auto simp: ae_result_def ae_outcome_def)
    next
      case (Inr rp)
      have o': "\<not> failed n'" "arTerm rp = aeTerm a" "arSuccess rp"
        "commitIndex n' = (if aeLeaderCommit a > commitIndex n then min (aeLeaderCommit a) (last_index n') else commitIndex n)"
        using o Inr n1(2) Y(3) by (auto simp: ae_outcome_def)
      have fR: "full n' R" "R = (if prefix ?X L then L else ?X)" using R(4) o'(1) same by (auto simp: full_def)
      have px: "prefix ?X R" using fR(2) by simp
      have len: "ae_end a \<le> length R" "take (ae_end a) R = ?X"
        using prefix_length_le [OF px] prefix_take_eq [OF px, of "ae_end a"] p(1) by simp_all
      then show ?thesis using R(1) at o' Inr fullD(4) [OF fR(1)] p(2) by (intro exI [of _ R]) (auto simp: ae_result_def)
    qed
  qed
qed

lemma append_entries_at:
  assumes n: "node_at n L" "\<not> failed n" "log_ok n" "commit_ok n"
    and Y: "leader_log (aeTerm a) Y" "carries Y a" "currentTerm n \<le> aeTerm a" "hfits (aeTerm a) []"
    and match: "\<And>k. k \<le> length L \<Longrightarrow> k \<le> length Y \<Longrightarrow> tm L k = tm Y k \<Longrightarrow> take k L = take k Y"
    and com: "commitIndex n \<le> length Y" "take (commitIndex n) L = take (commitIndex n) Y"
    and h: "handleAppendEntries ops e a n = Some (n', r)" and f: "\<forall>x \<in> set (nlog n'). efits x"
  shows "log_ok n' \<and> commit_ok n' \<and> ae_frame (acceptLeader ops e (aeTerm a) (aeLeaderID a) n) n' \<and>
    (\<forall>i. lastIncludedIndex n \<le> i \<longrightarrow> i \<le> commitIndex n \<longrightarrow> entryAtLocked n' i = entryAtLocked n i) \<and>
    (\<exists>R. ae_result a Y L R n n' r \<and> (failed (acceptLeader ops e (aeTerm a) (aeLeaderID a) n) \<longrightarrow> R = L))"
proof -
  define n1 where "n1 = acceptLeader ops e (aeTerm a) (aeLeaderID a) n"
  let ?X = "take (ae_end a) Y"
  have same: "log_same n n1" unfolding n1_def by (rule acceptLeader_same)
  have at1: "node_at n1 L" unfolding n1_def by (rule accept_at [OF n(1,2) Y(4)])
  have ok1: "log_ok n1" "commit_ok n1" using same n by (auto simp: log_same_ok log_same_commit)
  have t1: "currentTerm n1 = aeTerm a" unfolding n1_def using Y(3) by (rule acceptLeader_term)
  have eq: "commitIndex n1 = commitIndex n" "lastIncludedIndex n1 = lastIncludedIndex n"
    "lastIncludedTerm n1 = lastIncludedTerm n" using same by (auto simp: log_same_def)
  note s = node_atD [OF n(1,2)]
  have cL: "commitIndex n \<le> length L" "lastIncludedIndex n \<le> commitIndex n"
    using n(4) fullD(4) [of n L] s by (auto simp: commit_ok_def)
  have nc: "no_conflict n (aeEntries a)" using carries_no_conflict [OF Y(1,2) _ cL(1) com(2)] s by blast
  have args: "args_ok a" by (rule leader_log_args [OF Y(1,2)])
  have ok': "log_ok n' \<and> commit_ok n' \<and> (\<forall>i. lastIncludedIndex n \<le> i \<longrightarrow> i \<le> commitIndex n \<longrightarrow> entryAtLocked n' i = entryAtLocked n i)"
    using handleAppendEntries_ok [OF n(3,4) args nc, of ops e] h by auto
  have keep: "adopts L ?X L" by (simp add: adopts_def)
  have p: "ae_end a \<le> length Y" "aeLeaderCommit a \<le> ae_end a"
    and es: "aeEntries a = drop (aePrevLogIndex a) ?X" "aePrevLogTerm a = tm Y (aePrevLogIndex a)"
    using Y(2) by (auto simp: carries_def)
  note eqn = handleAppendEntries_eq [OF n(2) Y(3), of ops e, folded n1_def, unfolded Let_def]
  consider (down) "failed n1" | (cov) "\<not> failed n1" "covered n1 a" | (rec) "\<not> failed n1" "\<not> covered n1 a" by blast
  then have "ae_frame n1 n' \<and> (\<exists>R. ae_result a Y L R n n' r \<and> (failed n1 \<longrightarrow> R = L))"
  proof cases
    case down
    then have "n' = n1" "r = Inl (failErr n1)" using h eqn by auto
    then show ?thesis using down at1 keep eq by (auto simp: ae_result_def intro!: exI [of _ L])
  next
    case cov
    then have r: "n' = n1" "r = Inr (ae_success n1)" using h eqn by auto
    have le: "ae_end a \<le> commitIndex n"
      using cov(2) cL(2) eq by (auto simp: covered_def anchor_skip_def ae_end_def)
    then have "take (ae_end a) L = ?X" using com(2) take_eq_take_mono by blast
    then show ?thesis using r cov at1 keep eq le cL t1
      by (auto simp: ae_result_def ae_success_def intro!: exI [of _ L])
  next
    case rec
    let ?q = "anchor_prev n1 a"
    have q: "lastIncludedIndex n1 \<le> ?q" "?q \<le> ae_end a"
      using rec(2) by (auto simp: anchor_prev_def ae_end_def covered_def anchor_skip_def)
    have tq: "anchor_term n1 a = tm Y ?q"
    proof (cases "aePrevLogIndex a < lastIncludedIndex n1")
      case True
      then have "anchor_term n1 a = tm L (lastIncludedIndex n)" "?q = lastIncludedIndex n"
        using s eq by (auto simp: anchor_term_def anchor_prev_def full_def)
      then show ?thesis using tm_eq [OF com(2) cL(2)] by simp
    next
      case False
      then show ?thesis using es(2) by (simp add: anchor_term_def anchor_prev_def)
    qed
    have dr: "drop (anchor_skip n1 a) (aeEntries a) = drop ?q ?X"
      unfolding es(1) by (simp add: anchor_skip_def anchor_prev_def max_def)
    have h1: "ae_reconcile ops ?q (tm Y ?q) (drop ?q ?X) (aeLeaderCommit a) n1 = Some (n', r)"
      using h eqn rec by (simp add: tq dr)
    have "entries_ok ?q (tm Y ?q) (currentTerm n1) (drop ?q ?X)" using leader_log_piece [OF Y(1) q(2) p(1)] t1 by simp
    then have "ae_frame n1 n'" using ae_reconcile_ok [OF ok1(1) rec(1) q(1)] h1 by (metis option.inject prod.inject)
    moreover obtain R where "ae_result a Y L R n1 n' r"
      using reconcile_at [OF at1 rec(1) ok1(1) Y(1,2) t1 match q h1 f] by blast
    then have "ae_result a Y L R n n' r" unfolding ae_result_def eq(1) .
    ultimately show ?thesis using rec(1) by blast
  qed
  then show ?thesis using ok' unfolding n1_def by blast
qed

lemma reconcile_hs:
  assumes "hinv (storage n)" "ae_reconcile ops q t es lc n = Some (n', r)"
  shows "hs (storage n') = hs (storage n)"
proof -
  have loop: "hinv (storage n) \<Longrightarrow> append_loop ops i xs n = Some n1 \<Longrightarrow> hs (storage n1) = hs (storage n)" for i xs n1
  proof (induction xs arbitrary: i)
    case (Cons x xs)
    have tr: "hinv (storage n2) \<and> hs (storage n2) = hs (storage n)" if "truncateLogLocked ops i n = Some n2" for n2
    proof -
      obtain st res where st: "TruncateLog ops (storage n) i = (st, res)" by fastforce
      then show ?thesis using that hard.truncate_hs [OF Cons.prems(1) st]
        by (cases res) (auto simp: truncateLogLocked_def disableLocked_def Let_def)
    qed
    have ap: "hinv (storage m) \<Longrightarrow> hs (storage (appendLogLocked ops es m)) = hs (storage m)" for m es
    proof -
      assume i: "hinv (storage m)"
      obtain st res where st: "AppendLog ops (storage m) es = (st, res)" by fastforce
      then show ?thesis using hard.append_hs [OF i st]
        by (cases res) (auto simp: appendLogLocked_def disableLocked_def Let_def)
    qed
    consider "append_loop ops (i + 1) xs n = Some n1"
      | n2 where "truncateLogLocked ops i n = Some n2 \<or> n2 = n" "n1 = n2 \<or> n1 = appendLogLocked ops (x # xs) n2"
      using Cons.prems(2) by (auto split: if_splits)
    then show ?case
    proof cases
      case 1
      then show ?thesis using Cons by blast
    next
      case 2
      then show ?thesis using tr ap Cons.prems(1) by metis
    qed
  qed simp
  from reconcile_shape [OF assms(2)] show ?thesis
    using loop [OF assms(1)] by (auto simp: notifyApply_def)
qed

text \<open>What the handler leaves on the store of term and vote.\<close>

lemma append_entries_hs:
  assumes n: "hard.hard_ok n" "\<not> failed n" and t: "currentTerm n \<le> aeTerm a" "hfits (aeTerm a) []"
    and h: "handleAppendEntries ops e a n = Some (n', r)"
    and a: "\<not> failed (acceptLeader ops e (aeTerm a) (aeLeaderID a) n)"
  shows "fst (hs (storage n')) = aeTerm a"
proof -
  define n1 where "n1 = acceptLeader ops e (aeTerm a) (aeLeaderID a) n"
  have q: "hard.hard_ok n1" unfolding n1_def by (rule hard.quietD [OF hard.quiet_accept [OF n t]])
  then have 1: "hinv (storage n1)" "fst (hs (storage n1)) = aeTerm a"
    using a acceptLeader_term [OF t(1)] by (auto simp: n1_def hard.hard_ok_def)
  have "n' = n1 \<or> (\<exists>q t es. ae_reconcile ops q t es (aeLeaderCommit a) n1 = Some (n', r))"
    using h a unfolding handleAppendEntries_eq [OF n(2) t(1)] n1_def [symmetric] Let_def by (auto split: if_splits)
  then show ?thesis using 1 reconcile_hs [of n1] by metis
qed

end

end
