(* ===== verification/Raft_Install.thy ===== *)
theory Raft_Install
  imports Raft_Sync
begin

text \<open>
  Snapshots and restarts against the whole log: taking a snapshot leaves it alone, installing one
  adopts the leader's log up to the snapshot (unless the store is left with a stale tail, which
  \<open>store_current\<close> rules out), and a node built from a store has the log the
  store stands for.
\<close>

context log_storage
begin

lemma snapshot_store:
  assumes n: "node_at n L" "\<not> failed n" and k: "lastIncludedIndex n < k"
    and s: "SaveSnapshot ops (storage n) k t d = (st, None)" "fits (CallSaveSnapshot k t d)"
  shows "sinv st" "psLog (view st) = boundary_entry t k # drop k L" "bound st = k"
proof -
  note a = node_atD [OF n]
  have lg: "psLog (view (storage n)) = boundary_entry (lastIncludedTerm n) (lastIncludedIndex n) # drop (lastIncludedIndex n) L"
    using a by (auto simp: synced_def store_current_def full_def)
  have "sinv st \<and> view st = ps_call (CallSaveSnapshot k t d) (view (storage n))"
    using call_ok [of "storage n" "CallSaveSnapshot k t d" st] a k s by (simp add: bound_def)
  then show "sinv st" and v: "psLog (view st) = boundary_entry t k # drop k L"
    using lg a k by (auto simp: bound_def)
  show "bound st = k" using v by (simp add: bound_def ps_boundary_def boundary_entry_def)
qed

text \<open>What a step may do to the entries the node has committed.\<close>

definition mem_ok :: "'s Node \<Rightarrow> LogEntry list \<Rightarrow> bool" where
  "mem_ok n L \<longleftrightarrow> (\<forall>k. lastIncludedIndex n < k \<longrightarrow> k \<le> commitIndex n \<longrightarrow> entryAtLocked n k = Some (L ! (k - 1)))"

lemma mem_ok_full: "full n L \<Longrightarrow> commit_ok n \<Longrightarrow> mem_ok n L"
  unfolding mem_ok_def using full_entry [of n L] fullD(4) [of n L] by (auto simp: commit_ok_def)

lemma mem_ok_cong:
  assumes "mem_ok n L" "lastIncludedIndex n' = lastIncludedIndex n" "commitIndex n' = commitIndex n"
    "\<And>i. lastIncludedIndex n \<le> i \<Longrightarrow> i \<le> commitIndex n \<Longrightarrow> entryAtLocked n' i = entryAtLocked n i"
    "take (commitIndex n) R = take (commitIndex n) L"
  shows "mem_ok n' R"
  unfolding mem_ok_def
proof (intro allI impI)
  fix k assume k: "lastIncludedIndex n' < k" "k \<le> commitIndex n'"
  then have "take (commitIndex n) R ! (k - 1) = R ! (k - 1)" "take (commitIndex n) L ! (k - 1) = L ! (k - 1)"
    using assms(3) by simp_all
  then show "entryAtLocked n' k = Some (R ! (k - 1))"
    using assms k unfolding mem_ok_def by simp
qed

section \<open>Taking a snapshot\<close>

lemma Snapshot_at:
  assumes n: "node_at n L" "\<not> failed n" "log_ok n" "commit_ok n"
    and h: "Snapshot ops k d n = Some (n', r)"
    and f: "fits (CallSaveSnapshot (lastIncludedIndex n') (lastIncludedTerm n') (snapshotData n'))" "\<not> snapshot_fault n'"
  shows "node_at n' L \<and> bound (storage n') \<le> commitIndex n \<and> commitIndex n' = commitIndex n \<and>
    role n' = role n \<and> currentTerm n' = currentTerm n \<and> matchIndex n' = matchIndex n \<and> nextIndex n' = nextIndex n \<and>
    peers n' = peers n \<and> last_index n' = last_index n \<and> (failed n' \<longrightarrow> nlog n' = nlog n \<and> lastIncludedIndex n' = lastIncludedIndex n)"
proof -
  note a = node_atD [OF n(1,2)]
  have li: "last_index n' = last_index n" using Snapshot_ok [OF n(3,4), of ops k d] h by auto
  have b: "bound (storage n) \<le> commitIndex n" using a n(4) by (simp add: commit_ok_def)
  consider (same) "n' = n" | (took) "lastIncludedIndex n < k" "k \<le> lastApplied n"
    using h n(2) by (cases "lastIncludedIndex n < k"; cases "k \<le> lastApplied n") (auto simp: Snapshot_def)
  then show ?thesis
  proof cases
    case same
    then show ?thesis using n(1) b by simp
  next
    case took
    have k: "k \<le> commitIndex n" "k \<le> length L" using took n(4) fullD(4) [of n L] a by (auto simp: commit_ok_def)
    have t: "termAtLocked n k = Some (tm L k)" using full_term [of n L k] a took k by simp
    obtain m where m: "k = Suc (lastIncludedIndex n + m)" using took(1) less_imp_Suc_add by blast
    have dr: "drop (k - lastIncludedIndex n) (nlog n) = L ! (k - 1) # drop k L"
    proof -
      have "drop (k - lastIncludedIndex n) (nlog n) = drop m (drop (lastIncludedIndex n) L)"
        by (subst fullD(2) [of n L]) (use a m in simp_all)
      also have "\<dots> = drop (k - 1) L" using m by (simp add: add.commute)
      also have "\<dots> = L ! (k - 1) # drop k L" using m k(2) by (simp add: Cons_nth_drop_Suc)
      finally show ?thesis .
    qed
    have lf: "logFrom n k = Some (L ! (k - 1) # drop k L)"
      using dr took k a fullD(3) [of n L] by (simp add: logFrom_def slice_pos_def)
    obtain st res where s: "SaveSnapshot ops (storage n) k (tm L k) d = (st, res)" by fastforce
    let ?x = "(L ! (k - 1))\<lparr>eCommand := []\<rparr>"
    show ?thesis
    proof (cases res)
      case None
      have n': "n' = n\<lparr>storage := st, nlog := ?x # drop k L, lastIncludedIndex := k, lastIncludedTerm := tm L k, snapshotData := d\<rparr>"
        using h n(2) took t lf s None by (simp add: Snapshot_def)
      have "fits (CallSaveSnapshot k (tm L k) d)" using f(1) by (simp add: n')
      note st = snapshot_store [OF n(1,2) took(1) s [unfolded None] this]
      have "eIndex ?x = k" 
      proof -
        have "entryAtLocked n k = Some (L ! (k - 1))" using full_entry [of n L k] a took k by simp
        then show ?thesis using entryAtLocked_ok [OF n(3), of k] log_ok_eIndex [OF n(3), of "k - lastIncludedIndex n"]
          took k a fullD(3) [of n L] by (simp add: entryAtLocked_def split: if_splits)
      qed
      moreover have "eTerm ?x = tm L k" using m by (simp add: tm_def)
      ultimately have "full n' L" using k by (simp add: n' full_def)
      moreover have "synced n'" using st by (simp add: n' synced_def store_current_def)
      ultimately have "node_at n' L" by (intro node_atI)
      then show ?thesis using st(3) k n(2) li by (simp add: n')
    next
      case (Some err)
      then have n': "n' = disableLocked (Wrapf ''saving snapshot: %w'' [] err) (n\<lparr>storage := st\<rparr>)"
        using h n(2) took t lf s by (simp add: Snapshot_def Let_def)
      then show ?thesis using f(2) by (simp add: snapshot_fault_def disableLocked_def)
    qed
  qed
qed

section \<open>Installing a snapshot\<close>

definition is_result :: "InstallSnapshotArgs \<Rightarrow> LogEntry list \<Rightarrow> LogEntry list \<Rightarrow> LogEntry list \<Rightarrow> 's Node \<Rightarrow> 's Node \<Rightarrow>
    error option + InstallSnapshotReply \<Rightarrow> bool" where
  "is_result a Y L R n n' r \<longleftrightarrow> adopts L (take (isLastIncludedIndex a) Y) R \<and> node_at n' R \<and>
     bound (storage n') \<le> max (commitIndex n) (isLastIncludedIndex a) \<and>
     (case r of Inl err \<Rightarrow> failed n' \<and> R = L \<and> commitIndex n' = commitIndex n \<and> nlog n' = nlog n \<and> lastIncludedIndex n' = lastIncludedIndex n
      | Inr rep \<Rightarrow> \<not> failed n' \<and> irTerm rep = isTerm a \<and>
          isLastIncludedIndex a \<le> length R \<and> take (isLastIncludedIndex a) R = take (isLastIncludedIndex a) Y \<and>
          commitIndex n' = max (commitIndex n) (isLastIncludedIndex a))"

lemma install_new:
  assumes n: "node_at n L" "\<not> failed n" "log_ok n"
    and Y: "isLastIncludedIndex a \<le> length Y" "isLastIncludedTerm a = tm Y (isLastIncludedIndex a)"
    and match: "\<And>k. k \<le> length L \<Longrightarrow> k \<le> length Y \<Longrightarrow> tm L k = tm Y k \<Longrightarrow> take k L = take k Y"
    and k: "lastIncludedIndex n < isLastIncludedIndex a"
    and s: "SaveSnapshot ops (storage n) (isLastIncludedIndex a) (isLastIncludedTerm a) (isData a) = (st, None)"
      "fits (CallSaveSnapshot (isLastIncludedIndex a) (isLastIncludedTerm a) (isData a))"
    and lg: "installed_log a n = Some lg"
    and n': "storage n' = st" "nlog n' = lg" "lastIncludedIndex n' = isLastIncludedIndex a" "lastIncludedTerm n' = isLastIncludedTerm a"
    and sc: "store_current view n'"
  shows "\<exists>R. adopts L (take (isLastIncludedIndex a) Y) R \<and> node_at n' R \<and> isLastIncludedIndex a \<le> length R \<and>
    take (isLastIncludedIndex a) R = take (isLastIncludedIndex a) Y"
proof -
  let ?k = "isLastIncludedIndex a" and ?t = "isLastIncludedTerm a"
  let ?X = "take ?k Y"
  note a = node_atD [OF n(1,2)]
  note st = snapshot_store [OF n(1,2) k s]
  have ll: "last_index n = length L" using fullD(4) [of n L] a by blast
  have lg': "lg = (if ?k \<le> length L \<and> termAtLocked n ?k = Some ?t
      then drop (?k - lastIncludedIndex n) (nlog n) else [boundary_entry ?t ?k])"
    using installed_log_ok [OF n(3) k] lg ll by simp
  have sy: "synced n'" using sc st(1) n'(1) by (simp add: synced_def)
  have tl: "tl lg = drop ?k L" using sy n'(1-4) st(2) by (simp add: synced_def store_current_def)
  show ?thesis
  proof (cases "?k \<le> length L \<and> tm L ?k = ?t")
    case True
    then have t: "termAtLocked n ?k = Some ?t" using full_term [of n L ?k] a k by simp
    have "take ?k L = ?X" using match [of ?k] True Y by simp
    moreover have "full n' L"
    proof -
      obtain x where x: "entryAtLocked n ?k = Some x" "eTerm x = ?t" using t by (auto simp: termAtLocked_def)
      then have hd: "hd lg = x" "lg \<noteq> []"
        using lg' t True by (auto simp: entryAtLocked_def hd_drop_conv_nth split: if_splits)
      moreover have "eIndex x = ?k" using x log_ok_eIndex [OF n(3), of "?k - lastIncludedIndex n"] k
        by (auto simp: entryAtLocked_def split: if_splits)
      ultimately show ?thesis using n' x(2) tl True Y(2) by (simp add: full_def)
    qed
    ultimately show ?thesis using node_atI [OF sy] True by (intro exI [of _ L]) (auto simp: adopts_def)
  next
    case False
    then have "lg = [boundary_entry ?t ?k]" using lg' full_term [of n L ?k] a k by auto
    then have d: "drop ?k L = []" "lg = [boundary_entry ?t ?k]" using tl by simp_all
    then have le: "length L \<le> ?k" by simp
    have np: "\<not> prefix ?X L"
    proof
      assume p: "prefix ?X L"
      then have "?k \<le> length L" using prefix_length_le [OF p] Y(1) by simp
      moreover have "tm L ?k = tm Y ?k" using tm_prefix [OF p, of ?k] Y(1) by (simp add: tm_take)
      ultimately show False using False Y(2) by simp
    qed
    have "adopts L ?X ?X" using np by (simp add: adopts_def)
    moreover have "full n' ?X" using d n' Y by (simp add: full_def tm_take boundary_entry_def)
    ultimately show ?thesis using node_atI [OF sy] Y(1) by (intro exI [of _ ?X]) simp
  qed
qed

lemma install_snapshot_at:
  assumes n: "node_at n L" "\<not> failed n" "log_ok n" "commit_ok n"
    and Y: "leader_log (isTerm a) Y" "isLastIncludedIndex a \<le> length Y" "isLastIncludedTerm a = tm Y (isLastIncludedIndex a)"
    and t: "currentTerm n \<le> isTerm a" "hfits (isTerm a) []" and hok: "hard.hard_ok n"
    and match: "\<And>k. k \<le> length L \<Longrightarrow> k \<le> length Y \<Longrightarrow> tm L k = tm Y k \<Longrightarrow> take k L = take k Y"
    and com: "commitIndex n \<le> length Y" "take (commitIndex n) L = take (commitIndex n) Y"
    and h: "handleInstallSnapshot ops e a n = Some (n', r)"
    and f: "fits (CallSaveSnapshot (lastIncludedIndex n') (lastIncludedTerm n') (snapshotData n'))" "\<not> failed n' \<Longrightarrow> store_current view n'"
      "\<not> snapshot_fault n'"
  shows "log_ok n' \<and> commit_ok n' \<and> role n' = role (acceptLeader ops e (isTerm a) (isLeaderID a) n) \<and>
    hs (storage n') = hs (storage (acceptLeader ops e (isTerm a) (isLeaderID a) n)) \<and>
    currentTerm n' = isTerm a \<and>
    (\<exists>R. is_result a Y L R n n' r \<and> (failed (acceptLeader ops e (isTerm a) (isLeaderID a) n) \<longrightarrow> R = L))"
proof -
  define n1 where "n1 = acceptLeader ops e (isTerm a) (isLeaderID a) n"
  let ?k = "isLastIncludedIndex a" and ?t = "isLastIncludedTerm a"
  have same: "log_same n n1" unfolding n1_def by (rule acceptLeader_same)
  have at1: "node_at n1 L" unfolding n1_def by (rule accept_at [OF n(1,2) t(2)])
  have ok1: "log_ok n1" "commit_ok n1" using same n by (auto simp: log_same_ok log_same_commit)
  have t1: "currentTerm n1 = isTerm a" unfolding n1_def using t(1) by (rule acceptLeader_term)
  have eq: "commitIndex n1 = commitIndex n" "lastIncludedIndex n1 = lastIncludedIndex n" "nlog n1 = nlog n"
    "lastIncludedTerm n1 = lastIncludedTerm n" using same by (auto simp: log_same_def)
  note s = node_atD [OF n(1,2)]
  have cL: "commitIndex n \<le> length L" "lastIncludedIndex n \<le> commitIndex n"
    using n(4) fullD(4) [of n L] s by (auto simp: commit_ok_def)
  have agrees: "snapshot_agrees n a"
  proof -
    have "?t \<le> isTerm a" using Y tm_in [of ?k Y] by (cases "?k = 0") (auto simp: leader_log_def)
    moreover have "termAtLocked n ?k = Some ?t" if "lastIncludedIndex n \<le> ?k" "?k \<le> commitIndex n"
      using full_term [of n L ?k] s that cL tm_eq [OF com(2) that(2)] Y(3) by simp
    ultimately show ?thesis by (simp add: snapshot_agrees_def)
  qed
  have ok': "log_ok n' \<and> commit_ok n'" using handleInstallSnapshot_ok [OF n(3,4) agrees, of ops e] h by auto
  have keep: "adopts L (take ?k Y) L" by (simp add: adopts_def)
  have ib: "bound (storage n1) \<le> commitIndex n" using node_at_bound [OF at1] cL eq by simp
  have res0: "is_result a Y L R n n1 (Inl err)" if "failed n1" "R = L" for R err
    using that keep at1 ib eq by (simp add: is_result_def)
  have "role n' = role n1 \<and> hs (storage n') = hs (storage n1) \<and> currentTerm n' = currentTerm n1 \<and>
    (\<exists>R. is_result a Y L R n n' r \<and> (failed n1 \<longrightarrow> R = L))"
  proof (cases "failed n1")
    case True
    then have "n' = n1 \<and> r = Inl (failErr n1)"
      using h n(2) t(1) by (auto simp: handleInstallSnapshot_def n1_def [symmetric] Let_def)
    then show ?thesis using res0 [OF True refl] by blast
  next
    case nf: False
    note h1 = h [unfolded handleInstallSnapshot_def Let_def if_not_P [OF n(2)] n1_def [symmetric] if_not_P [OF nf]]
    show ?thesis
    proof (cases "?k \<le> lastIncludedIndex n1")
      case True
      then have r: "n' = n1" "r = Inr \<lparr>irTerm = currentTerm n1\<rparr>" using h1 t(1) by auto
      have "?k \<le> length L" "take ?k L = take ?k Y" using True eq cL take_eq_take_mono [OF com(2), of ?k] by auto
      then show ?thesis using r keep at1 ib eq t1 nf True cL
        by (auto simp: is_result_def intro!: exI [of _ L])
    next
      case False
      obtain st res where s1: "SaveSnapshot ops (storage n1) ?k ?t (isData a) = (st, res)" by fastforce
      have "hinv (storage n1)"
        using hard.quietD [OF hard.quiet_accept [OF hok n(2) t, of e "isLeaderID a"]] unfolding n1_def hard.hard_ok_def by blast
      then have hst: "hs st = hs (storage n1)" using hard.snapshot_hs [OF _ s1] by blast
      show ?thesis
      proof (cases res)
        case (Some err)
        then have r: "n' = disableLocked (Wrapf ''saving installed snapshot: %w'' [] err) (n1\<lparr>storage := st\<rparr>)" "r = Inl (failErr n')"
          using h1 t(1) False s1 by auto
        then show ?thesis using f(3) by (simp add: snapshot_fault_def disableLocked_def)
      next
        case None
        obtain lg where lg: "installed_log a n1 = Some lg" using installed_log_ok [OF ok1(1), of a] False by auto
        then have r: "r = Inr \<lparr>irTerm = currentTerm n1\<rparr>" "storage n' = st" "nlog n' = lg" "lastIncludedIndex n' = ?k"
          "lastIncludedTerm n' = ?t" "snapshotData n' = isData a" "commitIndex n' = max (commitIndex n1) ?k"
          "role n' = role n1" "currentTerm n' = currentTerm n1" "failed n' = failed n1"
          using h1 t(1) False s1 None by (auto simp: notifyApply_def Let_def)
        have fs: "fits (CallSaveSnapshot ?k ?t (isData a))" "store_current view n'" "lastIncludedIndex n1 < ?k" using False f nf r(4-6,10) by simp_all
        obtain R where R: "adopts L (take ?k Y) R" "node_at n' R" "?k \<le> length R" "take ?k R = take ?k Y"
          using install_new [OF at1 nf ok1(1) Y(2,3) match fs(3) s1 [unfolded None] fs(1) lg r(2-5) fs(2)] by blast
        then have "is_result a Y L R n n' r" using r t1 eq nf node_at_bound [OF R(2)] by (simp add: is_result_def)
        then show ?thesis using r hst nf by auto
      qed
    qed
  qed
  then show ?thesis using ok' t1 unfolding n1_def by simp
qed

section \<open>Restart\<close>

lemma NewNode_at:
  assumes st: "stores L st" and L: "indexed 1 L" "terms_sorted L" "\<And>x. x \<in> set L \<Longrightarrow> eTerm x \<le> fst (hs st)"
    and h: "NewNode ops e cfg st = Some (st', r)"
  shows "stores L st' \<and> bound st' = bound st \<and> (\<forall>n. r = Inr n \<longrightarrow> storage n = st' \<and> \<not> failed n \<and> node_at n L \<and>
    log_ok n \<and> commit_ok n \<and> commitIndex n = bound st \<and> lastIncludedIndex n = bound st \<and> role n = Follower)"
proof -
  have rc: "recov st" using st by (simp add: stores_def)
  consider (early) "st' = st" "\<exists>err. r = Inl err" | (err) x where "Load ops st = (st', x)" "\<exists>err. r = Inl err"
    | (ok) ps b bs where "Load ops st = (st', Inr ps)" "psLog ps = b # bs"
        "r = Inr (resetElectionDeadlineLocked e (node_from_state cfg st' ps b))"
    using h by (auto simp: NewNode_def split: if_splits prod.splits sum.splits list.splits)
  then show ?thesis
  proof cases
    case early
    then show ?thesis using st by auto
  next
    case err
    have "recov st' \<and> view st' = view st" using load_view [OF rc err(1)] by blast
    then show ?thesis using st err(2) by (auto simp: stores_def bound_def)
  next
    case ok
    have v: "recov st'" "view st' = view st" "ps = view st" "sinv st'" using load_view [OF rc ok(1)] by blast+
    have lg: "psLog ps = boundary_entry (tm L (bound st)) (bound st) # drop (bound st) L" "bound st \<le> length L"
      using st v by (auto simp: stores_def)
    then have b: "b = boundary_entry (tm L (bound st)) (bound st)" "bs = drop (bound st) L" using ok(2) by auto
    define n where "n = resetElectionDeadlineLocked e (node_from_state cfg st' ps b)"
    have n: "storage n = st'" "failed n = False" "nlog n = b # bs" "lastIncludedIndex n = bound st" "lastIncludedTerm n = tm L (bound st)"
      "commitIndex n = bound st" "lastApplied n = bound st" "role n = Follower" "currentTerm n = fst (hs st)"
      using ok(2) b hs_view [OF rc] v
      by (simp_all add: n_def resetElectionDeadlineLocked_def Let_def node_from_state_def boundary_entry_def)
    have f: "full n L" using b lg(2) by (simp add: full_def n boundary_entry_def)
    have s: "synced n" using v lg(1) b by (simp add: synced_def store_current_def n)
    have lo: "log_ok n" using full_log_ok [OF f L(1,2)] L(3) n(9) by simp
    have "commit_ok n" using fullD(4) [OF f] lg(2) by (simp add: commit_ok_def n)
    moreover have "stores L st'" "bound st' = bound st" using st v by (auto simp: stores_def bound_def)
    ultimately show ?thesis using node_atI [OF s f] lo ok(3) n by (auto simp: n_def [symmetric])
  qed
qed

end

end
