(* ===== verification/Raft_Refinement.thy ===== *)
theory Raft_Refinement
  imports Raft_Install Raft_Election
begin

text \<open>
  The cluster follows the protocol. \<open>sim M c g\<close> relates a state of the cluster of \<open>Raft_Cluster\<close> to a
  state of \<open>Raft_Protocol\<close>: the term of a node is the one on its store, its log the one its store and
  its memory stand for; a candidate asks with its log, a leader's log is the log of its term; every
  request and every reply that was ever sent says what the protocol knows. \<open>cstep_sim\<close> shows that
  each step of the cluster is a sequence of protocol steps.
\<close>

section \<open>The relation\<close>

text \<open>\<open>acked g j T m\<close>: node \<open>j\<close> acknowledged the entries of term \<open>T\<close> up to index \<open>m\<close> to the leader of \<open>T\<close>.\<close>

definition acked :: "Protocol \<Rightarrow> node_id \<Rightarrow> nat \<Rightarrow> nat \<Rightarrow> bool" where
  "acked g j T m \<longleftrightarrow> m \<le> length (pLead g T) \<and>
     (\<forall>k. 0 < k \<longrightarrow> k \<le> m \<longrightarrow> tm (pLead g T) k = T \<longrightarrow> (j, T, k) \<in> pAcks g)"

fun req_rel :: "node_id set \<Rightarrow> Protocol \<Rightarrow> node_id \<times> node_id \<times> Request \<Rightarrow> bool" where
  "req_rel M g (i, j, RequestVoteReq a) \<longleftrightarrow> (\<exists>X. pCand g i (rvTerm a) = Some X \<and>
     rvLastLogIndex a = length X \<and> rvLastLogTerm a = lastT X)"
| "req_rel M g (i, j, AppendEntriesReq a) \<longleftrightarrow> pWon g (aeTerm a) = Some i \<and> i \<noteq> j \<and>
     carries (pLead g (aeTerm a)) a \<and> sealed M g (aeTerm a) (pLead g (aeTerm a)) (aeLeaderCommit a)"
| "req_rel M g (i, j, InstallSnapshotReq a) \<longleftrightarrow> pWon g (isTerm a) = Some i \<and> i \<noteq> j \<and>
     isLastIncludedTerm a = tm (pLead g (isTerm a)) (isLastIncludedIndex a) \<and>
     sealed M g (isTerm a) (pLead g (isTerm a)) (isLastIncludedIndex a)"
| "req_rel M g (i, j, OtherReq ty) \<longleftrightarrow> True"

fun rep_rel :: "Protocol \<Rightarrow> node_id \<times> node_id \<times> Request \<times> Reply \<Rightarrow> bool" where
  "rep_rel g (j, i, AppendEntriesReq a, AppendEntriesRep rep) \<longleftrightarrow>
     (if arSuccess rep then acked g j (aeTerm a) (ae_end a)
      else arTerm rep \<le> aeTerm a \<longrightarrow> arConflictIndex rep \<le> length (pLead g (aeTerm a)) + 1)"
| "rep_rel g (j, i, InstallSnapshotReq a, InstallSnapshotRep rep) \<longleftrightarrow>
     (irTerm rep \<le> isTerm a \<longrightarrow> acked g j (isTerm a) (isLastIncludedIndex a))"
| "rep_rel g (j, i, req, rep) \<longleftrightarrow> True"

definition vote_rel :: "'s Cluster \<Rightarrow> Protocol \<Rightarrow> bool" where
  "vote_rel c g \<longleftrightarrow> (\<forall>j U i. (j, U, i) \<in> pVotes g \<longrightarrow> voted c j U i) \<and>
     (\<forall>j U i. voted c j U i \<longrightarrow> pWon g U = None \<longrightarrow> (j, U, i) \<in> pVotes g)"

definition leading :: "Protocol \<Rightarrow> node_id \<Rightarrow> 's Node \<Rightarrow> bool" where
  "leading g i n \<longleftrightarrow> pWon g (currentTerm n) = Some i \<and> pLead g (currentTerm n) = pLog g i \<and> progress_ok n \<and>
     (\<forall>p \<in> set (peers n). acked g p (currentTerm n) (map_get (matchIndex n) p))"

definition standing :: "Protocol \<Rightarrow> node_id \<Rightarrow> 's Node \<Rightarrow> bool" where
  "standing g i n \<longleftrightarrow> pCand g i (currentTerm n) = Some (pLog g i) \<and> pWon g (currentTerm n) \<noteq> Some i"

definition role_rel :: "Protocol \<Rightarrow> node_id \<Rightarrow> 's Node \<Rightarrow> bool" where
  "role_rel g i n \<longleftrightarrow> (\<not> failed n \<longrightarrow> (role n = Candidate \<longrightarrow> standing g i n) \<and> (role n = Leader \<longrightarrow> leading g i n))"

text \<open>What a step of node \<open>i\<close> leaves alone.\<close>

definition frame :: "node_id \<Rightarrow> Protocol \<Rightarrow> Protocol \<Rightarrow> bool" where
  "frame i g g' \<longleftrightarrow> (\<forall>j. j \<noteq> i \<longrightarrow> pTerm g' j = pTerm g j \<and> pLog g' j = pLog g j) \<and>
     (\<forall>U k. pWon g U = Some k \<longrightarrow> k \<noteq> i \<longrightarrow> pLead g' U = pLead g U) \<and>
     (\<forall>U. pWon g U = None \<longrightarrow> pWon g' U = None \<or> pWon g' U = Some i)"

lemma frameD:
  assumes "frame i g g'"
  shows "j \<noteq> i \<Longrightarrow> pTerm g' j = pTerm g j" "j \<noteq> i \<Longrightarrow> pLog g' j = pLog g j"
    "pWon g U = Some k \<Longrightarrow> k \<noteq> i \<Longrightarrow> pLead g' U = pLead g U"
    "pWon g U = None \<Longrightarrow> pWon g' U = None \<or> pWon g' U = Some i"
  using assms by (simp_all add: frame_def)

definition moves :: "node_id set \<Rightarrow> node_id \<Rightarrow> Protocol \<Rightarrow> Protocol \<Rightarrow> bool" where
  "moves M i g g' \<longleftrightarrow> psteps M g g' \<and> frame i g g'"

lemma moves_refl [simp]: "moves M i g g"
  by (simp add: moves_def frame_def)

lemma moves_pinv: "moves M i g g' \<Longrightarrow> pinv M g \<Longrightarrow> pinv M g' \<and> grows g g'"
  unfolding moves_def using psteps_pinv by blast

lemma moves_trans:
  assumes g: "pinv M g" and m: "moves M i g g1" "moves M i g1 g2"
  shows "moves M i g g2"
proof -
  have gr: "grows g g1" using moves_pinv [OF m(1) g] by simp
  have f: "frame i g g1" "frame i g1 g2" using m by (simp_all add: moves_def)
  have "frame i g g2"
    unfolding frame_def
  proof (intro conjI allI impI)
    fix j assume "j \<noteq> i"
    then show "pTerm g2 j = pTerm g j" "pLog g2 j = pLog g j" using f by (simp_all add: frame_def)
  next
    fix U k assume k: "pWon g U = Some k" "k \<noteq> i"
    then have "pWon g1 U = Some k" using growsD(2) [OF gr, of U] by simp
    then show "pLead g2 U = pLead g U" using frameD(3) [OF f(1) k] frameD(3) [OF f(2) _ k(2)] by simp
  next
    fix U assume "pWon g U = None"
    then consider "pWon g1 U = None" | "pWon g1 U = Some i" using frameD(4) [OF f(1), of U] by auto
    then show "pWon g2 U = None \<or> pWon g2 U = Some i"
    proof cases
      case 1
      then show ?thesis by (rule frameD(4) [OF f(2)])
    next
      case 2
      then have "grows g1 g2" using moves_pinv [OF m(2)] moves_pinv [OF m(1) g] by simp
      then show ?thesis using growsD(2) [of g1 g2 U] 2 by simp
    qed
  qed
  then show ?thesis using m rtranclp_trans [of "pstep M" g g1 g2] by (simp add: moves_def)
qed

lemma moves_step: "pstep M g g' \<Longrightarrow> frame i g g' \<Longrightarrow> moves M i g g'"
  by (simp add: moves_def)

section \<open>Moves of one node\<close>

lemma move_raise: "pTerm g i \<le> t \<Longrightarrow> moves M i g (g\<lparr>pTerm := (pTerm g)(i := t)\<rparr>)"
  by (rule moves_step [OF raise_term]) (simp_all add: frame_def)

lemma move_adopt:
  "pWon g (pTerm g i) \<noteq> None \<Longrightarrow> adopts (pLog g i) (take p (pLead g (pTerm g i))) R \<Longrightarrow>
   moves M i g (g\<lparr>pLog := (pLog g)(i := R)\<rparr>)"
  by (rule moves_step [OF adopt]) (simp_all add: frame_def)

definition with_acks :: "Protocol \<Rightarrow> node_id \<Rightarrow> nat \<Rightarrow> nat \<Rightarrow> Protocol" where
  "with_acks g i T m = g\<lparr>pAcks := pAcks g \<union> {(i, T, k) | k. 0 < k \<and> k \<le> m \<and> tm (pLead g T) k = T}\<rparr>"

lemma with_acks_simps [simp]:
  "pTerm (with_acks g i T m) = pTerm g" "pLog (with_acks g i T m) = pLog g" "pWon (with_acks g i T m) = pWon g"
  "pLead (with_acks g i T m) = pLead g" "pCand (with_acks g i T m) = pCand g" "pVotes (with_acks g i T m) = pVotes g"
  by (simp_all add: with_acks_def)

lemma with_acks_acked: "m \<le> length (pLead g T) \<Longrightarrow> acked (with_acks g i T m) i T m"
  by (auto simp: acked_def with_acks_def)

lemma move_acks:
  assumes "pTerm g i = T"
  shows "m \<le> length (pLead g T) \<Longrightarrow> m \<le> length (pLog g i) \<Longrightarrow> take m (pLog g i) = take m (pLead g T) \<Longrightarrow>
    moves M i g (with_acks g i T m)"
proof (induction m)
  case 0
  have "{(i, T, k) |k. 0 < k \<and> k \<le> 0 \<and> tm (pLead g T) k = T} = {}" by auto
  then show ?case by (simp add: with_acks_def)
next
  case (Suc m)
  have "take m (pLog g i) = take m (pLead g T)" using take_eq_take_mono [OF Suc.prems(3), of m] by simp
  then have mv: "psteps M g (with_acks g i T m)" using Suc by (simp add: moves_def)
  have fr: "frame i g (with_acks g i T (Suc m))" by (simp add: frame_def)
  show ?case
  proof (cases "tm (pLead g T) (Suc m) = T")
    case True
    have "pstep M (with_acks g i T m) ((with_acks g i T m)\<lparr>pAcks := insert (i, T, Suc m) (pAcks (with_acks g i T m))\<rparr>)"
      by (rule ack) (use assms Suc.prems True in simp_all)
    moreover have "{(i, T, k) |k. 0 < k \<and> k \<le> Suc m \<and> tm (pLead g T) k = T} =
        insert (i, T, Suc m) {(i, T, k) |k. 0 < k \<and> k \<le> m \<and> tm (pLead g T) k = T}"
      using True by (auto simp: le_Suc_eq)
    then have "(with_acks g i T m)\<lparr>pAcks := insert (i, T, Suc m) (pAcks (with_acks g i T m))\<rparr> = with_acks g i T (Suc m)"
      by (simp add: with_acks_def)
    ultimately show ?thesis using mv fr by (simp add: moves_def)
  next
    case False
    then have "{(i, T, k) |k. 0 < k \<and> k \<le> Suc m \<and> tm (pLead g T) k = T} = {(i, T, k) |k. 0 < k \<and> k \<le> m \<and> tm (pLead g T) k = T}"
      by (auto simp: le_Suc_eq)
    then show ?thesis using mv fr by (simp add: moves_def with_acks_def)
  qed
qed

section \<open>What growth keeps\<close>

lemma acked_grows: "grows g g' \<Longrightarrow> acked g j T m \<Longrightarrow> acked g' j T m"
  unfolding acked_def
  using growsD(1) [of g g' T] growsD(5) [of g g'] prefix_length_le tm_prefix by (metis dual_order.trans subsetD)

lemma carries_prefix:
  assumes "carries Y a" "prefix Y Y'"
  shows "carries Y' a"
proof -
  have "take (ae_end a) Y' = take (ae_end a) Y" using assms prefix_take_eq [OF assms(2), of "ae_end a"] by (simp add: carries_def)
  moreover have "aePrevLogIndex a \<le> ae_end a" by (simp add: ae_end_def)
  ultimately show ?thesis
    using assms prefix_length_le [OF assms(2)] tm_prefix [OF assms(2), of "aePrevLogIndex a"] by (simp add: carries_def)
qed

lemma sealed_lead_grows:
  assumes g: "pinv M g" and gr: "grows g g'" and s: "sealed M g T (pLead g T) k"
  shows "sealed M g' T (pLead g' T) k"
proof -
  have "k \<le> length (pLead g T)" by (rule sealed_length [OF s])
  moreover note p = growsD(1) [OF gr, of T]
  ultimately show ?thesis
    using sealed_cong [OF sealed_grows [OF g gr s], of "pLead g' T"] prefix_length_le [OF p] prefix_take_eq [OF p] by simp
qed

lemma req_rel_grows:
  assumes g: "pinv M g" and gr: "grows g g'" and r: "req_rel M g m"
  shows "req_rel M g' m"
proof -
  obtain i j req where m: "m = (i, j, req)" by (cases m)
  show ?thesis
  proof (cases req)
    case (RequestVoteReq a)
    then show ?thesis using r growsD(3) [OF gr, of i "rvTerm a"] by (auto simp: m)
  next
    case (AppendEntriesReq a)
    then show ?thesis
      using r growsD(2) [OF gr, of "aeTerm a"] carries_prefix growsD(1) [OF gr] sealed_lead_grows [OF g gr] by (auto simp: m)
  next
    case (InstallSnapshotReq a)
    have "isLastIncludedIndex a \<le> length (pLead g (isTerm a))" using r sealed_length by (auto simp: m InstallSnapshotReq)
    then show ?thesis
      using InstallSnapshotReq r growsD(2) [OF gr, of "isTerm a"] tm_prefix [OF growsD(1) [OF gr]] sealed_lead_grows [OF g gr]
      by (auto simp: m)
  qed (simp add: m)
qed

lemma rep_rel_grows:
  assumes gr: "grows g g'" and r: "rep_rel g m"
  shows "rep_rel g' m"
proof -
  obtain j i req rep where m: "m = (j, i, req, rep)" by (metis prod_cases4)
  have "length (pLead g T) \<le> length (pLead g' T)" for T by (rule prefix_length_le [OF growsD(1) [OF gr]])
  then have l: "x \<le> length (pLead g T) + 1 \<Longrightarrow> x \<le> length (pLead g' T) + 1" for x T by (meson add_le_mono1 le_trans)
  show ?thesis using r acked_grows [OF gr] l unfolding m
    by (cases req; cases rep) (auto split: if_splits)
qed

lemma role_rel_frame:
  assumes r: "role_rel g j n" and f: "frame i g g'" "grows g g'" "j \<noteq> i"
  shows "role_rel g' j n"
proof -
  have L: "pLog g' j = pLog g j" using f by (simp add: frame_def)
  have "standing g' j n" if "standing g j n"
  proof -
    have "pCand g' j (currentTerm n) = Some (pLog g' j)" using that growsD(3) [OF f(2), of j "currentTerm n"] L by (simp add: standing_def)
    moreover have "pWon g' (currentTerm n) \<noteq> Some j"
      using that f(3) growsD(2) [OF f(2), of "currentTerm n"] frameD(4) [OF f(1), of "currentTerm n"]
      by (cases "pWon g (currentTerm n)") (auto simp: standing_def)
    ultimately show ?thesis by (simp add: standing_def)
  qed
  moreover have "leading g' j n" if "leading g j n"
    using that L f(1,3) growsD(2) [OF f(2), of "currentTerm n"] acked_grows [OF f(2)] frameD(3) [OF f(1), of "currentTerm n" j]
    by (simp add: leading_def)
  ultimately show ?thesis using r by (auto simp: role_rel_def)
qed

end
