(* ===== verification/Raft_Simulation.thy ===== *)
theory Raft_Simulation
  imports Raft_Refinement
begin

text \<open>
  The simulation: \<open>node_rel\<close> relates one node to the protocol, and for every operation of the node a
  lemma gives the protocol steps that it performs.
\<close>

section \<open>Facts about the protocol state\<close>

lemma leader_log_pLead: "pinv M g \<Longrightarrow> leader_log T (pLead g T)"
  using inv_logsD(3,4) [OF pinvD(1), of M g] by (auto simp: leader_log_def anchored_def)

lemma pLog_match:
  "pinv M g \<Longrightarrow> k \<le> length (pLog g i) \<Longrightarrow> k \<le> length (pLead g T) \<Longrightarrow> tm (pLog g i) k = tm (pLead g T) k \<Longrightarrow>
   take k (pLog g i) = take k (pLead g T)"
  using anchored_match inv_logsD(1,3) [OF pinvD(1), of M g] by blast

definition same_role :: "'s Node \<Rightarrow> 's Node \<Rightarrow> bool" where
  "same_role n n' \<longleftrightarrow> (failed n \<longrightarrow> failed n') \<and> (role n' = role n \<or> role n' = Follower) \<and> currentTerm n' = currentTerm n \<and>
     matchIndex n' = matchIndex n \<and> nextIndex n' = nextIndex n \<and> peers n' = peers n \<and> last_index n' = last_index n"

lemma role_rel_same: "role_rel g i n \<Longrightarrow> same_role n n' \<Longrightarrow> role_rel g i n'"
  by (auto simp: role_rel_def same_role_def standing_def leading_def progress_ok_def)

lemma role_rel_follower: "(\<not> failed n \<Longrightarrow> role n = Follower) \<Longrightarrow> role_rel g i n"
  by (auto simp: role_rel_def)

lemma move_to:
  assumes g: "pinv M g" and t: "pTerm g i \<le> t"
    and R: "R = pLog g i \<or> t = T \<and> pWon g T \<noteq> None \<and> adopts (pLog g i) (take p (pLead g T)) R"
  shows "moves M i g (g\<lparr>pTerm := (pTerm g)(i := t), pLog := (pLog g)(i := R)\<rparr>)"
proof -
  let ?g1 = "g\<lparr>pTerm := (pTerm g)(i := t)\<rparr>"
  have m1: "moves M i g ?g1" by (rule move_raise [OF t])
  show ?thesis
  proof (cases "R = pLog g i")
    case True
    then have "g\<lparr>pTerm := (pTerm g)(i := t), pLog := (pLog g)(i := R)\<rparr> = ?g1" by simp
    then show ?thesis using m1 by (simp only:)
  next
    case False
    then have "moves M i ?g1 (?g1\<lparr>pLog := (pLog ?g1)(i := R)\<rparr>)" using R by (intro move_adopt) auto
    then show ?thesis using moves_trans [OF g m1] by simp
  qed
qed

text \<open>A node that accepts a leader of its term was not that leader.\<close>

lemma accepted_follower:
  assumes r: "role_rel g i n" and n: "\<not> failed n" "currentTerm n \<le> T" and w: "pWon g T = Some k" "k \<noteq> i"
    and nf: "\<not> failed (acceptLeader ops e T l n)"
  shows "role (acceptLeader ops e T l n) = Follower"
proof -
  let ?n1 = "acceptLeader ops e T l n"
  have "role ?n1 \<noteq> Candidate" using acceptLeader_role [OF n(2) nf] by simp
  moreover have "role ?n1 \<noteq> Leader"
  proof
    assume l: "role ?n1 = Leader"
    then have "role n = Leader" "currentTerm n = T"
      using n(2) nf unfolding acceptLeader_def Let_def by (auto split: if_splits)
    then have "pWon g T = Some i" using r n(1) by (simp add: role_rel_def leading_def)
    then show False using w by simp
  qed
  ultimately show ?thesis by (cases "role ?n1") simp_all
qed

context log_storage
begin

definition live :: "node_id set \<Rightarrow> Protocol \<Rightarrow> node_id \<Rightarrow> 's Node \<Rightarrow> bool" where
  "live M g i n \<longleftrightarrow> log_ok n \<and> commit_ok n \<and> mem_ok n (pLog g i) \<and>
     sealed M g (pTerm g i) (pLog g i) (commitIndex n) \<and> role_rel g i n"

definition node_rel :: "node_id set \<Rightarrow> Protocol \<Rightarrow> node_id \<Rightarrow> bool \<Rightarrow> 's Node \<Rightarrow> bool" where
  "node_rel M g i up n \<longleftrightarrow> pTerm g i = fst (hs (storage n)) \<and>
     (if up then node_at n (pLog g i) \<and> live M g i n
      else stores (pLog g i) (storage n) \<and> sealed M g (pTerm g i) (pLog g i) (bound (storage n)))"

lemma node_relD:
  assumes "node_rel M g i True n"
  shows "pTerm g i = fst (hs (storage n))" "node_at n (pLog g i)" "log_ok n" "commit_ok n" "mem_ok n (pLog g i)"
    "sealed M g (pTerm g i) (pLog g i) (commitIndex n)" "role_rel g i n"
  using assms unfolding node_rel_def live_def if_True by blast+

lemma node_relI:
  "pTerm g i = fst (hs (storage n)) \<Longrightarrow> node_at n (pLog g i) \<Longrightarrow> log_ok n \<Longrightarrow> commit_ok n \<Longrightarrow> mem_ok n (pLog g i) \<Longrightarrow>
   sealed M g (pTerm g i) (pLog g i) (commitIndex n) \<Longrightarrow> role_rel g i n \<Longrightarrow> node_rel M g i True n"
  by (simp add: node_rel_def live_def)

lemma node_rel_frame:
  assumes r: "node_rel M g j up n" and g: "pinv M g" and m: "moves M i g g'" "j \<noteq> i"
  shows "node_rel M g' j up n"
proof -
  have f: "frame i g g'" "grows g g'" using m moves_pinv [OF m(1) g] by (simp_all add: moves_def)
  have eq: "pTerm g' j = pTerm g j" "pLog g' j = pLog g j" using frameD(1,2) [OF f(1) m(2)] by simp_all
  have "sealed M g T X k \<Longrightarrow> sealed M g' T X k" for T X k by (rule sealed_grows [OF g f(2)])
  moreover have "role_rel g j n \<Longrightarrow> role_rel g' j n" by (rule role_rel_frame [OF _ f m(2)])
  ultimately show ?thesis using r unfolding node_rel_def live_def eq by meson
qed

text \<open>Steps that change nothing the protocol sees.\<close>

lemma node_rel_same:
  assumes r: "node_rel M g i True n" and a: "node_at n' (pLog g i)" "fst (hs (storage n')) = fst (hs (storage n))"
    and ok: "log_ok n'" "commit_ok n'" "same_role n n'"
    and eq: "lastIncludedIndex n' = lastIncludedIndex n" "commitIndex n' = commitIndex n" "nlog n' = nlog n"
  shows "node_rel M g i True n'"
proof -
  have "mem_ok n' (pLog g i)"
    by (rule mem_ok_cong [OF node_relD(5) [OF r] eq(1,2)]) (simp_all add: entryAtLocked_def eq)
  then show ?thesis
    using node_relD [OF r] a ok(1,2) eq role_rel_same [OF _ ok(3)] by (intro node_relI) simp_all
qed

text \<open>A node that may have raised its term, and follows or has failed.\<close>

lemma node_rel_lowered:
  assumes r: "node_rel M g i True n" and g: "pinv M g" and a: "node_at n' (pLog g i)" "log_same n n'"
    and t: "pTerm g i \<le> fst (hs (storage n'))" and f: "\<not> failed n' \<Longrightarrow> role n' = Follower"
  shows "\<exists>g'. moves M i g g' \<and> pVotes g' = pVotes g \<and> pTerm g' i = fst (hs (storage n')) \<and> pLog g' = pLog g \<and>
    pWon g' = pWon g \<and> pCand g' = pCand g \<and> node_rel M g' i True n'"
proof -
  let ?g = "g\<lparr>pTerm := (pTerm g)(i := fst (hs (storage n')))\<rparr>"
  have m: "moves M i g ?g" by (rule move_raise [OF t])
  have gr: "grows g ?g" using moves_pinv [OF m g] by simp
  have eq: "lastIncludedIndex n' = lastIncludedIndex n" "commitIndex n' = commitIndex n" "nlog n' = nlog n"
    using a(2) by (simp_all add: log_same_def)
  have "mem_ok n' (pLog g i)"
    by (rule mem_ok_cong [OF node_relD(5) [OF r] eq(1,2)]) (simp_all add: entryAtLocked_def eq)
  moreover have "sealed M ?g (fst (hs (storage n'))) (pLog g i) (commitIndex n')"
    using sealed_term [OF sealed_grows [OF g gr node_relD(6) [OF r]] t] eq by simp
  ultimately have "node_rel M ?g i True n'"
    using a log_same_ok [OF a(2) node_relD(3) [OF r]] log_same_commit [OF a(2) node_relD(4) [OF r]] role_rel_follower [OF f]
    by (intro node_relI) simp_all
  then show ?thesis using m by (intro exI [of _ ?g]) simp
qed

lemma working_term:
  assumes "node_rel M g i True n" "hard.hard_ok n" "\<not> failed n"
  shows "pTerm g i = currentTerm n" "bound (storage n) \<le> commitIndex n"
  using assms node_relD(1,2,4) [OF assms(1)] node_at_bound by (auto simp: hard.hard_ok_def commit_ok_def)

lemma hs_mono: "hard.quiet n n' \<Longrightarrow> fst (hs (storage n)) \<le> fst (hs (storage n'))"
  using evolves_term by (auto simp: hard.quiet_def hard.hard_step_def)

section \<open>AppendEntries\<close>

lemma ae_rel:
  assumes M: "finite M" and g: "pinv M g" and r: "node_rel M g i True n" "hard.hard_ok n" and q: "req_rel M g (k, i, AppendEntriesReq a)"
    and f: "hfits (aeTerm a) []" "\<forall>x \<in> set (nlog n'). efits x"
    and h: "handleAppendEntries ops e a n = Some (n', res)"
  shows "\<exists>g'. moves M i g g' \<and> pVotes g' = pVotes g \<and> node_rel M g' i True n' \<and>
    (\<forall>rep. res = Inr rep \<longrightarrow> rep_rel g' (i, k, AppendEntriesReq a, AppendEntriesRep rep))"
proof (cases "failed n \<or> aeTerm a < currentTerm n")
  case True
  then have "n' = n \<and> (\<forall>rep. res = Inr rep \<longrightarrow> aeTerm a < arTerm rep \<and> \<not> arSuccess rep)"
    using h by (auto simp: handleAppendEntries_def ae_conflict_def split: if_splits)
  then show ?thesis using r(1) by (intro exI [of _ g]) auto
next
  case False
  let ?T = "aeTerm a" and ?L = "pLog g i"
  let ?Y = "pLead g ?T"
  define n1 where "n1 = acceptLeader ops e ?T (aeLeaderID a) n"
  have nf: "\<not> failed n" "currentTerm n \<le> ?T" using False by simp_all
  have won: "pWon g ?T = Some k" "k \<noteq> i" "carries ?Y a" "sealed M g ?T ?Y (aeLeaderCommit a)" using q by simp_all
  note D = node_relD [OF r(1)] and W = working_term [OF r nf(1)]
  have le: "pTerm g i \<le> ?T" using W nf by simp
  have won': "pWon g ?T \<noteq> None" using won by simp
  note lead = sealed_lead [OF M g D(6) le won']
  have com: "commitIndex n \<le> length ?Y" "take (commitIndex n) ?L = take (commitIndex n) ?Y" using lead by simp_all
  have res: "log_ok n' \<and> commit_ok n' \<and> ae_frame n1 n' \<and>
    (\<forall>i. lastIncludedIndex n \<le> i \<longrightarrow> i \<le> commitIndex n \<longrightarrow> entryAtLocked n' i = entryAtLocked n i) \<and>
    (\<exists>R. ae_result a ?Y ?L R n n' res \<and> (failed n1 \<longrightarrow> R = ?L))"
    unfolding n1_def
    by (rule append_entries_at [OF D(2) nf(1) D(3,4) leader_log_pLead [OF g] won(3) nf(2) f(1) pLog_match [OF g] com h f(2)])
  then obtain R where R: "ae_result a ?Y ?L R n n' res" "failed n1 \<longrightarrow> R = ?L" by blast
  have quiet: "hard.quiet n n'" by (rule hard.quiet_AppendEntries [OF r(2) f(1) h])
  have raise: "pTerm g i \<le> fst (hs (storage n'))" using hs_mono [OF quiet] D(1) by simp
  have hsT: "\<not> failed n1 \<Longrightarrow> fst (hs (storage n')) = ?T"
    using append_entries_hs [OF r(2) nf f(1) h] by (simp add: n1_def)
  have f1: "failed n1 \<Longrightarrow> failed n'"
    using h nf unfolding handleAppendEntries_eq [OF nf] n1_def [symmetric] Let_def by auto
  let ?g2 = "g\<lparr>pTerm := (pTerm g)(i := fst (hs (storage n'))), pLog := (pLog g)(i := R)\<rparr>"
  have m12: "moves M i g ?g2"
    using R hsT won' by (intro move_to [OF g raise, of R ?T "ae_end a"]) (auto simp: ae_result_def)
  define g3 where "g3 = (if \<exists>rep. res = Inr rep \<and> arSuccess rep then with_acks ?g2 i ?T (ae_end a) else ?g2)"
  have eq3: "pTerm g3 = (pTerm g)(i := fst (hs (storage n')))" "pLog g3 = (pLog g)(i := R)" "pLead g3 = pLead g" "pVotes g3 = pVotes g" "pWon g3 = pWon g"
    by (simp_all add: g3_def)
  have aeY: "ae_end a \<le> length ?Y" using won(3) by (simp add: carries_def)
  have m3: "moves M i ?g2 g3"
  proof (cases "\<exists>rep. res = Inr rep \<and> arSuccess rep")
    case True
    then have "\<not> failed n'" "ae_end a \<le> length R" "take (ae_end a) R = take (ae_end a) ?Y" using R(1) by (auto simp: ae_result_def)
    then have "moves M i ?g2 (with_acks ?g2 i ?T (ae_end a))"
      using f1 hsT aeY by (intro move_acks) auto
    then show ?thesis unfolding g3_def if_P [OF True] .
  next
    case False
    show ?thesis unfolding g3_def if_not_P [OF False] by (rule moves_refl)
  qed
  have m: "moves M i g g3" by (rule moves_trans [OF g m12 m3])
  have gr: "grows g g3" using moves_pinv [OF m g] by simp
  have at: "node_at n' R" "adopts ?L (take (ae_end a) ?Y) R" using R(1) by (simp_all add: ae_result_def)
  have keep: "sealed M g (pTerm g i) R (commitIndex n)" by (rule sealed_adopts [OF M g D(6) le won' at(2)])
  have seal: "sealed M g3 (pTerm g3 i) R (commitIndex n')"
  proof -
    have "sealed M g (pTerm g3 i) R (commitIndex n')"
    proof (cases "commitIndex n' = commitIndex n")
      case True
      then show ?thesis using sealed_term [OF keep raise] by (simp add: eq3)
    next
      case False
      then obtain rep where rep: "\<not> failed n'" "ae_end a \<le> length R" "take (ae_end a) R = take (ae_end a) ?Y" "commitIndex n' = aeLeaderCommit a"
        using R(1) by (auto simp: ae_result_def split: sum.splits if_splits)
      have lc: "aeLeaderCommit a \<le> ae_end a" using won(3) by (simp add: carries_def)
      then have "sealed M g ?T R (aeLeaderCommit a)"
        using sealed_cong [OF won(4), of R] rep take_eq_take_mono [OF rep(3) lc] by simp
      moreover have "pTerm g3 i = ?T" using rep hsT f1 by (auto simp: eq3)
      ultimately show ?thesis using rep by simp
    qed
    then show ?thesis by (rule sealed_grows [OF g gr])
  qed
  have mem: "mem_ok n' R"
  proof (cases "failed n'")
    case False
    then show ?thesis using node_atD [OF at(1)] mem_ok_full res by blast
  next
    case True
    then have c: "commitIndex n' = commitIndex n" using R(1) by (auto simp: ae_result_def split: sum.splits)
    have "lastIncludedIndex n' = lastIncludedIndex n"
      using res acceptLeader_same [of n ops e ?T "aeLeaderID a"] by (simp add: ae_frame_def log_same_def n1_def)
    moreover have "take (commitIndex n) R = take (commitIndex n) ?L"
      using adopts_keeps [OF at(2), of "commitIndex n"] sealed_length [OF D(6)] com by simp
    ultimately show ?thesis using mem_ok_cong [OF D(5) _ c] res by blast
  qed
  have ro: "role n' = Follower" if "\<not> failed n'"
  proof -
    have "\<not> failed n1" "role n' = role n1" using that f1 res by (auto simp: ae_frame_def)
    then show ?thesis using accepted_follower [OF D(7) nf won(1,2), of ops e "aeLeaderID a"] by (simp add: n1_def)
  qed
  have "node_rel M g3 i True n'"
    using at res mem seal role_rel_follower [OF ro] by (intro node_relI) (simp_all add: eq3)
  moreover have "rep_rel g3 (i, k, AppendEntriesReq a, AppendEntriesRep rep)" if "res = Inr rep" for rep
    using that R(1) aeY with_acks_acked [of "ae_end a" ?g2 ?T i] by (auto simp: ae_result_def eq3 g3_def)
  ultimately show ?thesis using m eq3(4) by blast
qed

section \<open>InstallSnapshot\<close>

lemma is_rel:
  assumes M: "finite M" and g: "pinv M g" and r: "node_rel M g i True n" "hard.hard_ok n" and q: "req_rel M g (k, i, InstallSnapshotReq a)"
    and f: "hfits (isTerm a) []" "fits (CallSaveSnapshot (lastIncludedIndex n') (lastIncludedTerm n') (snapshotData n'))"
      "\<not> failed n' \<Longrightarrow> store_current view n'" "\<not> snapshot_fault n'"
    and h: "handleInstallSnapshot ops e a n = Some (n', res)"
  shows "\<exists>g'. moves M i g g' \<and> pVotes g' = pVotes g \<and> node_rel M g' i True n' \<and>
    (\<forall>rep. res = Inr rep \<longrightarrow> rep_rel g' (i, k, InstallSnapshotReq a, InstallSnapshotRep rep))"
proof (cases "failed n \<or> isTerm a < currentTerm n")
  case True
  then have "n' = n \<and> (\<forall>rep. res = Inr rep \<longrightarrow> isTerm a < irTerm rep)"
    using h by (auto simp: handleInstallSnapshot_def split: if_splits)
  then show ?thesis using r(1) by (intro exI [of _ g]) auto
next
  case False
  let ?T = "isTerm a" and ?L = "pLog g i" and ?b = "isLastIncludedIndex a"
  let ?Y = "pLead g ?T"
  define n1 where "n1 = acceptLeader ops e ?T (isLeaderID a) n"
  have nf: "\<not> failed n" "currentTerm n \<le> ?T" using False by simp_all
  have won: "pWon g ?T = Some k" "k \<noteq> i" "isLastIncludedTerm a = tm ?Y ?b" "sealed M g ?T ?Y ?b" using q by simp_all
  note D = node_relD [OF r(1)] and W = working_term [OF r nf(1)]
  have le: "pTerm g i \<le> ?T" using W nf by simp
  have won': "pWon g ?T \<noteq> None" using won by simp
  note lead = sealed_lead [OF M g D(6) le won']
  have com: "commitIndex n \<le> length ?Y" "take (commitIndex n) ?L = take (commitIndex n) ?Y" using lead by simp_all
  have bY: "?b \<le> length ?Y" by (rule sealed_length [OF won(4)])
  have res: "log_ok n' \<and> commit_ok n' \<and> role n' = role n1 \<and> hs (storage n') = hs (storage n1) \<and> currentTerm n' = ?T \<and>
    (\<exists>R. is_result a ?Y ?L R n n' res \<and> (failed n1 \<longrightarrow> R = ?L))"
    unfolding n1_def
    by (rule install_snapshot_at [OF D(2) nf(1) D(3,4) leader_log_pLead [OF g] bY won(3) nf(2) f(1) r(2) pLog_match [OF g] com h f(2-4)])
  then obtain R where R: "is_result a ?Y ?L R n n' res" "failed n1 \<longrightarrow> R = ?L" by blast
  have "hard.hard_ok n1" unfolding n1_def by (rule hard.quietD [OF hard.quiet_accept [OF r(2) nf f(1)]])
  then have hsT: "\<not> failed n1 \<Longrightarrow> fst (hs (storage n')) = ?T"
    using res acceptLeader_term [OF nf(2)] by (simp add: n1_def hard.hard_ok_def)
  have raise: "pTerm g i \<le> fst (hs (storage n'))" using hs_mono [OF hard.quiet_InstallSnapshot [OF r(2) f(1) h]] D(1) by simp
  have f1: "failed n1 \<Longrightarrow> failed n'"
    using h nf by (auto simp: handleInstallSnapshot_def n1_def [symmetric] Let_def)
  let ?g2 = "g\<lparr>pTerm := (pTerm g)(i := fst (hs (storage n'))), pLog := (pLog g)(i := R)\<rparr>"
  have m12: "moves M i g ?g2"
    using R hsT won' by (intro move_to [OF g raise, of R ?T "?b"]) (auto simp: is_result_def)
  define g3 where "g3 = (if failed n' then ?g2 else with_acks ?g2 i ?T ?b)"
  have eq3: "pTerm g3 = (pTerm g)(i := fst (hs (storage n')))" "pLog g3 = (pLog g)(i := R)" "pLead g3 = pLead g" "pVotes g3 = pVotes g" "pWon g3 = pWon g"
    by (simp_all add: g3_def)
  have ok: "?b \<le> length R \<and> take ?b R = take ?b ?Y" if "\<not> failed n'"
    using R(1) that by (auto simp: is_result_def split: sum.splits)
  have m3: "moves M i ?g2 g3"
  proof (cases "failed n'")
    case False
    then have "moves M i ?g2 (with_acks ?g2 i ?T ?b)"
      using f1 hsT ok bY by (intro move_acks) auto
    then show ?thesis using False by (simp add: g3_def)
  qed (simp add: g3_def)
  have m: "moves M i g g3" by (rule moves_trans [OF g m12 m3])
  have gr: "grows g g3" using moves_pinv [OF m g] by simp
  have at: "node_at n' R" "adopts ?L (take ?b ?Y) R" using R(1) by (simp_all add: is_result_def)
  have keep: "sealed M g (pTerm g i) R (commitIndex n)" by (rule sealed_adopts [OF M g D(6) le won' at(2)])
  have seal: "sealed M g3 (pTerm g3 i) R (commitIndex n')"
  proof -
    have "sealed M g (pTerm g3 i) R (commitIndex n')"
    proof (cases "commitIndex n' = commitIndex n")
      case True
      then show ?thesis using sealed_term [OF keep raise] by (simp add: eq3)
    next
      case False
      then have c: "\<not> failed n'" "commitIndex n' = ?b"
        using R(1) by (auto simp: is_result_def max_def split: sum.splits if_splits)
      then have "sealed M g ?T R ?b" using sealed_cong [OF won(4), of R] ok by simp
      moreover have "pTerm g3 i = ?T" using c hsT f1 by (auto simp: eq3)
      ultimately show ?thesis using c by simp
    qed
    then show ?thesis by (rule sealed_grows [OF g gr])
  qed
  have mem: "mem_ok n' R"
  proof (cases "failed n'")
    case False
    then show ?thesis using node_atD [OF at(1)] mem_ok_full res by blast
  next
    case True
    then have c: "commitIndex n' = commitIndex n" "R = ?L" "nlog n' = nlog n" "lastIncludedIndex n' = lastIncludedIndex n"
      using R(1) by (auto simp: is_result_def split: sum.splits)
    then show ?thesis using mem_ok_cong [OF D(5) c(4,1)] by (simp add: entryAtLocked_def)
  qed
  have ro: "role n' = Follower" if "\<not> failed n'"
  proof -
    have "\<not> failed n1" "role n' = role n1" using that f1 res by auto
    then show ?thesis using accepted_follower [OF D(7) nf won(1,2), of ops e "isLeaderID a"] by (simp add: n1_def)
  qed
  have "node_rel M g3 i True n'"
    using at res mem seal role_rel_follower [OF ro] by (intro node_relI) (simp_all add: eq3)
  moreover have "rep_rel g3 (i, k, InstallSnapshotReq a, InstallSnapshotRep rep)" if "res = Inr rep" for rep
    using that R(1) bY with_acks_acked [of ?b ?g2 ?T i] by (auto simp: is_result_def g3_def)
  ultimately show ?thesis using m eq3(4) by blast
qed

section \<open>Votes\<close>

lemma save_fst:
  assumes "hinv (storage n)" "hfits t v"
  shows "fst (hs (storage (saveHardStateLocked ops t v n))) = t \<or>
    failed (saveHardStateLocked ops t v n) \<and> hs (storage (saveHardStateLocked ops t v n)) = hs (storage n)"
proof -
  obtain st r where st: "SaveHardState ops (storage n) t v = (st, r)" by fastforce
  show ?thesis
  proof (cases r)
    case None
    then show ?thesis using hard.save_ok [OF assms] st by (simp add: saveHardStateLocked_def Let_def)
  next
    case (Some err)
    then show ?thesis using hard.save_err [OF assms] st by (auto simp: saveHardStateLocked_def disableLocked_def Let_def)
  qed
qed

lemma node_rel_reset:
  assumes r: "node_rel M g i True n"
  shows "node_rel M g i True (resetElectionDeadlineLocked e n)"
proof -
  have s: "log_same n (resetElectionDeadlineLocked e n)" by simp
  have "same_role n (resetElectionDeadlineLocked e n)"
    by (simp add: same_role_def resetElectionDeadlineLocked_def Let_def last_index_def)
  then show ?thesis
    using s by (intro node_rel_same [OF r reset_at [OF node_relD(2) [OF r]] _
        log_same_ok [OF s node_relD(3) [OF r]] log_same_commit [OF s node_relD(4) [OF r]]]) (simp_all add: log_same_def)
qed

text \<open>Stepping down to a newer term.\<close>

lemma follower_rel:
  assumes g: "pinv M g" and r: "node_rel M g i True n" "hard.hard_ok n" and n: "\<not> failed n" "currentTerm n < t" "hfits t v"
  shows "\<exists>g'. moves M i g g' \<and> pVotes g' = pVotes g \<and> pLog g' = pLog g \<and> pWon g' = pWon g \<and> pCand g' = pCand g \<and>
    node_rel M g' i True (becomeFollowerLocked ops t n)"
proof -
  have f: "hfits t []" by (rule hard.fits_nobody [OF n(3)])
  have "hard.quiet n (becomeFollowerLocked ops t n)" using hard.quiet_follower [OF r(2) n(1) f] n(2) by blast
  then have "pTerm g i \<le> fst (hs (storage (becomeFollowerLocked ops t n)))" using hs_mono node_relD(1) [OF r(1)] by metis
  then show ?thesis
    using node_rel_lowered [OF r(1) g follower_at [OF node_relD(2) [OF r(1)] n(1) f] becomeFollowerLocked_same] by fastforce
qed

lemma rv_rel:
  assumes g: "pinv M g" and r: "node_rel M g i True n" "hard.hard_ok n"
    and X: "rvLastLogIndex a = length X" "rvLastLogTerm a = lastT X"
    and f: "hfits (rvTerm a) (rvCandidateID a)"
    and h: "handleRequestVote ops e a n = Some (n', res)"
  shows "\<exists>g'. moves M i g g' \<and> pVotes g' = pVotes g \<and> pWon g' = pWon g \<and> pCand g' = pCand g \<and> node_rel M g' i True n' \<and>
    (\<forall>rep. res = Inr rep \<longrightarrow> rrVoteGranted rep \<longrightarrow> pTerm g' i = rvTerm a \<and> up_to_date X (pLog g' i))"
proof (cases "failed n")
  case True
  then show ?thesis using h r(1) by (intro exI [of _ g]) (auto simp: handleRequestVote_def)
next
  case nf: False
  define n1 where "n1 = (if rvTerm a > currentTerm n then becomeFollowerLocked ops (rvTerm a) n else n)"
  have hq: "hard.quiet n n1"
    unfolding n1_def using hard.quiet_follower [OF r(2) nf f] hard.quiet_refl [OF r(2)] by auto
  note ok1 = hard.quietD [OF hq]
  obtain g1 where g1: "moves M i g g1" "pVotes g1 = pVotes g" "pWon g1 = pWon g" "pCand g1 = pCand g" "node_rel M g1 i True n1"
  proof (cases "rvTerm a > currentTerm n")
    case True
    then show thesis using follower_rel [OF g r nf True f] that by (auto simp: n1_def)
  next
    case False
    then show thesis using that [of g] r(1) by (simp add: n1_def)
  qed
  note D = node_relD [OF g1(5)]
  define n2 where "n2 = saveHardStateLocked ops (currentTerm n1) (rvCandidateID a) n1"
  consider (same) "n' = n1" "\<And>rep. res = Inr rep \<Longrightarrow> \<not> rrVoteGranted rep"
    | (save) "\<not> failed n1" "rvTerm a = currentTerm n1" "n' = n2 \<or> n' = resetElectionDeadlineLocked e n2" "res = Inl (failErr n2) \<and> failed n2 \<or> \<not> failed n2"
      "candidateLogUpToDateLocked n1 (rvLastLogIndex a) (rvLastLogTerm a) = Some True"
  proof -
    have t1: "rvTerm a \<le> currentTerm n1" by (simp add: n1_def)
    show thesis
      using h nf t1 same save unfolding handleRequestVote_def n1_def [symmetric] Let_def n2_def
      by (auto split: if_splits)
  qed
  then show ?thesis
  proof cases
    case same
    then show ?thesis using g1 by (intro exI [of _ g1]) auto
  next
    case save
    have fv: "hfits (currentTerm n1) (rvCandidateID a)" using f save(2) by simp
    have at2: "node_at n2 (pLog g1 i)" unfolding n2_def by (rule save_at [OF D(2) save(1) fv])
    have i1: "hinv (storage n1)" "fst (hs (storage n1)) = currentTerm n1" using ok1 save(1) by (auto simp: hard.hard_ok_def)
    then have hs2: "fst (hs (storage n2)) = fst (hs (storage n1))" using save_fst [OF i1(1) fv] by (auto simp: n2_def)
    have sm: "log_same n1 n2" unfolding n2_def by (rule saveHardStateLocked_same) simp
    have "same_role n1 n2" using save(1) sm
      by (auto simp: same_role_def n2_def saveHardStateLocked_def disableLocked_def Let_def last_index_def split: prod.splits option.splits)
    then have r2: "node_rel M g1 i True n2"
      using sm by (intro node_rel_same [OF g1(5) at2 hs2 log_same_ok [OF sm D(3)] log_same_commit [OF sm D(4)]]) (auto simp: log_same_def)
    then have "node_rel M g1 i True n'" using save(3) node_rel_reset by blast
    moreover have "up_to_date X (pLog g1 i)"
      using full_up_to_date [OF _ save(5) [unfolded X] D(3)] node_atD [OF D(2) save(1)] by simp
    moreover have "pTerm g1 i = rvTerm a" using D(1) i1(2) save(2) by simp
    ultimately show ?thesis using g1 by blast
  qed
qed

lemma node_rel_votes [simp]: "node_rel M (g\<lparr>pVotes := V\<rparr>) i up n = node_rel M g i up n"
  by (simp add: node_rel_def live_def sealed_def committed_def role_rel_def standing_def leading_def acked_def)

lemma move_vote:
  "pTerm g i = U \<Longrightarrow> pWon g U = None \<Longrightarrow> pCand g k U = Some X \<Longrightarrow> (\<forall>a. (i, U, a) \<in> pVotes g \<longrightarrow> a = k) \<Longrightarrow>
   up_to_date X (pLog g i) \<Longrightarrow> moves M i g (g\<lparr>pVotes := insert (i, U, k) (pVotes g)\<rparr>)"
  by (rule moves_step [OF vote]) (simp_all add: frame_def)

end

end
