(* ===== verification/Raft_Progress.thy ===== *)
theory Raft_Progress
  imports Raft_Simulation
begin

text \<open>
  The simulation, continued: starting and winning an election, committing, proposing, the replies
  a leader digests, snapshots of its own, restarts.
\<close>

context log_storage
begin

section \<open>Elections\<close>

lemma last_log_info:
  assumes "node_at n L" "\<not> failed n" "log_ok n"
  shows "lastLogInfoLocked n = Some (length L, lastT L)"
  using lastLogInfoLocked_ok [OF assms(3)] node_atD [OF assms(1,2)] full_lastT fullD(4) by metis

lemma se_rel:
  assumes g: "pinv M g" and r: "node_rel M g i True n" "hard.hard_ok n"
    and n: "nid n = i" "i \<noteq> []" "\<not> failed n \<Longrightarrow> hfits (currentTerm n + 1) (nid n)"
    and h: "startElection ops e n = Some (n', res)"
  shows "\<exists>g'. moves M i g g' \<and> node_rel M g' i True n' \<and>
    (case res of None \<Rightarrow> pVotes g' = pVotes g
     | Some args \<Rightarrow> pVotes g' = insert (i, rvTerm args, i) (pVotes g) \<and> (\<forall>p. req_rel M g' (i, p, RequestVoteReq args)))"
proof (cases "failed n")
  case True
  then have "n' = n" "res = None" using h by (auto simp: startElection_def)
  then show ?thesis using r(1) by (intro exI [of _ g]) simp
next
  case nf: False
  define n0 where "n0 = n\<lparr>role := Candidate, leaderID := []\<rparr>"
  define n1 where "n1 = saveHardStateLocked ops (currentTerm n + 1) (nid n) n0"
  have f: "hfits (currentTerm n + 1) (nid n)" using n(3) nf by blast
  note D = node_relD [OF r(1)]
  have bc: "becomeCandidateLocked ops e n = (if failed n1 then n1 else resetElectionDeadlineLocked e n1)"
    by (simp add: becomeCandidateLocked_def Let_def n0_def n1_def)
  have i0: "hinv (storage n0)" using r(2) by (simp add: hard.hard_ok_def n0_def)
  have at0: "node_at n0 (pLog g i)" by (rule node_at_cong [OF D(2)]) (simp_all add: n0_def)
  have at1: "node_at n1 (pLog g i)" unfolding n1_def by (rule save_at [OF at0 _ f]) (simp add: nf n0_def)
  have sm0: "log_same n n0" by (simp add: log_same_def n0_def)
  then have sm: "log_same n n1" unfolding n1_def by (rule log_same_trans) (rule saveHardStateLocked_same, simp add: n0_def)
  have t: "pTerm g i = currentTerm n" using working_term [OF r nf] by simp
  note hs1 = save_fst [OF i0 f, folded n1_def]
  have o1: "role n1 = Candidate" "currentTerm n1 = currentTerm n + 1" by (simp_all add: n1_def n0_def)
  show ?thesis
  proof (cases "failed n1")
    case True
    then have e: "n' = n1" "res = None" using h nf bc by (auto simp: startElection_def Let_def)
    have "pTerm g i \<le> fst (hs (storage n1))" using hs1 D(1) t by (auto simp: n0_def)
    then obtain g' where "moves M i g g'" "pVotes g' = pVotes g" "node_rel M g' i True n1"
      using node_rel_lowered [OF r(1) g at1 sm] True by blast
    then show ?thesis using e by auto
  next
    case False
    define n2 where "n2 = resetElectionDeadlineLocked e n1"
    let ?U = "Suc (pTerm g i)" and ?L = "pLog g i"
    let ?g = "g\<lparr>pTerm := (pTerm g)(i := ?U), pCand := (pCand g)(i := (pCand g i)(?U \<mapsto> ?L)),
      pVotes := insert (i, ?U, i) (pVotes g)\<rparr>"
    have m: "moves M i g ?g" by (rule moves_step [OF campaign]) (simp_all add: frame_def)
    have gr: "grows g ?g" using moves_pinv [OF m g] by simp
    have hsU: "fst (hs (storage n1)) = ?U" using hs1 False t by simp
    have "pWon g ?U \<noteq> Some i"
    proof
      assume "pWon g ?U = Some i"
      then obtain X where "pCand g i ?U = Some X" using pinvD(3) [OF g] unfolding inv_leaders_def by blast
      then show False using inv_logsD(8) [OF pinvD(1) [OF g], of i ?U X] by simp
    qed
    then have "role_rel ?g i n1" using o1 t by (simp add: role_rel_def standing_def)
    moreover have eq: "lastIncludedIndex n1 = lastIncludedIndex n" "commitIndex n1 = commitIndex n" "nlog n1 = nlog n"
      using sm by (simp_all add: log_same_def)
    moreover have "mem_ok n1 ?L"
      by (rule mem_ok_cong [OF D(5) eq(1,2)]) (simp_all add: entryAtLocked_def eq)
    moreover have "sealed M ?g ?U ?L (commitIndex n1)"
      using sealed_term [OF sealed_grows [OF g gr D(6)], of ?U] eq by simp
    ultimately have "node_rel M ?g i True n1"
      using at1 hsU log_same_ok [OF sm D(3)] log_same_commit [OF sm D(4)] by (intro node_relI) simp_all
    then have rel: "node_rel M ?g i True n2" unfolding n2_def by (rule node_rel_reset)
    have nf2: "\<not> failed n2" using False by (simp add: n2_def)
    have "node_at n2 ?L" "log_ok n2" using node_relD(2,3) [OF rel] by simp_all
    note li = last_log_info [OF this(1) nf2 this(2)]
    have e: "n' = n2" "res = Some \<lparr>rvTerm = currentTerm n2, rvCandidateID = nid n2, rvLastLogIndex = length ?L, rvLastLogTerm = lastT ?L\<rparr>"
      using h nf bc False nf2 li by (auto simp: startElection_def Let_def n2_def [symmetric])
    have "currentTerm n2 = ?U" using o1 t by (simp add: n2_def)
    then show ?thesis using m rel e by (intro exI [of _ ?g]) simp
  qed
qed

lemma win_rel:
  assumes g: "pinv M g" and r: "node_rel M g i True n" "hard.hard_ok n"
    and n: "\<not> failed n" "role n = Candidate" and h: "becomeLeaderLocked n = Some n'"
    and w: "pWon g (currentTerm n) = None" "quorum M Q" "\<forall>j \<in> Q. (j, currentTerm n, i) \<in> pVotes g"
  shows "\<exists>g'. moves M i g g' \<and> pVotes g' = pVotes g \<and> node_rel M g' i True n'"
proof -
  let ?T = "currentTerm n" and ?L = "pLog g i"
  note D = node_relD [OF r(1)]
  have c: "pCand g i ?T = Some ?L" using D(7) n by (simp add: role_rel_def standing_def)
  let ?g = "g\<lparr>pWon := (pWon g)(?T \<mapsto> i), pLead := (pLead g)(?T := ?L)\<rparr>"
  have m: "moves M i g ?g" using w by (intro moves_step [OF win [OF w(1) c w(2,3)]]) (simp add: frame_def)
  have gr: "grows g ?g" using moves_pinv [OF m g] by simp
  obtain n2 where b: "becomeLeaderLocked n = Some n2" "log_same n n2" "role n2 = Leader" "currentTerm n2 = ?T" "storage n2 = storage n"
    "failed n2 = failed n" "progress_ok n2" "\<forall>p \<in> set (peers n). map_get (matchIndex n2) p = 0"
    using becomeLeaderLocked_ok [OF D(3)] by blast
  then have n': "n2 = n'" using h by simp
  note b = b(2-) [unfolded n']
  have eq: "lastIncludedIndex n' = lastIncludedIndex n" "commitIndex n' = commitIndex n" "nlog n' = nlog n" "peers n' = peers n"
    using b(1) by (simp_all add: log_same_def)
  have "mem_ok n' ?L" by (rule mem_ok_cong [OF D(5) eq(1,2)]) (simp_all add: entryAtLocked_def eq)
  moreover have "node_at n' ?L" using b by (intro log_same_node_at [OF D(2)]) simp_all
  moreover have "role_rel ?g i n'" using b eq by (simp add: role_rel_def leading_def acked_def)
  moreover have "sealed M ?g (pTerm g i) ?L (commitIndex n')" using sealed_grows [OF g gr D(6)] eq by simp
  ultimately have "node_rel M ?g i True n'"
    using D(1) b log_same_ok [OF b(1) D(3)] log_same_commit [OF b(1) D(4)] by (intro node_relI) simp_all
  then show ?thesis using m by (intro exI [of _ ?g]) simp
qed

section \<open>Committing\<close>

definition group_of :: "node_id set \<Rightarrow> node_id \<Rightarrow> 's Node \<Rightarrow> bool" where
  "group_of M i n \<longleftrightarrow> finite M \<and> odd (card M) \<and> i \<in> M \<and> distinct (peers n) \<and> set (peers n) = M - {i}"

lemma replica_quorum:
  assumes m: "group_of M i n" and c: "replica_count n c \<ge> majority (peers n)"
  shows "quorum M (insert i {p \<in> set (peers n). c \<le> map_get (matchIndex n) p})"
proof -
  let ?F = "filter (\<lambda>p. c \<le> map_get (matchIndex n) p) (peers n)"
  have "length (peers n) = card M - 1" using m distinct_card [of "peers n"] by (simp add: group_of_def)
  moreover have "0 < card M" using m card_gt_0_iff by (auto simp: group_of_def)
  ultimately have "card M < 2 * majority (peers n)" using m by (auto simp: majority_def group_of_def elim!: oddE)
  moreover have "card (set ?F) = length ?F" using m distinct_card [of ?F] by (simp add: group_of_def)
  moreover have "i \<notin> set ?F" using m by (simp add: group_of_def)
  ultimately have "card M < 2 * card (insert i (set ?F))" using c by (simp add: replica_count_def)
  moreover have "insert i (set ?F) \<subseteq> M" using m by (auto simp: group_of_def)
  ultimately show ?thesis by (simp add: quorum_def)
qed

lemma advance_rel:
  assumes g: "pinv M g" and r: "node_rel M g i True n" "hard.hard_ok n" and m: "group_of M i n" and nf: "\<not> failed n"
    and h: "maybeAdvanceCommitLocked n = Some n'"
  shows "\<exists>g'. moves M i g g' \<and> pVotes g' = pVotes g \<and> node_rel M g' i True n'"
proof -
  note D = node_relD [OF r(1)]
  obtain c where c: "n' = (if c = commitIndex n then n else notifyApply (n\<lparr>commitIndex := c\<rparr>))"
    "c = commitIndex n \<or> role n = Leader \<and> committable n c"
    using maybeAdvance_spec [OF D(3,4)] h by auto
  show ?thesis
  proof (cases "c = commitIndex n")
    case True
    then show ?thesis using c r(1) by (intro exI [of _ g]) simp
  next
    case False
    let ?T = "currentTerm n" and ?L = "pLog g i"
    have co: "role n = Leader" "commitIndex n < c" "c \<le> last_index n" "termAtLocked n c = Some ?T" "replica_count n c \<ge> majority (peers n)"
      using c(2) False by (simp_all add: committable_def)
    have ld: "pWon g ?T = Some i" "pLead g ?T = ?L" "progress_ok n" "\<forall>p \<in> set (peers n). acked g p ?T (map_get (matchIndex n) p)"
      using D(7) nf co(1) by (simp_all add: role_rel_def leading_def)
    have fl: "full n ?L" "lastIncludedIndex n \<le> commitIndex n" using node_atD [OF D(2) nf] D(4) by (simp_all add: commit_ok_def)
    have cl: "c \<le> length ?L" using co(3) fullD(4) [OF fl(1)] by simp
    then have tc: "tm ?L c = ?T" using full_term [OF fl(1), of c] co(2,4) fl(2) by simp
    have T: "pTerm g i = ?T" using working_term [OF r nf] by simp
    define g1 where "g1 = with_acks g i ?T c"
    have mv: "moves M i g g1" unfolding g1_def by (rule move_acks [OF T]) (use ld cl in simp_all)
    have gr: "grows g g1" using moves_pinv [OF mv g] by simp
    have eq: "pTerm g1 = pTerm g" "pLog g1 = pLog g" "pLead g1 = pLead g" "pWon g1 = pWon g" "pVotes g1 = pVotes g" by (simp_all add: g1_def)
    have "(p, ?T, c) \<in> pAcks g1" if "p = i \<or> p \<in> set (peers n) \<and> c \<le> map_get (matchIndex n) p" for p
    proof (cases "p = i")
      case True
      then show ?thesis using co(2) tc ld(2) by (simp add: g1_def with_acks_def)
    next
      case False
      then have "(p, ?T, c) \<in> pAcks g" using that ld(2,4) co(2) tc by (auto simp: acked_def)
      then show ?thesis using growsD(5) [OF gr] by blast
    qed
    then have "committed M g1 ?T c" unfolding committed_def using replica_quorum [OF m co(5)] by blast
    then have "sealed M g1 (pTerm g1 i) ?L c" using cl ld(2) unfolding sealed_def eq T by (metis order_refl)
    moreover have n': "n' = notifyApply (n\<lparr>commitIndex := c\<rparr>)" using c(1) False by simp
    moreover have ok: "log_ok n'" "commit_ok n'" using maybeAdvance_ok [OF D(3,4)] h by auto
    moreover have "mem_ok n' ?L" using ok fl(1) by (intro mem_ok_full) (simp_all add: n' notifyApply_def full_def)
    moreover have "node_at n' ?L" by (rule node_at_cong [OF D(2)]) (simp_all add: n' notifyApply_def)
    moreover have "role_rel g1 i n'"
      using ld co(1) acked_grows [OF gr] by (simp add: role_rel_def leading_def eq n' notifyApply_def progress_ok_def last_index_def)
    ultimately have "node_rel M g1 i True n'" using D(1) by (intro node_relI) (simp_all add: eq notifyApply_def)
    then show ?thesis using mv eq by blast
  qed
qed

section \<open>Replies\<close>

lemma note_rel:
  assumes r: "node_rel M g i True n" and n: "role n = Leader" "\<not> failed n" and a: "acked g p (currentTerm n) m"
  shows "node_rel M g i True (noteMatch p m n)"
proof -
  note D = node_relD [OF r]
  have ld: "pWon g (currentTerm n) = Some i" "pLead g (currentTerm n) = pLog g i" "progress_ok n"
    "\<forall>q \<in> set (peers n). acked g q (currentTerm n) (map_get (matchIndex n) q)"
    using D(7) n by (simp_all add: role_rel_def leading_def)
  have "m \<le> last_index n" using a ld(2) fullD(4) [of n "pLog g i"] node_atD [OF D(2) n(2)] by (simp add: acked_def)
  note ok = noteMatch_ok [OF D(3,4) ld(3) this, of p]
  have "node_at (noteMatch p m n) (pLog g i)" by (rule node_at_cong [OF D(2)]) simp_all
  moreover have "mem_ok (noteMatch p m n) (pLog g i)"
    by (rule mem_ok_cong [OF D(5)]) (simp_all add: entryAtLocked_def)
  moreover have "role_rel g i (noteMatch p m n)"
    using ld ok(3) a by (simp add: role_rel_def leading_def noteMatch_match max_def n)
  ultimately show ?thesis using D ok by (intro node_relI) simp_all
qed

lemma ar_rel:
  assumes g: "pinv M g" and r: "node_rel M g i True n" "hard.hard_ok n" and m: "group_of M i n" and f: "hfits (arTerm rep) v"
    and q: "rep_rel g (j, i, AppendEntriesReq a, AppendEntriesRep rep)"
    and h: "appendReply ops j (aeTerm a) (aePrevLogIndex a) (length (aeEntries a)) rep n = Some n'"
  shows "\<exists>g'. moves M i g g' \<and> pVotes g' = pVotes g \<and> node_rel M g' i True n'"
proof -
  note D = node_relD [OF r(1)]
  consider "n' = n" | (newer) "\<not> failed n" "currentTerm n < arTerm rep" "n' = becomeFollowerLocked ops (arTerm rep) n"
    | (lead) "\<not> failed n" "role n = Leader" "currentTerm n = aeTerm a" "arTerm rep \<le> currentTerm n"
    using h by (auto simp: appendReply_def split: if_splits)
  then show ?thesis
  proof cases
    case 1
    then show ?thesis using r(1) by (intro exI [of _ g]) simp
  next
    case newer
    then show ?thesis using follower_rel [OF g r newer(1,2) f] by blast
  next
    case lead
    have ld: "pWon g (currentTerm n) = Some i" "pLead g (currentTerm n) = pLog g i" "progress_ok n"
      "\<forall>q \<in> set (peers n). acked g q (currentTerm n) (map_get (matchIndex n) q)"
      using D(7) lead by (simp_all add: role_rel_def leading_def)
    show ?thesis
    proof (cases "arSuccess rep")
      case True
      then have h': "maybeAdvanceCommitLocked (noteMatch j (ae_end a) n) = Some n'"
        using h lead by (simp add: appendReply_def ae_end_def)
      have "acked g j (currentTerm n) (ae_end a)" using q True lead(3) by simp
      note nr = note_rel [OF r(1) lead(2,1) this]
      have "hard.hard_ok (noteMatch j (ae_end a) n)" by (rule hard.quietD [OF hard.quiet_noteMatch [OF r(2)]])
      then show ?thesis using advance_rel [OF g nr _ _ _ h'] m lead(1) by (simp add: group_of_def)
    next
      case False
      then have n': "n' = backUp j rep n" using h lead by (simp add: appendReply_def)
      have "last_index n = length (pLog g i)" using fullD(4) node_atD [OF D(2) lead(1)] by blast
      then have "arConflictIndex rep \<le> last_index n + 1" using q False lead ld(2) by simp
      then obtain n2 where "appendReply ops j (aeTerm a) (aePrevLogIndex a) (length (aeEntries a)) rep n = Some n2" "log_ok n2" "commit_ok n2" "progress_ok n2"
        using appendReply_ok [OF D(3,4) ld(3), of rep "aeTerm a" "aePrevLogIndex a" "length (aeEntries a)" ops j] False by blast
      then have ok: "log_ok n'" "commit_ok n'" "progress_ok n'" using h by simp_all
      have "node_at n' (pLog g i)" unfolding n' by (rule node_at_cong [OF D(2)]) simp_all
      moreover have "mem_ok n' (pLog g i)" unfolding n' by (rule mem_ok_cong [OF D(5)]) (simp_all add: entryAtLocked_def)
      moreover have "role_rel g i n'" using ld ok(3) by (simp add: role_rel_def leading_def n' lead)
      ultimately show ?thesis using D ok by (intro exI [of _ g] conjI node_relI) (simp_all add: n')
    qed
  qed
qed

lemma sr_rel:
  assumes g: "pinv M g" and r: "node_rel M g i True n" "hard.hard_ok n" and m: "group_of M i n" and f: "hfits (irTerm rep) v"
    and q: "rep_rel g (j, i, InstallSnapshotReq a, InstallSnapshotRep rep)"
    and h: "snapshotReply ops j (isTerm a) (isLastIncludedIndex a) rep n = Some n'"
  shows "\<exists>g'. moves M i g g' \<and> pVotes g' = pVotes g \<and> node_rel M g' i True n'"
proof -
  consider "n' = n" | (newer) "\<not> failed n" "currentTerm n < irTerm rep" "n' = becomeFollowerLocked ops (irTerm rep) n"
    | (lead) "\<not> failed n" "role n = Leader" "currentTerm n = isTerm a" "irTerm rep \<le> currentTerm n"
      "maybeAdvanceCommitLocked (noteMatch j (isLastIncludedIndex a) n) = Some n'"
    using h by (auto simp: snapshotReply_def split: if_splits)
  then show ?thesis
  proof cases
    case 1
    then show ?thesis using r(1) by (intro exI [of _ g]) simp
  next
    case newer
    then show ?thesis using follower_rel [OF g r newer(1,2) f] by blast
  next
    case lead
    have "acked g j (currentTerm n) (isLastIncludedIndex a)" using q lead by simp
    note nr = note_rel [OF r(1) lead(2,1) this]
    have "hard.hard_ok (noteMatch j (isLastIncludedIndex a) n)" by (rule hard.quietD [OF hard.quiet_noteMatch [OF r(2)]])
    then show ?thesis using advance_rel [OF g nr _ _ _ lead(5)] m lead(1) by (simp add: group_of_def)
  qed
qed

section \<open>Proposals and snapshots\<close>

lemma leading_node:
  assumes r: "node_rel M g i True n" "hard.hard_ok n" and n: "\<not> failed n" "role n = Leader"
  shows "pWon g (currentTerm n) = Some i" "pLead g (currentTerm n) = pLog g i" "pTerm g i = currentTerm n"
    "full n (pLog g i)" "last_index n = length (pLog g i)" "leading g i n"
  using node_relD(7) [OF r(1)] n working_term(1) [OF r n(1)] node_atD [OF node_relD(2) [OF r(1)] n(1)] fullD(4) [of n "pLog g i"]
  by (simp_all add: role_rel_def leading_def)

lemma propose_rel:
  assumes g: "pinv M g" and r: "node_rel M g i True n" "hard.hard_ok n" and m: "group_of M i n"
    and f: "\<forall>x \<in> set (nlog n'). efits x" and h: "Propose ops command n = Some (n', rest)"
  shows "\<exists>g'. moves M i g g' \<and> pVotes g' = pVotes g \<and> node_rel M g' i True n'"
proof (cases "failed n \<or> role n \<noteq> Leader")
  case True
  then have "n' = n" using h by (auto simp: Propose_def)
  then show ?thesis using r(1) by (intro exI [of _ g]) simp
next
  case False
  then have nf: "\<not> failed n" "role n = Leader" by simp_all
  let ?T = "currentTerm n" and ?L = "pLog g i"
  note D = node_relD [OF r(1)] and ld = leading_node [OF r nf]
  let ?x = "\<lparr>eTerm = ?T, eIndex = last_index n + 1, eCommand = command\<rparr>"
  define n1 where "n1 = appendLogLocked ops [?x] n"
  have n': "n' = n1 \<and> failed n1 \<or> \<not> failed n1 \<and> maybeAdvanceCommitLocked n1 = Some n'"
    using h nf lastIndexLocked_ok [OF D(3)] by (cases rest) (auto simp: Propose_def Let_def n1_def split: if_splits)
  have w: "log_write n (nlog n @ [?x]) n1" unfolding n1_def by (rule appendLogLocked_write)
  note ok = log_ok_append_current [OF D(3) w] 
  have ok1: "log_ok n1" "commit_ok n1" "last_index n1 = last_index n + 1" using ok D(4) by simp_all
  have "nlog n' = nlog n1" using n' maybeAdvance_ok [OF ok1(1,2)] by auto
  then have "efits ?x" using f log_writeD(1) [OF w] by simp
  then obtain j where j: "stores (?L @ take j [?x]) (storage n1)" "bound (storage n1) = lastIncludedIndex n"
    "\<not> failed n1 \<longrightarrow> length [?x] \<le> j \<and> synced n1 \<and> full n1 (?L @ [?x])"
    using append_at [OF D(2) nf(1), of "[?x]"] ld(5) unfolding n1_def by auto
  define R where "R = ?L @ take j [?x]"
  have Rc: "R = ?L \<or> R = ?L @ [?x]" by (cases j) (simp_all add: R_def)
  let ?g1 = "g\<lparr>pLead := (pLead g)(?T := pLead g ?T @ [?x])\<rparr>"
  let ?g2 = "?g1\<lparr>pLog := (pLog g)(i := R)\<rparr>"
  have m1: "moves M i g ?g1"
    by (rule moves_step [OF extend]) (use ld in \<open>auto simp: frame_def\<close>)
  have "adopts ?L (?L @ [?x]) R" using Rc by (auto simp: adopts_def prefix_def)
  then have "moves M i ?g1 (?g1\<lparr>pLog := (pLog ?g1)(i := R)\<rparr>)"
    using ld by (intro move_adopt [where p = "Suc (length ?L)"]) simp_all
  then have mv: "moves M i g ?g2" using moves_trans [OF g m1] by simp
  note g2 = moves_pinv [OF mv g]
  have c: "commitIndex n \<le> length ?L" by (rule sealed_length [OF D(6)])
  have tk: "take (commitIndex n) R = take (commitIndex n) ?L" using c by (simp add: R_def)
  have hs1: "hs (storage n1) = hs (storage n)"
  proof -
    obtain st res where st: "AppendLog ops (storage n) [?x] = (st, res)" by fastforce
    have "hinv (storage n)" using r(2) by (simp add: hard.hard_ok_def)
    then show ?thesis using hard.append_hs [OF _ st] st
      by (cases res) (auto simp: n1_def appendLogLocked_def disableLocked_def Let_def)
  qed
  have "node_at n1 R"
    using j log_writeD(5) [OF w] by (auto simp: node_at_def R_def)
  moreover have "mem_ok n1 R"
  proof (rule mem_ok_cong [OF D(5) log_writeD(5,7) [OF w] _ tk])
    fix k assume k: "lastIncludedIndex n \<le> k" "k \<le> commitIndex n"
    then have "k - lastIncludedIndex n < length (nlog n)" using fullD(1,3) [OF ld(4)] c by simp
    then show "entryAtLocked n1 k = entryAtLocked n k" using log_writeD(1,5) [OF w] by (simp add: entryAtLocked_def nth_append)
  qed
  moreover have "sealed M ?g2 (pTerm g i) R (commitIndex n1)"
    using sealed_cong [OF sealed_grows [OF g _ D(6)], of ?g2 R] g2 c tk log_writeD(7) [OF w] by (simp add: R_def)
  moreover have "role_rel ?g2 i n1"
  proof -
    have "leading ?g2 i n1" if nf1: "\<not> failed n1"
    proof -
      have "R = ?L @ [?x]" using j(3) nf1 by (simp add: R_def)
      moreover have "progress_ok n1"
        using ld(6) nf(2) log_writeD(4,9,13,14) [OF w] ok1(3) by (auto simp: leading_def progress_ok_def)
      ultimately show ?thesis using ld(6) log_writeD(2,9,13) [OF w] acked_grows [of g ?g2] g2 ld(2)
        by (simp add: leading_def)
    qed
    then show ?thesis using log_writeD(4) [OF w] nf(2) by (simp add: role_rel_def)
  qed
  ultimately have rel: "node_rel M ?g2 i True n1" using hs1 D(1) ok1 by (intro node_relI) simp_all
  show ?thesis
  proof (cases "failed n1")
    case True
    then show ?thesis using n' mv rel by (intro exI [of _ ?g2]) simp
  next
    case False
    have h1: "hard.hard_ok n1" unfolding n1_def by (rule hard.quietD [OF hard.quiet_append [OF r(2)]])
    have "group_of M i n1" using m log_writeD(9) [OF w] by (simp add: group_of_def)
    then obtain g' where g': "moves M i ?g2 g'" "pVotes g' = pVotes ?g2" "node_rel M g' i True n'"
      using advance_rel [OF conjunct1 [OF g2] rel h1 _ False] n' False by blast
    have "moves M i g g'" by (rule moves_trans [OF g mv g'(1)])
    then show ?thesis using g' by (intro exI [of _ g']) simp
  qed
qed

lemma Snapshot_hs:
  assumes "hinv (storage n)" "Snapshot ops k d n = Some (n', r)"
  shows "hs (storage n') = hs (storage n)"
proof -
  have hs: "hs (fst (SaveSnapshot ops (storage n) k t d)) = hs (storage n)" for t
    using hard.snapshot_hs [OF assms(1) prod.collapse [symmetric]] by blast
  show ?thesis
    using assms(2) by (auto simp: Snapshot_def Let_def case_prod_beta disableLocked_def hs split: if_splits option.splits)
qed

lemma take_rel:
  assumes r: "node_rel M g i True n" "hard.hard_ok n"
    and f: "fits (CallSaveSnapshot (lastIncludedIndex n') (lastIncludedTerm n') (snapshotData n'))" "\<not> snapshot_fault n'"
    and h: "Snapshot ops k d n = Some (n', res)"
  shows "node_rel M g i True n'"
proof (cases "failed n")
  case True
  then show ?thesis using h r(1) by (simp add: Snapshot_def)
next
  case nf: False
  note D = node_relD [OF r(1)]
  have s: "node_at n' (pLog g i)" "commitIndex n' = commitIndex n" "role n' = role n" "currentTerm n' = currentTerm n"
    "matchIndex n' = matchIndex n" "nextIndex n' = nextIndex n" "peers n' = peers n" "last_index n' = last_index n"
    "failed n' \<Longrightarrow> nlog n' = nlog n \<and> lastIncludedIndex n' = lastIncludedIndex n"
    using Snapshot_at [OF D(2) nf D(3,4) h f] by auto
  have ok: "log_ok n'" "commit_ok n'" using Snapshot_ok [OF D(3,4), of ops k d] h by auto
  have "hs (storage n') = hs (storage n)" using Snapshot_hs [OF _ h] r(2) by (simp add: hard.hard_ok_def)
  moreover have "mem_ok n' (pLog g i)"
  proof (cases "failed n'")
    case True
    then show ?thesis using s(2,9) by (intro mem_ok_cong [OF D(5)]) (simp_all add: entryAtLocked_def)
  next
    case False
    then show ?thesis using node_atD [OF s(1)] ok(2) mem_ok_full by blast
  qed
  moreover have "same_role n n'" using nf s by (simp add: same_role_def)
  ultimately show ?thesis using D s ok role_rel_same [OF D(7)] by (intro node_relI) simp_all
qed

section \<open>The rest\<close>

lemma apply_rel:
  assumes r: "node_rel M g i True n" and a: "apply_frame n n'"
  shows "node_rel M g i True n'"
proof -
  note D = node_relD [OF r]
  obtain x p c w where n': "n' = n\<lparr>lastApplied := x, pendingSnapshot := p, applyCh := c, applyWake := w\<rparr>"
    using a by (auto simp: apply_frame_def)
  have "node_at n' (pLog g i)" by (rule node_at_cong [OF D(2)]) (simp_all add: n')
  moreover have "same_role n n'" by (simp add: same_role_def n' last_index_def)
  ultimately show ?thesis
    using node_rel_same [OF r _ _ apply_frame_ok(1) [OF a D(3)] apply_frame_ok(2) [OF a D(4)]] by (simp add: n')
qed

text \<open>Timers, the snapshot signal, the reader of the apply channel.\<close>

lemma timer_rel:
  assumes r: "node_rel M g i True n"
    and n': "n' = n\<lparr>nextHeartbeat := h, lastSnapshotRequestedAt := l, snapshotTriggerCh := t, applyCh := c\<rparr>"
  shows "node_rel M g i True n'"
proof -
  note D = node_relD [OF r]
  have "node_at n' (pLog g i)" by (rule node_at_cong [OF D(2)]) (simp_all add: n')
  moreover have "log_ok n'" by (rule log_ok_cong [OF _ _ _ _ D(3)]) (simp_all add: n')
  moreover have "commit_ok n'" by (rule commit_ok_cong [OF _ _ _ _ D(4)]) (simp_all add: n')
  moreover have "same_role n n'" by (simp add: same_role_def n' last_index_def)
  ultimately show ?thesis using node_rel_same [OF r] by (simp add: n')
qed

lemma restart_rel:
  assumes g: "pinv M g" and r: "node_rel M g i False m" and h: "NewNode ops e cfg (storage m) = Some (st, res)" "hinv (storage m)"
  shows "case res of Inr n \<Rightarrow> node_rel M g i True n | Inl err \<Rightarrow> node_rel M g i False (m\<lparr>storage := st\<rparr>)"
proof -
  have D: "pTerm g i = fst (hs (storage m))" "stores (pLog g i) (storage m)" "sealed M g (pTerm g i) (pLog g i) (bound (storage m))"
    using r unfolding node_rel_def if_False simp_thms by blast+
  have L: "indexed 1 (pLog g i)" "terms_sorted (pLog g i)" "\<And>x. x \<in> set (pLog g i) \<Longrightarrow> eTerm x \<le> fst (hs (storage m))"
    using inv_logsD(1) [OF pinvD(1) [OF g], of i] inv_logsD(2) [OF pinvD(1) [OF g], of _ i] D(1) by (auto simp: anchored_def)
  note new = NewNode_at [OF D(2) L h(1)]
  have hs: "hs st = hs (storage m)" using hard.NewNode_hard [OF h(2,1)] by blast
  show ?thesis
  proof (cases res)
    case (Inl err)
    then show ?thesis using new hs D by (simp add: node_rel_def)
  next
    case (Inr n)
    then have n: "storage n = st" "\<not> failed n" "node_at n (pLog g i)" "log_ok n" "commit_ok n" "commitIndex n = bound (storage m)"
      "lastIncludedIndex n = bound (storage m)" "role n = Follower" using new by simp_all
    have "mem_ok n (pLog g i)" using n(6,7) by (simp add: mem_ok_def)
    then have "node_rel M g i True n" using n hs D role_rel_follower [of n g i] by (intro node_relI) simp_all
    then show ?thesis using Inr by simp
  qed
qed

lemma crash_rel: "node_rel M g i True n \<Longrightarrow> node_rel M g i False n"
  using sealed_le [of M g "pTerm g i" "pLog g i" "commitIndex n" "bound (storage n)"] node_at_bound [of n "pLog g i"]
  by (auto simp: node_rel_def live_def commit_ok_def node_at_def)

section \<open>What a leader sends\<close>

lemma replicate_rel:
  assumes r: "node_rel M g i True n" "hard.hard_ok n" and m: "group_of M i n" and p: "p \<in> set (peers n)"
    and h: "replicateToPeer p t k n = Some (SendAppend a)"
  shows "req_rel M g (i, p, AppendEntriesReq a)"
proof -
  have nf: "\<not> failed n" "role n = Leader" using h by (auto simp: replicateToPeer_def split: if_splits)
  note D = node_relD [OF r(1)] and ld = leading_node [OF r nf]
  let ?L = "pLog g i" and ?q = "aePrevLogIndex a"
  have a: "aeTerm a = currentTerm n" "lastIncludedIndex n \<le> ?q" "termAtLocked n ?q = Some (aePrevLogTerm a)"
    "aeEntries a = drop (?q + 1 - lastIncludedIndex n) (nlog n)" "ae_end a = length ?L" "aeLeaderCommit a = commitIndex n"
    using replicateToPeer_ok [OF D(3,4) _ p, of t k] h ld(5,6) by (auto simp: leading_def ae_end_def)
  have q: "?q \<le> length ?L" using a(5) by (simp add: ae_end_def)
  obtain d where d: "?q = lastIncludedIndex n + d" using a(2) le_iff_add by blast
  have "aeEntries a = drop d (drop (lastIncludedIndex n) ?L)"
    unfolding a(4) by (subst fullD(2) [OF ld(4)]) (simp add: d)
  then have "aeEntries a = drop ?q ?L" by (simp add: d add.commute)
  moreover have "aePrevLogTerm a = tm ?L ?q" using full_term [OF ld(4) a(2) q] a(3) by simp
  moreover have "aeLeaderCommit a \<le> length ?L" using sealed_length [OF D(6)] a(6) by simp
  ultimately have "carries ?L a" using a(5) by (simp add: carries_def)
  moreover have "i \<noteq> p" using m p by (auto simp: group_of_def)
  ultimately show ?thesis using ld D(6) a(1,6) by simp
qed

lemma send_snapshot_rel:
  assumes r: "node_rel M g i True n" "hard.hard_ok n" and m: "group_of M i n" and p: "p \<in> set (peers n)"
    and h: "sendInstallSnapshot t k n = Some a"
  shows "req_rel M g (i, p, InstallSnapshotReq a)"
proof -
  have nf: "\<not> failed n" "role n = Leader" "isTerm a = currentTerm n" "isLastIncludedIndex a = lastIncludedIndex n"
    "isLastIncludedTerm a = lastIncludedTerm n"
    using h by (auto simp: sendInstallSnapshot_def split: if_splits)
  note D = node_relD [OF r(1)] and ld = leading_node [OF r nf(1,2)]
  have "sealed M g (pTerm g i) (pLog g i) (lastIncludedIndex n)" using sealed_le [OF D(6)] D(4) by (simp add: commit_ok_def)
  moreover have "i \<noteq> p" using m p by (auto simp: group_of_def)
  ultimately show ?thesis using ld nf fullD(5) [OF ld(4)] by simp
qed

end

end
