(* ===== verification/Raft_Follows.thy ===== *)
theory Raft_Follows
  imports Raft_Progress
begin

text \<open>
  Every step of a cluster is a sequence of protocol steps (\<open>cstep_sim\<close>), so every run is one
  (\<open>follows_sim\<close>). \<open>follows\<close> is the run relation, restricted to states that are \<open>tidy\<close>: terms, votes,
  entries and snapshots within what the stores can hold, and no working node whose store has kept
  entries that its memory has dropped (which a conflicting InstallSnapshot can cause).
\<close>

text \<open>The restriction to stores that have not parted from their nodes, and the runs within a restriction.\<close>

definition stores_kept :: "('s \<Rightarrow> PersistentState) \<Rightarrow> 's Cluster \<Rightarrow> bool" where
  "stores_kept view c \<longleftrightarrow> (\<forall>i. cAlive c i \<longrightarrow> \<not> snapshot_fault (cNode c i) \<and>
     (\<not> failed (cNode c i) \<longrightarrow> store_current view (cNode c i)))"

inductive run_in :: "('s Cluster \<Rightarrow> bool) \<Rightarrow> 's Storage \<Rightarrow> (node_id \<Rightarrow> Config) \<Rightarrow> 's Cluster \<Rightarrow> 's Cluster \<Rightarrow> bool"
  for P ops cfg where
  run_in_refl: "P c \<Longrightarrow> run_in P ops cfg c c"
| run_in_step: "run_in P ops cfg c d \<Longrightarrow> cstep ops cfg d d' \<Longrightarrow> P d' \<Longrightarrow> run_in P ops cfg c d'"

context log_storage
begin

definition tidy :: "'s Cluster \<Rightarrow> bool" where
  "tidy c \<longleftrightarrow> bounded hfits c \<and> (\<forall>i. cAlive c i \<longrightarrow> (\<forall>x \<in> set (nlog (cNode c i)). efits x) \<and>
     fits (CallSaveSnapshot (lastIncludedIndex (cNode c i)) (lastIncludedTerm (cNode c i)) (snapshotData (cNode c i)))) \<and>
     stores_kept view c"

definition sim :: "node_id set \<Rightarrow> 's Cluster \<Rightarrow> Protocol \<Rightarrow> bool" where
  "sim M c g \<longleftrightarrow> (\<forall>i \<in> M. node_rel M g i (cAlive c i) (cNode c i)) \<and> (\<forall>i. cAlive c i \<longrightarrow> i \<in> M) \<and> vote_rel c g \<and>
     (\<forall>m \<in> cReqs c. req_rel M g m) \<and> (\<forall>m \<in> cReps c. rep_rel g m)"

definition group_cfg :: "(node_id \<Rightarrow> Config) \<Rightarrow> node_id set \<Rightarrow> bool" where
  "group_cfg cfg M \<longleftrightarrow> hard.cfg_ok cfg \<and> hard.members_ok cfg M \<and> (\<forall>i. i \<notin> M \<longrightarrow> \<not> cTransport (cfg i))"

lemma sim_alive:
  assumes "sim M c g" "group_cfg cfg M" "hard.cinv cfg c" "cAlive c i"
  shows "i \<in> M" "node_rel M g i True (cNode c i)" "hard.hard_ok (cNode c i)" "nid (cNode c i) = i" "i \<noteq> []" "group_of M i (cNode c i)"
proof -
  show i: "i \<in> M" using assms(1,4) by (simp add: sim_def)
  then have "node_rel M g i (cAlive c i) (cNode c i)" using assms(1) by (simp add: sim_def)
  then show "node_rel M g i True (cNode c i)" using assms(4) by simp
  show "hard.hard_ok (cNode c i)" "nid (cNode c i) = i" "i \<noteq> []" using hard.alive_ok [OF assms(3,4)] by simp_all
  show "group_of M i (cNode c i)"
    using i assms(2) hard.alive_ok [OF assms(3,4)] by (simp add: group_of_def group_cfg_def hard.members_ok_def)
qed

lemma vote_rel_same:
  assumes v: "vote_rel c g" and e: "voted c' = voted c" "pVotes g' = pVotes g" and gr: "grows g g'"
  shows "vote_rel c' g'"
proof -
  have "pWon g' U = None \<Longrightarrow> pWon g U = None" for U using growsD(2) [OF gr, of U] by (cases "pWon g U") auto
  then show ?thesis using v by (simp add: vote_rel_def e)
qed

lemma sim_step:
  assumes S: "sim M c g" and g: "pinv M g" and i: "i \<in> M" and m: "moves M i g g'"
    and c': "cNode c' = (cNode c)(i := n)" "\<And>k. k \<noteq> i \<Longrightarrow> cAlive c' k = cAlive c k" "cReqs c' = cReqs c \<union> ms" "cReps c' = cReps c \<union> rs"
    and r: "node_rel M g' i (cAlive c' i) n" and ms: "\<And>m. m \<in> ms \<Longrightarrow> req_rel M g' m" and rs: "\<And>m. m \<in> rs \<Longrightarrow> rep_rel g' m"
    and v: "vote_rel c' g'"
  shows "psteps M g g' \<and> sim M c' g'"
proof -
  have gr: "grows g g'" using moves_pinv [OF m g] by simp
  have "node_rel M g' k (cAlive c' k) (cNode c' k)" if "k \<in> M" for k
    using S that r node_rel_frame [OF _ g m, of k] c'(1,2) by (cases "k = i") (auto simp: sim_def)
  moreover have "cAlive c' k \<Longrightarrow> k \<in> M" for k using S i c'(2) by (cases "k = i") (auto simp: sim_def)
  moreover have "req_rel M g' x" if "x \<in> cReqs c'" for x
    using that S ms [of x] req_rel_grows [OF g gr, of x] c'(3) unfolding sim_def by blast
  moreover have "rep_rel g' x" if "x \<in> cReps c'" for x
    using that S rs [of x] rep_rel_grows [OF gr, of x] c'(4) unfolding sim_def by blast
  ultimately show ?thesis using m v by (simp add: sim_def moves_def)
qed

lemma sim_put:
  assumes S: "sim M c g" and g: "pinv M g" and i: "i \<in> M" "cAlive c i"
    and r: "\<exists>g'. moves M i g g' \<and> pVotes g' = pVotes g \<and> node_rel M g' i True n"
    and c': "c' = put i n c \<or> (\<exists>pcs. c' = (put i n c)\<lparr>cApplyPc := pcs\<rparr>)"
  shows "\<exists>g'. psteps M g g' \<and> sim M c' g'"
proof -
  obtain g' where g': "moves M i g g'" "pVotes g' = pVotes g" "node_rel M g' i True n" using r by blast
  have eq: "cNode c' = (cNode c)(i := n)" "cAlive c' = cAlive c" "cReqs c' = cReqs c" "cReps c' = cReps c" "cBallots c' = cBallots c"
    using c' by (auto simp: put_def)
  have "vote_rel c g" using S by (simp add: sim_def)
  then have v: "vote_rel c' g'"
    by (rule vote_rel_same [OF _ hard.voted_cong [OF eq(4,5)] g'(2) conjunct2 [OF moves_pinv [OF g'(1) g]]])
  show ?thesis
    using sim_step [OF S g i(1) g'(1) eq(1) _ _ _ _ _ _ v, of "{}" "{}"] g'(3) i(2) eq by (intro exI [of _ g']) simp
qed

lemma sim_still:
  assumes "sim M c g" "pinv M g" "i \<in> M" "cAlive c i" "node_rel M g i True n"
    and "c' = put i n c \<or> (\<exists>pcs. c' = (put i n c)\<lparr>cApplyPc := pcs\<rparr>)"
  shows "\<exists>g'. psteps M g g' \<and> sim M c' g'"
  by (rule sim_put [OF assms(1-4) _ assms(6)]) (use assms(5) moves_refl in blast)

lemma sim_send:
  assumes S: "sim M c g" and ms: "\<And>m. m \<in> ms \<Longrightarrow> req_rel M g m"
  shows "\<exists>g'. psteps M g g' \<and> sim M (send_all ms c) g'"
proof -
  have "vote_rel (send_all ms c) g" using S by (simp add: sim_def vote_rel_def voted_def granted_def send_all_def)
  then have "sim M (send_all ms c) g" using S ms by (auto simp: sim_def send_all_def)
  then show ?thesis by blast
qed

section \<open>Messages\<close>

lemma reply_eq:
  "cNode (reply_to j i req r c) = cNode c" "cAlive (reply_to j i req r c) = cAlive c" "cReqs (reply_to j i req r c) = cReqs c"
  "cReps (reply_to j i req r c) = cReps c \<union> {m. \<exists>rep. r = Inr rep \<and> m = (j, i, req, rep)}"
  "cBallots (reply_to j i req r c) = cBallots c" "cApplyPc (reply_to j i req r c) = cApplyPc c"
  by (auto simp: reply_to_def split: sum.splits)

lemma voted_reply:
  "voted (reply_to j i req r c) k U x \<longleftrightarrow> voted c k U x \<or> (k = j \<and> x = i \<and> (\<exists>a rep. req = RequestVoteReq a \<and>
     r = Inr (RequestVoteRep rep) \<and> rvTerm a = U \<and> rvCandidateID a = i \<and> rrVoteGranted rep))"
  unfolding voted_def granted_def reply_eq by blast

lemma deliver_sim:
  assumes S: "sim M c g" and g: "pinv M g" and cfg: "group_cfg cfg M" and c: "hard.cinv cfg c"
    and a: "cAlive c j" "(i, j, req) \<in> cReqs c" and h: "handle ops e req (cNode c j) = Some (n, r)"
    and c': "c' = reply_to j i req r (put j n c)" "hard.cinv cfg c'" and t: "tidy c" "tidy c'"
  shows "\<exists>g'. psteps M g g' \<and> sim M c' g'"
proof -
  note A = sim_alive [OF S cfg c a(1)]
  have M: "finite M" using cfg by (simp add: group_cfg_def hard.members_ok_def)
  have rq: "req_rel M g (i, j, req)" using S a(2) by (simp add: sim_def)
  have fit: "req_fits hfits req" using t(1) a(2) by (auto simp: tidy_def bounded_def)
  have n: "cNode c' j = n" "cAlive c' j" using c'(1) a(1) by (simp_all add: reply_eq)
  then have tn: "\<forall>x \<in> set (nlog n). efits x" "fits (CallSaveSnapshot (lastIncludedIndex n) (lastIncludedTerm n) (snapshotData n))"
    "\<not> failed n \<Longrightarrow> store_current view n" "\<not> snapshot_fault n" using t(2) unfolding tidy_def stores_kept_def by blast+
  have eq: "cNode c' = (cNode c)(j := n)" "cAlive c' = cAlive c" "cReqs c' = cReqs c \<union> {}"
    "cReps c' = cReps c \<union> {m. \<exists>rep. r = Inr rep \<and> m = (j, i, req, rep)}"
    using c'(1) by (simp_all add: reply_eq)
  have other: "\<exists>g'. psteps M g g' \<and> sim M c' g'"
    if ex: "\<exists>g'. moves M j g g' \<and> pVotes g' = pVotes g \<and> node_rel M g' j True n \<and> (\<forall>rep. r = Inr rep \<longrightarrow> rep_rel g' (j, i, req, rep))"
      and nv: "\<And>a. req \<noteq> RequestVoteReq a"
  proof -
    obtain g' where g': "moves M j g g'" "pVotes g' = pVotes g" "node_rel M g' j True n" "\<forall>rep. r = Inr rep \<longrightarrow> rep_rel g' (j, i, req, rep)"
      using ex by blast
    have vc: "voted c' = voted c"
      unfolding c'(1) by (intro ext) (simp add: voted_reply nv, simp add: voted_def granted_def)
    have v: "vote_rel c' g'"
      by (rule vote_rel_same [OF _ vc g'(2) conjunct2 [OF moves_pinv [OF g'(1) g]]]) (use S in \<open>simp add: sim_def\<close>)
    have "psteps M g g' \<and> sim M c' g'"
      by (rule sim_step [OF S g A(1) g'(1) eq(1) _ eq(3,4) _ _ _ v]) (use g' a(1) in \<open>auto simp: eq(2)\<close>)
    then show ?thesis by blast
  qed
  show ?thesis
  proof (cases req)
    case (AppendEntriesReq x)
    obtain r0 where r0: "handleAppendEntries ops e x (cNode c j) = Some (n, r0)" "r = map_sum id AppendEntriesRep r0"
      using h AppendEntriesReq by auto
    have "\<exists>g'. moves M j g g' \<and> pVotes g' = pVotes g \<and> node_rel M g' j True n \<and>
        (\<forall>rep. r0 = Inr rep \<longrightarrow> rep_rel g' (j, i, AppendEntriesReq x, AppendEntriesRep rep))"
      by (rule ae_rel [OF M g A(2,3) _ _ tn(1) r0(1)]) (use rq fit AppendEntriesReq in simp_all)
    then show ?thesis using r0(2) AppendEntriesReq by (intro other) (cases r0; auto)+
  next
    case (InstallSnapshotReq x)
    obtain r0 where r0: "handleInstallSnapshot ops e x (cNode c j) = Some (n, r0)" "r = map_sum id InstallSnapshotRep r0"
      using h InstallSnapshotReq by auto
    have "\<exists>g'. moves M j g g' \<and> pVotes g' = pVotes g \<and> node_rel M g' j True n \<and>
        (\<forall>rep. r0 = Inr rep \<longrightarrow> rep_rel g' (j, i, InstallSnapshotReq x, InstallSnapshotRep rep))"
      by (rule is_rel [OF M g A(2,3) _ _ tn(2-4) r0(1)]) (use rq fit InstallSnapshotReq in simp_all)
    then show ?thesis using r0(2) InstallSnapshotReq by (intro other) (cases r0; auto)+
  next
    case (OtherReq ty)
    then have "n = cNode c j" "\<exists>err. r = Inl err" using h by auto
    then show ?thesis using A(2) OtherReq by (intro other exI [of _ g]) auto
  next
    case (RequestVoteReq x)
    obtain r0 where r0: "handleRequestVote ops e x (cNode c j) = Some (n, r0)" "r = map_sum id RequestVoteRep r0"
      using h RequestVoteReq by auto
    have x: "rvCandidateID x = i" using c a(2) RequestVoteReq unfolding hard.cinv_def hard.net_ok_def by blast
    obtain X where X: "pCand g i (rvTerm x) = Some X" "rvLastLogIndex x = length X" "rvLastLogTerm x = lastT X"
      using rq RequestVoteReq by auto
    have fx: "hfits (rvTerm x) (rvCandidateID x)" using fit RequestVoteReq by simp
    let ?yes = "\<exists>rep. r0 = Inr rep \<and> rrVoteGranted rep"
    obtain g1 where g1: "moves M j g g1" "pVotes g1 = pVotes g" "pWon g1 = pWon g" "pCand g1 = pCand g" "node_rel M g1 j True n"
      "?yes \<Longrightarrow> pTerm g1 j = rvTerm x \<and> up_to_date X (pLog g1 j)"
      using rv_rel [OF g A(2,3) X(2,3) fx r0(1)] by blast
    have old: "voted c k U y \<Longrightarrow> voted c' k U y" for k U y
      unfolding c'(1) voted_reply by (simp add: voted_def granted_def)
    have new: "voted c' k U y \<Longrightarrow> voted c k U y \<or> k = j \<and> U = rvTerm x \<and> y = i \<and> ?yes" for k U y
      using r0(2) unfolding c'(1) voted_reply RequestVoteReq by (cases r0) (auto simp: voted_def granted_def)
    have yes: "?yes \<Longrightarrow> voted c' j (rvTerm x) i"
      using r0(2) x unfolding c'(1) voted_reply RequestVoteReq by auto
    define g2 where "g2 = (if ?yes \<and> pWon g (rvTerm x) = None then g1\<lparr>pVotes := insert (j, rvTerm x, i) (pVotes g1)\<rparr> else g1)"
    have only: "y = i" if "?yes" "(j, rvTerm x, y) \<in> pVotes g1" for y
    proof -
      have "voted c j (rvTerm x) y" using that(2) g1(2) S by (simp add: sim_def vote_rel_def)
      then show ?thesis using old yes [OF that(1)] c'(2) unfolding hard.cinv_def hard.votes_ok_def by blast
    qed
    have "moves M j g1 g2"
    proof (cases "?yes \<and> pWon g (rvTerm x) = None")
      case True
      then have "moves M j g1 (g1\<lparr>pVotes := insert (j, rvTerm x, i) (pVotes g1)\<rparr>)"
        using g1 X(1) only by (intro move_vote [where X = X]) auto
      then show ?thesis unfolding g2_def if_P [OF True] .
    next
      case False
      show ?thesis unfolding g2_def if_not_P [OF False] by (rule moves_refl)
    qed
    then have m2: "moves M j g g2" by (rule moves_trans [OF g g1(1)])
    have r2: "node_rel M g2 j True n" using g1(5) by (simp add: g2_def)
    have won2: "pWon g2 = pWon g" by (simp add: g2_def g1)
    have pv: "(k, U, y) \<in> pVotes g2 \<longleftrightarrow> (k, U, y) \<in> pVotes g \<or> k = j \<and> U = rvTerm x \<and> y = i \<and> ?yes \<and> pWon g U = None" for k U y
      by (auto simp: g2_def g1)
    have "vote_rel c g" using S by (simp add: sim_def)
    then have v: "vote_rel c' g2" unfolding vote_rel_def won2 pv using old new yes by blast
    have "psteps M g g2 \<and> sim M c' g2"
      by (rule sim_step [OF S g A(1) m2 eq(1) _ eq(3,4) _ _ _ v])
        (use r2 a(1) r0(2) RequestVoteReq in \<open>auto simp: eq(2) split: sum.splits\<close>)
    then show ?thesis by blast
  qed
qed

section \<open>Elections\<close>

lemma start_sim:
  assumes S: "sim M c g" and g: "pinv M g" and cfg: "group_cfg cfg M" and c: "hard.cinv cfg c"
    and a: "cAlive c i" and h: "startElection ops e (cNode c i) = Some (n, Some args)"
    and c': "c' = set_ballot i (rvTerm args) 1 (set (peers n))
           (send_all ((\<lambda>p. (i, p, RequestVoteReq args)) ` set (peers n)) (put i n c))"
    and f: "\<not> failed (cNode c i) \<Longrightarrow> hfits (currentTerm (cNode c i) + 1) (nid (cNode c i))"
  shows "\<exists>g'. psteps M g g' \<and> sim M c' g'"
proof -
  note A = sim_alive [OF S cfg c a]
  obtain g' where g': "moves M i g g'" "node_rel M g' i True n" "pVotes g' = insert (i, rvTerm args, i) (pVotes g)"
    "\<forall>p. req_rel M g' (i, p, RequestVoteReq args)"
    using se_rel [OF g A(2-5) f h] by auto
  have gr: "grows g g'" using moves_pinv [OF g'(1) g] by simp
  have eq: "cNode c' = (cNode c)(i := n)" "cAlive c' = cAlive c" "cReqs c' = cReqs c \<union> (\<lambda>p. (i, p, RequestVoteReq args)) ` set (peers n)"
    "cReps c' = cReps c \<union> {}" "cBallots c' = (cBallots c)(i := (cBallots c i)(rvTerm args \<mapsto> (1, set (peers n))))"
    by (simp_all add: c' set_ballot_def send_all_def)
  have vt: "voted c' k U y \<longleftrightarrow> voted c k U y \<or> k = i \<and> y = i \<and> U = rvTerm args" for k U y
    by (auto simp: voted_def granted_def eq)
  have "pWon g' U = None \<Longrightarrow> pWon g U = None" for U using growsD(2) [OF gr, of U] by (cases "pWon g U") auto
  then have v: "vote_rel c' g'" using S by (auto simp: sim_def vote_rel_def vt g'(3))
  have "psteps M g g' \<and> sim M c' g'"
    by (rule sim_step [OF S g A(1) g'(1) eq(1) _ eq(3,4) _ _ _ v]) (use g' a in \<open>auto simp: eq(2)\<close>)
  then show ?thesis by blast
qed

lemma members_quorum:
  assumes cfg: "group_cfg cfg M" and i: "i \<in> M" and Q: "Q \<subseteq> M" "majority (cPeers (cfg i)) \<le> card Q"
  shows "quorum M Q"
proof -
  have p: "distinct (cPeers (cfg i))" "set (cPeers (cfg i)) = M - {i}" "finite M" "odd (card M)"
    using cfg i by (auto simp: group_cfg_def hard.members_ok_def)
  then have "length (cPeers (cfg i)) = card M - 1" using i distinct_card by fastforce
  moreover have "0 < card M" using p(3) i card_gt_0_iff by blast
  ultimately have "card M < 2 * majority (cPeers (cfg i))" using p(4) by (auto simp: majority_def elim!: oddE)
  then show ?thesis using Q by (simp add: quorum_def)
qed

lemma winner_sim:
  assumes S: "sim M c g" and g: "pinv M g" and cfg: "group_cfg cfg M" and c: "hard.cinv cfg c" "hard.cinv cfg c'"
    and a: "cAlive c i" "\<not> failed (cNode c i)" "role (cNode c i) = Candidate" and h: "becomeLeaderLocked (cNode c i) = Some n"
    and eq: "cNode c' = (cNode c)(i := n)" "cAlive c' = cAlive c" "cReqs c' = cReqs c" "cReps c' = cReps c" "voted c' = voted c"
  shows "\<exists>g'. psteps M g g' \<and> sim M c' g'"
proof -
  note A = sim_alive [OF S cfg c(1) a(1)]
  have M: "finite M" using cfg by (simp add: group_cfg_def hard.members_ok_def)
  let ?T = "currentTerm (cNode c i)"
  have n: "role n = Leader" "currentTerm n = ?T" using h by (auto simp: becomeLeaderLocked_def)
  then have "leads c' i ?T" using a(1) by (simp add: leads_def eq)
  then have maj: "majority (cPeers (cfg i)) \<le> card (hard.electors cfg c' ?T i)"
    using c(2) unfolding hard.cinv_def hard.leaders_ok_def by blast
  have "set (cPeers (cfg i)) = M - {i}" using cfg A(1) by (simp add: group_cfg_def hard.members_ok_def)
  then have "hard.electors cfg c' ?T i \<subseteq> M" using A(1) by (auto simp: hard.electors_def)
  then have Q: "quorum M (hard.electors cfg c' ?T i)" using maj by (rule members_quorum [OF cfg A(1)])
  have el: "voted c j ?T i" if "j \<in> hard.electors cfg c' ?T i" for j using that by (simp add: hard.electors_def eq)
  have free: "pWon g ?T = None"
  proof (rule ccontr)
    assume "pWon g ?T \<noteq> None"
    then obtain k where k: "pWon g ?T = Some k" by auto
    then obtain P where P: "quorum M P" "\<forall>j \<in> P. (j, ?T, k) \<in> pVotes g" using pinvD(3) [OF g] unfolding inv_leaders_def by blast
    obtain j where "j \<in> P" "j \<in> hard.electors cfg c' ?T i" using quorums_meet [OF M P(1) Q] by blast
    then have "voted c j ?T k" "voted c j ?T i" using P(2) S el by (auto simp: sim_def vote_rel_def)
    then have "k = i" using c(1) unfolding hard.cinv_def hard.votes_ok_def by blast
    then show False using k node_relD(7) [OF A(2)] a(2,3) by (simp add: role_rel_def standing_def)
  qed
  have "\<forall>j \<in> hard.electors cfg c' ?T i. (j, ?T, i) \<in> pVotes g"
    using el free S by (simp add: sim_def vote_rel_def)
  then obtain g' where g': "moves M i g g'" "pVotes g' = pVotes g" "node_rel M g' i True n"
    using win_rel [OF g A(2,3) a(2,3) h free Q] by blast
  have v: "vote_rel c' g'"
    by (rule vote_rel_same [OF _ eq(5) g'(2) conjunct2 [OF moves_pinv [OF g'(1) g]]]) (use S in \<open>simp add: sim_def\<close>)
  have "psteps M g g' \<and> sim M c' g'"
    by (rule sim_step [OF S g A(1) g'(1) eq(1), where ms = "{}" and rs = "{}"]) (use v g' a in \<open>auto simp: eq\<close>)
  then show ?thesis by blast
qed

lemma elected_sim:
  assumes S: "sim M c g" and g: "pinv M g" and cfg: "group_cfg cfg M" and c: "hard.cinv cfg c" "hard.cinv cfg (put i n c)"
    and a: "cAlive c i" and h: "electedAlone t (cNode c i) = Some n"
  shows "\<exists>g'. psteps M g g' \<and> sim M (put i n c) g'"
proof -
  note A = sim_alive [OF S cfg c(1) a]
  note D = node_relD [OF A(2)]
  have still: "node_rel M g i True n \<Longrightarrow> ?thesis" using sim_still [OF S g A(1) a] by blast
  consider "n = cNode c i" | (lead) "role (cNode c i) = Candidate" "becomeLeaderLocked (cNode c i) = Some n"
    using h by (auto simp: electedAlone_def split: if_splits)
  then show ?thesis
  proof cases
    case 1
    then show ?thesis using still A(2) by simp
  next
    case lead
    show ?thesis
    proof (cases "failed (cNode c i)")
      case False
      then show ?thesis using lead
        by (intro winner_sim [OF S g cfg c a]) (simp_all add: hard.voted_cong [of "put i n c" c])
    next
      case True
      obtain n2 where "becomeLeaderLocked (cNode c i) = Some n2" "log_same (cNode c i) n2" "storage n2 = storage (cNode c i)"
        "failed n2 = failed (cNode c i)" using becomeLeaderLocked_ok [OF D(3)] by blast
      then have b: "log_same (cNode c i) n" "storage n = storage (cNode c i)" "failed n" using lead True by simp_all
      have eq: "lastIncludedIndex n = lastIncludedIndex (cNode c i)" "commitIndex n = commitIndex (cNode c i)" "nlog n = nlog (cNode c i)"
        using b(1) by (simp_all add: log_same_def)
      have "mem_ok n (pLog g i)" by (rule mem_ok_cong [OF D(5) eq(1,2)]) (simp_all add: entryAtLocked_def eq)
      moreover have "node_at n (pLog g i)" using b by (intro log_same_node_at [OF D(2)]) simp_all
      ultimately have "node_rel M g i True n"
        using D b log_same_ok [OF b(1) D(3)] log_same_commit [OF b(1) D(4)] eq by (intro node_relI) (simp_all add: role_rel_def)
      then show ?thesis by (rule still)
    qed
  qed
qed

lemma vote_sim:
  assumes S: "sim M c g" and g: "pinv M g" and cfg: "group_cfg cfg M" and c: "hard.cinv cfg c" "hard.cinv cfg c'"
    and a: "cAlive c i" and b: "cBallots c i (rvTerm args) \<noteq> None" and f: "hfits (rrTerm rep) []"
    and h: "voteReply ops (rvTerm args) v rep (cNode c i) = Some (n, v')"
    and c': "c' = set_ballot i (rvTerm args) v' ps (put i n c)"
  shows "\<exists>g'. psteps M g g' \<and> sim M c' g'"
proof -
  note A = sim_alive [OF S cfg c(1) a]
  have eq: "cNode c' = (cNode c)(i := n)" "cAlive c' = cAlive c" "cReqs c' = cReqs c" "cReps c' = cReps c"
    by (simp_all add: c' set_ballot_def)
  have vt: "voted c' = voted c"
    by (intro ext) (use b in \<open>auto simp: c' set_ballot_def voted_def granted_def\<close>)
  have other: ?thesis if ex: "\<exists>g'. moves M i g g' \<and> pVotes g' = pVotes g \<and> node_rel M g' i True n"
  proof -
    obtain g' where g': "moves M i g g'" "pVotes g' = pVotes g" "node_rel M g' i True n" using ex by blast
    have v: "vote_rel c' g'"
      by (rule vote_rel_same [OF _ vt g'(2) conjunct2 [OF moves_pinv [OF g'(1) g]]]) (use S in \<open>simp add: sim_def\<close>)
    have "psteps M g g' \<and> sim M c' g'"
      by (rule sim_step [OF S g A(1) g'(1) eq(1), where ms = "{}" and rs = "{}"]) (use v g' a in \<open>auto simp: eq\<close>)
    then show ?thesis by blast
  qed
  consider "n = cNode c i" | (down) "\<not> failed (cNode c i)" "currentTerm (cNode c i) < rrTerm rep" "n = becomeFollowerLocked ops (rrTerm rep) (cNode c i)"
    | (lead) "\<not> failed (cNode c i)" "role (cNode c i) = Candidate" "becomeLeaderLocked (cNode c i) = Some n"
    using h by (auto simp: voteReply_def split: if_splits)
  then show ?thesis
  proof cases
    case 1
    then show ?thesis using other A(2) moves_refl by blast
  next
    case down
    then show ?thesis using other follower_rel [OF g A(2,3) down(1,2) f] by blast
  next
    case lead
    then show ?thesis by (intro winner_sim [OF S g cfg c a _ _ _ eq vt])
  qed
qed

section \<open>Every step\<close>

lemma tick_shape: "signalSnapshot k (fst (tick e n)) = n\<lparr>nextHeartbeat := nextHeartbeat (fst (tick e n)),
    lastSnapshotRequestedAt := lastSnapshotRequestedAt (fst (tick e n)),
    snapshotTriggerCh := snapshotTriggerCh (signalSnapshot k (fst (tick e n))), applyCh := applyCh n\<rparr>"
  by (simp add: tick_def signalSnapshot_def Let_def)

theorem cstep_sim:
  assumes cfg: "group_cfg cfg M" and c: "hard.cinv cfg c" and t: "tidy c" "tidy c'"
    and S: "sim M c g" and g: "pinv M g" and st: "cstep ops cfg c c'"
  shows "\<exists>g'. psteps M g g' \<and> sim M c' g'"
proof -
  have b: "bounded hfits c" "bounded hfits c'" using t by (simp_all add: tidy_def)
  have ci: "hard.cinv cfg c'" using hard.cstep_cinv [OF _ c b st] cfg by (simp add: group_cfg_def)
  have up: "i \<in> M" "node_rel M g i True (cNode c i)" "hard.hard_ok (cNode c i)" "nid (cNode c i) = i" "i \<noteq> []" "group_of M i (cNode c i)"
    if "cAlive c i" for i using sim_alive [OF S cfg c that] by blast+
  have rp: "rep_rel g m" if "m \<in> cReps c" for m using S that by (simp add: sim_def)
  from st show ?thesis
  proof cases
    case (start_election i e n args)
    have "hfits (currentTerm (cNode c i) + 1) (nid (cNode c i))" if nf: "\<not> failed (cNode c i)"
    proof -
      have "currentTerm n = currentTerm (cNode c i) + 1 \<and> votedFor n = nid (cNode c i)"
        using start_election(2) nf by (auto simp: startElection_def becomeCandidateLocked_def Let_def split: if_splits)
      moreover have "cNode c' i = n" using start_election(3) by (simp add: set_ballot_def send_all_def)
      ultimately show ?thesis using b(2) unfolding bounded_def by metis
    qed
    then show ?thesis using start_sim [OF S g cfg c start_election(1-3)] by blast
  next
    case (start_election_fails i e n)
    have f: "hfits (currentTerm (cNode c i) + 1) (nid (cNode c i))" if nf: "\<not> failed (cNode c i)"
    proof -
      have "currentTerm n = currentTerm (cNode c i) + 1 \<and> votedFor n = nid (cNode c i)"
        using start_election_fails(2) nf by (auto simp: startElection_def becomeCandidateLocked_def Let_def split: if_splits)
      moreover have "cNode c' i = n" using start_election_fails(3) by simp
      ultimately show ?thesis using b(2) unfolding bounded_def by metis
    qed
    note u = up [OF start_election_fails(1)]
    show ?thesis using se_rel [OF g u(2-5) f start_election_fails(2)]
      by (intro sim_put [OF S g u(1) start_election_fails(1)]) (use start_election_fails(3) in auto)
  next
    case (elected_alone i t bal n)
    then show ?thesis using elected_sim [OF S g cfg c _ elected_alone(1,3)] ci by simp
  next
    case (deliver j i req e n r)
    then show ?thesis using deliver_sim [OF S g cfg c deliver(1-4) ci t] by blast
  next
    case (vote_reply i args v ps j rep n v')
    have "hfits (rrTerm rep) []" using b(1) vote_reply by (fastforce simp: bounded_def)
    then show ?thesis using vote_sim [OF S g cfg c ci vote_reply(1) _ _ vote_reply(6,7)] vote_reply(2) by simp
  next
    case (replicate i p t args)
    note u = up [OF replicate(1)]
    show ?thesis unfolding replicate(4)
      by (rule sim_send [OF S]) (use replicate_rel [OF u(2,3,6) replicate(2,3)] in blast)
  next
    case (append_reply i j args rep n)
    have f: "hfits (arTerm rep) []" using b(1) append_reply by (fastforce simp: bounded_def)
    note u = up [OF append_reply(1)]
    show ?thesis using ar_rel [OF g u(2,3,6) f rp [OF append_reply(2)] append_reply(3)] append_reply(4)
      by (intro sim_put [OF S g u(1) append_reply(1)]) auto
  next
    case (send_snapshot i p t args)
    note u = up [OF send_snapshot(1)]
    show ?thesis unfolding send_snapshot(4)
      by (rule sim_send [OF S]) (use send_snapshot_rel [OF u(2,3,6) send_snapshot(2,3)] in blast)
  next
    case (snapshot_reply i j args rep n)
    have f: "hfits (irTerm rep) []" using b(1) snapshot_reply by (fastforce simp: bounded_def)
    note u = up [OF snapshot_reply(1)]
    show ?thesis using sr_rel [OF g u(2,3,6) f rp [OF snapshot_reply(2)] snapshot_reply(3)] snapshot_reply(4)
      by (intro sim_put [OF S g u(1) snapshot_reply(1)]) auto
  next
    case (propose i command n idx t' l)
    note u = up [OF propose(1)]
    have "cAlive c' i" "cNode c' i = n" using propose by simp_all
    then have "\<forall>x \<in> set (nlog n). efits x" using t(2) unfolding tidy_def by blast
    then show ?thesis using propose_rel [OF g u(2,3,6) _ propose(2)] propose(3)
      by (intro sim_put [OF S g u(1) propose(1)]) auto
  next
    case (take_snapshot i index data n r)
    note u = up [OF take_snapshot(1)]
    have "cAlive c' i" "cNode c' i = n" using take_snapshot by simp_all
    then have "fits (CallSaveSnapshot (lastIncludedIndex n) (lastIncludedTerm n) (snapshotData n))" "\<not> snapshot_fault n"
      using t(2) unfolding tidy_def stores_kept_def by blast+
    then show ?thesis using take_rel [OF u(2,3) _ _ take_snapshot(2)] take_snapshot(3) sim_still [OF S g u(1) take_snapshot(1)] by blast
  next
    case (clock_tick i e n acts)
    note u = up [OF clock_tick(1)]
    have "n = fst (tick e (cNode c i))" using clock_tick(2) by simp
    note timer_rel [OF u(2) tick_shape [of "taSnapshotRequest acts" e "cNode c i", folded this]]
    then show ?thesis using clock_tick(3) sim_still [OF S g u(1) clock_tick(1)] by blast
  next
    case (apply_loop i pc n)
    note u = up [OF apply_loop(1)]
    show ?thesis using apply_rel [OF u(2) apply_section_frame [OF apply_loop(2)]] apply_loop(3) sim_still [OF S g u(1) apply_loop(1)] by blast
  next
    case (receive i m n)
    note u = up [OF receive(1)]
    have "n = (cNode c i)\<lparr>nextHeartbeat := nextHeartbeat (cNode c i), lastSnapshotRequestedAt := lastSnapshotRequestedAt (cNode c i),
        snapshotTriggerCh := snapshotTriggerCh (cNode c i), applyCh := applyCh n\<rparr>"
      using receive(2) by (auto simp: apply_receive_def split: list.splits)
    note timer_rel [OF u(2) this]
    then show ?thesis using receive(3) sim_still [OF S g u(1) receive(1)] by blast
  next
    case (crash i)
    note u = up [OF crash(1)]
    have "vote_rel c' g" using S crash(2) by (simp add: sim_def vote_rel_def voted_def granted_def)
    then have "psteps M g g \<and> sim M c' g"
      using crash_rel [OF u(2)] crash(2)
      by (intro sim_step [OF S g u(1) moves_refl, where n = "cNode c i" and ms = "{}" and rs = "{}"]) simp_all
    then show ?thesis by blast
  next
    case (restart i e st n)
    have i: "i \<in> M" using cfg restart(2) by (auto simp: group_cfg_def NewNode_def split: if_splits)
    have "hinv (storage (cNode c i))" using c by (simp add: hard.cinv_def hard.nodes_ok_def)
    moreover have "node_rel M g i (cAlive c i) (cNode c i)" using S i by (simp add: sim_def)
    then have "node_rel M g i False (cNode c i)" using restart(1) by simp
    ultimately have "node_rel M g i True n" using restart_rel [OF g _ restart(2)] by simp
    moreover have "vote_rel c' g" using S restart(3) by (simp add: sim_def vote_rel_def voted_def granted_def)
    ultimately have "psteps M g g \<and> sim M c' g"
      using restart(3) by (intro sim_step [OF S g i moves_refl, where n = n and ms = "{}" and rs = "{}"]) simp_all
    then show ?thesis by blast
  next
    case (restart_fails i e st err)
    let ?n = "(cNode c i)\<lparr>storage := st\<rparr>"
    show ?thesis
    proof (cases "i \<in> M")
      case True
      have "hinv (storage (cNode c i))" using c by (simp add: hard.cinv_def hard.nodes_ok_def)
      moreover have "node_rel M g i (cAlive c i) (cNode c i)" using S True by (simp add: sim_def)
      then have "node_rel M g i False (cNode c i)" using restart_fails(1) by simp
      ultimately have "node_rel M g i False ?n" using restart_rel [OF g _ restart_fails(2)] by simp
      moreover have "vote_rel c' g" using S restart_fails(3) by (simp add: sim_def vote_rel_def voted_def granted_def)
      ultimately have "psteps M g g \<and> sim M c' g"
        using restart_fails(1,3) by (intro sim_step [OF S g True moves_refl, where n = ?n and ms = "{}" and rs = "{}"]) simp_all
      then show ?thesis by blast
    next
      case False
      then have "st = storage (cNode c i)"
        using cfg restart_fails(2) by (auto simp: group_cfg_def NewNode_def split: if_splits)
      then have "c' = c" using restart_fails(3) by (simp add: put_def)
      then show ?thesis using S by blast
    qed
  qed
qed

end

end
