(* ===== verification/Raft_Safety.thy ===== *)
theory Raft_Safety
  imports Raft_Follows
begin

text \<open>
  What the simulation gives, for every run of a cluster (\<open>run_in\<close>): there is one committed log that
  only grows and every node has a piece of it; a leader has what was committed before its term; two
  nodes that have the same term at an index agree up to there; no critical section panics.
  The theorems are proved once in \<open>log_storage\<close>; \<open>Raft_Consensus\<close> states them for both stores.
\<close>

section \<open>What is claimed\<close>

text \<open>\<open>committed_in c G\<close>: what the nodes that are up have committed, and still hold, is in \<open>G\<close>.\<close>

definition committed_in :: "'s Cluster \<Rightarrow> LogEntry list \<Rightarrow> bool" where
  "committed_in c G \<longleftrightarrow> (\<forall>i. cAlive c i \<longrightarrow> commitIndex (cNode c i) \<le> length G \<and>
     (\<forall>k. lastIncludedIndex (cNode c i) < k \<longrightarrow> k \<le> commitIndex (cNode c i) \<longrightarrow>
       entryAtLocked (cNode c i) k = Some (G ! (k - 1))))"

definition working :: "'s Cluster \<Rightarrow> node_id \<Rightarrow> bool" where
  "working c i \<longleftrightarrow> cAlive c i \<and> \<not> failed (cNode c i)"

definition logs_match :: "'s Cluster \<Rightarrow> bool" where
  "logs_match c \<longleftrightarrow> (\<forall>i j k t m. working c i \<longrightarrow> working c j \<longrightarrow>
     termAtLocked (cNode c i) k = Some t \<longrightarrow> termAtLocked (cNode c j) k = Some t \<longrightarrow>
     lastIncludedIndex (cNode c i) < m \<longrightarrow> lastIncludedIndex (cNode c j) < m \<longrightarrow> m \<le> k \<longrightarrow>
     entryAtLocked (cNode c i) m = entryAtLocked (cNode c j) m)"

text \<open>A leader of \<open>d\<close> has what a node of \<open>c\<close>, of no newer term, had committed.\<close>

definition leader_has :: "'s Cluster \<Rightarrow> 's Cluster \<Rightarrow> bool" where
  "leader_has c d \<longleftrightarrow> (\<forall>i j k. working c i \<longrightarrow> working d j \<longrightarrow> role (cNode d j) = Leader \<longrightarrow>
     currentTerm (cNode c i) \<le> currentTerm (cNode d j) \<longrightarrow>
     lastIncludedIndex (cNode c i) < k \<longrightarrow> k \<le> commitIndex (cNode c i) \<longrightarrow>
     k \<le> last_index (cNode d j) \<and> (lastIncludedIndex (cNode d j) < k \<longrightarrow>
       entryAtLocked (cNode d j) k = entryAtLocked (cNode c i) k))"

definition no_panic :: "'s Storage \<Rightarrow> (node_id \<Rightarrow> Config) \<Rightarrow> 's Cluster \<Rightarrow> bool" where
  "no_panic ops cfg c \<longleftrightarrow>
     (\<forall>i j req e. (i, j, req) \<in> cReqs c \<longrightarrow> cAlive c j \<longrightarrow> handle ops e req (cNode c j) \<noteq> None) \<and>
     (\<forall>i j a rep. (j, i, AppendEntriesReq a, AppendEntriesRep rep) \<in> cReps c \<longrightarrow> cAlive c i \<longrightarrow>
        appendReply ops j (aeTerm a) (aePrevLogIndex a) (length (aeEntries a)) rep (cNode c i) \<noteq> None) \<and>
     (\<forall>i j a rep. (j, i, InstallSnapshotReq a, InstallSnapshotRep rep) \<in> cReps c \<longrightarrow> cAlive c i \<longrightarrow>
        snapshotReply ops j (isTerm a) (isLastIncludedIndex a) rep (cNode c i) \<noteq> None) \<and>
     (\<forall>i. cAlive c i \<longrightarrow>
        (\<forall>e. startElection ops e (cNode c i) \<noteq> None) \<and> (\<forall>t. electedAlone t (cNode c i) \<noteq> None) \<and>
        (\<forall>t v rep. voteReply ops t v rep (cNode c i) \<noteq> None) \<and>
        (\<forall>p t. p \<in> set (peers (cNode c i)) \<longrightarrow> replicateToPeer p t i (cNode c i) \<noteq> None) \<and>
        (\<forall>command. Propose ops command (cNode c i) \<noteq> None) \<and>
        (\<forall>index data. Snapshot ops index data (cNode c i) \<noteq> None) \<and>
        (\<forall>pc. apply_section pc (cNode c i) \<noteq> None) \<and> NodeStatus (cNode c i) \<noteq> None) \<and>
     (\<forall>i e. \<not> cAlive c i \<longrightarrow> NewNode ops e (cfg i) (storage (cNode c i)) \<noteq> None)"

text \<open>The apply loop of node \<open>i\<close> takes a command from the log to hand it to the state machine.\<close>

definition applies :: "'s Cluster \<Rightarrow> node_id \<Rightarrow> ApplyMsg \<Rightarrow> bool" where
  "applies c i m \<longleftrightarrow> cAlive c i \<and> cApplyPc c i \<in> {ApplyTop, ApplyBatch} \<and> amCommandValid m \<and>
     (\<exists>b n. apply_section (cApplyPc c i) (cNode c i) = Some (ApplySend m b, n) \<and> lastApplied n = lastApplied (cNode c i) + 1)"

definition fresh :: "('s \<Rightarrow> PersistentState) \<Rightarrow> 's \<Rightarrow> bool" where
  "fresh view s \<longleftrightarrow> psLog (view s) = [boundary_entry 0 0]"

text \<open>
  What a cluster shows of the protocol state \<open>g\<close>: every store, of a node that is up, stopped by an error
  or down, holds the term and, after its snapshot, the log of its node; a working node has the same in
  memory, a leader leads its term with its own log; what a node has committed is stored by a majority.
\<close>

definition mirrors :: "('s \<Rightarrow> PersistentState) \<Rightarrow> node_id set \<Rightarrow> 's Cluster \<Rightarrow> Protocol \<Rightarrow> bool" where
  "mirrors view M c g \<longleftrightarrow>
     (\<forall>i \<in> M. let ps = view (storage (cNode c i)); b = ps_boundary ps in
        psCurrentTerm ps = pTerm g i \<and> b \<le> length (pLog g i) \<and>
        psLog ps = boundary_entry (tm (pLog g i) b) b # drop b (pLog g i)) \<and>
     (\<forall>i. working c i \<longrightarrow> i \<in> M \<and> currentTerm (cNode c i) = pTerm g i \<and> full (cNode c i) (pLog g i) \<and>
        (role (cNode c i) = Leader \<longrightarrow> pWon g (pTerm g i) = Some i \<and> pLead g (pTerm g i) = pLog g i)) \<and>
     (\<forall>i. cAlive c i \<longrightarrow> sealed M g (pTerm g i) (pLog g i) (commitIndex (cNode c i)))"

lemma applies_batch:
  assumes "applies c i m"
  shows "\<exists>x. entryAtLocked (cNode c i) (lastApplied (cNode c i) + 1) = Some x \<and> m = command_msg x \<and>
    lastApplied (cNode c i) < commitIndex (cNode c i)"
  using assms by (auto simp: applies_def apply_batch_def split: option.splits if_splits)

lemma applies_committed:
  assumes "applies c i m" "committed_in c G" "log_ok (cNode c i)" "commit_ok (cNode c i)"
  shows "1 \<le> amCommandIndex m \<and> amCommandIndex m \<le> length G \<and> m = command_msg (G ! (amCommandIndex m - 1))"
proof -
  let ?n = "cNode c i"
  let ?k = "lastApplied ?n + 1"
  obtain x where x: "entryAtLocked ?n ?k = Some x" "m = command_msg x" "?k \<le> commitIndex ?n"
    using applies_batch [OF assms(1)] by auto
  have "cAlive c i" using assms(1) by (simp add: applies_def)
  then have g: "commitIndex ?n \<le> length G" "entryAtLocked ?n ?k = Some (G ! (?k - 1))"
    using assms(2,4) x(3) unfolding committed_in_def commit_ok_def by auto
  have "eIndex x = ?k" using indexed_nth [OF log_okD(3) [OF assms(3)], of "?k - lastIncludedIndex ?n"] x(1)
    by (auto simp: entryAtLocked_def split: if_splits)
  then show ?thesis using x g by (simp add: command_msg_def)
qed

lemma sealed_take:
  assumes M: "finite M" and g: "pinv M g'" and s: "sealed M g' T X a" "sealed M g' U Y b" and k: "k \<le> a" "k \<le> b"
  shows "take k X = take k Y"
proof (cases "a \<le> b")
  case True
  have "take a X = take a Y" by (rule sealed_agree [OF M g s True])
  then show ?thesis using k(1) by (metis min.absorb1 take_take)
next
  case False
  then have "take b Y = take b X" by (intro sealed_agree [OF M g s(2,1)]) simp
  then show ?thesis using k(2) by (metis min.absorb1 take_take)
qed

section \<open>The proofs\<close>

context log_storage
begin

definition ginit :: "'s Cluster \<Rightarrow> Protocol" where
  "ginit c = \<lparr>pTerm = \<lambda>i. fst (hs (storage (cNode c i))), pLog = \<lambda>i. [], pWon = \<lambda>t. None, pLead = \<lambda>t. [],
     pCand = \<lambda>i t. None, pVotes = {}, pAcks = {}\<rparr>"

lemma init_sim:
  assumes "cinit c" "\<And>i. recov (storage (cNode c i)) \<and> fresh view (storage (cNode c i))"
  shows "sim M c (ginit c)" "pinv M (ginit c)" "hard.cinv cfg c"
proof -
  have "bound (storage (cNode c i)) = 0 \<and> stores [] (storage (cNode c i))" for i
    using assms(2) [of i] by (simp add: fresh_def stores_def bound_def ps_boundary_def boundary_entry_def)
  then show "sim M c (ginit c)"
    using assms(1) by (simp add: sim_def node_rel_def vote_rel_def voted_def granted_def cinit_def ginit_def)
  show "pinv M (ginit c)" by (rule pinit_pinv) (simp add: pinit_def ginit_def)
  show "hard.cinv cfg c" using assms hs_view by (intro hard.cinit_cinv) blast+
qed

theorem run_sim:
  assumes r: "run_in tidy ops cfg c d" and cfg: "group_cfg cfg M"
    and c: "hard.cinv cfg c" "sim M c g" "pinv M g"
  shows "\<exists>g'. psteps M g g' \<and> sim M d g' \<and> pinv M g' \<and> hard.cinv cfg d \<and> tidy d"
  using r c
proof (induction rule: run_in.induct)
  case (run_in_refl c)
  then show ?case by blast
next
  case (run_in_step c d d')
  then obtain g1 where g1: "psteps M g g1" "sim M d g1" "pinv M g1" "hard.cinv cfg d" "tidy d" by blast
  obtain g' where g': "psteps M g1 g'" "sim M d' g'"
    using cstep_sim [OF cfg g1(4,5) run_in_step.hyps(3) g1(2,3) run_in_step.hyps(2)] by blast
  have "psteps M g g'" by (rule rtranclp_trans [OF g1(1) g'(1)])
  moreover have "pinv M g'" using psteps_pinv g'(1) g1(3) by blast
  moreover have "hard.cinv cfg d'"
    using hard.cstep_cinv [OF _ g1(4) _ _ run_in_step.hyps(2)] cfg g1(5) run_in_step.hyps(3) by (simp add: group_cfg_def tidy_def)
  ultimately show ?case using g'(2) run_in_step.hyps(3) by blast
qed

lemma two_sims:
  assumes cfg: "group_cfg cfg M" and c0: "cinit c0" "\<And>i. recov (storage (cNode c0 i)) \<and> fresh view (storage (cNode c0 i))"
    and r: "run_in tidy ops cfg c0 c" "run_in tidy ops cfg c d"
  obtains g g' where "sim M c g" "pinv M g" "sim M d g'" "pinv M g'" "grows g g'" "hard.cinv cfg c" "hard.cinv cfg d"
    "psteps M (ginit c0) g" "psteps M g g'"
proof -
  note i = init_sim [OF c0]
  obtain g where g: "psteps M (ginit c0) g" "sim M c g" "pinv M g" "hard.cinv cfg c"
    using run_sim [OF r(1) cfg i(3,1,2)] by blast
  obtain g' where "psteps M g g'" "sim M d g'" "pinv M g'" "hard.cinv cfg d" using run_sim [OF r(2) cfg g(4,2,3)] by blast
  then show thesis using that g psteps_pinv by blast
qed

lemma group_finite: "group_cfg cfg M \<Longrightarrow> finite M"
  by (simp add: group_cfg_def hard.members_ok_def)

lemma live_alive: "sim M c g \<Longrightarrow> cAlive c i \<Longrightarrow> i \<in> M \<and> node_rel M g i True (cNode c i)"
  unfolding sim_def by metis

lemma sim_committed:
  assumes M: "finite M" and S: "sim M c g" and g: "pinv M g" and G: "sealed M g T G (length G)"
  shows "\<exists>H U. prefix G H \<and> sealed M g U H (length H) \<and> committed_in c H"
proof -
  let ?A = "{i. cAlive c i}" and ?c = "\<lambda>i. commitIndex (cNode c i)"
  have fin: "finite ?A" using live_alive [OF S] by (intro finite_subset [OF _ M]) blast
  have D: "sealed M g (pTerm g i) (pLog g i) (?c i)" "mem_ok (cNode c i) (pLog g i)" if "cAlive c i" for i
    using live_alive [OF S that] node_relD(5,6) by blast+
  have "\<exists>H U. length G \<le> length H \<and> sealed M g U H (length H) \<and> (\<forall>i \<in> ?A. ?c i \<le> length H)"
  proof (cases "\<forall>i \<in> ?A. ?c i \<le> length G")
    case True
    then show ?thesis using G by blast
  next
    case False
    then have ne: "?A \<noteq> {}" by blast
    have "Max (?c ` ?A) \<in> ?c ` ?A" using fin ne by (intro Max_in) simp_all
    then obtain i where "i \<in> ?A" "?c i = Max (?c ` ?A)" by auto
    then have i: "i \<in> ?A" "\<forall>j \<in> ?A. ?c j \<le> ?c i" using fin by simp_all
    have l: "?c i \<le> length (pLog g i)" using sealed_length [OF D(1)] i(1) by simp
    let ?H = "take (?c i) (pLog g i)"
    have "sealed M g (pTerm g i) ?H (length ?H)" using sealed_cong [OF D(1), of i ?H] i(1) l by simp
    moreover have "length G \<le> ?c i" using False i(2) by (meson le_trans nat_le_linear)
    ultimately show ?thesis using i(2) l by (intro exI [of _ ?H] exI [of _ "pTerm g i"]) simp
  qed
  then obtain H U where H: "length G \<le> length H" "sealed M g U H (length H)" "\<forall>i \<in> ?A. ?c i \<le> length H" by blast
  have "take (length G) G = take (length G) H" by (rule sealed_agree [OF M g G H(2,1)])
  then have "prefix G H" by (metis order_refl take_all take_is_prefix)
  moreover have "committed_in c H"
    unfolding committed_in_def
  proof (intro allI impI conjI)
    fix i assume i: "cAlive c i"
    show "?c i \<le> length H" using H(3) i by simp
    fix k assume k: "lastIncludedIndex (cNode c i) < k" "k \<le> ?c i"
    have "take (?c i) (pLog g i) = take (?c i) H" using sealed_agree [OF M g D(1) [OF i] H(2)] H(3) i by simp
    then have "take (?c i) (pLog g i) ! (k - 1) = take (?c i) H ! (k - 1)" by simp
    then have "pLog g i ! (k - 1) = H ! (k - 1)" using k by simp
    then show "entryAtLocked (cNode c i) k = Some (H ! (k - 1))" using D(2) [OF i] k by (simp add: mem_ok_def)
  qed
  ultimately show ?thesis using H(2) by blast
qed

theorem one_log:
  assumes "group_cfg cfg M" "cinit c0" "\<And>i. recov (storage (cNode c0 i)) \<and> fresh view (storage (cNode c0 i))"
    and "run_in tidy ops cfg c0 c" "run_in tidy ops cfg c d"
  shows "\<exists>G H. committed_in c G \<and> prefix G H \<and> committed_in d H"
proof -
  have M: "finite M" by (rule group_finite [OF assms(1)])
  obtain g g' where s: "sim M c g" "pinv M g" "sim M d g'" "pinv M g'" "grows g g'" using two_sims [OF assms] by blast
  obtain G T where G: "sealed M g T G (length G)" "committed_in c G"
    using sim_committed [OF M s(1,2), of 0 "[]"] by auto
  have "sealed M g' T G (length G)" by (rule sealed_grows [OF s(2,5) G(1)])
  then show ?thesis using sim_committed [OF M s(3,4)] G(2) by blast
qed

theorem one_machine:
  assumes "group_cfg cfg M" "cinit c0" "\<And>i. recov (storage (cNode c0 i)) \<and> fresh view (storage (cNode c0 i))"
    and "run_in tidy ops cfg c0 c" "run_in tidy ops cfg c d"
    and "applies c i m" "applies d j m'" "amCommandIndex m = amCommandIndex m'"
  shows "m = m'"
proof -
  obtain g g' where s: "sim M c g" "sim M d g'" using two_sims [OF assms(1-5)] by blast
  have n: "log_ok (cNode c i) \<and> commit_ok (cNode c i)" "log_ok (cNode d j) \<and> commit_ok (cNode d j)"
    using live_alive [OF s(1)] live_alive [OF s(2)] assms(6,7) node_relD(3,4) unfolding applies_def by blast+
  obtain G H where G: "committed_in c G" "prefix G H" "committed_in d H" using one_log [OF assms(1-5)] by blast
  have c: "1 \<le> amCommandIndex m" "amCommandIndex m \<le> length G" "m = command_msg (G ! (amCommandIndex m - 1))"
    using applies_committed [OF assms(6) G(1)] n(1) by blast+
  have d: "m' = command_msg (H ! (amCommandIndex m' - 1))" using applies_committed [OF assms(7) G(3)] n(2) by blast
  have "G ! (amCommandIndex m - 1) = H ! (amCommandIndex m - 1)"
    using G(2) c(1,2) by (auto simp: prefix_def nth_append)
  then show ?thesis using c(3) d assms(8) by simp
qed

lemma working_full:
  assumes "sim M c g" "working c i"
  shows "node_rel M g i True (cNode c i)" "full (cNode c i) (pLog g i)" "log_ok (cNode c i)"
  using live_alive [OF assms(1)] assms(2) node_relD(2,3) node_atD unfolding working_def by blast+

theorem sim_mirrors:
  assumes cfg: "group_cfg cfg M" and S: "sim M c g" and c: "hard.cinv cfg c"
  shows "mirrors view M c g"
proof -
  have st: "pTerm g i = fst (hs (storage (cNode c i)))" "stores (pLog g i) (storage (cNode c i))" if "i \<in> M" for i
    using S that by (auto simp: sim_def node_rel_def node_at_def split: if_splits)
  have "psCurrentTerm (view (storage (cNode c i))) = pTerm g i \<and> ps_boundary (view (storage (cNode c i))) \<le> length (pLog g i) \<and>
      psLog (view (storage (cNode c i))) = boundary_entry (tm (pLog g i) (ps_boundary (view (storage (cNode c i)))))
        (ps_boundary (view (storage (cNode c i)))) # drop (ps_boundary (view (storage (cNode c i)))) (pLog g i)" if "i \<in> M" for i
    using st [OF that] hs_view [of "storage (cNode c i)"] by (simp add: stores_def bound_def)
  moreover have "i \<in> M \<and> currentTerm (cNode c i) = pTerm g i \<and> full (cNode c i) (pLog g i) \<and>
        (role (cNode c i) = Leader \<longrightarrow> pWon g (pTerm g i) = Some i \<and> pLead g (pTerm g i) = pLog g i)"
    if w: "working c i" for i
  proof -
    have a: "cAlive c i" "\<not> failed (cNode c i)" using w by (simp_all add: working_def)
    note A = sim_alive [OF S cfg c a(1)]
    show ?thesis using A(1) working_term(1) [OF A(2,3) a(2)] working_full(2) [OF S w] leading_node(1,2) [OF A(2,3) a(2)] by simp
  qed
  moreover have "sealed M g (pTerm g i) (pLog g i) (commitIndex (cNode c i))" if "cAlive c i" for i
    using node_relD(6) [OF sim_alive(2) [OF S cfg c that]] .
  ultimately show ?thesis unfolding mirrors_def Let_def by blast
qed

theorem sim_match:
  assumes S: "sim M c g" and g: "pinv M g"
  shows "logs_match c"
  unfolding logs_match_def
proof (intro allI impI)
  fix i j k t m
  assume w: "working c i" "working c j" and t: "termAtLocked (cNode c i) k = Some t" "termAtLocked (cNode c j) k = Some t"
    and m: "lastIncludedIndex (cNode c i) < m" "lastIncludedIndex (cNode c j) < m" "m \<le> k"
  note i = working_full [OF S w(1)] and j = working_full [OF S w(2)]
  have at: "lastIncludedIndex n \<le> k \<and> k \<le> length L \<and> tm L k = t" if "full n L" "termAtLocked n k = Some t" for n :: "'s Node" and L
  proof -
    have "lastIncludedIndex n \<le> k \<and> k \<le> length L"
      using that(2) fullD(1,3) [OF that(1)] by (auto simp: termAtLocked_def entryAtLocked_def split: if_splits)
    then show ?thesis using full_term [OF that(1), of k] that(2) by simp
  qed
  have "take k (pLog g i) = take k (pLog g j)"
    using anchored_match [OF inv_logsD(1) [OF pinvD(1) [OF g]] inv_logsD(1) [OF pinvD(1) [OF g]]] at [OF i(2) t(1)] at [OF j(2) t(2)] by simp
  then have "take k (pLog g i) ! (m - 1) = take k (pLog g j) ! (m - 1)" by simp
  then show "entryAtLocked (cNode c i) m = entryAtLocked (cNode c j) m"
    using full_entry [OF i(2) m(1)] full_entry [OF j(2) m(2)] at [OF i(2) t(1)] at [OF j(2) t(2)] m by simp
qed

theorem sims_leader:
  assumes M: "finite M" and c: "sim M c g" "pinv M g" "hard.cinv cfg c" and d: "sim M d g'" "pinv M g'" "hard.cinv cfg d" and gr: "grows g g'"
  shows "leader_has c d"
  unfolding leader_has_def
proof (intro allI impI)
  fix i j k
  assume w: "working c i" "working d j" and l: "role (cNode d j) = Leader" "currentTerm (cNode c i) \<le> currentTerm (cNode d j)"
    and k: "lastIncludedIndex (cNode c i) < k" "k \<le> commitIndex (cNode c i)"
  note i = working_full [OF c(1) w(1)] and j = working_full [OF d(1) w(2)]
  have nf: "\<not> failed (cNode d j)" "\<not> failed (cNode c i)" using w by (simp_all add: working_def)
  have "hard.hard_ok (cNode d j)" "hard.hard_ok (cNode c i)"
    using hard.alive_ok [OF d(3)] hard.alive_ok [OF c(3)] w by (simp_all add: working_def)
  note ld = leading_node [OF j(1) this(1) nf(1) l(1)] and T = working_term(1) [OF i(1) this(2) nf(2)]
  note D = node_relD [OF i(1)]
  have "sealed M g' (pTerm g i) (pLog g i) (commitIndex (cNode c i))" by (rule sealed_grows [OF c(2) gr D(6)])
  then have e: "commitIndex (cNode c i) \<le> length (pLog g' j)"
    "take (commitIndex (cNode c i)) (pLog g i) = take (commitIndex (cNode c i)) (pLog g' j)"
    using sealed_lead [OF M d(2), of "pTerm g i" "pLog g i" _ "currentTerm (cNode d j)"] ld T l(2) by simp_all
  have "pLog g i ! (k - 1) = pLog g' j ! (k - 1)" using arg_cong [OF e(2), of "\<lambda>xs. xs ! (k - 1)"] k by simp
  then show "k \<le> last_index (cNode d j) \<and> (lastIncludedIndex (cNode d j) < k \<longrightarrow>
      entryAtLocked (cNode d j) k = entryAtLocked (cNode c i) k)"
    using e(1) k ld(5) full_entry [OF j(2), of k] D(5) by (simp add: mem_ok_def)
qed

lemma ae_returns:
  assumes M: "finite M" and g: "pinv M g" and r: "node_rel M g i True n" "hard.hard_ok n" and q: "req_rel M g (k, i, AppendEntriesReq a)"
  shows "handleAppendEntries ops e a n \<noteq> None"
proof (cases "failed n \<or> aeTerm a < currentTerm n")
  case True
  then show ?thesis by (auto simp: handleAppendEntries_def)
next
  case False
  note D = node_relD [OF r(1)]
  have nf: "\<not> failed n" using False by simp
  have q': "pWon g (aeTerm a) = Some k" "carries (pLead g (aeTerm a)) a" using q by simp_all
  have "pTerm g i \<le> aeTerm a" using working_term [OF r nf] False by simp
  then have com: "take (commitIndex n) (pLog g i) = take (commitIndex n) (pLead g (aeTerm a))"
    using sealed_lead [OF M g D(6)] q' by simp
  have "no_conflict n (aeEntries a)"
    using carries_no_conflict [OF leader_log_pLead [OF g] q'(2) _ sealed_length [OF D(6)] com] node_atD [OF D(2) nf] by blast
  then show ?thesis
    using handleAppendEntries_ok [OF D(3,4) leader_log_args [OF leader_log_pLead [OF g] q'(2)], of ops e] by auto
qed

lemma is_returns:
  assumes M: "finite M" and g: "pinv M g" and r: "node_rel M g i True n" "hard.hard_ok n" and q: "req_rel M g (k, i, InstallSnapshotReq a)"
  shows "handleInstallSnapshot ops e a n \<noteq> None"
proof (cases "failed n \<or> isTerm a < currentTerm n")
  case True
  then show ?thesis by (auto simp: handleInstallSnapshot_def)
next
  case False
  let ?b = "isLastIncludedIndex a" and ?Y = "pLead g (isTerm a)"
  note D = node_relD [OF r(1)]
  have nf: "\<not> failed n" using False by simp
  have q': "pWon g (isTerm a) = Some k" "isLastIncludedTerm a = tm ?Y ?b" "?b \<le> length ?Y" using q sealed_length by auto
  have "pTerm g i \<le> isTerm a" using working_term [OF r nf] False by simp
  then have com: "take (commitIndex n) (pLog g i) = take (commitIndex n) ?Y" using sealed_lead [OF M g D(6)] q' by simp
  have "tm ?Y ?b \<le> isTerm a"
    using leader_log_pLead [OF g] tm_in [of ?b ?Y] q'(3) by (cases "?b = 0") (auto simp: leader_log_def)
  moreover have "termAtLocked n ?b = Some (tm ?Y ?b)" if "lastIncludedIndex n \<le> ?b" "?b \<le> commitIndex n"
    using full_term [of n "pLog g i" ?b] node_atD [OF D(2) nf] that sealed_length [OF D(6)] tm_eq [OF com that(2)] by simp
  ultimately have "snapshot_agrees n a" using q'(2) by (simp add: snapshot_agrees_def)
  then show ?thesis using handleInstallSnapshot_ok [OF D(3,4), of a ops e] by auto
qed

lemma rv_returns:
  assumes "log_ok n"
  shows "handleRequestVote ops e a n \<noteq> None"
proof -
  define n1 where "n1 = (if rvTerm a > currentTerm n then becomeFollowerLocked ops (rvTerm a) n else n)"
  have "log_same n n1" by (simp add: n1_def becomeFollowerLocked_same)
  then obtain i t where "lastLogInfoLocked n1 = Some (i, t)" using lastLogInfoLocked_ok log_same_ok [OF _ assms] by blast
  then show ?thesis
    unfolding handleRequestVote_def n1_def [symmetric] Let_def by (simp add: candidateLogUpToDateLocked_def)
qed

lemma election_returns:
  assumes "log_ok n"
  shows "startElection ops e n \<noteq> None" "electedAlone t n \<noteq> None" "voteReply ops t v rep n \<noteq> None" "NodeStatus n \<noteq> None"
proof -
  have "lastLogInfoLocked (becomeCandidateLocked ops e n) \<noteq> None"
    using lastLogInfoLocked_ok log_same_ok [OF becomeCandidateLocked_same assms] by blast
  then show "startElection ops e n \<noteq> None" by (auto simp: startElection_def Let_def)
  obtain n' where "becomeLeaderLocked n = Some n'" using becomeLeaderLocked_ok [OF assms] by blast
  then show "electedAlone t n \<noteq> None" "voteReply ops t v rep n \<noteq> None" by (simp_all add: electedAlone_def voteReply_def)
  show "NodeStatus n \<noteq> None" by (simp add: NodeStatus_def lastIndexLocked_ok [OF assms])
qed

lemma replies_return:
  assumes r: "node_rel M g i True n" "hard.hard_ok n"
  shows "rep_rel g (j, i, AppendEntriesReq a, AppendEntriesRep rep) \<Longrightarrow>
      appendReply ops j (aeTerm a) (aePrevLogIndex a) (length (aeEntries a)) rep n \<noteq> None"
    and "rep_rel g (j, i, InstallSnapshotReq b, InstallSnapshotRep rip) \<Longrightarrow>
      snapshotReply ops j (isTerm b) (isLastIncludedIndex b) rip n \<noteq> None"
    and "p \<in> set (peers n) \<Longrightarrow> replicateToPeer p t i n \<noteq> None"
proof -
  note D = node_relD [OF r(1)]
  consider (no) "failed n \<or> role n \<noteq> Leader" | (lead) "\<not> failed n" "role n = Leader" "progress_ok n"
      "pLead g (currentTerm n) = pLog g i" "last_index n = length (pLog g i)"
    using leading_node [OF r] unfolding leading_def by blast
  note c = this
  show "appendReply ops j (aeTerm a) (aePrevLogIndex a) (length (aeEntries a)) rep n \<noteq> None"
    if q: "rep_rel g (j, i, AppendEntriesReq a, AppendEntriesRep rep)"
  proof (cases "arTerm rep \<le> currentTerm n \<and> currentTerm n = aeTerm a")
    case False
    then show ?thesis by (auto simp: appendReply_def)
  next
    case True
    from c show ?thesis
    proof cases
      case no
      then show ?thesis using True by (auto simp: appendReply_def)
    next
      case lead
      have 1: "arSuccess rep \<Longrightarrow> aePrevLogIndex a + length (aeEntries a) \<le> last_index n"
        using q True lead(4,5) by (simp add: acked_def ae_end_def)
      have 2: "\<not> arSuccess rep \<Longrightarrow> arConflictIndex rep \<le> last_index n + 1" using q True lead(4,5) by simp
      show ?thesis using appendReply_ok [OF D(3,4) lead(3) 1 2, of "aeTerm a" ops j] by auto
    qed
  qed
  show "snapshotReply ops j (isTerm b) (isLastIncludedIndex b) rip n \<noteq> None"
    if q: "rep_rel g (j, i, InstallSnapshotReq b, InstallSnapshotRep rip)"
  proof (cases "irTerm rip \<le> currentTerm n \<and> currentTerm n = isTerm b")
    case False
    then show ?thesis by (auto simp: snapshotReply_def)
  next
    case True
    from c show ?thesis
    proof cases
      case no
      then show ?thesis using True by (auto simp: snapshotReply_def)
    next
      case lead
      have "isLastIncludedIndex b \<le> last_index n" using q True lead(4,5) by (simp add: acked_def)
      note ok = noteMatch_ok [OF D(3,4) lead(3) this, of j]
      then show ?thesis using maybeAdvance_ok [OF ok(1,2)] True lead by (auto simp: snapshotReply_def)
    qed
  qed
  show "replicateToPeer p t i n \<noteq> None" if "p \<in> set (peers n)"
  proof -
    from c show ?thesis
    proof cases
      case no
      then show ?thesis by (auto simp: replicateToPeer_def)
    next
      case lead
      then show ?thesis using replicateToPeer_ok [OF D(3,4) lead(3) that, of t i] by auto
    qed
  qed
qed

theorem sim_no_panic:
  assumes cfg: "group_cfg cfg M" and S: "sim M c g" and g: "pinv M g" and c: "hard.cinv cfg c"
  shows "no_panic ops cfg c"
proof -
  have M: "finite M" by (rule group_finite [OF cfg])
  have up: "node_rel M g i True (cNode c i)" "hard.hard_ok (cNode c i)" "log_ok (cNode c i)" "commit_ok (cNode c i)"
    if "cAlive c i" for i using sim_alive [OF S cfg c that] node_relD(3,4) by blast+
  have rq: "req_rel M g m" if "m \<in> cReqs c" for m using S that by (simp add: sim_def)
  have rp: "rep_rel g m" if "m \<in> cReps c" for m using S that by (simp add: sim_def)
  have h: "handle ops e req (cNode c j) \<noteq> None" if "(i, j, req) \<in> cReqs c" "cAlive c j" for i j req e
  proof (cases req)
    case (RequestVoteReq a)
    then show ?thesis using rv_returns [OF up(3) [OF that(2)]] by (simp add: option.map_disc_iff)
  next
    case (AppendEntriesReq a)
    then show ?thesis using ae_returns [OF M g up(1,2) [OF that(2)]] rq [OF that(1)] by (simp add: option.map_disc_iff)
  next
    case (InstallSnapshotReq a)
    then show ?thesis using is_returns [OF M g up(1,2) [OF that(2)]] rq [OF that(1)] by (simp add: option.map_disc_iff)
  qed simp
  have p: "Propose ops command (cNode c i) \<noteq> None" "Snapshot ops k d (cNode c i) \<noteq> None" "apply_section pc (cNode c i) \<noteq> None"
    if "cAlive c i" for i command k d pc
    using Propose_ok [OF up(3,4) [OF that]] Snapshot_ok [OF up(3,4) [OF that]] apply_section_returns [OF up(3,4) [OF that]]
    by (metis option.distinct(1))+
  have nn: "NewNode ops e (cfg i) (storage (cNode c i)) \<noteq> None" if "\<not> cAlive c i" for i e
  proof (cases "i \<in> M")
    case False
    then show ?thesis using cfg by (simp add: group_cfg_def NewNode_def)
  next
    case True
    then have "node_rel M g i (cAlive c i) (cNode c i)" using S by (simp add: sim_def)
    then have "recov (storage (cNode c i))" using that by (simp add: node_rel_def stores_def)
    then have "psLog ps \<noteq> []" if "Load ops (storage (cNode c i)) = (st, Inr ps)" for st ps
      using load_view [OF _ that] view_wf by (simp add: ps_wf_def)
    then show ?thesis by (auto simp: NewNode_def split: prod.splits sum.splits list.splits)
  qed
  have r: "(j, i, AppendEntriesReq a, AppendEntriesRep rep) \<in> cReps c \<Longrightarrow>
        appendReply ops j (aeTerm a) (aePrevLogIndex a) (length (aeEntries a)) rep (cNode c i) \<noteq> None"
      "(j, i, InstallSnapshotReq b, InstallSnapshotRep rip) \<in> cReps c \<Longrightarrow>
        snapshotReply ops j (isTerm b) (isLastIncludedIndex b) rip (cNode c i) \<noteq> None"
      "q \<in> set (peers (cNode c i)) \<Longrightarrow> replicateToPeer q t i (cNode c i) \<noteq> None"
    if "cAlive c i" for i j a b rep rip q t
    using replies_return [OF up(1) [OF that] up(2) [OF that]] rp by blast+
  note el = election_returns [OF up(3)]
  show ?thesis
    unfolding no_panic_def by (intro conjI allI impI) (rule h r el p nn; assumption)+
qed

section \<open>The theorems over runs\<close>

theorem run_leader:
  assumes "group_cfg cfg M" "cinit c0" "\<And>i. recov (storage (cNode c0 i)) \<and> fresh view (storage (cNode c0 i))"
    and "run_in tidy ops cfg c0 c" "run_in tidy ops cfg c d"
  shows "leader_has c d"
  using two_sims [OF assms] sims_leader [OF group_finite [OF assms(1)]] by metis

theorem run_mirrors:
  assumes "group_cfg cfg M" "cinit c0" "\<And>i. recov (storage (cNode c0 i)) \<and> fresh view (storage (cNode c0 i))"
    and "run_in tidy ops cfg c0 c" "run_in tidy ops cfg c d"
  shows "\<exists>g0 g g'. pinit g0 \<and> psteps M g0 g \<and> psteps M g g' \<and> mirrors view M c g \<and> mirrors view M d g'"
proof -
  obtain g g' where "sim M c g" "sim M d g'" "hard.cinv cfg c" "hard.cinv cfg d" "psteps M (ginit c0) g" "psteps M g g'"
    using two_sims [OF assms] by metis
  then show ?thesis
    using sim_mirrors [OF assms(1)]
    by (intro exI [of _ "ginit c0"] exI [of _ g] exI [of _ g']) (simp add: pinit_def ginit_def)
qed

lemma run_one:
  assumes "group_cfg cfg M" "cinit c0" "\<And>i. recov (storage (cNode c0 i)) \<and> fresh view (storage (cNode c0 i))"
    and "run_in tidy ops cfg c0 c"
  obtains g where "sim M c g" "pinv M g" "hard.cinv cfg c"
  using run_sim [OF assms(4,1) init_sim(3,1,2) [OF assms(2,3)]] by blast

theorem run_match:
  assumes "group_cfg cfg M" "cinit c0" "\<And>i. recov (storage (cNode c0 i)) \<and> fresh view (storage (cNode c0 i))"
    and "run_in tidy ops cfg c0 c"
  shows "logs_match c"
  using run_one [OF assms] sim_match by metis

theorem run_no_panic:
  assumes "group_cfg cfg M" "cinit c0" "\<And>i. recov (storage (cNode c0 i)) \<and> fresh view (storage (cNode c0 i))"
    and "run_in tidy ops cfg c0 c"
  shows "no_panic ops cfg c"
  using run_one [OF assms] sim_no_panic [OF assms(1)] by metis

text \<open>Index and term of an accepted proposal belong to it alone, and whatever was committed before has a
  smaller index.\<close>

theorem real_time:
  assumes cfg: "group_cfg cfg M" and c0: "cinit c0" "\<And>i. recov (storage (cNode c0 i)) \<and> fresh view (storage (cNode c0 i))"
    and r: "run_in tidy ops cfg c0 c" "run_in tidy ops cfg c d" "run_in tidy ops cfg d e"
    and j: "cAlive c j" and i: "cAlive d i" "Propose ops command (cNode d i) = Some (n, idx, t, True)"
    and k: "cAlive e k" "lastIncludedIndex (cNode e k) < idx" "idx \<le> commitIndex (cNode e k)" "termAtLocked (cNode e k) idx = Some t"
  shows "commitIndex (cNode c j) < idx"
proof (rule ccontr)
  assume "\<not> commitIndex (cNode c j) < idx"
  then have le: "idx \<le> commitIndex (cNode c j)" by simp
  have M: "finite M" by (rule group_finite [OF cfg])
  note z = init_sim [OF c0]
  obtain g where g: "sim M c g" "pinv M g" "hard.cinv cfg c" using run_sim [OF r(1) cfg z(3,1,2)] by blast
  obtain g1 where g1: "psteps M g g1" "sim M d g1" "pinv M g1" "hard.cinv cfg d" using run_sim [OF r(2) cfg g(3,1,2)] by blast
  obtain g2 where g2: "psteps M g1 g2" "sim M e g2" "pinv M g2" using run_sim [OF r(3) cfg g1(4,2,3)] by blast
  have gr: "grows g g1" "grows g g2" using psteps_pinv g1(1) g2(1) g(2) g1(3) grows_trans by metis+
  note J = node_relD [OF conjunct2 [OF live_alive [OF g(1) j]]]
  note K = node_relD [OF conjunct2 [OF live_alive [OF g2(2) k(1)]]]
  have p: "\<not> failed (cNode d i)" "role (cNode d i) = Leader" "t = currentTerm (cNode d i)" "idx = last_index (cNode d i) + 1"
  proof -
    note A = sim_alive [OF g1(2) cfg g1(4) i(1)]
    have l: "lastIndexLocked (cNode d i) = Some (last_index (cNode d i))" using node_relD(3) [OF A(2)] by (rule lastIndexLocked_ok)
    show "\<not> failed (cNode d i)" "role (cNode d i) = Leader" "t = currentTerm (cNode d i)" "idx = last_index (cNode d i) + 1"
      using i(2) l by (auto simp: Propose_def Let_def split: if_splits option.splits)
  qed
  note A = sim_alive [OF g1(2) cfg g1(4) i(1)]
  note ld = leading_node [OF A(2,3) p(1,2)]
  have "take idx (pLog g j) = take idx (pLog g2 k)"
    by (rule sealed_take [OF M g2(3) sealed_grows [OF g(2) gr(2) J(6)] K(6) le k(3)])
  then have e: "tm (pLog g j) idx = tm (pLog g2 k) idx" by (rule tm_eq) simp
  have "idx - 1 < length (pLog g2 k)" using sealed_length [OF K(6)] k(2,3) by simp
  have "entryAtLocked (cNode e k) idx = Some (pLog g2 k ! (idx - 1))" using K(5) k(2,3) by (simp add: mem_ok_def)
  then have t: "tm (pLog g j) idx = t" using k(2,4) e by (simp add: termAtLocked_def tm_def)
  have len: "idx \<le> length (pLog g j)" using sealed_length [OF J(6)] le by simp
  have "anchored g (pLog g j)" by (rule inv_logsD(1) [OF pinvD(1) [OF g(2)]])
  then have "prefix (take idx (pLog g j)) (pLead g t)" using len k(2) t unfolding anchored_def by fastforce
  then have "idx \<le> length (pLead g t)" using len prefix_length_le by fastforce
  moreover have "prefix (pLead g t) (pLead g1 t)" by (rule growsD(1) [OF gr(1)])
  ultimately have "idx \<le> length (pLog g1 i)" using prefix_length_le ld(2) p(3) by fastforce
  then show False using p(4) ld(5) by simp
qed

end

end
