(* ===== verification/Raft_Consensus.thy ===== *)
theory Raft_Consensus
  imports Raft_Safety Raft_Runs Disk_Properties
begin

text \<open>
  Consensus, for both stores of the repository. \<open>Raft_Safety\<close> proves its theorems in the locale
  \<open>log_storage\<close>; here the locale is interpreted on \<open>MemoryStorage\<close> and on \<open>DiskStorage\<close> (whose
  system calls may fail), and the theorems are stated over the definitions of the model.

  A run (\<open>run_in\<close>) interleaves elections, late, lost and repeated messages, proposals, snapshots,
  crashes and restarts in any order. It is restricted to states that are \<open>stores_kept\<close>: in a working
  node the store holds what the memory holds, and no node was stopped by an error of
  \<open>SaveSnapshot\<close>. Without the restriction the theorems are false: a snapshot that conflicts with
  its receiver's log breaks it (\<open>Raft_Stale\<close> has a run), and so does a crash inside \<open>SaveSnapshot\<close>
  (\<open>Disk_Properties\<close>). On a disk, terms, ids, entries and snapshots must also fit their
  length fields (\<open>disk_tidy\<close>).
\<close>

section \<open>The members of a group\<close>

definition raft_group :: "(node_id \<Rightarrow> Config) \<Rightarrow> node_id set \<Rightarrow> bool" where
  "raft_group cfg M \<longleftrightarrow> finite M \<and> odd (card M) \<and>
     (\<forall>i. cID (cfg i) = i \<and> i \<notin> set (cPeers (cfg i)) \<and>
       (if i \<in> M then distinct (cPeers (cfg i)) \<and> set (cPeers (cfg i)) = M - {i} else \<not> cTransport (cfg i)))"

section \<open>MemoryStorage\<close>

interpretation mem_log: log_storage MemoryStorage_ops mem_inv mem_inv mem_view "\<lambda>_. True" "\<lambda>_. True" mem_hs "\<lambda>_ _. True" "\<lambda>_. True"
  by unfold_locales (simp_all add: mem_hs_def mem_view_def)

lemma mem_group: "raft_group cfg M \<Longrightarrow> mem_log.group_cfg cfg M"
  by (simp add: raft_group_def mem_log.group_cfg_def mem_hard.cfg_ok_def mem_hard.members_ok_def split: if_splits)

lemma mem_tidy: "mem_log.tidy = stores_kept mem_view"
  by (rule ext) (simp add: mem_log.tidy_def)

lemma mem_fresh: "fresh mem_view s \<Longrightarrow> mem_inv s"
  by (simp add: fresh_def mem_view_def mem_inv_def)

section \<open>DiskStorage\<close>

interpretation disk_log: log_storage DiskStorage_ops disk_inv disk_recov disk_view disk_fits disk_hard_ok disk_hs hard_fits record_fits
  by unfold_locales (auto simp: disk_recov_def disk_hard_ok_def disk_view_def disk_hs_def make_view_def split: sum.splits prod.splits)

definition disk_tidy :: "DiskStorage Cluster \<Rightarrow> bool" where
  "disk_tidy c \<longleftrightarrow> bounded hard_fits c \<and> stores_kept disk_view c \<and> (\<forall>i. cAlive c i \<longrightarrow>
     (\<forall>x \<in> set (nlog (cNode c i)). record_fits x) \<and>
     snap_fits (lastIncludedIndex (cNode c i)) (lastIncludedTerm (cNode c i)) (snapshotData (cNode c i)))"

lemma disk_group: "raft_group cfg M \<Longrightarrow> disk_log.group_cfg cfg M"
  by (simp add: raft_group_def disk_log.group_cfg_def mem_hard.cfg_ok_def mem_hard.members_ok_def split: if_splits)

lemma disk_tidy: "disk_log.tidy = disk_tidy"
  by (rule ext) (auto simp: disk_log.tidy_def disk_tidy_def)

section \<open>Where a run starts\<close>

definition mem_start :: "MemoryStorage Cluster \<Rightarrow> bool" where
  "mem_start c \<longleftrightarrow> cinit c \<and> (\<forall>i. fresh mem_view (storage (cNode c i)))"

definition disk_start :: "DiskStorage Cluster \<Rightarrow> bool" where
  "disk_start c \<longleftrightarrow> cinit c \<and> (\<forall>i. disk_recov (storage (cNode c i)) \<and> fresh disk_view (storage (cNode c i)))"

lemma mem_startD:
  assumes "mem_start c"
  shows "cinit c" "mem_inv (storage (cNode c i)) \<and> fresh mem_view (storage (cNode c i))"
  using assms mem_fresh by (simp_all add: mem_start_def)

lemma disk_startD:
  assumes "disk_start c"
  shows "cinit c" "disk_recov (storage (cNode c i)) \<and> fresh disk_view (storage (cNode c i))"
  using assms by (simp_all add: disk_start_def)

section \<open>Checked runs\<close>

text \<open>\<open>acts_in P\<close> performs actions and checks \<open>P\<close> in every state. Nodes outside \<open>ms\<close> never come up.\<close>

fun acts_in :: "('s Cluster \<Rightarrow> bool) \<Rightarrow> 's Storage \<Rightarrow> (node_id \<Rightarrow> Config) \<Rightarrow> env \<Rightarrow> Action list \<Rightarrow> 's Cluster \<Rightarrow> 's Cluster option" where
  "acts_in P ops cfg e [] c = (if P c then Some c else None)"
| "acts_in P ops cfg e (a # as) c = (if P c then (case act ops cfg e a c of None \<Rightarrow> None | Some d \<Rightarrow> acts_in P ops cfg e as d) else None)"

definition up_in :: "node_id set \<Rightarrow> 's Cluster \<Rightarrow> bool" where
  "up_in M c \<longleftrightarrow> (\<forall>i. cAlive c i \<longrightarrow> i \<in> M)"

lemma run_in_left:
  "run_in P ops cfg d e \<Longrightarrow> cstep ops cfg c d \<Longrightarrow> P c \<Longrightarrow> P d \<Longrightarrow> run_in P ops cfg c e"
  by (induction rule: run_in.induct) (auto intro: run_in.intros)

lemma run_in_trans:
  "run_in P ops cfg d e \<Longrightarrow> run_in P ops cfg c d \<Longrightarrow> run_in P ops cfg c e"
  by (induction rule: run_in.induct) (auto intro: run_in.intros)

lemma run_in_ends: "run_in P ops cfg c d \<Longrightarrow> P c \<and> P d"
  by (induction rule: run_in.induct) auto

lemma NewNode_transport: "NewNode ops e cfg s = Some (st, Inr n) \<Longrightarrow> cTransport cfg"
  by (auto simp: NewNode_def split: if_splits)

lemma cstep_up_in:
  assumes "cstep ops cfg c d" "up_in M c" "\<And>i. i \<notin> M \<Longrightarrow> \<not> cTransport (cfg i)"
  shows "up_in M d"
  using assms(1)
proof cases
  case (restart i e st n)
  then have "i \<in> M" using NewNode_transport [OF restart(2)] assms(3) by metis
  then show ?thesis using restart(3) assms(2) by (simp add: up_in_def)
qed (use assms(2) in \<open>auto simp: up_in_def set_ballot_def send_all_def reply_to_def put_def split: sum.splits\<close>)

lemma acts_in_run:
  assumes cfg: "\<And>i. i \<notin> M \<Longrightarrow> \<not> cTransport (cfg i)" and P: "\<And>c. up_in M c \<Longrightarrow> P c \<Longrightarrow> Q c"
  shows "acts_in P ops cfg e as c = Some d \<Longrightarrow> up_in M c \<Longrightarrow> run_in Q ops cfg c d \<and> up_in M d"
proof (induction as arbitrary: c)
  case Nil
  then show ?case using P by (auto intro: run_in_refl split: if_splits)
next
  case (Cons a as)
  then obtain c1 where c1: "P c" "act ops cfg e a c = Some c1" "acts_in P ops cfg e as c1 = Some d"
    by (auto split: if_splits option.splits)
  note s = act_cstep [OF c1(2)]
  have "run_in Q ops cfg c1 d \<and> up_in M d" using Cons.IH [OF c1(3)] cstep_up_in [OF s Cons.prems(2) cfg] by blast
  then show ?case using run_in_left [OF _ s] P [OF Cons.prems(2) c1(1)] run_in_ends by blast
qed

text \<open>The test of \<open>stores_kept\<close> on the members.\<close>

definition kept_on :: "('s \<Rightarrow> PersistentState) \<Rightarrow> node_id list \<Rightarrow> 's Cluster \<Rightarrow> bool" where
  "kept_on view ms c \<longleftrightarrow> list_all (\<lambda>i. \<not> cAlive c i \<or> \<not> failed (cNode c i) \<and> store_current view (cNode c i)) ms"

lemma kept_on_stores: "up_in (set ms) c \<Longrightarrow> kept_on view ms c \<Longrightarrow> stores_kept view c"
  by (auto simp: up_in_def kept_on_def stores_kept_def list_all_iff snapshot_fault_def)

section \<open>A run of three members\<close>

text \<open>Member ''n1'' wins term 1, replicates a command to ''n2'' and commits it (\<open>trio_c\<close>); its next heartbeat
  tells ''n2'' (\<open>trio_d\<close>); ''n2'' wins term 2 (\<open>trio_e\<close>).\<close>

definition trio :: "node_id list" where "trio = [''n1'', ''n2'', ''n3'']"

definition trio_cfg :: "node_id \<Rightarrow> Config" where
  "trio_cfg i = (demo_cfg trio i)\<lparr>cTransport := i \<in> set trio\<rparr>"

definition trio_append :: "LogEntry list \<Rightarrow> nat \<Rightarrow> nat \<Rightarrow> AppendEntriesArgs" where
  "trio_append es prev commit = \<lparr>aeTerm = 1, aeLeaderID = ''n1'', aePrevLogIndex = prev, aePrevLogTerm = prev,
     aeEntries = es, aeLeaderCommit = commit\<rparr>"

definition trio_ok :: AppendEntriesReply where
  "trio_ok = \<lparr>arTerm = 1, arSuccess = True, arConflictTerm = 0, arConflictIndex = 0\<rparr>"

definition trio_entry :: LogEntry where
  "trio_entry = \<lparr>eTerm = 1, eIndex = 1, eCommand = [7]\<rparr>"

definition trio_vote :: RequestVoteArgs where
  "trio_vote = \<lparr>rvTerm = 2, rvCandidateID = ''n2'', rvLastLogIndex = 1, rvLastLogTerm = 1\<rparr>"

definition trio_commits :: "Action list" where
  "trio_commits = demo_election @ [Client ''n1'' [7], Replicate ''n1'' ''n2'' 1,
     Deliver ''n1'' ''n2'' (AppendEntriesReq (trio_append [trio_entry] 0 0)),
     CountAppend ''n1'' ''n2'' (trio_append [trio_entry] 0 0) trio_ok]"

definition trio_tells :: "Action list" where
  "trio_tells = [Replicate ''n1'' ''n2'' 1, Deliver ''n1'' ''n2'' (AppendEntriesReq (trio_append [] 1 1))]"

definition trio_elects :: "Action list" where
  "trio_elects = [Start ''n2'', Deliver ''n2'' ''n1'' (RequestVoteReq trio_vote),
     CountVote ''n2'' ''n1'' trio_vote \<lparr>rrTerm = 2, rrVoteGranted = True\<rparr>]"

definition trio_run :: "Action list \<Rightarrow> MemoryStorage Cluster \<Rightarrow> MemoryStorage Cluster option" where
  "trio_run as c = acts_in (kept_on mem_view trio) MemoryStorage_ops trio_cfg demo_env as c"

definition trio_c :: "MemoryStorage Cluster" where "trio_c = the (trio_run trio_commits (demo_cluster trio))"
definition trio_d :: "MemoryStorage Cluster" where "trio_d = the (trio_run trio_tells trio_c)"
definition trio_e :: "MemoryStorage Cluster" where "trio_e = the (trio_run trio_elects trio_d)"

lemma trio_runs: "trio_run trio_commits (demo_cluster trio) \<noteq> None" "trio_run trio_tells trio_c \<noteq> None" "trio_run trio_elects trio_d \<noteq> None"
  by code_simp+

lemma trio_group: "raft_group trio_cfg {''n1'', ''n2'', ''n3''}"
  by (auto simp: raft_group_def trio_cfg_def demo_cfg_def trio_def)

lemma trio_start: "mem_start (demo_cluster trio)"
  using demo_init(1) by (simp add: mem_start_def fresh_def demo_cluster_def node_from_state_def mem_view_def NewMemoryStorage_def)

lemma trio_run_in:
  assumes "trio_run as c \<noteq> None" "up_in (set trio) c"
  shows "run_in (stores_kept mem_view) MemoryStorage_ops trio_cfg c (the (trio_run as c)) \<and> up_in (set trio) (the (trio_run as c))"
proof -
  have r: "acts_in (kept_on mem_view trio) MemoryStorage_ops trio_cfg demo_env as c = Some (the (trio_run as c))"
    using assms(1) by (simp add: trio_run_def)
  show ?thesis
  proof (rule acts_in_run [OF _ _ r assms(2)])
    show "\<not> cTransport (trio_cfg i)" if "i \<notin> set trio" for i using that by (simp add: trio_cfg_def)
  qed (rule kept_on_stores)
qed

lemma trio_steps:
  "run_in (stores_kept mem_view) MemoryStorage_ops trio_cfg (demo_cluster trio) trio_c"
  "run_in (stores_kept mem_view) MemoryStorage_ops trio_cfg trio_c trio_d"
  "run_in (stores_kept mem_view) MemoryStorage_ops trio_cfg trio_c trio_e"
proof -
  have "up_in (set trio) (demo_cluster trio)" by (simp add: up_in_def demo_cluster_def)
  then have c: "run_in (stores_kept mem_view) MemoryStorage_ops trio_cfg (demo_cluster trio) trio_c \<and> up_in (set trio) trio_c"
    unfolding trio_c_def using trio_run_in [OF trio_runs(1)] by blast
  then have d: "run_in (stores_kept mem_view) MemoryStorage_ops trio_cfg trio_c trio_d \<and> up_in (set trio) trio_d"
    unfolding trio_d_def using trio_run_in [OF trio_runs(2)] by blast
  then have e: "run_in (stores_kept mem_view) MemoryStorage_ops trio_cfg trio_d trio_e"
    unfolding trio_e_def using trio_run_in [OF trio_runs(3)] by blast
  show "run_in (stores_kept mem_view) MemoryStorage_ops trio_cfg (demo_cluster trio) trio_c"
    "run_in (stores_kept mem_view) MemoryStorage_ops trio_cfg trio_c trio_d"
    "run_in (stores_kept mem_view) MemoryStorage_ops trio_cfg trio_c trio_e"
    using c d run_in_trans [OF e] by blast+
qed

section \<open>Consensus\<close>


text \<open>In the run of three, ''n1'' and later ''n2'' apply the command.\<close>

lemma trio_applies:
  "applies trio_c ''n1'' (command_msg trio_entry)" "applies trio_d ''n2'' (command_msg trio_entry)"
proof -
  have "cAlive trio_c ''n1''" "cApplyPc trio_c ''n1'' = ApplyTop" "case apply_section ApplyTop (cNode trio_c ''n1'') of
      Some (ApplySend m b, n) \<Rightarrow> m = command_msg trio_entry \<and> lastApplied n = lastApplied (cNode trio_c ''n1'') + 1 | _ \<Rightarrow> False"
    by code_simp+
  then show "applies trio_c ''n1'' (command_msg trio_entry)"
    unfolding applies_def by (auto simp: command_msg_def split: option.splits prod.splits ApplyPc.splits)
  have "cAlive trio_d ''n2''" "cApplyPc trio_d ''n2'' = ApplyTop" "case apply_section ApplyTop (cNode trio_d ''n2'') of
      Some (ApplySend m b, n) \<Rightarrow> m = command_msg trio_entry \<and> lastApplied n = lastApplied (cNode trio_d ''n2'') + 1 | _ \<Rightarrow> False"
    by code_simp+
  then show "applies trio_d ''n2'' (command_msg trio_entry)"
    unfolding applies_def by (auto simp: command_msg_def split: option.splits prod.splits ApplyPc.splits)
qed





text \<open>A second command of ''n1'', after the first one is committed.\<close>

definition trio_second :: "Action list" where
  "trio_second = [Client ''n1'' [8], Replicate ''n1'' ''n2'' 1,
     Deliver ''n1'' ''n2'' (AppendEntriesReq (trio_append [\<lparr>eTerm = 1, eIndex = 2, eCommand = [8]\<rparr>] 1 1)),
     CountAppend ''n1'' ''n2'' (trio_append [\<lparr>eTerm = 1, eIndex = 2, eCommand = [8]\<rparr>] 1 1) trio_ok]"

definition trio_f :: "MemoryStorage Cluster" where "trio_f = the (trio_run trio_second trio_c)"




section \<open>Three members on empty directories\<close>

text \<open>A run on disks for the witnesses: ''n1'' comes up.\<close>

definition blank_disk :: DiskStorage where
  "blank_disk = \<lparr>dFs = empty_dir, dOpen = True, dOffsets = [], dLastIncludedIndex = 0, dLastIncludedTerm = 0\<rparr>"

definition disk_trio :: "DiskStorage Cluster" where
  "disk_trio = \<lparr>cNode = \<lambda>i. node_from_state (trio_cfg i) blank_disk empty_state (boundary_entry 0 0), cAlive = \<lambda>i. False,
     cApplyPc = \<lambda>i. ApplyTop, cReqs = {}, cReps = {}, cBallots = \<lambda>i t. None\<rparr>"

lemma blank_disk: "disk_view blank_disk = empty_state" "disk_recov blank_disk" "quiet_disk blank_disk"
proof -
  have "hard_file empty_dir = Inr (0, [])" "snap_file empty_dir = Inr (0, 0, [])" "content empty_dir walFileName = []" "faults empty_dir = []"
    by (simp_all add: hard_file_def snap_file_def content_def empty_dir_def)
  then show "disk_view blank_disk = empty_state" "disk_recov blank_disk" "quiet_disk blank_disk"
    by (simp_all add: blank_disk_def disk_view_def disk_hs_def disk_snap_def wal_entries_def wal_file_def make_view_def
      empty_state_def disk_recov_def quiet_disk_def)
qed

lemma disk_trio_start: "disk_start disk_trio"
  using blank_disk by (simp add: disk_start_def fresh_def disk_trio_def cinit_def node_from_state_def empty_state_def)

lemma disk_trio_run:
  "\<exists>d. run_in disk_tidy DiskStorage_ops trio_cfg disk_trio disk_trio \<and> run_in disk_tidy DiskStorage_ops trio_cfg disk_trio d \<and> working d ''n1''"
proof -
  obtain st ps where l: "disk_Load blank_disk = (st, Inr ps)" using quiet_Load [OF blank_disk(3,2)] by blast
  then have ps: "ps = empty_state" "disk_view st = empty_state" using disk.load_view [of blank_disk st "Inr ps"] blank_disk by (simp_all add: disk_ops_simps)
  let ?n = "resetElectionDeadlineLocked demo_env (node_from_state (trio_cfg ''n1'') st empty_state (boundary_entry 0 0))"
  let ?d = "(put ''n1'' ?n disk_trio)\<lparr>cAlive := (cAlive disk_trio)(''n1'' := True), cApplyPc := (cApplyPc disk_trio)(''n1'' := ApplyTop)\<rparr>"
  have "NewNode DiskStorage_ops demo_env (trio_cfg ''n1'') (storage (cNode disk_trio ''n1'')) = Some (st, Inr ?n)"
    using l ps(1) by (simp add: NewNode_def disk_trio_def node_from_state_def disk_ops_simps empty_state_def
      trio_cfg_def demo_cfg_def trio_def orDefault_def defaultElectionTimeoutMax_def defaultElectionTimeoutMin_def
      millisecond_def)
  moreover have "\<not> cAlive disk_trio ''n1''" by (simp add: disk_trio_def)
  ultimately have s: "cstep DiskStorage_ops trio_cfg disk_trio ?d" by (intro cstep.restart) simp_all
  have b: "disk_tidy disk_trio"
    by (simp add: disk_tidy_def bounded_def stores_kept_def disk_trio_def node_from_state_def empty_state_def hard_fits_def)
  have t: "disk_tidy ?d"
    using ps(2) by (auto simp: disk_tidy_def bounded_def stores_kept_def put_def disk_trio_def node_from_state_def empty_state_def
      hard_fits_def resetElectionDeadlineLocked_def snap_fits_def record_fits_def maxRecordPayload_def snapshot_fault_def
      store_current_def boundary_entry_def Let_def)
  have "working ?d ''n1''" by (simp add: working_def put_def resetElectionDeadlineLocked_def node_from_state_def Let_def)
  then show ?thesis using run_in_refl [of disk_tidy, OF b] run_in_step [OF run_in_refl [of disk_tidy, OF b] s t] by blast
qed







end
