(* ===== verification/Raft_Stale.thy ===== *)
theory Raft_Stale
  imports Raft_Consensus Raft_Snapshots
begin

text \<open>
  What the restriction \<open>stores_kept\<close> of \<open>Raft_Consensus\<close> excludes. A snapshot that conflicts with the log of
  its receiver leaves a stale tail on the store. Here a run in which that makes two state machines
  apply different commands at one index, and what it does to a disk: entries that were written,
  synced and acknowledged after it are gone at the next restart.
\<close>

section \<open>A run that loses a committed command\<close>

text \<open>
  Member ''n3'' leads term 1 and writes three commands that nobody gets. Member ''n1'' wins term 2, commits
  two others with ''n2'', compacts its log and ships the snapshot to ''n3'', where it conflicts: ''n3'' drops its
  log, its store keeps the third entry. The next command of ''n1'' is committed with the
  acknowledgement of ''n3'' (\<open>stale_c\<close>, where ''n1'' applies it). Then ''n3'' restarts, comes back with its own
  old third command in that place, wins term 3 with the vote of ''n2'' and applies it (\<open>stale_d\<close>).
\<close>

definition vote_args :: "node_id \<Rightarrow> nat \<Rightarrow> nat \<Rightarrow> nat \<Rightarrow> RequestVoteArgs" where
  "vote_args i t k u = \<lparr>rvTerm = t, rvCandidateID = i, rvLastLogIndex = k, rvLastLogTerm = u\<rparr>"

definition append_args :: "node_id \<Rightarrow> nat \<Rightarrow> nat \<Rightarrow> nat \<Rightarrow> LogEntry list \<Rightarrow> nat \<Rightarrow> AppendEntriesArgs" where
  "append_args i t k u es com =
     \<lparr>aeTerm = t, aeLeaderID = i, aePrevLogIndex = k, aePrevLogTerm = u, aeEntries = es, aeLeaderCommit = com\<rparr>"

definition accepted :: "nat \<Rightarrow> AppendEntriesReply" where
  "accepted t = \<lparr>arTerm = t, arSuccess = True, arConflictTerm = 0, arConflictIndex = 0\<rparr>"

definition cmd_at :: "nat \<Rightarrow> nat \<Rightarrow> nat \<Rightarrow> LogEntry" where
  "cmd_at t i x = \<lparr>eTerm = t, eIndex = i, eCommand = [of_nat x]\<rparr>"

definition elect :: "node_id \<Rightarrow> node_id \<Rightarrow> RequestVoteArgs \<Rightarrow> Action list" where
  "elect i j v = [Start i, Deliver i j (RequestVoteReq v), CountVote i j v \<lparr>rrTerm = rvTerm v, rrVoteGranted = True\<rparr>]"

definition ship :: "node_id \<Rightarrow> node_id \<Rightarrow> AppendEntriesArgs \<Rightarrow> AppendEntriesReply \<Rightarrow> Action list" where
  "ship i j a r = [Replicate i j (aeTerm a), Deliver i j (AppendEntriesReq a), CountAppend i j a r]"

definition stale_snapshot :: InstallSnapshotArgs where
  "stale_snapshot = \<lparr>isTerm = 2, isLeaderID = ''n1'', isLastIncludedIndex = 2, isLastIncludedTerm = 2, isData = [9]\<rparr>"

definition stale_commits :: "Action list" where
  "stale_commits =
    [Restart ''n1'', Restart ''n2'', Restart ''n3''] @ elect ''n3'' ''n1'' (vote_args ''n3'' 1 0 0) @
    [Client ''n3'' [1], Client ''n3'' [2], Client ''n3'' [3]] @
    elect ''n1'' ''n2'' (vote_args ''n1'' 2 0 0) @ [Client ''n1'' [4], Client ''n1'' [5]] @
    ship ''n1'' ''n2'' (append_args ''n1'' 2 0 0 [cmd_at 2 1 4, cmd_at 2 2 5] 0) (accepted 2) @
    [Apply ''n1'', Apply ''n1'', Apply ''n1'', Apply ''n1'', Apply ''n1'', TakeSnapshot ''n1'' 2 [9], Apply ''n1'',
     ShipSnapshot ''n1'' ''n3'' 2, Deliver ''n1'' ''n3'' (InstallSnapshotReq stale_snapshot),
     CountSnapshot ''n1'' ''n3'' stale_snapshot \<lparr>irTerm = 2\<rparr>, Client ''n1'' [6]] @
    ship ''n1'' ''n3'' (append_args ''n1'' 2 2 2 [cmd_at 2 3 6] 2) (accepted 2)"

definition stale_restarts :: "Action list" where
  "stale_restarts =
    [Crash ''n3'', Restart ''n3''] @ elect ''n3'' ''n2'' (vote_args ''n3'' 3 3 2) @ [Client ''n3'' [7], Client ''n3'' [8]] @
    ship ''n3'' ''n2'' (append_args ''n3'' 3 3 1 [cmd_at 2 3 6, cmd_at 3 4 7, cmd_at 3 5 8] 2)
      \<lparr>arTerm = 3, arSuccess = False, arConflictTerm = 0, arConflictIndex = 3\<rparr> @
    ship ''n3'' ''n2'' (append_args ''n3'' 3 2 2 [cmd_at 1 3 3, cmd_at 2 3 6, cmd_at 3 4 7, cmd_at 3 5 8] 2) (accepted 3) @
    [Apply ''n3'', Apply ''n3'']"

definition stale_c :: "MemoryStorage Cluster option" where
  "stale_c = acts MemoryStorage_ops trio_cfg demo_env stale_commits (demo_cluster trio)"

definition stale_d :: "MemoryStorage Cluster option" where
  "stale_d = acts MemoryStorage_ops trio_cfg demo_env stale_restarts (the stale_c)"

text \<open>The command the apply loop takes next, if it takes one.\<close>

definition takes :: "'s Cluster \<Rightarrow> node_id \<Rightarrow> (nat \<times> bytes) option" where
  "takes c i = (if cAlive c i \<and> (cApplyPc c i = ApplyTop \<and> pendingSnapshot (cNode c i) = None) \<and>
       lastApplied (cNode c i) < commitIndex (cNode c i)
     then map_option (\<lambda>x. (eIndex x, eCommand x)) (entryAtLocked (cNode c i) (lastApplied (cNode c i) + 1)) else None)"

lemma takes_applies:
  assumes "takes c i = Some (k, x)"
  shows "\<exists>m. applies c i m \<and> amCommandIndex m = k \<and> amCommand m = x"
proof -
  obtain e where e: "cAlive c i" "cApplyPc c i = ApplyTop" "pendingSnapshot (cNode c i) = None"
    "lastApplied (cNode c i) < commitIndex (cNode c i)" "entryAtLocked (cNode c i) (lastApplied (cNode c i) + 1) = Some e"
    "eIndex e = k" "eCommand e = x" using assms by (auto simp: takes_def split: if_splits)
  then have "applies c i (command_msg e)" by (auto simp: applies_def apply_batch_def command_msg_def)
  then show ?thesis using e by (intro exI [of _ "command_msg e"]) (simp add: command_msg_def)
qed

text \<open>C36: Without the restriction, state machine safety fails: there is a run of three members in which ''n1''
  applies one command at index 3 and ''n3'' later applies another one there.\<close>

theorem stale_tail_breaks_consensus:
  "\<exists>c d m m'. run MemoryStorage_ops trio_cfg (\<lambda>t v. True) (demo_cluster trio) c \<and>
     run MemoryStorage_ops trio_cfg (\<lambda>t v. True) c d \<and> applies c ''n1'' m \<and> applies d ''n3'' m' \<and>
     amCommandIndex m = 3 \<and> amCommandIndex m' = 3 \<and> amCommand m = [6] \<and> amCommand m' = [3]"
proof -
  have c: "case stale_c of None \<Rightarrow> False | Some c \<Rightarrow> takes c ''n1'' = Some (3, [6])" by code_simp
  have d: "case stale_d of None \<Rightarrow> False | Some d \<Rightarrow> takes d ''n3'' = Some (3, [3])" by code_simp
  note c = c [THEN case_the] and d = d [THEN case_the]
  have "run MemoryStorage_ops trio_cfg (\<lambda>t v. True) (demo_cluster trio) (the stale_c)"
    "run MemoryStorage_ops trio_cfg (\<lambda>t v. True) (the stale_c) (the stale_d)"
    using c d by (auto simp: stale_c_def stale_d_def intro!: acts_run [of _ _ demo_env])
  then show ?thesis using takes_applies c d by blast
qed

section \<open>What is written behind a stale tail is lost\<close>

lemma append_behind_stale:
  assumes d: "disk_inv d" and w: "wal_entries d \<noteq> []"
    and es: "es \<noteq> []" "eIndex (hd es) = fst (disk_snap d) + 1" "record_fits (hd es)" and a: "disk_AppendLog d es = (d', None)"
  shows "disk_view d' = disk_view d"
proof -
  let ?i = "fst (disk_snap d) + 1" and ?old = "wal_entries d"
  obtain k where k: "wal_file d' = wal_file d @ take k (wal_bytes es)" "length (wal_bytes es) \<le> k"
    using AppendLog_spec [OF a] by auto
  note v = AppendLog_view [OF a]
  obtain x xs where x: "es = x # xs" using es(1) by (cases es) auto
  have "wal_file d' = wal_bytes ?old @ (encode_record x @ wal_bytes xs)" using d k x by (simp add: disk_inv_def)
  moreover have "scan_records (?i + length ?old) p (encode_record x @ wal_bytes xs) = ([], [], p)" for p
    using read_encode_record [of x "wal_bytes xs"] es x w by (subst scan_records.simps) simp
  ultimately have "wal_entries d' = wal_entries d"
    using scan_append [OF wal_entries_ok(1,2) [of d], of 0 "encode_record x @ wal_bytes xs"] v(2)
    by (simp add: wal_entries_def [of d'])
  then show ?thesis using v by (simp add: disk_view_def)
qed

text \<open>Entries that a follower has acknowledged can be gone after a restart. Let a node on \<open>DiskStorage\<close> have
  dropped its log for a snapshot while its disk still has a stale tail behind it (what
  \<open>conflicting_snapshot_keeps_stale_log\<close> leaves), and let the leader send entries after the snapshot.
  When the node answers, it answers success and holds them, but whatever opens the directory next
  gets the stale tail and none of them.\<close>

theorem acknowledged_append_lost:
  assumes "\<not> failed n" "nlog n = [boundary_entry t i]" "lastIncludedIndex n = i"
    and "disk_inv (storage n)" "psLog (disk_view (storage n)) = boundary_entry t i # stale" "stale \<noteq> []"
    and "aeTerm a = currentTerm n" "aePrevLogIndex a = i" "aePrevLogTerm a = t"
    and "aeEntries a \<noteq> []" "eIndex (hd (aeEntries a)) = i + 1" "record_fits (hd (aeEntries a))"
    and "handleAppendEntries DiskStorage_ops e a n = Some (n', Inr rep)"
  shows "arSuccess rep \<and> nlog n' = boundary_entry t i # aeEntries a \<and>
    (\<forall>d ps. disk_open (dFs (storage n')) = Inr (d, ps) \<longrightarrow> psLog ps = boundary_entry t i # stale)"
proof -
  define n1 where "n1 = acceptLeader DiskStorage_ops e (currentTerm n) (aeLeaderID a) n"
  have n1: "storage n1 = storage n" "\<not> failed n1" "nlog n1 = nlog n" "lastIncludedIndex n1 = i"
    using assms(1,3) by (simp_all add: n1_def acceptLeader_def Let_def resetElectionDeadlineLocked_def)
  have "ae_reconcile DiskStorage_ops i t (aeEntries a) (aeLeaderCommit a) n1 = Some (n', Inr rep)"
    using assms(1,7-9,13) n1(2,4) by (simp add: handleAppendEntries_def n1_def [symmetric] Let_def)
  moreover have "append_loop DiskStorage_ops (i + 1) (aeEntries a) n1 = Some (appendLogLocked DiskStorage_ops (aeEntries a) n1)"
    using assms(2,10) n1 by (cases "aeEntries a") (simp_all add: lastIndexLocked_def boundary_entry_def)
  ultimately have r: "\<not> failed (appendLogLocked DiskStorage_ops (aeEntries a) n1)" "arSuccess rep"
    "nlog n' = nlog (appendLogLocked DiskStorage_ops (aeEntries a) n1)"
    "storage n' = storage (appendLogLocked DiskStorage_ops (aeEntries a) n1)"
    using assms(2,3) n1
    by (auto simp: ae_reconcile_def lastIndexLocked_def termAtLocked_def entryAtLocked_def boundary_entry_def ae_success_def
      notifyApply_def split: if_splits option.splits)
  obtain st where st: "disk_AppendLog (storage n) (aeEntries a) = (st, None)"
    using r(1) n1(1,2) by (auto simp: appendLogLocked_def disk_ops_simps disableLocked_def Let_def split: prod.splits option.splits)
  then have n': "nlog n' = boundary_entry t i # aeEntries a" "storage n' = st"
    using r(3,4) assms(2) n1 by (simp_all add: appendLogLocked_def disk_ops_simps)
  have b: "fst (disk_snap (storage n)) = i" "wal_entries (storage n) = stale"
    using assms(5) by (simp_all add: disk_view_def boundary_entry_def)
  have "disk_view st = disk_view (storage n)"
    using append_behind_stale [OF assms(4) _ assms(10) _ assms(12) st] assms(6,11) b by simp
  then show ?thesis using r(2) n' disk_open_view(2) [of st] assms(5) by auto
qed

text \<open>A disk with the terms 1, 3, 3 takes a snapshot of index 2 and term 2, which leaves the third entry; the node
  holds the snapshot only. The leader of term 3 sends another third entry.\<close>

definition lost_append :: AppendEntriesArgs where
  "lost_append = append_args ''n3'' 3 2 2 [cmd_at 3 3 6] 0"

theorem acknowledged_append_lost_witness:
  "\<exists>(n :: DiskStorage Node) n' rep d ps. handleAppendEntries DiskStorage_ops wit_env lost_append n = Some (n', Inr rep) \<and>
    arSuccess rep \<and> nlog n' = [boundary_entry 2 2, cmd_at 3 3 6] \<and> disk_open (dFs (storage n')) = Inr (d, ps) \<and>
    psLog ps = [boundary_entry 2 2, \<lparr>eTerm = 3, eIndex = 3, eCommand = [8, 9]\<rparr>]"
proof -
  let ?cs = "sample_calls @ [CallSaveSnapshot 2 2 [9]]"
  let ?stale = "[\<lparr>eTerm = 3, eIndex = 3, eCommand = [8, 9]\<rparr>]"
  have leg: "legal_calls disk_fits empty_state ?cs"
    unfolding legal_calls_append
    by (simp add: sample_legal snap_fits_def) (simp add: sample_calls_def empty_state_def ps_boundary_def boundary_entry_def)
  obtain d0 st where d: "disk_open empty_dir = Inr (d0, empty_state)" "storage_calls DiskStorage_ops d0 ?cs = (st, None)"
    "quiet_disk st" "disk_inv st"
    using open_empty_calls [OF leg] by blast
  have "disk_inv d0" "disk_view d0 = empty_state" using disk_open_view [of "d0\<lparr>dFs := empty_dir\<rparr>" d0 empty_state] d(1) by simp_all
  then have v: "disk_view st = fold ps_call ?cs empty_state" using disk.calls_view [of d0 ?cs st] leg d(2) by simp
  then have ps: "psLog (disk_view st) = boundary_entry 2 2 # ?stale" "psCurrentTerm (disk_view st) = 3"
    by (simp_all add: sample_calls_def empty_state_def ps_boundary_def boundary_entry_def)
  define n where "n = (node_from_state (wit_cfg ''n1'' [''n2'', ''n3'']) st (disk_view st) (boundary_entry 2 2))\<lparr>nlog := [boundary_entry 2 2]\<rparr>"
  have f: "\<not> failed n" "nlog n = [boundary_entry 2 2]" "lastIncludedIndex n = 2" "storage n = st" "currentTerm n = 3"
    using ps(2) by (simp_all add: n_def node_from_state_def boundary_entry_def)
  have a: "aeTerm lost_append = 3" "aePrevLogIndex lost_append = 2" "aePrevLogTerm lost_append = 2" "aeEntries lost_append = [cmd_at 3 3 6]"
    "aeLeaderCommit lost_append = 0"
    by (simp_all add: lost_append_def append_args_def)
  have c: "eIndex (cmd_at 3 3 6) = 3" "record_fits (cmd_at 3 3 6)" by (simp_all add: cmd_at_def record_fits_def maxRecordPayload_def)
  obtain st1 r1 where s1: "disk_AppendLog st [cmd_at 3 3 6] = (st1, r1)" by (metis surj_pair)
  have q: "r1 = None" "quiet_disk st1" using quiet_AppendLog [OF s1 d(3)] by simp_all
  let ?n1 = "acceptLeader DiskStorage_ops wit_env 3 (aeLeaderID lost_append) n"
  have n1: "storage ?n1 = st" "\<not> failed ?n1" "nlog ?n1 = [boundary_entry 2 2]" "lastIncludedIndex ?n1 = 2" "commitIndex ?n1 = 2"
    using f by (simp_all add: acceptLeader_def Let_def resetElectionDeadlineLocked_def n_def node_from_state_def boundary_entry_def)
  have "\<exists>n' rep. handleAppendEntries DiskStorage_ops wit_env lost_append n = Some (n', Inr rep) \<and> storage n' = st1"
    using f a n1 s1 q(1) c
    by (simp add: handleAppendEntries_def Let_def ae_reconcile_def lastIndexLocked_def boundary_entry_def
      termAtLocked_def entryAtLocked_def appendLogLocked_def disk_ops_simps)
  then obtain n' rep where h: "handleAppendEntries DiskStorage_ops wit_env lost_append n = Some (n', Inr rep)" "storage n' = st1" by blast
  have e: "aeEntries lost_append \<noteq> []" "eIndex (hd (aeEntries lost_append)) = 2 + 1" "record_fits (hd (aeEntries lost_append))"
    using a(4) c by simp_all
  have t: "aeTerm lost_append = currentTerm n" using a f by simp
  have sv: "disk_inv (storage n)" "psLog (disk_view (storage n)) = boundary_entry 2 2 # ?stale" "?stale \<noteq> []"
    using d(4) ps(1) f(4) by simp_all
  have "disk_recov st1" using AppendLog_view(4) [OF s1] d(4) by (simp add: disk_inv_def)
  then obtain d2 ps2 where o: "disk_open (dFs st1) = Inr (d2, ps2)" using quiet_open [of st1] q(2) by (auto simp: quiet_disk_def)
  have "arSuccess rep \<and> nlog n' = boundary_entry 2 2 # aeEntries lost_append \<and>
    (\<forall>d ps. disk_open (dFs (storage n')) = Inr (d, ps) \<longrightarrow> psLog ps = boundary_entry 2 2 # ?stale)"
    by (rule acknowledged_append_lost [OF f(1-3) sv t a(2,3) e h(1)])
  then show ?thesis using h o a(4) by (intro exI [of _ n] exI [of _ n'] exI [of _ rep] exI [of _ d2] exI [of _ ps2]) auto
qed

end
