(* ===== verification/Raft_Feed.thy ===== *)
theory Raft_Feed
  imports Raft_Consensus
begin

text \<open>
  What a node hands to its state machine, over whole runs. Only the apply loop, the reader of the
  channel, an installed snapshot and a restart touch it (\<open>cstep_feed\<close>). \<open>watched\<close> is the run relation with
  a record of the messages that each server has taken from its channel since its node came up.
\<close>

section \<open>What leaves the feed alone\<close>

definition feed :: "'s Node \<Rightarrow> nat \<times> ApplyMsg list \<times> ApplyMsg option" where
  "feed n = (lastApplied n, applyCh n, pendingSnapshot n)"

lemma feed_disable [simp]: "feed (disableLocked err n) = feed n"
  by (simp add: feed_def disableLocked_def)

lemma feed_save [simp]: "feed (saveHardStateLocked ops t v n) = feed n"
  by (simp add: feed_def saveHardStateLocked_def disableLocked_def Let_def split: prod.splits option.splits)

lemma feed_append [simp]: "feed (appendLogLocked ops es n) = feed n"
  by (simp add: feed_def appendLogLocked_def disableLocked_def Let_def split: prod.splits option.splits)

lemma feed_truncate: "truncateLogLocked ops k n = Some n' \<Longrightarrow> feed n' = feed n"
  by (auto simp: feed_def truncateLogLocked_def disableLocked_def Let_def case_prod_beta split: option.splits)

lemma feed_reset [simp]: "feed (resetElectionDeadlineLocked e n) = feed n"
  by (simp add: feed_def resetElectionDeadlineLocked_def Let_def)

lemma feed_follower [simp]: "feed (becomeFollowerLocked ops t n) = feed n"
proof -
  have "feed (n\<lparr>role := Follower\<rparr>) = feed n" by (simp add: feed_def)
  then show ?thesis by (simp add: becomeFollowerLocked_def Let_def)
qed

lemma feed_candidate [simp]: "feed (becomeCandidateLocked ops e n) = feed n"
proof -
  have "feed (n\<lparr>role := Candidate, leaderID := []\<rparr>) = feed n" by (simp add: feed_def)
  then show ?thesis by (simp add: becomeCandidateLocked_def Let_def)
qed

lemma feed_leader: "becomeLeaderLocked n = Some n' \<Longrightarrow> feed n' = feed n"
  by (auto simp: becomeLeaderLocked_def feed_def split: option.splits)

lemma feed_scan: "commit_scan n i = Some n' \<Longrightarrow> feed n' = feed n"
  by (induction n i rule: commit_scan.induct) (auto simp: feed_def notifyApply_def split: if_splits option.splits)

lemma feed_advance: "maybeAdvanceCommitLocked n = Some n' \<Longrightarrow> feed n' = feed n"
  by (auto simp: maybeAdvanceCommitLocked_def dest: feed_scan split: if_splits option.splits)

lemma feed_note [simp]: "feed (noteMatch p k n) = feed n"
  by (simp add: noteMatch_def feed_def Let_def)

lemma feed_backUp [simp]: "feed (backUp p r n) = feed n"
  by (simp add: backUp_def feed_def Let_def)

lemma feed_accept [simp]: "feed (acceptLeader ops e t l n) = feed n"
proof -
  define n1 where "n1 = (if t > currentTerm n then becomeFollowerLocked ops t n
    else if role n = Candidate then n\<lparr>role := Follower\<rparr> else n)"
  have "feed n1 = feed n" by (simp add: n1_def) (simp add: feed_def)
  moreover have "feed (n1\<lparr>leaderID := l\<rparr>) = feed n1" by (simp add: feed_def)
  ultimately show ?thesis unfolding acceptLeader_def n1_def [symmetric] Let_def by simp
qed

lemma feed_loop: "append_loop ops i es n = Some n' \<Longrightarrow> feed n' = feed n"
  by (induction ops i es n rule: append_loop.induct) (auto dest: feed_truncate split: if_splits option.splits)

lemma feed_reconcile: "ae_reconcile ops p t es com n = Some (n', r) \<Longrightarrow> feed n' = feed n"
  by (auto simp: ae_reconcile_def notifyApply_def Let_def dest!: feed_loop split: if_splits option.splits) (simp_all add: feed_def)

lemma feed_vote_request: "handleRequestVote ops e a n = Some (n', r) \<Longrightarrow> feed n' = feed n"
  by (auto simp: handleRequestVote_def Let_def split: if_splits option.splits)

lemma feed_append_request: "handleAppendEntries ops e a n = Some (n', r) \<Longrightarrow> feed n' = feed n"
  by (auto simp: handleAppendEntries_def Let_def dest!: feed_reconcile split: if_splits)

lemma feed_snapshot_request:
  assumes "handleInstallSnapshot ops e a n = Some (n', r)"
  shows "feed n' = feed n \<or> 0 < lastIncludedIndex n'"
  using assms feed_accept [of ops e "isTerm a" "isLeaderID a" n, unfolded feed_def]
  by (auto simp: handleInstallSnapshot_def feed_def disableLocked_def Let_def notifyApply_def split: if_splits option.splits prod.splits)

lemma feed_handle:
  assumes "handle ops e req n = Some (n', r)"
  shows "feed n' = feed n \<or> 0 < lastIncludedIndex n'"
  using assms by (cases req) (auto dest: feed_vote_request feed_append_request feed_snapshot_request)

lemma feed_sections:
  "startElection ops e n = Some (n', a) \<Longrightarrow> feed n' = feed n"
  "electedAlone t n = Some n' \<Longrightarrow> feed n' = feed n"
  "voteReply ops t v rv n = Some (n', v') \<Longrightarrow> feed n' = feed n"
  "appendReply ops p t k l ra n = Some n' \<Longrightarrow> feed n' = feed n"
  "snapshotReply ops p t k rs n = Some n' \<Longrightarrow> feed n' = feed n"
  "Propose ops cmd n = Some (n', idx, t', ld) \<Longrightarrow> feed n' = feed n"
  by (auto simp: startElection_def electedAlone_def voteReply_def appendReply_def snapshotReply_def Propose_def Let_def
    dest!: feed_leader feed_advance split: if_splits option.splits)

lemma feed_take: "Snapshot ops k d n = Some (n', r) \<Longrightarrow> feed n' = feed n"
  by (auto simp: Snapshot_def Let_def feed_def disableLocked_def case_prod_beta split: if_splits option.splits)

lemma feed_tick: "tick e n = (n', ta) \<Longrightarrow> feed (signalSnapshot k n') = feed n"
  by (auto simp: tick_def signalSnapshot_def feed_def Let_def split: if_splits)

section \<open>What a step does to it\<close>

definition fed_by :: "'s Cluster \<Rightarrow> 's Cluster \<Rightarrow> node_id \<Rightarrow> bool" where
  "fed_by c d i \<longleftrightarrow>
     (cAlive c i \<and> feed (cNode d i) = feed (cNode c i) \<and> cApplyPc d i = cApplyPc c i) \<or>
     (cAlive c i \<and> apply_section (cApplyPc c i) (cNode c i) = Some (cApplyPc d i, cNode d i)) \<or>
     (cAlive c i \<and> cApplyPc d i = cApplyPc c i \<and> (\<exists>m. apply_receive (cNode c i) = Some (m, cNode d i))) \<or>
     (\<not> cAlive c i \<and> cApplyPc d i = ApplyTop \<and> feed (cNode d i) = (0, [], None)) \<or>
     0 < lastIncludedIndex (cNode d i)"

lemma fed_same: "cAlive c i \<Longrightarrow> feed (cNode d i) = feed (cNode c i) \<Longrightarrow> cApplyPc d i = cApplyPc c i \<Longrightarrow> fed_by c d i"
  by (simp add: fed_by_def)

lemma feed_new:
  assumes "NewNode ops e cfg s = Some (st, Inr n)"
  shows "feed n = (0, [], None) \<or> 0 < lastIncludedIndex n"
  using assms by (auto simp: NewNode_def feed_def node_from_state_def resetElectionDeadlineLocked_def Let_def
    split: if_splits prod.splits sum.splits list.splits)

text \<open>A step that replaces the node of \<open>k\<close> only.\<close>

lemma fed_put:
  assumes "cNode d = (cNode c)(k := n)" "cApplyPc d = cApplyPc c" "cAlive d = cAlive c" "cAlive d i"
    and "feed n = feed (cNode c k) \<or> 0 < lastIncludedIndex n"
  shows "fed_by c d i"
  using assms by (cases "i = k") (auto simp: fed_by_def)

theorem cstep_feed:
  assumes "cstep ops cfg c d" "cAlive d i"
  shows "fed_by c d i"
  using assms(1)
proof cases
  case (start_election k e n args)
  then show ?thesis using feed_sections(1) assms(2) by (intro fed_put [of d c k n]) (auto simp: cluster_ops)
next
  case (start_election_fails k e n)
  then show ?thesis using feed_sections(1) assms(2) by (intro fed_put [of d c k n]) (auto simp: cluster_ops)
next
  case (elected_alone k t b n)
  then show ?thesis using feed_sections(2) assms(2) by (intro fed_put [of d c k n]) (auto simp: cluster_ops)
next
  case (deliver j k req e n r)
  then show ?thesis using feed_handle [OF deliver(3)] assms(2) by (intro fed_put [of d c j n]) (auto simp: cluster_ops split: sum.splits)
next
  case (vote_reply k args v ps j rep n v')
  then show ?thesis using feed_sections(3) assms(2) by (intro fed_put [of d c k n]) (auto simp: cluster_ops)
next
  case (replicate k p t args)
  then show ?thesis using assms(2) by (intro fed_same) (auto simp: cluster_ops)
next
  case (append_reply k j args rep n)
  then show ?thesis using feed_sections(4) assms(2) by (intro fed_put [of d c k n]) (auto simp: cluster_ops)
next
  case (send_snapshot k p t args)
  then show ?thesis using assms(2) by (intro fed_same) (auto simp: cluster_ops)
next
  case (snapshot_reply k j args rep n)
  then show ?thesis using feed_sections(5) assms(2) by (intro fed_put [of d c k n]) (auto simp: cluster_ops)
next
  case (propose k command n idx t l)
  then show ?thesis using feed_sections(6) assms(2) by (intro fed_put [of d c k n]) (auto simp: cluster_ops)
next
  case (take_snapshot k index data n r)
  then show ?thesis using feed_take assms(2) by (intro fed_put [of d c k n]) (auto simp: cluster_ops)
next
  case (clock_tick k e n ta)
  then show ?thesis using feed_tick assms(2) by (intro fed_put [of d c k "signalSnapshot (taSnapshotRequest ta) n"]) (auto simp: cluster_ops)
next
  case (apply_loop k pc n)
  then show ?thesis using assms(2) by (cases "i = k") (auto simp: fed_by_def cluster_ops)
next
  case (receive k m n)
  then show ?thesis using assms(2) by (cases "i = k") (auto simp: fed_by_def cluster_ops)
next
  case (crash k)
  then show ?thesis using assms(2) by (intro fed_same) (auto split: if_splits)
next
  case (restart k e st n)
  then show ?thesis using feed_new [OF restart(2)] assms(2) by (cases "i = k") (auto simp: fed_by_def cluster_ops)
next
  case (restart_fails k e st err)
  then show ?thesis using assms(2) by (cases "i = k") (auto simp: fed_by_def cluster_ops)
qed

section \<open>Watched runs\<close>

text \<open>\<open>h i\<close> is what the server of \<open>i\<close> has taken from the channel since the node came up.\<close>

definition observe :: "'s Cluster \<Rightarrow> 's Cluster \<Rightarrow> (node_id \<Rightarrow> ApplyMsg list) \<Rightarrow> node_id \<Rightarrow> ApplyMsg list" where
  "observe c d h i =
     (if cAlive d i \<and> \<not> cAlive c i then []
      else if length (applyCh (cNode d i)) < length (applyCh (cNode c i)) then h i @ [hd (applyCh (cNode c i))]
      else h i)"

inductive watched :: "('s Cluster \<Rightarrow> bool) \<Rightarrow> 's Storage \<Rightarrow> (node_id \<Rightarrow> Config) \<Rightarrow>
    's Cluster \<Rightarrow> (node_id \<Rightarrow> ApplyMsg list) \<Rightarrow> 's Cluster \<Rightarrow> (node_id \<Rightarrow> ApplyMsg list) \<Rightarrow> bool"
  for P ops cfg where
  watched_refl: "P c \<Longrightarrow> watched P ops cfg c h c h"
| watched_step: "watched P ops cfg c h d h' \<Longrightarrow> cstep ops cfg d d' \<Longrightarrow> P d' \<Longrightarrow>
    watched P ops cfg c h d' (observe d d' h')"

definition no_snapshots :: "'s Cluster \<Rightarrow> bool" where
  "no_snapshots c \<longleftrightarrow> (\<forall>i. cAlive c i \<longrightarrow> lastIncludedIndex (cNode c i) = 0)"

fun outbox :: "ApplyPc \<Rightarrow> ApplyMsg list" where
  "outbox (ApplySend m b) = [m]"
| "outbox pc = []"

lemma apply_batch_feed:
  assumes "apply_batch n = Some (pc', n')"
  shows "pendingSnapshot n' = pendingSnapshot n \<and> commitIndex n' = commitIndex n \<and> applyCh n' = applyCh n \<and>
    ((outbox pc' = [] \<and> lastApplied n' = lastApplied n) \<or>
     (\<exists>e. entryAtLocked n (lastApplied n + 1) = Some e \<and> lastApplied n < commitIndex n \<and>
        outbox pc' = [command_msg e] \<and> lastApplied n' = lastApplied n + 1))"
  using assms by (auto simp: apply_batch_def split: if_splits option.splits)

lemma apply_section_feed:
  assumes "apply_section pc n = Some (pc', n')" "pendingSnapshot n = None"
  shows "pendingSnapshot n' = None \<and> commitIndex n' = commitIndex n \<and> length (applyCh n) \<le> length (applyCh n') \<and>
    ((applyCh n' @ outbox pc' = applyCh n @ outbox pc \<and> lastApplied n' = lastApplied n) \<or>
     (\<exists>e. entryAtLocked n (lastApplied n + 1) = Some e \<and> lastApplied n < commitIndex n \<and>
        applyCh n' @ outbox pc' = applyCh n @ outbox pc @ [command_msg e] \<and> lastApplied n' = lastApplied n + 1))"
proof -
  consider (batch) "apply_batch n = Some (pc', n')" "outbox pc = []" | (send) m b where "pc = ApplySend m b" | (rest) "pc = ApplyWait \<or> pc = ApplyDone"
    using assms by (cases pc) auto
  then show ?thesis
  proof cases
    case batch
    then show ?thesis using apply_batch_feed [OF batch(1)] assms(2) by auto
  next
    case send
    then show ?thesis using assms by (auto split: if_splits)
  next
    case rest
    then show ?thesis using assms by (auto split: if_splits)
  qed
qed

context log_storage
begin

definition fed :: "Protocol \<Rightarrow> 's Cluster \<Rightarrow> (node_id \<Rightarrow> ApplyMsg list) \<Rightarrow> bool" where
  "fed g c h \<longleftrightarrow> (\<forall>i. cAlive c i \<longrightarrow> pendingSnapshot (cNode c i) = None \<and>
     h i @ applyCh (cNode c i) @ outbox (cApplyPc c i) = map command_msg (take (lastApplied (cNode c i)) (pLog g i)))"

lemma fed_step:
  assumes M: "finite M" and S: "sim M c g" "pinv M g" "sim M d g'" "pinv M g'" "grows g g'"
    and st: "cstep ops cfg c d" and z: "no_snapshots d" and f: "fed g c h"
  shows "fed g' d (observe c d h)"
  unfolding fed_def
proof (intro allI impI)
  fix i assume i: "cAlive d i"
  let ?n = "cNode c i" and ?n' = "cNode d i"
  note D' = node_relD [OF conjunct2 [OF live_alive [OF S(3) i]]]
  have z': "\<not> 0 < lastIncludedIndex ?n'" using z i by (simp add: no_snapshots_def)
  have la': "lastApplied ?n' \<le> commitIndex ?n'" using D'(4) by (simp add: commit_ok_def)
  have up: "pendingSnapshot ?n = None" "h i @ applyCh ?n @ outbox (cApplyPc c i) = map command_msg (take (lastApplied ?n) (pLog g i))"
    "mem_ok ?n (pLog g i)" "commit_ok ?n" "commitIndex ?n \<le> length (pLog g i)"
    "k \<le> commitIndex ?n \<Longrightarrow> k \<le> commitIndex ?n' \<Longrightarrow> take k (pLog g i) = take k (pLog g' i)" if a: "cAlive c i" for k
  proof -
    note D = node_relD [OF conjunct2 [OF live_alive [OF S(1) a]]]
    show "pendingSnapshot ?n = None" "h i @ applyCh ?n @ outbox (cApplyPc c i) = map command_msg (take (lastApplied ?n) (pLog g i))"
      using f a by (simp_all add: fed_def)
    show "mem_ok ?n (pLog g i)" "commit_ok ?n" by (rule D)+
    show "commitIndex ?n \<le> length (pLog g i)" by (rule sealed_length [OF D(6)])
    show "take k (pLog g i) = take k (pLog g' i)" if "k \<le> commitIndex ?n" "k \<le> commitIndex ?n'"
      by (rule sealed_take [OF M S(4) sealed_grows [OF S(2,5) D(6)] D'(6) that])
  qed
  consider (same) "cAlive c i" "feed ?n' = feed ?n" "cApplyPc d i = cApplyPc c i"
    | (loop) "cAlive c i" "apply_section (cApplyPc c i) ?n = Some (cApplyPc d i, ?n')"
    | (read) m where "cAlive c i" "cApplyPc d i = cApplyPc c i" "apply_receive ?n = Some (m, ?n')"
    | (new) "\<not> cAlive c i" "cApplyPc d i = ApplyTop" "feed ?n' = (0, [], None)"
    using cstep_feed [OF st i] z' unfolding fed_by_def by blast
  then show "pendingSnapshot ?n' = None \<and>
    observe c d h i @ applyCh ?n' @ outbox (cApplyPc d i) = map command_msg (take (lastApplied ?n') (pLog g' i))"
  proof cases
    case same
    have e: "applyCh ?n' = applyCh ?n" "lastApplied ?n' = lastApplied ?n" "pendingSnapshot ?n' = pendingSnapshot ?n"
      using same(2) by (simp_all add: feed_def)
    have "take (lastApplied ?n) (pLog g i) = take (lastApplied ?n) (pLog g' i)"
      using up(4,6) [OF same(1)] la' e(2) by (simp add: commit_ok_def)
    then show ?thesis using up(1,2) [OF same(1)] same(1,3) e by (simp add: observe_def)
  next
    case loop
    note a = apply_section_feed [OF loop(2) up(1) [OF loop(1)]]
    have keep: "take k (pLog g i) = take k (pLog g' i)" if "k \<le> commitIndex ?n" for k using up(6) [OF loop(1)] that a by simp
    have o: "observe c d h i = h i" using a loop(1) by (simp add: observe_def)
    from a consider (still) "applyCh ?n' @ outbox (cApplyPc d i) = applyCh ?n @ outbox (cApplyPc c i)" "lastApplied ?n' = lastApplied ?n"
      | (took) x where "entryAtLocked ?n (lastApplied ?n + 1) = Some x" "lastApplied ?n < commitIndex ?n"
        "applyCh ?n' @ outbox (cApplyPc d i) = applyCh ?n @ outbox (cApplyPc c i) @ [command_msg x]" "lastApplied ?n' = lastApplied ?n + 1"
      by blast
    then show ?thesis
    proof cases
      case still
      then show ?thesis using a o up(2) [OF loop(1)] keep [of "lastApplied ?n"] up(4) [OF loop(1)] by (simp add: commit_ok_def)
    next
      case took
      have "x = pLog g i ! lastApplied ?n"
        using up(3) [OF loop(1)] up(4) [OF loop(1)] took(1,2) by (auto simp: mem_ok_def commit_ok_def)
      then have "take (lastApplied ?n + 1) (pLog g i) = take (lastApplied ?n) (pLog g i) @ [x]"
        using up(5) [OF loop(1)] took(2) by (simp add: take_Suc_conv_app_nth)
      then have "take (lastApplied ?n + 1) (pLog g' i) = take (lastApplied ?n) (pLog g i) @ [x]"
        using keep [of "lastApplied ?n + 1"] took(2) by simp
      moreover have "(h i @ applyCh ?n @ outbox (cApplyPc c i)) @ [command_msg x] = map command_msg (take (lastApplied ?n) (pLog g i) @ [x])"
        using up(2) [OF loop(1)] by simp
      ultimately show ?thesis using a o took(3,4) by (simp del: map_append)
    qed
  next
    case read
    then obtain ms where m: "applyCh ?n = m # ms" "?n' = ?n\<lparr>applyCh := ms\<rparr>"
      by (auto simp: apply_receive_def split: list.splits)
    have l: "lastApplied ?n' = lastApplied ?n" "pendingSnapshot ?n' = pendingSnapshot ?n" "applyCh ?n' = ms" "commitIndex ?n' = commitIndex ?n"
      by (subst m(2), simp)+
    have "observe c d h i = h i @ [m]" using m(1) l(3) read(1) by (simp add: observe_def)
    moreover have "take (lastApplied ?n) (pLog g i) = take (lastApplied ?n) (pLog g' i)"
      using up(4,6) [OF read(1)] l(4) by (simp add: commit_ok_def)
    ultimately show ?thesis using up(1,2) [OF read(1)] m(1) read(2) l by simp
  next
    case new
    then show ?thesis using i by (simp add: feed_def observe_def)
  qed
qed

text \<open>What the servers of a run have taken are prefixes of one sequence of commands.\<close>

lemma watched_sim:
  assumes w: "watched (\<lambda>c. tidy c \<and> no_snapshots c) ops cfg c h d h'" and cfg: "group_cfg cfg M"
    and c: "hard.cinv cfg c" "sim M c g" "pinv M g" "fed g c h"
  shows "\<exists>g'. grows g g' \<and> sim M d g' \<and> pinv M g' \<and> hard.cinv cfg d \<and> tidy d \<and> fed g' d h'"
  using w c
proof (induction rule: watched.induct)
  case (watched_refl c h)
  then show ?case using psteps_pinv [of M g g] by blast
next
  case (watched_step c h d h' d')
  then obtain g1 where g1: "grows g g1" "sim M d g1" "pinv M g1" "hard.cinv cfg d" "tidy d" "fed g1 d h'" by blast
  have P: "tidy d'" "no_snapshots d'" using watched_step.hyps(3) by simp_all
  obtain g' where g': "psteps M g1 g'" "sim M d' g'"
    using cstep_sim [OF cfg g1(4,5) P(1) g1(2,3) watched_step.hyps(2)] by blast
  have gr: "pinv M g'" "grows g1 g'" using psteps_pinv [OF g'(1) g1(3)] by simp_all
  have "fed g' d' (observe d d' h')"
    by (rule fed_step [OF group_finite [OF cfg] g1(2,3) g'(2) gr watched_step.hyps(2) P(2) g1(6)])
  moreover have "hard.cinv cfg d'"
    using hard.cstep_cinv [OF _ g1(4) _ _ watched_step.hyps(2)] cfg g1(5) P(1) by (simp add: group_cfg_def tidy_def)
  ultimately show ?case using g'(2) gr P(1) grows_trans [OF g1(1) gr(2)] by blast
qed

theorem one_history:
  assumes cfg: "group_cfg cfg M" and c0: "cinit c0" "\<And>i. recov (storage (cNode c0 i)) \<and> fresh view (storage (cNode c0 i))"
    and r: "watched (\<lambda>c. tidy c \<and> no_snapshots c) ops cfg c0 h0 c h" "watched (\<lambda>c. tidy c \<and> no_snapshots c) ops cfg c h d h'"
  shows "\<exists>H. committed_in d H \<and> (\<forall>i. cAlive c i \<longrightarrow> prefix (h i) (map command_msg H)) \<and>
    (\<forall>i. cAlive d i \<longrightarrow> prefix (h' i) (map command_msg H))"
proof -
  note i = init_sim [OF c0]
  have "fed (ginit c0) c0 h0" using c0(1) by (simp add: fed_def cinit_def)
  then obtain g where g: "sim M c g" "pinv M g" "hard.cinv cfg c" "fed g c h"
    using watched_sim [OF r(1) cfg i(3,1,2)] by blast
  obtain g' where g': "grows g g'" "sim M d g'" "pinv M g'" "fed g' d h'" using watched_sim [OF r(2) cfg g(3,1,2,4)] by blast
  have M: "finite M" by (rule group_finite [OF cfg])
  obtain G T where G: "sealed M g T G (length G)" "committed_in c G" using sim_committed [OF M g(1,2), of 0 "[]"] by auto
  obtain H U where H: "prefix G H" "sealed M g' U H (length H)" "committed_in d H"
    using sim_committed [OF M g'(2,3) sealed_grows [OF g(2) g'(1) G(1)]] by blast
  have pre: "prefix (hh k) (map command_msg H)"
    if a: "fed e x hh" "cAlive x k" "sealed M g' (pTerm e k) (pLog e k) (commitIndex (cNode x k))"
      "commit_ok (cNode x k)" "commitIndex (cNode x k) \<le> length H" for e x hh k
  proof -
    let ?k = "lastApplied (cNode x k)"
    have "take ?k (pLog e k) = take ?k H"
      using sealed_take [OF M g'(3) a(3) H(2)] a(4,5) by (simp add: commit_ok_def)
    then have "hh k @ applyCh (cNode x k) @ outbox (cApplyPc x k) = take ?k (map command_msg H)"
      using a(1,2) by (simp add: fed_def take_map)
    then show ?thesis by (metis prefix_def prefix_order.trans take_is_prefix)
  qed
  have "prefix (h k) (map command_msg H)" if k: "cAlive c k" for k
  proof -
    note D = node_relD [OF conjunct2 [OF live_alive [OF g(1) k]]]
    have "commitIndex (cNode c k) \<le> length H"
      using G(2) k prefix_length_le [OF H(1)] unfolding committed_in_def by fastforce
    then show ?thesis by (rule pre [OF g(4) k sealed_grows [OF g(2) g'(1) D(6)] D(4)])
  qed
  moreover have "prefix (h' k) (map command_msg H)" if k: "cAlive d k" for k
  proof -
    note D = node_relD [OF conjunct2 [OF live_alive [OF g'(2) k]]]
    have "commitIndex (cNode d k) \<le> length H" using H(3) k unfolding committed_in_def by blast
    then show ?thesis by (rule pre [OF g'(4) k D(6,4)])
  qed
  ultimately show ?thesis using H(3) by blast
qed

end

end
