(* ===== verification/Kv_Store.thy ===== *)
theory Kv_Store
  imports Prelude
begin

text \<open>
  The key-value state machine (\<open>Store\<close> in src/internal/kv/store.go) with the messages of
  src/proto/kv.proto that it reads and writes.

  The protobuf library is not part of the repository: encoding and decoding are the arguments
  \<open>unmarshal\<close>, \<open>marshalS\<close> and \<open>unmarshalS\<close> of the definitions that use them. A decoder returns the
  message it has filled in and an error, as \<open>proto.Unmarshal\<close> does. A pointer to a reply is an
  \<open>option\<close>: a snapshot may carry a session without one. A message text is a \<open>message option\<close>,
  \<open>None\<close> the empty string.

  The lemmas show what the session table does: an operation is applied when its sequence number
  is above every one its client used before in the log, and is answered without effect
  otherwise. \<open>fresh_log\<close> is the sub-log of the operations that are applied and \<open>kv_run\<close> the
  machine without sessions; the store refines it.
\<close>

section \<open>Messages\<close>

datatype Op = OP_UNSPECIFIED | OP_GET | OP_PUT | OP_APPEND | OP_DELETE | OP_other int

record Command =
  cmClientId :: string
  cmSeqNo :: nat
  cmOp :: Op
  cmKey :: string
  cmValue :: string

record CommandReply =
  crSuccess :: bool
  crValue :: string
  crFound :: bool
  crError :: "message option"
  crLeaderHint :: string
  crIndex :: nat

definition empty_reply :: CommandReply where
  "empty_reply = \<lparr>crSuccess = False, crValue = [], crFound = False, crError = None, crLeaderHint = [], crIndex = 0\<rparr>"

definition ok_reply :: CommandReply where
  "ok_reply = empty_reply\<lparr>crSuccess := True\<rparr>"

definition error_reply :: "message \<Rightarrow> CommandReply" where
  "error_reply m = empty_reply\<lparr>crError := Some m\<rparr>"

record SessionState =
  ssSeqNo :: nat
  ssReply :: "CommandReply option"

record Snapshot_msg =
  snData :: "string \<rightharpoonup> string"
  snSessions :: "string \<rightharpoonup> SessionState"

section \<open>The store\<close>

record session =
  seSeqNo :: nat
  seReply :: "CommandReply option"

record Store =
  stData :: "string \<rightharpoonup> string"
  stSessions :: "string \<rightharpoonup> session"

definition NewStore :: Store where
  "NewStore = \<lparr>stData = Map.empty, stSessions = Map.empty\<rparr>"

definition applyLocked :: "Command \<Rightarrow> Store \<Rightarrow> Store \<times> CommandReply" where
  "applyLocked cmd s = (case cmOp cmd of
     OP_GET \<Rightarrow> (s, ok_reply\<lparr>crValue := (case stData s (cmKey cmd) of None \<Rightarrow> [] | Some v \<Rightarrow> v),
                            crFound := stData s (cmKey cmd) \<noteq> None\<rparr>)
   | OP_PUT \<Rightarrow> (s\<lparr>stData := (stData s)(cmKey cmd \<mapsto> cmValue cmd)\<rparr>, ok_reply)
   | OP_APPEND \<Rightarrow> (s\<lparr>stData := (stData s)(cmKey cmd \<mapsto>
                     (case stData s (cmKey cmd) of None \<Rightarrow> [] | Some v \<Rightarrow> v) @ cmValue cmd)\<rparr>, ok_reply)
   | OP_DELETE \<Rightarrow> (s\<lparr>stData := (stData s)(cmKey cmd := None)\<rparr>, ok_reply)
   | op \<Rightarrow> (s, error_reply (Errorf ''kv: unknown op %v''
              [IntArg (case op of OP_other k \<Rightarrow> k | _ \<Rightarrow> 0)])))"

text \<open>The part of \<open>Apply\<close> behind the decoding.\<close>

definition dedupes :: "Command \<Rightarrow> bool" where
  "dedupes cmd \<longleftrightarrow> cmOp cmd \<noteq> OP_GET"

definition store_apply :: "Command \<Rightarrow> Store \<Rightarrow> Store \<times> CommandReply option" where
  "store_apply cmd s =
     (let fallthrough = (let (s1, reply) = applyLocked cmd s
                         in (if dedupes cmd
                             then s1\<lparr>stSessions := (stSessions s1)(cmClientId cmd \<mapsto> \<lparr>seSeqNo = cmSeqNo cmd, seReply = Some reply\<rparr>)\<rparr>
                             else s1, Some reply))
      in if dedupes cmd
         then (case stSessions s (cmClientId cmd) of
                 None \<Rightarrow> fallthrough
               | Some sess \<Rightarrow>
                   if cmSeqNo cmd = seSeqNo sess then (s, seReply sess)
                   else if cmSeqNo cmd < seSeqNo sess then (s, Some ok_reply)
                   else fallthrough)
         else fallthrough)"

definition store_Apply :: "(bytes \<Rightarrow> Command \<times> error option) \<Rightarrow> bytes \<Rightarrow> Store \<Rightarrow> Store \<times> Command \<times> CommandReply option" where
  "store_Apply unmarshal commandBytes s = (case unmarshal commandBytes of
     (cmd, Some err) \<Rightarrow> (s, cmd, Some (error_reply (Wrapf ''kv: decoding command: %v'' [] err)))
   | (cmd, None) \<Rightarrow> (let (s1, reply) = store_apply cmd s in (s1, cmd, reply)))"

definition store_Len :: "Store \<Rightarrow> nat" where
  "store_Len s = card (dom (stData s))"

definition store_Snapshot :: "(Snapshot_msg \<Rightarrow> error + bytes) \<Rightarrow> Store \<Rightarrow> error + bytes" where
  "store_Snapshot marshalS s = marshalS
     \<lparr>snData = stData s,
      snSessions = (\<lambda>id. map_option (\<lambda>sess. \<lparr>ssSeqNo = seSeqNo sess, ssReply = seReply sess\<rparr>) (stSessions s id))\<rparr>"

definition store_Restore :: "(bytes \<Rightarrow> Snapshot_msg \<times> error option) \<Rightarrow> bytes \<Rightarrow> Store \<Rightarrow> Store \<times> error option" where
  "store_Restore unmarshalS data s = (case unmarshalS data of
     (snap, Some err) \<Rightarrow> (s, Some (Wrapf ''kv: decoding snapshot: %w'' [] err))
   | (snap, None) \<Rightarrow> (s\<lparr>stData := snData snap,
        stSessions := (\<lambda>id. map_option (\<lambda>ss. \<lparr>seSeqNo = ssSeqNo ss, seReply = ssReply ss\<rparr>) (snSessions snap id))\<rparr>, None))"

lemmas [kv_defs] = empty_reply_def ok_reply_def error_reply_def NewStore_def applyLocked_def dedupes_def
  store_apply_def store_Apply_def

section \<open>Applying a log\<close>

text \<open>
  The apply loop hands the committed commands to the store one by one: the store after them and
  the replies. \<open>kv_step\<close> is the machine without a session table.
\<close>

fun store_run :: "Command list \<Rightarrow> Store \<Rightarrow> Store \<times> CommandReply option list" where
  "store_run [] s = (s, [])"
| "store_run (c # cs) s =
     (let (s1, r) = store_apply c s; (s2, rs) = store_run cs s1 in (s2, r # rs))"

definition kv_value :: "(string \<rightharpoonup> string) \<Rightarrow> string \<Rightarrow> string" where
  "kv_value m k = (case m k of None \<Rightarrow> [] | Some v \<Rightarrow> v)"

definition kv_step :: "Command \<Rightarrow> (string \<rightharpoonup> string) \<Rightarrow> (string \<rightharpoonup> string)" where
  "kv_step c m = (case cmOp c of
     OP_PUT \<Rightarrow> m(cmKey c \<mapsto> cmValue c)
   | OP_APPEND \<Rightarrow> m(cmKey c \<mapsto> kv_value m (cmKey c) @ cmValue c)
   | OP_DELETE \<Rightarrow> m(cmKey c := None)
   | _ \<Rightarrow> m)"

definition kv_run :: "Command list \<Rightarrow> (string \<rightharpoonup> string) \<Rightarrow> (string \<rightharpoonup> string)" where
  "kv_run cs m = fold kv_step cs m"

text \<open>\<open>fresh past c\<close>: \<open>c\<close> is above everything its client has in the log before it.\<close>

definition fresh :: "Command list \<Rightarrow> Command \<Rightarrow> bool" where
  "fresh past c \<longleftrightarrow> dedupes c \<and> (\<forall>d \<in> set past. dedupes d \<and> cmClientId d = cmClientId c \<longrightarrow> cmSeqNo d < cmSeqNo c)"

fun fresh_log :: "Command list \<Rightarrow> Command list \<Rightarrow> Command list" where
  "fresh_log past [] = []"
| "fresh_log past (c # cs) = (if fresh past c then c # fresh_log (past @ [c]) cs else fresh_log (past @ [c]) cs)"

text \<open>The session table after the log \<open>past\<close>: the highest number of each client and its reply.\<close>

definition session_ok :: "Command list \<Rightarrow> string \<Rightarrow> session option \<Rightarrow> bool" where
  "session_ok past i se = (case se of
     None \<Rightarrow> \<forall>d \<in> set past. dedupes d \<longrightarrow> cmClientId d \<noteq> i
   | Some sess \<Rightarrow> (\<exists>d \<in> set past. dedupes d \<and> cmClientId d = i \<and> cmSeqNo d = seSeqNo sess) \<and>
       (\<forall>d \<in> set past. dedupes d \<and> cmClientId d = i \<longrightarrow> cmSeqNo d \<le> seSeqNo sess))"

definition sessions_ok :: "Command list \<Rightarrow> Store \<Rightarrow> bool" where
  "sessions_ok past s \<longleftrightarrow> (\<forall>i. session_ok past i (stSessions s i))"

lemma session_ok_other: "\<not> dedupes c \<or> cmClientId c \<noteq> i \<Longrightarrow> session_ok (past @ [c]) i se = session_ok past i se"
  by (auto simp: session_ok_def split: option.splits)

lemma session_ok_fresh:
  "fresh past c \<Longrightarrow> session_ok (past @ [c]) (cmClientId c) (Some \<lparr>seSeqNo = cmSeqNo c, seReply = r\<rparr>)"
  by (auto simp: session_ok_def fresh_def less_imp_le)

lemma session_ok_stale:
  "session_ok past (cmClientId c) se \<Longrightarrow> \<not> fresh past c \<Longrightarrow> session_ok (past @ [c]) (cmClientId c) se"
  by (fastforce simp: session_ok_def fresh_def split: option.splits)

lemma sessions_ok_new: "sessions_ok [] NewStore"
  by (simp add: sessions_ok_def session_ok_def NewStore_def)

lemma applyLocked_frame [simp]: "stSessions (fst (applyLocked c s)) = stSessions s"
  by (simp add: applyLocked_def split: Op.splits)

lemma applyLocked_data [simp]: "stData (fst (applyLocked c s)) = kv_step c (stData s)"
  by (auto simp: applyLocked_def kv_step_def kv_value_def split: Op.splits)

lemma fresh_session:
  assumes "sessions_ok past s" "dedupes c"
  shows "fresh past c \<longleftrightarrow> (case stSessions s (cmClientId c) of None \<Rightarrow> True | Some sess \<Rightarrow> seSeqNo sess < cmSeqNo c)"
proof -
  have "session_ok past (cmClientId c) (stSessions s (cmClientId c))" using assms(1) by (simp add: sessions_ok_def)
  then show ?thesis using assms(2) by (fastforce simp: session_ok_def fresh_def split: option.splits)
qed

text \<open>One step: a fresh command is applied and recorded, any other leaves the store alone.\<close>

lemma store_apply_fresh:
  assumes "sessions_ok past s" "fresh past c"
  shows "store_apply c s = ((fst (applyLocked c s))\<lparr>stSessions := (stSessions s)(cmClientId c \<mapsto>
       \<lparr>seSeqNo = cmSeqNo c, seReply = Some (snd (applyLocked c s))\<rparr>)\<rparr>, Some (snd (applyLocked c s)))"
proof -
  have d: "dedupes c" using assms(2) by (simp add: fresh_def)
  show ?thesis
    using fresh_session [OF assms(1) d] assms(2) d applyLocked_frame [of c s]
    by (auto simp: store_apply_def case_prod_beta split: option.splits)
qed

lemma store_apply_get: "cmOp c = OP_GET \<Longrightarrow> store_apply c s = (s, Some (snd (applyLocked c s)))"
  by (simp add: store_apply_def dedupes_def applyLocked_def)

lemma store_apply_stale:
  assumes "sessions_ok past s" "dedupes c" "\<not> fresh past c"
  shows "fst (store_apply c s) = s"
  using fresh_session [OF assms(1,2)] assms(2,3)
  by (auto simp: store_apply_def split: option.splits)

lemma store_apply_same:
  assumes "sessions_ok past s" "\<not> fresh past c"
  shows "fst (store_apply c s) = s"
proof (cases "dedupes c")
  case True
  then show ?thesis by (rule store_apply_stale [OF assms(1) _ assms(2)])
qed (simp add: dedupes_def store_apply_get)

lemma sessions_ok_step:
  assumes "sessions_ok past s"
  shows "sessions_ok (past @ [c]) (fst (store_apply c s))"
proof -
  have "session_ok (past @ [c]) i (stSessions (fst (store_apply c s)) i)" for i
  proof (cases "dedupes c \<and> cmClientId c = i")
    case False
    have "stSessions (fst (store_apply c s)) i = stSessions s i"
      using False store_apply_fresh [OF assms, of c] store_apply_same [OF assms, of c]
      by (cases "fresh past c") (auto simp: fresh_def)
    then show ?thesis using False assms session_ok_other [of c i past] by (auto simp: sessions_ok_def)
  next
    case True
    then show ?thesis
      using assms store_apply_fresh [OF assms, of c] store_apply_same [OF assms, of c]
        session_ok_fresh [of past c] session_ok_stale [of past c "stSessions s i"]
      by (cases "fresh past c") (auto simp: sessions_ok_def)
  qed
  then show ?thesis by (simp add: sessions_ok_def)
qed

lemma store_step_data:
  assumes "sessions_ok past s"
  shows "stData (fst (store_apply c s)) = (if fresh past c then kv_step c (stData s) else stData s)"
  using store_apply_fresh [OF assms, of c] store_apply_same [OF assms, of c] by simp

text \<open>The store refines the machine without sessions, run on the fresh commands.\<close>

lemma store_run_refines:
  assumes "sessions_ok past s"
  shows "stData (fst (store_run cs s)) = kv_run (fresh_log past cs) (stData s) \<and>
    sessions_ok (past @ cs) (fst (store_run cs s))"
  using assms
proof (induction cs arbitrary: past s)
  case (Cons c cs)
  let ?s = "fst (store_apply c s)"
  have "sessions_ok (past @ [c]) ?s" using Cons.prems by (rule sessions_ok_step)
  from Cons.IH [OF this] store_step_data [OF Cons.prems, of c] show ?case
    by (simp add: case_prod_beta kv_run_def)
qed (simp add: kv_run_def)

text \<open>In the fresh commands of a log every client counts strictly upwards.\<close>

lemma fresh_log_above:
  assumes "c \<in> set (fresh_log past cs)" "d \<in> set past" "dedupes d" "cmClientId d = cmClientId c"
  shows "cmSeqNo d < cmSeqNo c"
  using assms
proof (induction cs arbitrary: past)
  case (Cons x cs)
  then show ?case by (auto simp: fresh_def split: if_splits)
qed simp

lemma fresh_log_dedupes: "c \<in> set (fresh_log past cs) \<Longrightarrow> dedupes c"
  by (induction cs arbitrary: past) (auto simp: fresh_def split: if_splits)

lemma fresh_log_sorted:
  "sorted_wrt (\<lambda>c d. cmClientId c = cmClientId d \<longrightarrow> cmSeqNo c < cmSeqNo d) (fresh_log past cs)"
proof (induction cs arbitrary: past)
  case (Cons x cs)
  have "cmSeqNo x < cmSeqNo c" if c: "fresh past x" "c \<in> set (fresh_log (past @ [x]) cs)" "cmClientId x = cmClientId c" for c
    using fresh_log_above [OF c(2), of x] c(1,3) by (simp add: fresh_def)
  with Cons.IH show ?case by simp
qed simp

lemma fresh_log_distinct: "distinct (map (\<lambda>c. (cmClientId c, cmSeqNo c)) (fresh_log past cs))"
proof -
  have "sorted_wrt (\<lambda>c d. cmClientId c = cmClientId d \<longrightarrow> cmSeqNo c < cmSeqNo d) cs \<Longrightarrow>
      distinct (map (\<lambda>c. (cmClientId c, cmSeqNo c)) cs)" for cs
    by (induction cs) fastforce+
  then show ?thesis using fresh_log_sorted by blast
qed

text \<open>What a retry is answered: the recorded reply, as long as the client has sent nothing newer.\<close>

lemma retry_answer:
  assumes "sessions_ok past s" "fresh past c"
  shows "store_apply c (fst (store_apply c s)) = (fst (store_apply c s), snd (store_apply c s))"
proof -
  have d: "dedupes c" using assms(2) by (simp add: fresh_def)
  show ?thesis
    unfolding store_apply_fresh [OF assms] using d by (simp add: store_apply_def [of c "Store.stSessions_update _ _"])
qed

end
