(* ===== verification/Kv_Server.thy ===== *)
theory Kv_Server
  imports Kv_Store Raft_Apply
begin

text \<open>
  \<open>kv.Server\<close> (src/internal/kv/server.go): it drives a store from the apply channel of a node and
  turns \<open>Propose\<close> into a request and reply call.

  A request runs \<open>execute\<close> in its own goroutine, known here by a number. The goroutine's position
  is a \<open>CallState\<close>, and each definition is one step between two points where another goroutine
  can run: the proposal, the registration of the waiter, the return with the result, on a
  cancelled context, on a stopped server. The waiter channels have room for one result, which
  is the one they ever get, so \<open>deliver\<close> never blocks; the channel of request \<open>k\<close> is \<open>svChans sv k\<close>.
  \<open>svApplied\<close> is not in the code: it records what the apply loop has handed to \<open>deliver\<close>.

  \<open>svstep\<close> lets all of it run in any order. The node moves on its own by \<open>moves\<close>, a parameter:
  the other clients of the node, its peers and its own goroutines.
\<close>

record codec =
  marshalC :: "Command \<Rightarrow> error + bytes"
  unmarshalC :: "bytes \<Rightarrow> Command \<times> error option"
  marshalSnap :: "Snapshot_msg \<Rightarrow> error + bytes"
  unmarshalSnap :: "bytes \<Rightarrow> Snapshot_msg \<times> error option"

record applyResult =
  arCmd :: Command
  arReply :: "CommandReply option"

datatype CallState =
    CallRefused Command \<comment> \<open>not the leader, about to read the hint\<close>
  | CallProposed nat Command \<comment> \<open>proposed, the waiter not registered yet\<close>
  | CallWaiting nat Command
  | CallReturned Command "error + CommandReply"

record 's Server =
  svNode :: "'s Node"
  svStore :: Store
  svLeaderAddrs :: "node_id \<rightharpoonup> string"
  svWaiters :: "nat \<rightharpoonup> nat" \<comment> \<open>index to request\<close>
  svChans :: "nat \<rightharpoonup> applyResult"
  svCalls :: "nat \<rightharpoonup> CallState"
  svStopped :: bool
  svApplied :: "(nat \<times> Command \<times> CommandReply option) list"

definition NewServer :: "'s Node \<Rightarrow> Store \<Rightarrow> (node_id \<rightharpoonup> string) \<Rightarrow> 's Server" where
  "NewServer n st addrs = \<lparr>svNode = n, svStore = st, svLeaderAddrs = addrs, svWaiters = Map.empty,
     svChans = Map.empty, svCalls = Map.empty, svStopped = False, svApplied = []\<rparr>"

definition leaderHint :: "'s Server \<Rightarrow> string" where
  "leaderHint sv = (let leader = NodeLeader (svNode sv)
     in if leader = [] then [] else case svLeaderAddrs sv leader of Some addr \<Rightarrow> addr | None \<Rightarrow> leader)"

section \<open>The apply and snapshot loops\<close>

definition deliver :: "nat \<Rightarrow> applyResult \<Rightarrow> 's Server \<Rightarrow> 's Server" where
  "deliver index res sv = (case svWaiters sv index of
     None \<Rightarrow> sv
   | Some k \<Rightarrow> sv\<lparr>svWaiters := (svWaiters sv)(index := None), svChans := (svChans sv)(k \<mapsto> res)\<rparr>)"

text \<open>One message of the apply channel. A snapshot that cannot be decoded is a panic.\<close>

definition apply_msg :: "codec \<Rightarrow> ApplyMsg \<Rightarrow> 's Server \<Rightarrow> 's Server option" where
  "apply_msg cd msg sv =
     (if amSnapshotValid msg
      then (case store_Restore (unmarshalSnap cd) (amSnapshot msg) (svStore sv) of
              (st, None) \<Rightarrow> Some (sv\<lparr>svStore := st\<rparr>)
            | (st, Some err) \<Rightarrow> None)
      else (let (st, cmd, reply) = store_Apply (unmarshalC cd) (amCommand msg) (svStore sv)
            in Some (deliver (amCommandIndex msg) \<lparr>arCmd = cmd, arReply = reply\<rparr>
                 (sv\<lparr>svStore := st, svApplied := svApplied sv @ [(amCommandIndex msg, cmd, reply)]\<rparr>))))"

definition runApplyLoop :: "codec \<Rightarrow> 's Server \<Rightarrow> 's Server option" where
  "runApplyLoop cd sv = (case apply_receive (svNode sv) of
     None \<Rightarrow> Some sv
   | Some (msg, n) \<Rightarrow> apply_msg cd msg (sv\<lparr>svNode := n\<rparr>))"

text \<open>The snapshot loop takes the trigger, snapshots the store, and hands the snapshot over.\<close>

definition runSnapshotLoop :: "'s Storage \<Rightarrow> codec \<Rightarrow> 's Server \<Rightarrow> 's Server option" where
  "runSnapshotLoop ops cd sv = (case snapshotTriggerCh (svNode sv) of
     None \<Rightarrow> Some sv
   | Some index \<Rightarrow>
       (let n = (svNode sv)\<lparr>snapshotTriggerCh := None\<rparr>
        in case store_Snapshot (marshalSnap cd) (svStore sv) of
             Inl err \<Rightarrow> Some (sv\<lparr>svNode := n\<rparr>)
           | Inr data \<Rightarrow> map_option (\<lambda>(n', r). sv\<lparr>svNode := n'\<rparr>) (Snapshot ops index data n)))"

section \<open>A request\<close>

definition set_call :: "nat \<Rightarrow> CallState \<Rightarrow> 's Server \<Rightarrow> 's Server" where
  "set_call k st sv = sv\<lparr>svCalls := (svCalls sv)(k \<mapsto> st)\<rparr>"

definition execute_propose :: "'s Storage \<Rightarrow> codec \<Rightarrow> nat \<Rightarrow> Command \<Rightarrow> 's Server \<Rightarrow> 's Server option" where
  "execute_propose ops cd k cmd sv = (case marshalC cd cmd of
     Inl err \<Rightarrow> Some (set_call k (CallReturned cmd (Inl (Wrapf ''kv: encoding command: %w'' [] err))) sv)
   | Inr payload \<Rightarrow> map_option (\<lambda>(n, index, trm, isLeader).
       set_call k (if isLeader then CallProposed index cmd else CallRefused cmd) (sv\<lparr>svNode := n\<rparr>))
       (Propose ops payload (svNode sv)))"

definition execute_refused :: "nat \<Rightarrow> Command \<Rightarrow> 's Server \<Rightarrow> 's Server" where
  "execute_refused k cmd sv = set_call k (CallReturned cmd
     (Inr ((error_reply (Errorf ''not leader'' []))\<lparr>crLeaderHint := leaderHint sv\<rparr>))) sv"

definition execute_register :: "nat \<Rightarrow> nat \<Rightarrow> Command \<Rightarrow> 's Server \<Rightarrow> 's Server" where
  "execute_register k index cmd sv =
     set_call k (CallWaiting index cmd) (sv\<lparr>svWaiters := (svWaiters sv)(index \<mapsto> k)\<rparr>)"

text \<open>The result is there. A session restored without a reply would be a nil dereference.\<close>

definition execute_result :: "nat \<Rightarrow> nat \<Rightarrow> Command \<Rightarrow> applyResult \<Rightarrow> 's Server \<Rightarrow> 's Server option" where
  "execute_result k index cmd res sv =
     (if cmClientId (arCmd res) \<noteq> cmClientId cmd \<or> cmSeqNo (arCmd res) \<noteq> cmSeqNo cmd
      then Some (set_call k (CallReturned cmd (Inr
             ((error_reply (Errorf ''lost leadership before this request committed; retry'' []))
                \<lparr>crLeaderHint := leaderHint sv\<rparr>))) sv)
      else case arReply res of
             None \<Rightarrow> None
           | Some reply \<Rightarrow> Some (set_call k (CallReturned cmd (Inr (reply\<lparr>crIndex := index\<rparr>))) sv))"

definition execute_giveup :: "error \<Rightarrow> nat \<Rightarrow> nat \<Rightarrow> Command \<Rightarrow> 's Server \<Rightarrow> 's Server" where
  "execute_giveup err k index cmd sv =
     set_call k (CallReturned cmd (Inl err)) (sv\<lparr>svWaiters := (svWaiters sv)(index := None)\<rparr>)"

definition server_Stop :: "'s Server \<Rightarrow> 's Server" where
  "server_Stop sv = sv\<lparr>svStopped := True\<rparr>"

text \<open>Each endpoint sets the operation itself.\<close>

definition rpc_Get :: "Command \<Rightarrow> Command" where "rpc_Get cmd = cmd\<lparr>cmOp := OP_GET\<rparr>"
definition rpc_Put :: "Command \<Rightarrow> Command" where "rpc_Put cmd = cmd\<lparr>cmOp := OP_PUT\<rparr>"
definition rpc_Append :: "Command \<Rightarrow> Command" where "rpc_Append cmd = cmd\<lparr>cmOp := OP_APPEND\<rparr>"
definition rpc_Delete :: "Command \<Rightarrow> Command" where "rpc_Delete cmd = cmd\<lparr>cmOp := OP_DELETE\<rparr>"

definition endpoint :: "Command \<Rightarrow> Command \<Rightarrow> bool" where
  "endpoint req cmd \<longleftrightarrow> cmd \<in> {rpc_Get req, rpc_Put req, rpc_Append req, rpc_Delete req}"

inductive svstep :: "'s Storage \<Rightarrow> codec \<Rightarrow> ('s Node \<Rightarrow> 's Node \<Rightarrow> bool) \<Rightarrow> 's Server \<Rightarrow> 's Server \<Rightarrow> bool"
  for ops cd moves where
  node_moves: "moves (svNode sv) n \<Longrightarrow> svstep ops cd moves sv (sv\<lparr>svNode := n\<rparr>)"
| applies: "\<not> svStopped sv \<Longrightarrow> runApplyLoop cd sv = Some sv' \<Longrightarrow> svstep ops cd moves sv sv'"
| snapshots: "\<not> svStopped sv \<Longrightarrow> runSnapshotLoop ops cd sv = Some sv' \<Longrightarrow> svstep ops cd moves sv sv'"
| request: "svCalls sv k = None \<Longrightarrow> endpoint req cmd \<Longrightarrow> execute_propose ops cd k cmd sv = Some sv' \<Longrightarrow>
    svstep ops cd moves sv sv'"
| refused: "svCalls sv k = Some (CallRefused cmd) \<Longrightarrow> svstep ops cd moves sv (execute_refused k cmd sv)"
| registers: "svCalls sv k = Some (CallProposed index cmd) \<Longrightarrow>
    svstep ops cd moves sv (execute_register k index cmd sv)"
| result: "svCalls sv k = Some (CallWaiting index cmd) \<Longrightarrow> svChans sv k = Some res \<Longrightarrow>
    execute_result k index cmd res sv = Some sv' \<Longrightarrow> svstep ops cd moves sv sv'"
| cancelled: "svCalls sv k = Some (CallWaiting index cmd) \<Longrightarrow>
    svstep ops cd moves sv (execute_giveup (Errorf ''context done'' []) k index cmd sv)"
| stopped: "svStopped sv \<Longrightarrow> svCalls sv k = Some (CallWaiting index cmd) \<Longrightarrow>
    svstep ops cd moves sv (execute_giveup (Errorf ''kv: server stopped'' []) k index cmd sv)"
| stops: "svstep ops cd moves sv (server_Stop sv)"

inductive svrun :: "'s Storage \<Rightarrow> codec \<Rightarrow> ('s Node \<Rightarrow> 's Node \<Rightarrow> bool) \<Rightarrow> 's Server \<Rightarrow> 's Server \<Rightarrow> bool"
  for ops cd moves where
  svrun_refl: "svrun ops cd moves sv sv"
| svrun_step: "svrun ops cd moves sv sv1 \<Longrightarrow> svstep ops cd moves sv1 sv2 \<Longrightarrow> svrun ops cd moves sv sv2"

section \<open>Every reply is the reply to its own request\<close>

text \<open>
  A request in flight that has a result has the result of the index it was proposed at, and a
  call that returned success returned the reply of a command with its client and number that the
  apply loop applied at that index.
\<close>

definition applied_at :: "'s Server \<Rightarrow> nat \<Rightarrow> Command \<Rightarrow> CommandReply option \<Rightarrow> bool" where
  "applied_at sv index c r \<longleftrightarrow> (index, c, r) \<in> set (svApplied sv)"

definition call_ok :: "'s Server \<Rightarrow> nat \<Rightarrow> CallState \<Rightarrow> bool" where
  "call_ok sv k st = (case st of
     CallRefused cmd \<Rightarrow> svChans sv k = None
   | CallProposed index cmd \<Rightarrow> svChans sv k = None
   | CallWaiting index cmd \<Rightarrow> (\<forall>res. svChans sv k = Some res \<longrightarrow> applied_at sv index (arCmd res) (arReply res))
   | CallReturned cmd (Inl err) \<Rightarrow> True
   | CallReturned cmd (Inr reply) \<Rightarrow> crSuccess reply \<longrightarrow>
       (\<exists>c r. applied_at sv (crIndex reply) c (Some r) \<and> cmClientId c = cmClientId cmd \<and>
          cmSeqNo c = cmSeqNo cmd \<and> reply = r\<lparr>crIndex := crIndex reply\<rparr>))"

definition waiters_ok :: "'s Server \<Rightarrow> bool" where
  "waiters_ok sv \<longleftrightarrow> (\<forall>index k. svWaiters sv index = Some k \<longrightarrow>
     (\<exists>cmd. svCalls sv k = Some (CallWaiting index cmd)) \<or> (\<exists>cmd r. svCalls sv k = Some (CallReturned cmd r)))"

definition slot_ok :: "'s Server \<Rightarrow> nat \<Rightarrow> bool" where
  "slot_ok sv k = (case svCalls sv k of None \<Rightarrow> svChans sv k = None | Some st \<Rightarrow> call_ok sv k st)"

definition sv_inv :: "'s Server \<Rightarrow> bool" where
  "sv_inv sv \<longleftrightarrow> waiters_ok sv \<and> (\<forall>k. slot_ok sv k)"

lemma sv_invD:
  "sv_inv sv \<Longrightarrow> svCalls sv k = None \<Longrightarrow> svChans sv k = None"
  "sv_inv sv \<Longrightarrow> svCalls sv k = Some st \<Longrightarrow> call_ok sv k st"
  "sv_inv sv \<Longrightarrow> svWaiters sv index = Some k \<Longrightarrow>
     (\<exists>cmd. svCalls sv k = Some (CallWaiting index cmd)) \<or> (\<exists>cmd r. svCalls sv k = Some (CallReturned cmd r))"
proof -
  assume "sv_inv sv"
  then have s: "slot_ok sv k" and w: "waiters_ok sv" by (simp_all add: sv_inv_def)
  show "svCalls sv k = None \<Longrightarrow> svChans sv k = None" "svCalls sv k = Some st \<Longrightarrow> call_ok sv k st"
    using s by (simp_all add: slot_ok_def)
  show "svWaiters sv index = Some k \<Longrightarrow>
     (\<exists>cmd. svCalls sv k = Some (CallWaiting index cmd)) \<or> (\<exists>cmd r. svCalls sv k = Some (CallReturned cmd r))"
    using w by (simp add: waiters_ok_def)
qed

text \<open>What a slot says depends on its channel, its call and what was applied only.\<close>

lemma call_ok_mono:
  "call_ok sv k st \<Longrightarrow> svChans sv' k = svChans sv k \<Longrightarrow> set (svApplied sv) \<subseteq> set (svApplied sv') \<Longrightarrow> call_ok sv' k st"
  by (fastforce simp: call_ok_def applied_at_def split: CallState.splits sum.splits)

lemma slot_ok_mono:
  "slot_ok sv k \<Longrightarrow> svCalls sv' k = svCalls sv k \<Longrightarrow> svChans sv' k = svChans sv k \<Longrightarrow>
     set (svApplied sv) \<subseteq> set (svApplied sv') \<Longrightarrow> slot_ok sv' k"
  by (auto simp: slot_ok_def split: option.splits intro: call_ok_mono)

lemma sv_invI:
  assumes "sv_inv sv" "set (svApplied sv) \<subseteq> set (svApplied sv')"
    and "\<And>j. j \<noteq> k \<Longrightarrow> svCalls sv' j = svCalls sv j \<and> svChans sv' j = svChans sv j"
    and "slot_ok sv' k" "waiters_ok sv'"
  shows "sv_inv sv'"
proof -
  have "slot_ok sv' j" for j
  proof (cases "j = k")
    case False
    have "slot_ok sv j" using assms(1) by (simp add: sv_inv_def)
    then show ?thesis using assms(2,3) False by (blast intro: slot_ok_mono)
  qed (simp add: assms(4))
  then show ?thesis using assms(5) by (simp add: sv_inv_def)
qed

text \<open>Steps that only add to what was applied, and change neither channels nor calls.\<close>

definition sv_quiet :: "'s Server \<Rightarrow> 's Server \<Rightarrow> bool" where
  "sv_quiet sv sv' \<longleftrightarrow> svWaiters sv' = svWaiters sv \<and> svChans sv' = svChans sv \<and> svCalls sv' = svCalls sv \<and>
     set (svApplied sv) \<subseteq> set (svApplied sv')"

lemma sv_inv_quiet: "sv_inv sv \<Longrightarrow> sv_quiet sv sv' \<Longrightarrow> sv_inv sv'"
  using slot_ok_mono [of sv _ sv'] by (simp add: sv_inv_def sv_quiet_def waiters_ok_def)

lemma sv_inv_set_call:
  assumes "sv_inv sv" "call_ok sv k st"
    and "\<And>index. svWaiters sv index = Some k \<Longrightarrow> (\<exists>cmd. st = CallWaiting index cmd) \<or> (\<exists>cmd r. st = CallReturned cmd r)"
  shows "sv_inv (set_call k st sv)"
proof (rule sv_invI [OF assms(1)])
  show "slot_ok (set_call k st sv) k"
    using call_ok_mono [OF assms(2), of "set_call k st sv"] by (simp add: slot_ok_def set_call_def)
  show "waiters_ok (set_call k st sv)"
    using assms(3) sv_invD(3) [OF assms(1)] by (simp add: waiters_ok_def set_call_def)
qed (simp_all add: set_call_def)

lemma sv_inv_waiters:
  assumes "sv_inv sv" "\<And>index k. w index = Some k \<Longrightarrow> svWaiters sv index = Some k \<or>
    (\<exists>cmd. svCalls sv k = Some (CallWaiting index cmd))"
  shows "sv_inv (sv\<lparr>svWaiters := w\<rparr>)"
proof (rule sv_invI [OF assms(1)])
  show "slot_ok (sv\<lparr>svWaiters := w\<rparr>) undefined"
    using assms(1) slot_ok_mono [of sv undefined "sv\<lparr>svWaiters := w\<rparr>"] by (simp add: sv_inv_def)
  show "waiters_ok (sv\<lparr>svWaiters := w\<rparr>)"
    using assms(2) sv_invD(3) [OF assms(1)] unfolding waiters_ok_def by (simp, blast)
qed simp_all

lemma deliver_inv:
  assumes "sv_inv sv" "applied_at sv index (arCmd res) (arReply res)"
  shows "sv_inv (deliver index res sv)"
proof (cases "svWaiters sv index")
  case None
  then show ?thesis using assms by (simp add: deliver_def)
next
  case (Some k)
  show ?thesis
  proof (rule sv_invI [OF assms(1), where k = k])
    show "slot_ok (deliver index res sv) k"
      using sv_invD(3) [OF assms(1) Some] sv_invD(2) [OF assms(1), of k] assms(2) Some
      by (auto simp: slot_ok_def call_ok_def deliver_def applied_at_def split: sum.splits)
    show "waiters_ok (deliver index res sv)"
      using sv_invD(3) [OF assms(1)] Some by (auto simp: waiters_ok_def deliver_def)
  qed (use Some in \<open>simp_all add: deliver_def\<close>)
qed

lemma apply_msg_inv:
  assumes "sv_inv sv" "apply_msg cd msg sv = Some sv'"
  shows "sv_inv sv'"
proof (cases "amSnapshotValid msg")
  case True
  then obtain st where "sv' = sv\<lparr>svStore := st\<rparr>"
    using assms(2) by (auto simp: apply_msg_def split: prod.splits option.splits)
  then show ?thesis by (intro sv_inv_quiet [OF assms(1)]) (simp add: sv_quiet_def)
next
  case False
  obtain st cmd reply where a: "store_Apply (unmarshalC cd) (amCommand msg) (svStore sv) = (st, cmd, reply)"
    by (cases "store_Apply (unmarshalC cd) (amCommand msg) (svStore sv)") auto
  let ?sv = "sv\<lparr>svStore := st, svApplied := svApplied sv @ [(amCommandIndex msg, cmd, reply)]\<rparr>"
  have "sv_inv ?sv" by (intro sv_inv_quiet [OF assms(1)]) (auto simp: sv_quiet_def)
  then show ?thesis
    using False a assms(2) deliver_inv [of ?sv "amCommandIndex msg" "\<lparr>arCmd = cmd, arReply = reply\<rparr>"]
    by (auto simp: apply_msg_def applied_at_def)
qed

lemma runApplyLoop_inv:
  assumes "sv_inv sv" "runApplyLoop cd sv = Some sv'"
  shows "sv_inv sv'"
proof (cases "apply_receive (svNode sv)")
  case (Some mn)
  have "sv_inv (sv\<lparr>svNode := snd mn\<rparr>)" by (intro sv_inv_quiet [OF assms(1)]) (simp add: sv_quiet_def)
  from apply_msg_inv [OF this] show ?thesis using assms(2) Some by (simp add: runApplyLoop_def case_prod_beta)
qed (use assms in \<open>simp add: runApplyLoop_def\<close>)

lemma runSnapshotLoop_inv:
  assumes "sv_inv sv" "runSnapshotLoop ops cd sv = Some sv'"
  shows "sv_inv sv'"
  using assms(2) by (intro sv_inv_quiet [OF assms(1)])
    (auto simp: runSnapshotLoop_def sv_quiet_def Let_def split: option.splits sum.splits)

lemma execute_propose_inv:
  assumes "sv_inv sv" "svCalls sv k = None" "execute_propose ops cd k cmd sv = Some sv'"
  shows "sv_inv sv'"
proof -
  have k: "svChans sv k = None" "\<And>index. svWaiters sv index \<noteq> Some k"
    using sv_invD(1) [OF assms(1,2)] sv_invD(3) [OF assms(1), of _ k] assms(2) by auto
  show ?thesis
  proof (cases "marshalC cd cmd")
    case (Inl err)
    then show ?thesis
      using assms(3) k by (auto simp: execute_propose_def call_ok_def intro!: sv_inv_set_call [OF assms(1)])
  next
    case (Inr payload)
    then obtain n index trm isLeader where p: "Propose ops payload (svNode sv) = Some (n, index, trm, isLeader)"
      "sv' = set_call k (if isLeader then CallProposed index cmd else CallRefused cmd) (sv\<lparr>svNode := n\<rparr>)"
      using assms(3) by (auto simp: execute_propose_def)
    have "sv_inv (sv\<lparr>svNode := n\<rparr>)" by (intro sv_inv_quiet [OF assms(1)]) (simp add: sv_quiet_def)
    then show ?thesis unfolding p(2) using k by (intro sv_inv_set_call) (auto simp: call_ok_def)
  qed
qed

lemma execute_result_inv:
  assumes i: "sv_inv sv" and c: "svCalls sv k = Some (CallWaiting index cmd)" "svChans sv k = Some res"
    and e: "execute_result k index cmd res sv = Some sv'"
  shows "sv_inv sv'"
proof -
  have a: "applied_at sv index (arCmd res) (arReply res)"
    using sv_invD(2) [OF i c(1)] c(2) by (simp add: call_ok_def)
  have "\<exists>r. sv' = set_call k (CallReturned cmd (Inr r)) sv \<and> call_ok sv k (CallReturned cmd (Inr r))"
  proof (cases "cmClientId (arCmd res) \<noteq> cmClientId cmd \<or> cmSeqNo (arCmd res) \<noteq> cmSeqNo cmd")
    case True
    then show ?thesis using e by (auto simp: execute_result_def call_ok_def error_reply_def empty_reply_def)
  next
    case False
    then obtain r where r: "arReply res = Some r" "sv' = set_call k (CallReturned cmd (Inr (r\<lparr>crIndex := index\<rparr>))) sv"
      using e by (auto simp: execute_result_def split: option.splits)
    have "applied_at sv index (arCmd res) (Some r)" using a r(1) by simp
    then have "call_ok sv k (CallReturned cmd (Inr (r\<lparr>crIndex := index\<rparr>)))"
      using False by (auto simp: call_ok_def)
    then show ?thesis using r(2) by blast
  qed
  then show ?thesis using sv_inv_set_call [OF i] by blast
qed

lemma giveup_inv:
  assumes "sv_inv sv"
  shows "sv_inv (execute_giveup err k index cmd sv)"
proof -
  have "sv_inv (sv\<lparr>svWaiters := (svWaiters sv)(index := None)\<rparr>)"
    by (rule sv_inv_waiters [OF assms]) (simp split: if_splits)
  then show ?thesis unfolding execute_giveup_def by (rule sv_inv_set_call) (auto simp: call_ok_def)
qed

lemma execute_register_inv:
  assumes i: "sv_inv sv" and c: "svCalls sv k = Some (CallProposed index cmd)"
  shows "sv_inv (execute_register k index cmd sv)"
proof -
  let ?st = "CallWaiting index cmd"
  have "svWaiters sv j \<noteq> Some k" for j using sv_invD(3) [OF i, of j k] c by auto
  then have "sv_inv (set_call k ?st sv)"
    using sv_invD(2) [OF i c] by (intro sv_inv_set_call [OF i]) (auto simp: call_ok_def)
  then have "sv_inv ((set_call k ?st sv)\<lparr>svWaiters := (svWaiters sv)(index \<mapsto> k)\<rparr>)"
    by (rule sv_inv_waiters) (auto simp: set_call_def split: if_splits)
  moreover have "execute_register k index cmd sv = (set_call k ?st sv)\<lparr>svWaiters := (svWaiters sv)(index \<mapsto> k)\<rparr>"
    by (simp add: execute_register_def set_call_def)
  ultimately show ?thesis by simp
qed

lemma execute_refused_inv:
  assumes i: "sv_inv sv" and c: "svCalls sv k = Some (CallRefused cmd)"
  shows "sv_inv (execute_refused k cmd sv)"
  unfolding execute_refused_def
  by (rule sv_inv_set_call [OF i]) (auto simp: call_ok_def error_reply_def empty_reply_def)

lemma svstep_inv: "svstep ops cd moves sv sv' \<Longrightarrow> sv_inv sv \<Longrightarrow> sv_inv sv'"
proof (induction rule: svstep.induct)
  case (node_moves sv n)
  then show ?case by (auto intro: sv_inv_quiet simp: sv_quiet_def)
next
  case (stops sv)
  then show ?case by (auto intro: sv_inv_quiet simp: sv_quiet_def server_Stop_def)
qed (blast intro: runApplyLoop_inv runSnapshotLoop_inv execute_propose_inv execute_refused_inv
    execute_register_inv execute_result_inv giveup_inv)+

lemma NewServer_inv: "sv_inv (NewServer n st addrs)"
  by (simp add: NewServer_def sv_inv_def slot_ok_def waiters_ok_def)

lemma svrun_inv: "svrun ops cd moves sv sv' \<Longrightarrow> sv_inv sv \<Longrightarrow> sv_inv sv'"
  by (induction rule: svrun.induct) (auto intro: svstep_inv)

end
