(* ===== verification/Sim_Network.thy ===== *)
theory Sim_Network
  imports Prelude Complex_Main
begin

text \<open>
  The fault-injecting in-memory network (src/internal/transport/fake.go) and the errors of
  src/internal/transport/transport.go.

  A handler is a value of type \<open>'h\<close>; running it is the caller's business, \<open>fake_Send\<close> decides
  whether it runs, and how often. The random source is the argument \<open>draws\<close> (what \<open>Float64\<close> and
  \<open>Int63n\<close> return, the rates as rationals), the context is \<open>ctx\<close>: what it reports while a timer of
  the given length runs. Sets of nodes stand for Go maps to \<open>bool\<close> that only hold \<open>true\<close>.
\<close>

definition ErrUnreachable :: error where "ErrUnreachable = Errorf ''transport: destination unreachable'' []"
definition ErrDropped :: error where "ErrDropped = Errorf ''transport: message dropped'' []"
definition ErrNoHandler :: error where "ErrNoHandler = Errorf ''transport: no handler registered'' []"
definition ErrCrashed :: error where "ErrCrashed = Errorf ''transport: node crashed'' []"

lemmas transport_errors [simp] = ErrUnreachable_def ErrDropped_def ErrNoHandler_def ErrCrashed_def

record 'h Network =
  nwMinLatency :: int
  nwMaxLatency :: int
  nwDropRate :: rat
  nwDuplicateRate :: rat
  nwDisconnected :: "node_id set"
  nwCrashed :: "node_id set"
  nwPartitioned :: bool
  nwGroup :: "node_id \<rightharpoonup> nat"
  nwHandlers :: "node_id \<rightharpoonup> 'h"

definition NewNetwork :: "'h Network" where
  "NewNetwork = \<lparr>nwMinLatency = 1000000, nwMaxLatency = 1000000, nwDropRate = 0, nwDuplicateRate = 0,
     nwDisconnected = {}, nwCrashed = {}, nwPartitioned = False, nwGroup = Map.empty, nwHandlers = Map.empty\<rparr>"

section \<open>Fault injection\<close>

definition Disconnect :: "node_id \<Rightarrow> 'h Network \<Rightarrow> 'h Network" where
  "Disconnect node n = n\<lparr>nwDisconnected := insert node (nwDisconnected n)\<rparr>"

definition Reconnect :: "node_id \<Rightarrow> 'h Network \<Rightarrow> 'h Network" where
  "Reconnect node n = n\<lparr>nwDisconnected := nwDisconnected n - {node}\<rparr>"

definition Network_Crash :: "node_id \<Rightarrow> 'h Network \<Rightarrow> 'h Network" where
  "Network_Crash node n = n\<lparr>nwCrashed := insert node (nwCrashed n)\<rparr>"

definition Network_Restart :: "node_id \<Rightarrow> 'h Network \<Rightarrow> 'h Network" where
  "Network_Restart node n = n\<lparr>nwCrashed := nwCrashed n - {node}\<rparr>"

definition SetLatency :: "int \<Rightarrow> int \<Rightarrow> 'h Network \<Rightarrow> 'h Network" where
  "SetLatency lo hi n = n\<lparr>nwMinLatency := lo, nwMaxLatency := hi\<rparr>"

definition SetDropRate :: "rat \<Rightarrow> 'h Network \<Rightarrow> 'h Network" where
  "SetDropRate p n = n\<lparr>nwDropRate := p\<rparr>"

definition SetDuplicateRate :: "rat \<Rightarrow> 'h Network \<Rightarrow> 'h Network" where
  "SetDuplicateRate p n = n\<lparr>nwDuplicateRate := p\<rparr>"

definition Partition :: "node_id list \<Rightarrow> node_id list \<Rightarrow> 'h Network \<Rightarrow> 'h Network" where
  "Partition groupA groupB n = n\<lparr>nwPartitioned := True,
     nwGroup := fold (\<lambda>i g. g(i \<mapsto> 2)) groupB (fold (\<lambda>i g. g(i \<mapsto> 1)) groupA Map.empty)\<rparr>"

definition Heal :: "'h Network \<Rightarrow> 'h Network" where
  "Heal n = n\<lparr>nwPartitioned := False, nwGroup := Map.empty\<rparr>"

definition fake_RegisterHandler :: "node_id \<Rightarrow> 'h \<Rightarrow> 'h Network \<Rightarrow> 'h Network" where
  "fake_RegisterHandler i h n = n\<lparr>nwHandlers := (nwHandlers n)(i \<mapsto> h)\<rparr>"

definition fake_Close :: "node_id \<Rightarrow> 'h Network \<Rightarrow> 'h Network" where
  "fake_Close i n = n\<lparr>nwHandlers := (nwHandlers n)(i := None)\<rparr>"

section \<open>Sending\<close>

definition reachableLocked :: "'h Network \<Rightarrow> node_id \<Rightarrow> node_id \<Rightarrow> bool" where
  "reachableLocked n a b =
     (if a \<in> nwDisconnected n \<or> b \<in> nwDisconnected n then False
      else if nwPartitioned n \<and> map_get (nwGroup n) a \<noteq> map_get (nwGroup n) b then False
      else True)"

record draws =
  drDrop :: rat
  drDuplicate :: rat
  drInt63n :: "int \<Rightarrow> int"

definition randomLatencyLocked :: "draws \<Rightarrow> 'h Network \<Rightarrow> int" where
  "randomLatencyLocked dr n =
     (if nwMaxLatency n \<le> nwMinLatency n then nwMinLatency n
      else nwMinLatency n + drInt63n dr (nwMaxLatency n - nwMinLatency n))"

type_synonym ctx_wait = "int \<Rightarrow> error option"

definition waitLatency :: "ctx_wait \<Rightarrow> int \<Rightarrow> error option" where
  "waitLatency ctx d = (if d \<le> 0 then ctx 0 else ctx d)"

text \<open>\<open>Invoke h twice\<close>: the handler runs for the sender, and once more on its own if \<open>twice\<close>.\<close>

datatype 'h SendOutcome = SendError error | Invoke 'h bool

definition fake_Send :: "draws \<Rightarrow> ctx_wait \<Rightarrow> 'h Network \<Rightarrow> node_id \<Rightarrow> node_id \<Rightarrow> 'h SendOutcome" where
  "fake_Send dr ctx n self to =
     (if self \<in> nwCrashed n \<or> to \<in> nwCrashed n then SendError ErrCrashed
      else if \<not> reachableLocked n self to then SendError ErrUnreachable
      else
        let dropped = drDrop dr < nwDropRate n;
            duplicate = (\<not> dropped \<and> drDuplicate dr < nwDuplicateRate n)
        in case waitLatency ctx (randomLatencyLocked dr n) of
             Some err \<Rightarrow> SendError err
           | None \<Rightarrow>
               if dropped then SendError ErrDropped
               else case nwHandlers n to of
                      None \<Rightarrow> SendError ErrNoHandler
                    | Some h \<Rightarrow> Invoke h duplicate)"

lemmas [net_defs] = Disconnect_def Reconnect_def Network_Crash_def Network_Restart_def SetLatency_def
  SetDropRate_def SetDuplicateRate_def Partition_def Heal_def fake_RegisterHandler_def fake_Close_def

section \<open>Partitions hold until they are healed\<close>

text \<open>The calls a test can make on the network.\<close>

datatype 'h NetOp =
    OpDisconnect node_id | OpReconnect node_id | OpCrash node_id | OpRestart node_id
  | OpLatency int int | OpDropRate rat | OpDuplicateRate rat
  | OpPartition "node_id list" "node_id list" | OpHeal
  | OpRegister node_id 'h | OpClose node_id

fun net_op :: "'h NetOp \<Rightarrow> 'h Network \<Rightarrow> 'h Network" where
  "net_op (OpDisconnect i) n = Disconnect i n"
| "net_op (OpReconnect i) n = Reconnect i n"
| "net_op (OpCrash i) n = Network_Crash i n"
| "net_op (OpRestart i) n = Network_Restart i n"
| "net_op (OpLatency lo hi) n = SetLatency lo hi n"
| "net_op (OpDropRate p) n = SetDropRate p n"
| "net_op (OpDuplicateRate p) n = SetDuplicateRate p n"
| "net_op (OpPartition a b) n = Partition a b n"
| "net_op OpHeal n = Heal n"
| "net_op (OpRegister i h) n = fake_RegisterHandler i h n"
| "net_op (OpClose i) n = fake_Close i n"

fun keeps_groups :: "'h NetOp \<Rightarrow> bool" where
  "keeps_groups (OpPartition a b) = False"
| "keeps_groups OpHeal = False"
| "keeps_groups _ = True"

lemma net_op_groups:
  "keeps_groups a \<Longrightarrow> nwPartitioned (net_op a n) = nwPartitioned n \<and> nwGroup (net_op a n) = nwGroup n"
  by (cases a) (simp_all add: net_defs)

lemma net_ops_groups:
  "list_all keeps_groups as \<Longrightarrow>
     nwPartitioned (fold net_op as n) = nwPartitioned n \<and> nwGroup (fold net_op as n) = nwGroup n"
  by (induction as arbitrary: n) (auto simp: net_op_groups)

lemma fold_group: "fold (\<lambda>i g. g(i \<mapsto> k)) is g i = (if i \<in> set is then Some k else g i)"
  by (induction "is" arbitrary: g) auto

lemma Partition_group:
  "map_get (nwGroup (Partition a b n)) i = (if i \<in> set b then 2 else if i \<in> set a then 1 else 0)"
  by (simp add: Partition_def map_get_def fold_group)

lemma reachableLocked_sym: "reachableLocked n a b = reachableLocked n b a"
  by (auto simp: reachableLocked_def)

lemma fake_Send_Invoke:
  "fake_Send dr ctx n self to = Invoke h twice \<longleftrightarrow>
     self \<notin> nwCrashed n \<and> to \<notin> nwCrashed n \<and> reachableLocked n self to \<and>
     waitLatency ctx (randomLatencyLocked dr n) = None \<and> \<not> drDrop dr < nwDropRate n \<and>
     nwHandlers n to = Some h \<and> (twice \<longleftrightarrow> drDuplicate dr < nwDuplicateRate n)"
  by (auto simp: fake_Send_def Let_def split: option.splits)

end
