(* ===== verification/Grpc_Transport.thy ===== *)
theory Grpc_Transport
  imports Raft_Node Sim_Network "HOL-Library.List_Lexorder" "HOL-Library.Char_ord"
begin

text \<open>
  The transport over gRPC (src/internal/transport/grpctransport/transport.go): the only place
  that turns the Raft messages into the wire messages of src/proto/raft.proto and back.

  A wire message is a record with the fields of the protobuf message. gRPC itself is a
  parameter: \<open>dial\<close> is \<open>grpc.NewClient\<close>, \<open>link\<close> performs a call over a connection (of type \<open>'c\<close>) in
  a world of type \<open>'w\<close>. A handler changes the world too; \<open>None\<close> is a failed type assertion on its
  reply, a panic. A handler's nil reply with an error is the left side of the sum.
\<close>

section \<open>Wire messages\<close>

record PbLogEntry =
  pleTerm :: nat
  pleIndex :: nat
  pleCommand :: bytes

record PbRequestVoteRequest =
  pvTerm :: nat
  pvCandidateId :: string
  pvLastLogIndex :: nat
  pvLastLogTerm :: nat

record PbRequestVoteResponse =
  pvrTerm :: nat
  pvrVoteGranted :: bool

record PbAppendEntriesRequest =
  paTerm :: nat
  paLeaderId :: string
  paPrevLogIndex :: nat
  paPrevLogTerm :: nat
  paEntries :: "PbLogEntry list"
  paLeaderCommit :: nat

record PbAppendEntriesResponse =
  parTerm :: nat
  parSuccess :: bool
  parConflictTerm :: nat
  parConflictIndex :: nat

record PbInstallSnapshotRequest =
  piTerm :: nat
  piLeaderId :: string
  piLastIncludedIndex :: nat
  piLastIncludedTerm :: nat
  piData :: bytes

record PbInstallSnapshotResponse =
  pirTerm :: nat

datatype PbRequest =
    PbVote PbRequestVoteRequest
  | PbAppend PbAppendEntriesRequest
  | PbSnapshot PbInstallSnapshotRequest

datatype PbResponse =
    PbVoteResp PbRequestVoteResponse
  | PbAppendResp PbAppendEntriesResponse
  | PbSnapshotResp PbInstallSnapshotResponse

definition entriesToProto :: "LogEntry list \<Rightarrow> PbLogEntry list" where
  "entriesToProto es = map (\<lambda>e. \<lparr>pleTerm = eTerm e, pleIndex = eIndex e, pleCommand = eCommand e\<rparr>) es"

definition entriesFromProto :: "PbLogEntry list \<Rightarrow> LogEntry list" where
  "entriesFromProto es = map (\<lambda>e. \<lparr>eTerm = pleTerm e, eIndex = pleIndex e, eCommand = pleCommand e\<rparr>) es"

lemma entries_roundtrip [simp]: "entriesFromProto (entriesToProto es) = es"
  by (induction es) (simp_all add: entriesFromProto_def entriesToProto_def)

section \<open>The transport\<close>

type_synonym 'w handler = "'w \<Rightarrow> node_id \<Rightarrow> Request \<Rightarrow> 'w \<times> (error option + Reply)"

record ('w, 'c) Transport =
  gtID :: node_id
  gtPeers :: "node_id \<rightharpoonup> string"
  gtHandler :: "'w handler option"
  gtConns :: "node_id \<rightharpoonup> 'c"
  gtIsolated :: "node_id set"

definition gt_New :: "node_id \<Rightarrow> (node_id \<rightharpoonup> string) \<Rightarrow> ('w, 'c) Transport" where
  "gt_New i ps = \<lparr>gtID = i, gtPeers = ps, gtHandler = None, gtConns = Map.empty, gtIsolated = {}\<rparr>"

definition gt_LocalID :: "('w, 'c) Transport \<Rightarrow> node_id" where
  "gt_LocalID t = gtID t"

definition gt_RegisterHandler :: "'w handler option \<Rightarrow> ('w, 'c) Transport \<Rightarrow> ('w, 'c) Transport" where
  "gt_RegisterHandler h t = t\<lparr>gtHandler := h\<rparr>"

definition SetIsolation :: "node_id list \<Rightarrow> ('w, 'c) Transport \<Rightarrow> ('w, 'c) Transport" where
  "SetIsolation ps t = t\<lparr>gtIsolated := set (filter (\<lambda>peer. peer \<noteq> gtID t) ps)\<rparr>"

definition Isolation :: "('w, 'c) Transport \<Rightarrow> node_id list" where
  "Isolation t = sorted_list_of_set (gtIsolated t)"

definition isolatedFrom :: "('w, 'c) Transport \<Rightarrow> node_id \<Rightarrow> bool" where
  "isolatedFrom t peer \<longleftrightarrow> peer \<in> gtIsolated t"

text \<open>Closing the connections of the map, in the order the iteration visits them; the first error counts.\<close>

fun first_error :: "('c \<Rightarrow> error option) \<Rightarrow> 'c list \<Rightarrow> error option" where
  "first_error cl [] = None"
| "first_error cl (c # cs) = (case cl c of Some err \<Rightarrow> Some err | None \<Rightarrow> first_error cl cs)"

definition gt_Close :: "('c \<Rightarrow> error option) \<Rightarrow> 'c list \<Rightarrow> ('w, 'c) Transport \<Rightarrow> ('w, 'c) Transport \<times> error option" where
  "gt_Close cl conns t = (t\<lparr>gtConns := Map.empty\<rparr>, first_error cl conns)"

definition gt_client :: "(string \<Rightarrow> error + 'c) \<Rightarrow> node_id \<Rightarrow> ('w, 'c) Transport \<Rightarrow> ('w, 'c) Transport \<times> (error + 'c)" where
  "gt_client dial peer t = (case gtConns t peer of
     Some conn \<Rightarrow> (t, Inr conn)
   | None \<Rightarrow> (case gtPeers t peer of
       None \<Rightarrow> (t, Inl (Errorf ''grpctransport: no address configured for peer %s'' [StrArg peer]))
     | Some addr \<Rightarrow> (case dial addr of
         Inl err \<Rightarrow> (t, Inl (Wrapf ''grpctransport: dialing %s at %s: %w'' [StrArg peer, StrArg addr] err))
       | Inr conn \<Rightarrow> (t\<lparr>gtConns := (gtConns t)(peer \<mapsto> conn)\<rparr>, Inr conn))))"

text \<open>What \<open>Send\<close> puts on the wire, and how it reads the response.\<close>

fun toWire :: "Request \<Rightarrow> PbRequest option" where
  "toWire (RequestVoteReq a) = Some (PbVote \<lparr>pvTerm = rvTerm a, pvCandidateId = rvCandidateID a,
     pvLastLogIndex = rvLastLogIndex a, pvLastLogTerm = rvLastLogTerm a\<rparr>)"
| "toWire (AppendEntriesReq a) = Some (PbAppend \<lparr>paTerm = aeTerm a, paLeaderId = aeLeaderID a,
     paPrevLogIndex = aePrevLogIndex a, paPrevLogTerm = aePrevLogTerm a,
     paEntries = entriesToProto (aeEntries a), paLeaderCommit = aeLeaderCommit a\<rparr>)"
| "toWire (InstallSnapshotReq a) = Some (PbSnapshot \<lparr>piTerm = isTerm a, piLeaderId = isLeaderID a,
     piLastIncludedIndex = isLastIncludedIndex a, piLastIncludedTerm = isLastIncludedTerm a, piData = isData a\<rparr>)"
| "toWire (OtherReq ty) = None"

fun fromResponse :: "PbResponse \<Rightarrow> Reply" where
  "fromResponse (PbVoteResp r) = RequestVoteRep \<lparr>rrTerm = pvrTerm r, rrVoteGranted = pvrVoteGranted r\<rparr>"
| "fromResponse (PbAppendResp r) = AppendEntriesRep \<lparr>arTerm = parTerm r, arSuccess = parSuccess r,
     arConflictTerm = parConflictTerm r, arConflictIndex = parConflictIndex r\<rparr>"
| "fromResponse (PbSnapshotResp r) = InstallSnapshotRep \<lparr>irTerm = pirTerm r\<rparr>"

definition gt_Send :: "(string \<Rightarrow> error + 'c) \<Rightarrow> ('c \<Rightarrow> PbRequest \<Rightarrow> 'w \<Rightarrow> 'w \<times> (error + PbResponse)) \<Rightarrow>
    node_id \<Rightarrow> Request \<Rightarrow> ('w, 'c) Transport \<Rightarrow> 'w \<Rightarrow> ('w, 'c) Transport \<times> 'w \<times> (error + Reply)" where
  "gt_Send dial link to req t w =
     (if isolatedFrom t to then (t, w, Inl ErrUnreachable)
      else case gt_client dial to t of
        (t1, Inl err) \<Rightarrow> (t1, w, Inl err)
      | (t1, Inr conn) \<Rightarrow> (case toWire req of
            None \<Rightarrow> (t1, w, Inl (Errorf ''grpctransport: unknown request type %T'' []))
          | Some pb \<Rightarrow> (case link conn pb w of
              (w1, Inl err) \<Rightarrow> (t1, w1, Inl err)
            | (w1, Inr resp) \<Rightarrow> (t1, w1, Inr (fromResponse resp)))))"

section \<open>The server side\<close>

definition dispatch :: "node_id \<Rightarrow> Request \<Rightarrow> ('w, 'c) Transport \<Rightarrow> 'w \<Rightarrow> 'w \<times> (error option + Reply)" where
  "dispatch from req t w =
     (if from \<in> gtIsolated t then (w, Inl (Some ErrUnreachable))
      else case gtHandler t of
        None \<Rightarrow> (w, Inl (Some (Errorf ''grpctransport: no handler registered on %s'' [StrArg (gtID t)])))
      | Some h \<Rightarrow> h w from req)"

fun wire_from :: "PbRequest \<Rightarrow> node_id \<times> Request" where
  "wire_from (PbVote r) = (pvCandidateId r, RequestVoteReq \<lparr>rvTerm = pvTerm r, rvCandidateID = pvCandidateId r,
     rvLastLogIndex = pvLastLogIndex r, rvLastLogTerm = pvLastLogTerm r\<rparr>)"
| "wire_from (PbAppend r) = (paLeaderId r, AppendEntriesReq \<lparr>aeTerm = paTerm r, aeLeaderID = paLeaderId r,
     aePrevLogIndex = paPrevLogIndex r, aePrevLogTerm = paPrevLogTerm r,
     aeEntries = entriesFromProto (paEntries r), aeLeaderCommit = paLeaderCommit r\<rparr>)"
| "wire_from (PbSnapshot r) = (piLeaderId r, InstallSnapshotReq \<lparr>isTerm = piTerm r, isLeaderID = piLeaderId r,
     isLastIncludedIndex = piLastIncludedIndex r, isLastIncludedTerm = piLastIncludedTerm r, isData = piData r\<rparr>)"

text \<open>The reply must have the type that belongs to the request.\<close>

fun response_of :: "PbRequest \<Rightarrow> Reply \<Rightarrow> PbResponse option" where
  "response_of (PbVote _) (RequestVoteRep r) = Some (PbVoteResp \<lparr>pvrTerm = rrTerm r, pvrVoteGranted = rrVoteGranted r\<rparr>)"
| "response_of (PbAppend _) (AppendEntriesRep r) = Some (PbAppendResp \<lparr>parTerm = arTerm r, parSuccess = arSuccess r,
     parConflictTerm = arConflictTerm r, parConflictIndex = arConflictIndex r\<rparr>)"
| "response_of (PbSnapshot _) (InstallSnapshotRep r) = Some (PbSnapshotResp \<lparr>pirTerm = irTerm r\<rparr>)"
| "response_of _ _ = None"

definition gt_serve :: "PbRequest \<Rightarrow> ('w, 'c) Transport \<Rightarrow> 'w \<Rightarrow> ('w \<times> (error option + PbResponse)) option" where
  "gt_serve pb t w = (case wire_from pb of (from, req) \<Rightarrow> (case dispatch from req t w of
     (w1, Inl err) \<Rightarrow> Some (w1, Inl err)
   | (w1, Inr reply) \<Rightarrow> map_option (\<lambda>resp. (w1, Inr resp)) (response_of pb reply)))"

section \<open>The wire is transparent\<close>

fun sender :: "Request \<Rightarrow> node_id" where
  "sender (RequestVoteReq a) = rvCandidateID a"
| "sender (AppendEntriesReq a) = aeLeaderID a"
| "sender (InstallSnapshotReq a) = isLeaderID a"
| "sender (OtherReq ty) = []"

fun reply_fits :: "Request \<Rightarrow> Reply \<Rightarrow> bool" where
  "reply_fits (RequestVoteReq a) (RequestVoteRep r) = True"
| "reply_fits (AppendEntriesReq a) (AppendEntriesRep r) = True"
| "reply_fits (InstallSnapshotReq a) (InstallSnapshotRep r) = True"
| "reply_fits _ _ = False"

lemma wire_roundtrip: "toWire req = Some pb \<Longrightarrow> wire_from pb = (sender req, req)"
  by (cases req) auto

lemma response_roundtrip:
  "toWire req = Some pb \<Longrightarrow> reply_fits req reply \<Longrightarrow> \<exists>resp. response_of pb reply = Some resp \<and> fromResponse resp = reply"
  by (cases req; cases reply) auto

lemma map_sum_Inr: "map_sum f g x = Inr y \<longleftrightarrow> (\<exists>z. x = Inr z \<and> y = g z)"
  by (cases x) auto

lemma handle_reply_fits: "handle ops e req n = Some (n', Inr reply) \<Longrightarrow> reply_fits req reply"
  by (cases req) (auto simp: map_sum_Inr)

text \<open>A link that carries the message to the transport \<open>t2\<close>, whatever connection it runs over.\<close>

definition joins :: "('c \<Rightarrow> PbRequest \<Rightarrow> 'w \<Rightarrow> 'w \<times> (error + PbResponse)) \<Rightarrow> 'c \<Rightarrow> ('w, 'd) Transport \<Rightarrow> bool" where
  "joins link conn t2 \<longleftrightarrow> (\<forall>pb w w' resp. gt_serve pb t2 w = Some (w', Inr resp) \<longrightarrow> link conn pb w = (w', Inr resp))"

end
