(* ===== verification/Supervisor.thy ===== *)
theory Supervisor
  imports Kv_Server Disk_Contract Grpc_Transport
begin

text \<open>
  \<open>Supervisor\<close> (src/internal/supervisor/supervisor.go): the life cycle of one node, its store and
  its storage inside a process that stays up.

  \<open>spServer\<close> is the current incarnation: the key-value server holds the Raft node, which holds the
  \<open>DiskStorage\<close>; \<open>None\<close> is a node that is down, and then \<open>spDisk\<close> is the directory. The transport
  is the \<open>Transport\<close> of the gRPC theory; the handler it is given is the node itself, so the model
  keeps whether one is registered.
\<close>

record SupConfig =
  scID :: node_id
  scPeers :: "node_id list"
  scAddrs :: "node_id \<rightharpoonup> string"
  scDataDir :: string
  scTransport :: bool
  scElectionTimeoutMin :: int
  scElectionTimeoutMax :: int
  scHeartbeatInterval :: int
  scSnapshotThreshold :: int

record ('w, 'c) Supervisor =
  spCfg :: SupConfig
  spTransport :: "('w, 'c) Transport"
  spHandler :: bool
  spDisk :: Fs
  spServer :: "DiskStorage Server option"
  spStartedAt :: int
  spCrashed :: bool

definition raft_config :: "SupConfig \<Rightarrow> Config" where
  "raft_config c = \<lparr>cID = scID c, cPeers = scPeers c, cTransport = scTransport c,
     cElectionTimeoutMin = scElectionTimeoutMin c, cElectionTimeoutMax = scElectionTimeoutMax c,
     cHeartbeatInterval = scHeartbeatInterval c, cTickInterval = 0, cRPCTimeout = 0,
     cSnapshotThreshold = scSnapshotThreshold c\<rparr>"

text \<open>\<open>None\<close> is the panic of \<open>NewNode\<close> on an empty log, which \<open>Load\<close> never returns.\<close>

definition startLocked :: "env \<Rightarrow> ('w, 'c) Supervisor \<Rightarrow> (('w, 'c) Supervisor \<times> error option) option" where
  "startLocked e s = (case NewDiskStorage (spDisk s) of
     (fs, Inl err) \<Rightarrow> Some (s\<lparr>spDisk := fs\<rparr>, Some (Wrapf ''supervisor: opening storage: %w'' [] err))
   | (fs, Inr store) \<Rightarrow> (case NewNode DiskStorage_ops e (raft_config (spCfg s)) store of
       None \<Rightarrow> None
     | Some (st, Inl err) \<Rightarrow> Some (s\<lparr>spDisk := dFs st\<rparr>, Some (Wrapf ''supervisor: starting raft node: %w'' [] err))
     | Some (st, Inr node) \<Rightarrow> Some (s\<lparr>spHandler := True, spServer := Some (NewServer node NewStore (scAddrs (spCfg s))),
           spStartedAt := env_now e, spCrashed := False\<rparr>, None)))"

definition server_disk :: "DiskStorage Server \<Rightarrow> Fs" where
  "server_disk sv = dFs (storage (svNode sv))"

definition stopLocked :: "('w, 'c) Supervisor \<Rightarrow> ('w, 'c) Supervisor" where
  "stopLocked s = (case spServer s of
     None \<Rightarrow> s
   | Some sv \<Rightarrow> s\<lparr>spHandler := False, spDisk := server_disk sv, spServer := None\<rparr>)"

definition sup_New :: "env \<Rightarrow> SupConfig \<Rightarrow> ('w, 'c) Transport \<Rightarrow> Fs \<Rightarrow> (error + ('w, 'c) Supervisor) option" where
  "sup_New e cfg tr fs =
     (if scID cfg = [] then Some (Inl (Errorf ''supervisor: Config.ID is required'' []))
      else if \<not> scTransport cfg then Some (Inl (Errorf ''supervisor: Config.Transport is required'' []))
      else if scDataDir cfg = [] then Some (Inl (Errorf ''supervisor: Config.DataDir is required'' []))
      else case startLocked e \<lparr>spCfg = cfg, spTransport = tr, spHandler = False, spDisk = fs, spServer = None,
                               spStartedAt = 0, spCrashed = False\<rparr> of
             None \<Rightarrow> None
           | Some (s, Some err) \<Rightarrow> Some (Inl err)
           | Some (s, None) \<Rightarrow> Some (Inr s))"

definition sup_Close :: "('w, 'c) Supervisor \<Rightarrow> ('w, 'c) Supervisor" where
  "sup_Close s = (stopLocked s)\<lparr>spCrashed := True\<rparr>"

definition sup_crash :: "('w, 'c) Supervisor \<Rightarrow> ('w, 'c) Supervisor" where
  "sup_crash s = (if spCrashed s then s else (stopLocked s)\<lparr>spCrashed := True\<rparr>)"

definition sup_restart :: "env \<Rightarrow> ('w, 'c) Supervisor \<Rightarrow> (('w, 'c) Supervisor \<times> error option) option" where
  "sup_restart e s = (if \<not> spCrashed s then Some (s, None) else startLocked e s)"

definition sup_current :: "('w, 'c) Supervisor \<Rightarrow> DiskStorage Server option" where
  "sup_current s = spServer s"

definition sup_Node :: "('w, 'c) Supervisor \<Rightarrow> DiskStorage Node option" where
  "sup_Node s = map_option svNode (spServer s)"

section \<open>The key-value service\<close>

definition errCrashed :: "node_id \<Rightarrow> error" where
  "errCrashed i = Errorf ''distkv: node %s is down'' [StrArg i]"

text \<open>A request is forwarded to the current incarnation, as its request \<open>k\<close>.\<close>

definition sup_request :: "codec \<Rightarrow> nat \<Rightarrow> Command \<Rightarrow> ('w, 'c) Supervisor \<Rightarrow> (('w, 'c) Supervisor \<times> error option) option" where
  "sup_request cd k cmd s = (case sup_current s of
     None \<Rightarrow> Some (s, Some (errCrashed (scID (spCfg s))))
   | Some sv \<Rightarrow> map_option (\<lambda>sv'. (s\<lparr>spServer := Some sv'\<rparr>, None)) (execute_propose DiskStorage_ops cd k cmd sv))"

definition sup_Get where "sup_Get cd k cmd = sup_request cd k (rpc_Get cmd)"
definition sup_Put where "sup_Put cd k cmd = sup_request cd k (rpc_Put cmd)"
definition sup_Append where "sup_Append cd k cmd = sup_request cd k (rpc_Append cmd)"
definition sup_Delete where "sup_Delete cd k cmd = sup_request cd k (rpc_Delete cmd)"

section \<open>The admin service\<close>

datatype Lifecycle = LIFECYCLE_UNSPECIFIED | LIFECYCLE_RUNNING | LIFECYCLE_CRASHED

record PbNodeStatus =
  psId :: string
  psLifecycle :: Lifecycle
  psRole :: string
  psTerm :: nat
  psLeaderId :: string
  psCommitIndex :: nat
  psLastApplied :: nat
  psLastLogIndex :: nat
  psLogLen :: nat
  psLastIncludedIndex :: nat
  psLastIncludedTerm :: nat
  psFollowers :: "string \<rightharpoonup> nat \<times> nat"
  psIsolatedFrom :: "string list"
  psKeyCount :: nat
  psUptimeMs :: nat

definition down_status :: "string \<Rightarrow> string list \<Rightarrow> PbNodeStatus" where
  "down_status i cutoff = \<lparr>psId = i, psLifecycle = LIFECYCLE_CRASHED, psRole = [], psTerm = 0, psLeaderId = [],
     psCommitIndex = 0, psLastApplied = 0, psLastLogIndex = 0, psLogLen = 0, psLastIncludedIndex = 0,
     psLastIncludedTerm = 0, psFollowers = Map.empty, psIsolatedFrom = cutoff, psKeyCount = 0, psUptimeMs = 0\<rparr>"

definition sup_status :: "int \<Rightarrow> ('w, 'c) Supervisor \<Rightarrow> PbNodeStatus option" where
  "sup_status now s =
     (let out = down_status (scID (spCfg s)) (Isolation (spTransport s))
      in case spServer s of
           None \<Rightarrow> Some out
         | Some sv \<Rightarrow> map_option (\<lambda>st. out\<lparr>psLifecycle := LIFECYCLE_RUNNING, psRole := Role_String (sRole st),
               psTerm := sTerm st, psLeaderId := sLeaderID st, psCommitIndex := sCommitIndex st,
               psLastApplied := sLastApplied st, psLastLogIndex := sLastLogIndex st, psLogLen := nat (sLogLen st),
               psLastIncludedIndex := sLastIncludedIndex st, psLastIncludedTerm := sLastIncludedTerm st,
               psFollowers := (case sFollowers st of None \<Rightarrow> Map.empty | Some f \<Rightarrow> f),
               psKeyCount := store_Len (svStore sv), psUptimeMs := nat ((now - spStartedAt s) div millisecond)\<rparr>)
             (NodeStatus (svNode sv)))"

definition sup_Status :: "int \<Rightarrow> ('w, 'c) Supervisor \<Rightarrow> PbNodeStatus option" where
  "sup_Status now s = sup_status now s"

definition sup_SetPartition :: "int \<Rightarrow> string list \<Rightarrow> ('w, 'c) Supervisor \<Rightarrow> ('w, 'c) Supervisor \<times> PbNodeStatus option" where
  "sup_SetPartition now ps s = (let s1 = s\<lparr>spTransport := SetIsolation ps (spTransport s)\<rparr> in (s1, sup_status now s1))"

record LifecycleReply =
  lrLifecycle :: Lifecycle
  lrError :: "message option"

definition sup_Crash :: "('w, 'c) Supervisor \<Rightarrow> ('w, 'c) Supervisor \<times> LifecycleReply" where
  "sup_Crash s = (sup_crash s, \<lparr>lrLifecycle = LIFECYCLE_CRASHED, lrError = None\<rparr>)"

definition sup_Restart :: "env \<Rightarrow> ('w, 'c) Supervisor \<Rightarrow> (('w, 'c) Supervisor \<times> LifecycleReply) option" where
  "sup_Restart e s = map_option (\<lambda>(s1, r). (s1, case r of
       Some err \<Rightarrow> \<lparr>lrLifecycle = LIFECYCLE_CRASHED, lrError = Some err\<rparr>
     | None \<Rightarrow> \<lparr>lrLifecycle = LIFECYCLE_RUNNING, lrError = None\<rparr>)) (sup_restart e s)"

section \<open>The life cycle\<close>

text \<open>
  A supervisor is down exactly when it counts as crashed, and a handler is registered exactly
  when it is up.
\<close>

definition sup_ok :: "('w, 'c) Supervisor \<Rightarrow> bool" where
  "sup_ok s \<longleftrightarrow> (spCrashed s \<longleftrightarrow> spServer s = None) \<and> (spHandler s \<longleftrightarrow> spServer s \<noteq> None)"

lemma startLocked_cases:
  assumes "startLocked e s = Some (s', r)"
  shows "(\<exists>err fs. r = Some err \<and> s' = s\<lparr>spDisk := fs\<rparr>) \<or>
    (\<exists>st st' node. r = None \<and> NewNode DiskStorage_ops e (raft_config (spCfg s)) st = Some (st', Inr node) \<and>
       snd (NewDiskStorage (spDisk s)) = Inr st \<and>
       s' = s\<lparr>spHandler := True, spServer := Some (NewServer node NewStore (scAddrs (spCfg s))),
              spStartedAt := env_now e, spCrashed := False\<rparr>)"
proof -
  obtain fs n where n: "NewDiskStorage (spDisk s) = (fs, n)" by (cases "NewDiskStorage (spDisk s)")
  show ?thesis
  proof (cases n)
    case (Inl err)
    then show ?thesis using assms n by (auto simp: startLocked_def)
  next
    case (Inr store)
    then obtain st x where x: "NewNode DiskStorage_ops e (raft_config (spCfg s)) store = Some (st, x)"
      using assms n by (auto simp: startLocked_def split: option.splits)
    then show ?thesis using assms n Inr by (cases x) (auto simp: startLocked_def)
  qed
qed

lemma startLocked_ok:
  assumes "startLocked e s = Some (s', r)" "sup_ok s" "spCrashed s"
  shows "sup_ok s' \<and> (r = None \<longleftrightarrow> \<not> spCrashed s')"
  using startLocked_cases [OF assms(1)] assms(2,3) by (auto simp: sup_ok_def)

lemma sup_crash_ok: "sup_ok s \<Longrightarrow> sup_ok (sup_crash s) \<and> spCrashed (sup_crash s)"
  by (auto simp: sup_crash_def stopLocked_def sup_ok_def split: option.splits)

lemma sup_Close_ok: "sup_ok s \<Longrightarrow> sup_ok (sup_Close s) \<and> spCrashed (sup_Close s)"
  by (auto simp: sup_Close_def stopLocked_def sup_ok_def split: option.splits)

lemma sup_restart_ok: "sup_restart e s = Some (s', r) \<Longrightarrow> sup_ok s \<Longrightarrow> sup_ok s' \<and> (r = None \<longleftrightarrow> \<not> spCrashed s')"
  using startLocked_ok [of e s s' r] by (auto simp: sup_restart_def split: if_splits)

lemma sup_request_ok: "sup_request cd k cmd s = Some (s', r) \<Longrightarrow> sup_ok s \<Longrightarrow> sup_ok s'"
  by (auto simp: sup_request_def sup_current_def sup_ok_def split: option.splits)

end
