(* ===== verification/Linearizability.thy ===== *)
theory Linearizability
  imports Kv_Store
begin

text \<open>
  The recorded histories of the test utilities (src/internal/testutil/linearizability.go) and the
  sequential specification they are checked against. \<open>Operation\<close> is \<open>porcupine.Operation\<close>; the
  checker itself is a library. The model works key by key, on a single value, the empty string
  at the start.
\<close>

datatype KVOpKind = KVGet | KVPut | KVAppend | KVOther int

fun KVOpKind_String :: "KVOpKind \<Rightarrow> string" where
  "KVOpKind_String KVGet = ''get''"
| "KVOpKind_String KVPut = ''put''"
| "KVOpKind_String KVAppend = ''append''"
| "KVOpKind_String (KVOther _) = ''unknown''"

record KVInput =
  kiOp :: KVOpKind
  kiKey :: string
  kiValue :: string

type_synonym KVOutput = string

record Operation =
  opClientId :: int
  opInput :: KVInput
  opCall :: int
  opOutput :: KVOutput
  opReturn :: int

section \<open>The model\<close>

definition KVModel_Init :: string where "KVModel_Init = []"

definition KVModel_Step :: "string \<Rightarrow> KVInput \<Rightarrow> KVOutput \<Rightarrow> bool \<times> string" where
  "KVModel_Step st inp out = (case kiOp inp of
     KVGet \<Rightarrow> (out = st, st)
   | KVPut \<Rightarrow> (True, kiValue inp)
   | KVAppend \<Rightarrow> (True, st @ kiValue inp)
   | KVOther _ \<Rightarrow> (False, st))"

text \<open>The groups by key, in the order of first appearance; the code iterates over a map.\<close>

definition KVModel_Partition :: "Operation list \<Rightarrow> Operation list list" where
  "KVModel_Partition history = map (\<lambda>k. filter (\<lambda>op. kiKey (opInput op) = k) history)
     (remdups (map (\<lambda>op. kiKey (opInput op)) history))"

definition DescribeOperation :: "KVInput \<Rightarrow> KVOutput \<Rightarrow> message" where
  "DescribeOperation inp out = (case kiOp inp of
     KVGet \<Rightarrow> Errorf ''get(%q) -> %q'' [StrArg (kiKey inp), StrArg out]
   | KVPut \<Rightarrow> Errorf ''put(%q, %q)'' [StrArg (kiKey inp), StrArg (kiValue inp)]
   | KVAppend \<Rightarrow> Errorf ''append(%q, %q)'' [StrArg (kiKey inp), StrArg (kiValue inp)]
   | KVOther _ \<Rightarrow> Errorf ''unknown'' [])"

section \<open>Histories\<close>

record History =
  hiStart :: int
  hiOps :: "Operation list"

definition NewHistory :: "int \<Rightarrow> History" where
  "NewHistory now = \<lparr>hiStart = now, hiOps = []\<rparr>"

definition History_Now :: "int \<Rightarrow> History \<Rightarrow> int" where
  "History_Now now h = now - hiStart h"

definition MaxInt64 :: int where "MaxInt64 = 9223372036854775807"

definition Complete :: "int \<Rightarrow> int \<Rightarrow> int \<Rightarrow> KVInput \<Rightarrow> KVOutput \<Rightarrow> History \<Rightarrow> History" where
  "Complete now clientID call inp out h = h\<lparr>hiOps := hiOps h @
     [\<lparr>opClientId = clientID, opInput = inp, opCall = call, opOutput = out, opReturn = now - hiStart h\<rparr>]\<rparr>"

definition Pending :: "int \<Rightarrow> int \<Rightarrow> KVInput \<Rightarrow> History \<Rightarrow> History" where
  "Pending clientID call inp h = h\<lparr>hiOps := hiOps h @
     [\<lparr>opClientId = clientID, opInput = inp, opCall = call, opOutput = [], opReturn = MaxInt64\<rparr>]\<rparr>"

definition History_Len :: "History \<Rightarrow> nat" where
  "History_Len h = length (hiOps h)"

definition Operations :: "History \<Rightarrow> Operation list" where
  "Operations h = hiOps h"

section \<open>The store takes the steps of the model\<close>

text \<open>A command as the tests record it.\<close>

definition recorded :: "Command \<Rightarrow> KVInput" where
  "recorded c = \<lparr>kiOp = (case cmOp c of OP_GET \<Rightarrow> KVGet | OP_PUT \<Rightarrow> KVPut | OP_APPEND \<Rightarrow> KVAppend | _ \<Rightarrow> KVOther 0),
     kiKey = cmKey c, kiValue = cmValue c\<rparr>"

lemma applyLocked_model:
  assumes "cmOp c \<in> {OP_GET, OP_PUT, OP_APPEND}" "applyLocked c s = (s', reply)"
  shows "KVModel_Step (kv_value (stData s) (cmKey c)) (recorded c) (crValue reply) = (True, kv_value (stData s') (cmKey c))"
    and "k \<noteq> cmKey c \<Longrightarrow> kv_value (stData s') k = kv_value (stData s) k"
  using assms by (auto simp: KVModel_Step_def recorded_def applyLocked_def kv_value_def split: option.splits)

text \<open>The groups are the history sorted by key: nothing is lost, nothing is in two groups.\<close>

lemma Partition_count:
  "count_list (concat (KVModel_Partition h)) x = count_list h x"
proof -
  have "count_list (concat (map (\<lambda>k. filter (\<lambda>op. f op = k) h) ks)) x =
      (if f x \<in> set ks then count_list h x else 0)" if "distinct ks" for f :: "Operation \<Rightarrow> string" and ks
    using that
  proof (induction ks)
    case (Cons k ks)
    have "count_list (filter (\<lambda>op. f op = k) h) x = (if f x = k then count_list h x else 0)"
      by (induction h) auto
    with Cons show ?case by auto
  qed simp
  moreover have "x \<in> set h \<or> count_list h x = 0" by (simp add: count_list_0_iff)
  ultimately show ?thesis by (auto simp: KVModel_Partition_def)
qed

end
