(* ===== verification/Kv_Properties.thy ===== *)
theory Kv_Properties
  imports Kv_Server Linearizability Memory_Storage "HOL-Library.Sublist"
begin

text \<open>
  The properties of the key-value layer: exactly-once application of commands, answers to retries,
  the snapshot round trip, agreement with the sequential specification of the test utilities, and
  what a call of the server returns.
\<close>

section \<open>The store\<close>

lemma subseq_fresh_log: "subseq (fresh_log past cs) cs"
  by (induction cs arbitrary: past) auto

text \<open>C11: The store applies a log of commands as the plain key-value map applies the sub-log of its
  fresh commands, those whose number is above every number their client has used before in the log:
  in particular no client and number is applied twice, and the order of the log is kept. This holds
  of every log, whatever duplicates, reorderings or unknown operations it has.\<close>

theorem exactly_once:
  "stData (fst (store_run cs NewStore)) = kv_run (fresh_log [] cs) Map.empty \<and> subseq (fresh_log [] cs) cs \<and>
    distinct (map (\<lambda>c. (cmClientId c, cmSeqNo c)) (fresh_log [] cs))"
  using store_run_refines [OF sessions_ok_new, of cs] subseq_fresh_log fresh_log_distinct
  by (simp add: NewStore_def)

text \<open>A log as well-behaved clients produce it: a command that is not a repetition has a number above
  all that its client has used so far. Repetitions may be anywhere.\<close>

fun numbered_upwards :: "Command list \<Rightarrow> Command list \<Rightarrow> bool" where
  "numbered_upwards past [] = True"
| "numbered_upwards past (c # cs) = ((c \<in> set past \<or> \<not> dedupes c \<or> fresh past c) \<and> numbered_upwards (past @ [c]) cs)"

fun first_occurrences :: "Command list \<Rightarrow> Command list \<Rightarrow> Command list" where
  "first_occurrences past [] = []"
| "first_occurrences past (c # cs) = (if c \<in> set past then first_occurrences (past @ [c]) cs
     else c # first_occurrences (past @ [c]) cs)"

lemma kv_step_get: "\<not> dedupes c \<Longrightarrow> kv_step c m = m"
  by (simp add: dedupes_def kv_step_def)

lemma numbered_fresh_log:
  "numbered_upwards past cs \<Longrightarrow> kv_run (fresh_log past cs) m = kv_run (first_occurrences past cs) m"
proof (induction cs arbitrary: past m)
  case (Cons c cs)
  have IH: "kv_run (fresh_log (past @ [c]) cs) m = kv_run (first_occurrences (past @ [c]) cs) m" for m
    using Cons by simp
  show ?case
  proof (cases "fresh past c")
    case True
    then have "c \<notin> set past" by (auto simp: fresh_def)
    then show ?thesis using True IH by (simp add: kv_run_def)
  next
    case False
    then have "c \<in> set past \<or> \<not> dedupes c" using Cons.prems by auto
    then show ?thesis using False IH by (auto simp: kv_run_def kv_step_get)
  qed
qed simp

text \<open>Retries are harmless. When every client numbers its commands upwards, the store after a log
  with any repetitions holds what executing each command exactly once, at its first occurrence,
  gives.\<close>

theorem retries_harmless:
  assumes "numbered_upwards [] cs"
  shows "stData (fst (store_run cs NewStore)) = kv_run (first_occurrences [] cs) Map.empty"
  using store_run_refines [OF sessions_ok_new, of cs] numbered_fresh_log [OF assms]
  by (simp add: NewStore_def)

definition wit_cmd :: "string \<Rightarrow> nat \<Rightarrow> Op \<Rightarrow> string \<Rightarrow> string \<Rightarrow> Command" where
  "wit_cmd i q oper k v = \<lparr>cmClientId = i, cmSeqNo = q, cmOp = oper, cmKey = k, cmValue = v\<rparr>"

definition wit_log :: "Command list" where
  "wit_log = [wit_cmd ''a'' 1 OP_PUT ''x'' ''1'', wit_cmd ''b'' 1 OP_APPEND ''x'' ''2'', wit_cmd ''a'' 1 OP_PUT ''x'' ''1'',
     wit_cmd ''b'' 1 OP_APPEND ''x'' ''2'', wit_cmd ''a'' 2 OP_APPEND ''x'' ''3'', wit_cmd ''b'' 2 OP_GET ''x'' ''''  ]"

theorem retries_harmless_witness:
  "stData (fst (store_run wit_log NewStore)) ''x'' = Some ''123''"
proof -
  have "numbered_upwards [] wit_log" by (simp add: wit_log_def wit_cmd_def fresh_def dedupes_def)
  from retries_harmless [OF this] show ?thesis
    by (simp add: wit_log_def wit_cmd_def kv_run_def kv_step_def kv_value_def)
qed

text \<open>The session of a client moves only with a fresh command of it.\<close>

lemma store_run_session:
  assumes "sessions_ok past s" "\<forall>d \<in> set mid. dedupes d \<and> cmClientId d = i \<longrightarrow> \<not> fresh past d"
    and "stSessions s i = Some se" "\<forall>d \<in> set mid. dedupes d \<and> cmClientId d = i \<longrightarrow> cmSeqNo d \<le> seSeqNo se"
  shows "stSessions (fst (store_run mid s)) i = Some se"
  using assms
proof (induction mid arbitrary: past s)
  case (Cons c cs)
  let ?s = "fst (store_apply c s)"
  have ok: "sessions_ok (past @ [c]) ?s" using Cons.prems(1) by (rule sessions_ok_step)
  have se: "stSessions ?s i = Some se"
    using Cons.prems store_apply_fresh [OF Cons.prems(1), of c] store_apply_same [OF Cons.prems(1), of c]
    by (cases "fresh past c") (auto simp: fresh_def)
  have "\<forall>d \<in> set cs. dedupes d \<and> cmClientId d = i \<longrightarrow> \<not> fresh (past @ [c]) d"
    using Cons.prems(2) by (auto simp: fresh_def)
  then have "stSessions (fst (store_run cs ?s)) i = Some se" using Cons.IH [OF ok _ se] Cons.prems(4) by simp
  then show ?case by (simp add: case_prod_beta)
qed simp

text \<open>A retry gets the answer of the original. After any log, let a fresh command be applied, then
  any commands of which none of the same client has a higher number, then the same command again:
  the store does not change and the reply is the one given the first time.\<close>

theorem retry_same_reply:
  assumes "fresh past c" "store_apply c (fst (store_run past NewStore)) = (s1, r)"
    and "\<forall>d \<in> set mid. dedupes d \<and> cmClientId d = cmClientId c \<longrightarrow> cmSeqNo d \<le> cmSeqNo c"
    and "store_run mid s1 = (s2, rs)"
  shows "store_apply c s2 = (s2, r)"
proof -
  let ?s = "fst (store_run past NewStore)"
  have ok: "sessions_ok past ?s" using store_run_refines [OF sessions_ok_new, of past] by simp
  note sf = store_apply_fresh [OF ok assms(1)]
  have r: "r = Some (snd (applyLocked c ?s))" using sf assms(2) by simp
  have se: "stSessions s1 (cmClientId c) = Some \<lparr>seSeqNo = cmSeqNo c, seReply = r\<rparr>" using sf assms(2) r by auto
  have "sessions_ok (past @ [c]) s1" using sessions_ok_step [OF ok, of c] assms(2) by simp
  moreover have "\<forall>d \<in> set mid. dedupes d \<and> cmClientId d = cmClientId c \<longrightarrow> \<not> fresh (past @ [c]) d"
    using assms(1,3) by (auto simp: fresh_def not_less)
  ultimately have "stSessions s2 (cmClientId c) = Some \<lparr>seSeqNo = cmSeqNo c, seReply = r\<rparr>"
    using store_run_session [of "past @ [c]" s1 mid "cmClientId c"] se assms(3,4) by simp
  moreover have "dedupes c" using assms(1) by (simp add: fresh_def)
  ultimately show ?thesis by (simp add: store_apply_def)
qed

theorem retry_same_reply_witness:
  "store_apply (wit_cmd ''a'' 1 OP_PUT ''x'' ''1'') (fst (store_run [wit_cmd ''b'' 1 OP_DELETE ''x'' '''', wit_cmd ''a'' 1 OP_PUT ''x'' ''1'']
     (fst (store_apply (wit_cmd ''a'' 1 OP_PUT ''x'' ''1'') NewStore)))) =
   (fst (store_run [wit_cmd ''b'' 1 OP_DELETE ''x'' '''', wit_cmd ''a'' 1 OP_PUT ''x'' ''1'']
     (fst (store_apply (wit_cmd ''a'' 1 OP_PUT ''x'' ''1'') NewStore))), Some ok_reply)"
proof -
  let ?c = "wit_cmd ''a'' 1 OP_PUT ''x'' ''1''"
  let ?mid = "[wit_cmd ''b'' 1 OP_DELETE ''x'' '''', ?c]"
  have f: "fresh [] ?c" by (simp add: fresh_def dedupes_def wit_cmd_def)
  have a: "store_apply ?c (fst (store_run [] NewStore)) = (fst (store_apply ?c NewStore), Some ok_reply)"
    by (simp add: store_apply_def applyLocked_def NewStore_def wit_cmd_def dedupes_def)
  have m: "\<forall>d \<in> set ?mid. dedupes d \<and> cmClientId d = cmClientId ?c \<longrightarrow> cmSeqNo d \<le> cmSeqNo ?c" by (simp add: wit_cmd_def)
  show ?thesis by (rule retry_same_reply [OF f a m surjective_pairing])
qed

text \<open>A number below one the client has used is acknowledged and dropped. If the log has a command
  of the client with a higher number, any command with a lower one is answered with success and
  changes nothing, even one that was never applied: its effect is lost although the client is told
  that it succeeded.\<close>

theorem lower_number_acknowledged_and_dropped:
  assumes "d \<in> set past" "dedupes d" "dedupes c" "cmClientId d = cmClientId c" "cmSeqNo c < cmSeqNo d"
  shows "store_apply c (fst (store_run past NewStore)) = (fst (store_run past NewStore), Some ok_reply)"
proof -
  let ?s = "fst (store_run past NewStore)"
  have "sessions_ok past ?s" using store_run_refines [OF sessions_ok_new, of past] by simp
  then have "session_ok past (cmClientId c) (stSessions ?s (cmClientId c))" by (simp add: sessions_ok_def)
  then obtain se where se: "stSessions ?s (cmClientId c) = Some se" "cmSeqNo d \<le> seSeqNo se"
    using assms by (auto simp: session_ok_def split: option.splits)
  then show ?thesis using assms by (simp add: store_apply_def)
qed

theorem lower_number_acknowledged_and_dropped_witness:
  "store_apply (wit_cmd ''a'' 1 OP_PUT ''y'' ''lost'') (fst (store_run [wit_cmd ''a'' 2 OP_PUT ''x'' ''1''] NewStore)) =
    (fst (store_run [wit_cmd ''a'' 2 OP_PUT ''x'' ''1''] NewStore), Some ok_reply) \<and>
   stData (fst (store_run [wit_cmd ''a'' 2 OP_PUT ''x'' ''1''] NewStore)) ''y'' = None"
proof -
  have "store_apply (wit_cmd ''a'' 1 OP_PUT ''y'' ''lost'') (fst (store_run [wit_cmd ''a'' 2 OP_PUT ''x'' ''1''] NewStore)) =
    (fst (store_run [wit_cmd ''a'' 2 OP_PUT ''x'' ''1''] NewStore), Some ok_reply)"
    by (rule lower_number_acknowledged_and_dropped [of "wit_cmd ''a'' 2 OP_PUT ''x'' ''1''"]) (simp_all add: wit_cmd_def dedupes_def)
  then show ?thesis by (simp add: store_apply_def applyLocked_def NewStore_def wit_cmd_def dedupes_def)
qed

text \<open>C21: The snapshot round trip. With a codec whose decoder gives back every message the encoder
  accepted (what protobuf promises of one message type), restoring the bytes of a snapshot into any
  store gives the store that was snapshot: data, session numbers and recorded replies.\<close>

theorem snapshot_restore:
  assumes "\<And>m bs. marshalS m = Inr bs \<Longrightarrow> unmarshalS bs = (m, None)"
    and "store_Snapshot marshalS s = Inr bytes"
  shows "store_Restore unmarshalS bytes s0 = (s, None)"
proof -
  have "unmarshalS bytes = (\<lparr>snData = stData s,
      snSessions = (\<lambda>i. map_option (\<lambda>sess. \<lparr>ssSeqNo = seSeqNo sess, ssReply = seReply sess\<rparr>) (stSessions s i))\<rparr>, None)"
    using assms unfolding store_Snapshot_def by blast
  moreover have "(\<lambda>i. map_option (\<lambda>ss. \<lparr>seSeqNo = ssSeqNo ss, seReply = ssReply ss\<rparr>)
      (map_option (\<lambda>sess. \<lparr>ssSeqNo = seSeqNo sess, ssReply = seReply sess\<rparr>) (stSessions s i))) = stSessions s"
    by (intro ext) (simp add: option.map_comp comp_def split: option.splits, simp add: map_option_case split: option.splits)
  ultimately show ?thesis by (simp add: store_Restore_def)
qed

theorem snapshot_restore_witness:
  "store_Restore (\<lambda>bs. (\<lparr>snData = [''x'' \<mapsto> ''1''], snSessions = [''a'' \<mapsto> \<lparr>ssSeqNo = 1, ssReply = Some ok_reply\<rparr>]\<rparr>, None)) [7] NewStore =
    (fst (store_apply (wit_cmd ''a'' 1 OP_PUT ''x'' ''1'') NewStore), None)"
proof -
  let ?m = "\<lparr>snData = [''x'' \<mapsto> ''1''], snSessions = [''a'' \<mapsto> \<lparr>ssSeqNo = 1, ssReply = Some ok_reply\<rparr>]\<rparr>"
  let ?s = "fst (store_apply (wit_cmd ''a'' 1 OP_PUT ''x'' ''1'') NewStore)"
  have s: "?s = \<lparr>stData = [''x'' \<mapsto> ''1''], stSessions = [''a'' \<mapsto> \<lparr>seSeqNo = 1, seReply = Some ok_reply\<rparr>]\<rparr>"
    by (simp add: store_apply_def applyLocked_def NewStore_def wit_cmd_def dedupes_def)
  show ?thesis unfolding s
    by (rule snapshot_restore [of "\<lambda>m. if m = ?m then Inr [7] else Inl (Errorf ''no'' [])"])
      (auto simp: store_Snapshot_def split: if_splits)
qed

section \<open>The sequential specification\<close>

text \<open>A sequence of inputs and outputs of one key, replayed by the model of the test utilities.\<close>

fun model_accepts :: "string \<Rightarrow> (KVInput \<times> KVOutput) list \<Rightarrow> bool" where
  "model_accepts st [] = True"
| "model_accepts st ((inp, out) # xs) = (case KVModel_Step st inp out of (ok, st') \<Rightarrow> ok \<and> model_accepts st' xs)"

fun key_history :: "string \<Rightarrow> Command list \<Rightarrow> CommandReply option list \<Rightarrow> (KVInput \<times> KVOutput) list" where
  "key_history k (c # cs) (Some r # rs) =
     (if cmKey c = k then [(recorded c, crValue r)] else []) @ key_history k cs rs"
| "key_history k _ _ = []"

lemma store_run_model:
  assumes "sessions_ok past s" "\<forall>c \<in> set cs. cmOp c \<in> {OP_GET, OP_PUT, OP_APPEND}"
    "fresh_log past cs = filter dedupes cs" "store_run cs s = (s', rs)"
  shows "model_accepts (kv_value (stData s) k) (key_history k cs rs)"
  using assms
proof (induction cs arbitrary: past s rs)
  case (Cons c cs)
  obtain s1 r where a: "store_apply c s = (s1, r)" by (metis surj_pair)
  obtain rs' where b: "store_run cs s1 = (s', rs')" "rs = r # rs'" using Cons.prems(4) a by (auto split: prod.splits)
  have ok: "sessions_ok (past @ [c]) s1" using sessions_ok_step [OF Cons.prems(1), of c] a by simp
  have len: "length (fresh_log past cs) \<le> length (filter dedupes cs)" for past cs
    by (induction cs arbitrary: past) (auto simp: fresh_def le_SucI)
  have f: "fresh past c \<or> cmOp c = OP_GET" "fresh_log (past @ [c]) cs = filter dedupes cs"
  proof -
    show "fresh past c \<or> cmOp c = OP_GET"
    proof (rule ccontr)
      assume a: "\<not> (fresh past c \<or> cmOp c = OP_GET)"
      then have "dedupes c" by (simp add: dedupes_def)
      then have "fresh_log (past @ [c]) cs = c # filter dedupes cs" using Cons.prems(3) a by simp
      then show False using len [of "past @ [c]" cs] by simp
    qed
    show "fresh_log (past @ [c]) cs = filter dedupes cs"
      using Cons.prems(3) len [of "past @ [c]" cs] by (auto simp: fresh_def split: if_splits)
  qed
  have r: "r = Some (snd (applyLocked c s)) \<and> stData s1 = stData (fst (applyLocked c s))"
    using f(1) store_apply_fresh [OF Cons.prems(1), of c] store_apply_get [of c s] a
    by (auto simp: kv_step_def)
  obtain t reply where ap: "applyLocked c s = (t, reply)" by (metis surj_pair)
  note m = applyLocked_model [OF _ ap]
  show ?case
    using m Cons.prems(2) r ap b Cons.IH [OF ok _ f(2) b(1)] by (auto simp: ap)
qed simp

text \<open>C20: The log order is a witness of linearizability. For a log of reads, puts and appends in which
  every command is fresh, and any key, the inputs and the replies on that key, in log order, are a run
  of the sequential model the recorded histories are checked against.\<close>

theorem log_order_linearizes:
  assumes "\<forall>c \<in> set cs. cmOp c \<in> {OP_GET, OP_PUT, OP_APPEND}" "fresh_log [] cs = filter dedupes cs"
    and "store_run cs NewStore = (s', rs)"
  shows "model_accepts KVModel_Init (key_history k cs rs)"
  using store_run_model [OF sessions_ok_new assms, of k] by (simp add: NewStore_def kv_value_def KVModel_Init_def)

theorem log_order_linearizes_witness:
  "key_history ''x'' [wit_cmd ''a'' 1 OP_PUT ''x'' ''1'', wit_cmd ''b'' 1 OP_APPEND ''x'' ''2'', wit_cmd ''a'' 2 OP_GET ''x'' []]
      (snd (store_run [wit_cmd ''a'' 1 OP_PUT ''x'' ''1'', wit_cmd ''b'' 1 OP_APPEND ''x'' ''2'', wit_cmd ''a'' 2 OP_GET ''x'' []] NewStore)) =
     [(recorded (wit_cmd ''a'' 1 OP_PUT ''x'' ''1''), []), (recorded (wit_cmd ''b'' 1 OP_APPEND ''x'' ''2''), []),
      (recorded (wit_cmd ''a'' 2 OP_GET ''x'' []), ''12'')] \<and>
   model_accepts KVModel_Init (key_history ''x'' [wit_cmd ''a'' 1 OP_PUT ''x'' ''1'', wit_cmd ''b'' 1 OP_APPEND ''x'' ''2'', wit_cmd ''a'' 2 OP_GET ''x'' []]
      (snd (store_run [wit_cmd ''a'' 1 OP_PUT ''x'' ''1'', wit_cmd ''b'' 1 OP_APPEND ''x'' ''2'', wit_cmd ''a'' 2 OP_GET ''x'' []] NewStore)))"
proof (rule conjI)
  let ?cs = "[wit_cmd ''a'' 1 OP_PUT ''x'' ''1'', wit_cmd ''b'' 1 OP_APPEND ''x'' ''2'', wit_cmd ''a'' 2 OP_GET ''x'' []]"
  show "model_accepts KVModel_Init (key_history ''x'' ?cs (snd (store_run ?cs NewStore)))"
    by (rule log_order_linearizes [OF _ _ surjective_pairing]) (auto simp: wit_cmd_def fresh_def dedupes_def)
  show "key_history ''x'' ?cs (snd (store_run ?cs NewStore)) =
     [(recorded (wit_cmd ''a'' 1 OP_PUT ''x'' ''1''), []), (recorded (wit_cmd ''b'' 1 OP_APPEND ''x'' ''2''), []),
      (recorded (wit_cmd ''a'' 2 OP_GET ''x'' []), ''12'')]"
    by (simp add: store_apply_def applyLocked_def NewStore_def wit_cmd_def dedupes_def ok_reply_def empty_reply_def)
qed

section \<open>The server\<close>

text \<open>C15: Every successful reply is the reply to its own request. In any run of a server, whatever the
  node, the other requests and the clock do in between: a call that returned success returned, with
  the index it names, the reply the store gave to a command of the same client and number that the
  apply loop took from that index.\<close>

theorem reply_is_own:
  assumes "svrun ops cd moves (NewServer n st addrs) sv"
    and "svCalls sv k = Some (CallReturned cmd (Inr reply))" "crSuccess reply"
  shows "\<exists>c r. (crIndex reply, c, Some r) \<in> set (svApplied sv) \<and> cmClientId c = cmClientId cmd \<and>
    cmSeqNo c = cmSeqNo cmd \<and> reply = r\<lparr>crIndex := crIndex reply\<rparr>"
  using sv_invD(2) [OF svrun_inv [OF assms(1) NewServer_inv] assms(2)] assms(3)
  by (simp add: call_ok_def applied_at_def)

text \<open>A request that misses its result.\<close>

definition past_index :: "nat \<Rightarrow> 's Server \<Rightarrow> nat" where
  "past_index index sv = length (filter (\<lambda>(i, c, r). i = index) (svApplied sv))"

definition stuck_call :: "nat \<Rightarrow> nat \<Rightarrow> Command \<Rightarrow> 's Server \<Rightarrow> bool" where
  "stuck_call k index cmd sv \<longleftrightarrow> svChans sv k = None \<and> svCalls sv k = Some (CallWaiting index cmd) \<or>
     (\<exists>err. svCalls sv k = Some (CallReturned cmd (Inl err)))"

lemma deliver_applied [simp]: "svApplied (deliver i res sv) = svApplied sv" "svCalls (deliver i res sv) = svCalls sv"
  by (simp_all add: deliver_def split: option.splits)

lemma apply_msg_applied:
  assumes "apply_msg cd msg sv = Some sv'"
  shows "svCalls sv' = svCalls sv \<and> (svApplied sv' = svApplied sv \<and> svChans sv' = svChans sv \<or>
    (\<exists>c r. svApplied sv' = svApplied sv @ [(amCommandIndex msg, c, r)]) \<and>
    (\<forall>k. svWaiters sv (amCommandIndex msg) \<noteq> Some k \<longrightarrow> svChans sv' k = svChans sv k))"
  using assms
  by (auto simp: apply_msg_def deliver_def split: if_splits prod.splits option.splits)

lemma svstep_past:
  assumes "svstep ops cd moves sv sv'"
  shows "past_index index sv \<le> past_index index sv' \<and>
    (sv_inv sv \<longrightarrow> past_index index sv' = past_index index sv \<longrightarrow> stuck_call k index cmd sv \<longrightarrow> stuck_call k index cmd sv')"
  using assms
proof cases
  case applies
  have "svCalls sv' = svCalls sv \<and> (svApplied sv' = svApplied sv \<and> svChans sv' = svChans sv \<or>
    (\<exists>i c r. svApplied sv' = svApplied sv @ [(i, c, r)] \<and> (\<forall>k. svWaiters sv i \<noteq> Some k \<longrightarrow> svChans sv' k = svChans sv k)))"
  proof (cases "apply_receive (svNode sv)")
    case None
    then show ?thesis using applies by (simp add: runApplyLoop_def)
  next
    case (Some mn)
    then have "apply_msg cd (fst mn) (sv\<lparr>svNode := snd mn\<rparr>) = Some sv'"
      using applies by (simp add: runApplyLoop_def case_prod_beta)
    from apply_msg_applied [OF this] show ?thesis by auto
  qed
  then show ?thesis using sv_invD(3) [of sv _ k]
    by (fastforce simp: past_index_def stuck_call_def split: if_splits)
qed (auto simp: past_index_def stuck_call_def server_Stop_def runSnapshotLoop_def Let_def execute_propose_def set_call_def
    execute_refused_def execute_register_def execute_result_def execute_giveup_def split: option.splits sum.splits if_splits)

lemma svrun_stuck:
  "svrun ops cd moves sv sv' \<Longrightarrow> sv_inv sv \<Longrightarrow> stuck_call k index cmd sv \<Longrightarrow>
     past_index index sv \<le> past_index index sv' \<and> sv_inv sv' \<and>
     (past_index index sv' = past_index index sv \<longrightarrow> stuck_call k index cmd sv')"
proof (induction rule: svrun.induct)
  case (svrun_step sv sv1 sv2)
  then have IH: "past_index index sv \<le> past_index index sv1" "sv_inv sv1"
    "past_index index sv1 = past_index index sv \<longrightarrow> stuck_call k index cmd sv1" by simp_all
  note st = svstep_past [OF svrun_step.hyps(2), of index k cmd]
  show ?case using IH st svstep_inv [OF svrun_step.hyps(2) IH(2)] by auto
qed simp

text \<open>C38: A request can miss its own result. \<open>execute\<close> registers its waiter after \<open>Propose\<close> has
  returned; if the apply loop takes the command from the channel in between, no waiter is there, the
  result is dropped, and the request then waits for an index that has passed: in every continuation in
  which the apply loop gets no second message for that index the request is still waiting, or has
  given up with an error, although its command was applied.\<close>

theorem result_missed:
  assumes "sv_inv sv" "svCalls sv k = Some (CallProposed index cmd)" "svWaiters sv index = None"
    and "apply_receive (svNode sv) = Some (msg, n)" "\<not> amSnapshotValid msg" "amCommandIndex msg = index"
    and "runApplyLoop cd sv = Some sv1" "svrun ops cd moves (execute_register k index cmd sv1) sv2"
    and "past_index index sv2 = past_index index sv1"
  shows "\<exists>c r. (index, c, r) \<in> set (svApplied sv1) \<and>
    (svCalls sv2 k = Some (CallWaiting index cmd) \<and> svChans sv2 k = None \<or> (\<exists>err. svCalls sv2 k = Some (CallReturned cmd (Inl err))))"
proof -
  have m: "apply_msg cd msg (sv\<lparr>svNode := n\<rparr>) = Some sv1" using assms(4,7) by (simp add: runApplyLoop_def)
  obtain c r where a: "svApplied sv1 = svApplied sv @ [(index, c, r)]" "svChans sv1 = svChans sv" "svCalls sv1 = svCalls sv"
    using m assms(3,5,6) by (auto simp: apply_msg_def deliver_def split: prod.splits)
  have "svChans sv k = None" using sv_invD(2) [OF assms(1,2)] by (simp add: call_ok_def)
  moreover have "sv_inv (execute_register k index cmd sv1)"
    using runApplyLoop_inv [OF assms(1,7)] execute_register_inv a(3) assms(2) by metis
  moreover have "past_index index (execute_register k index cmd sv1) = past_index index sv1"
    by (simp add: past_index_def execute_register_def set_call_def)
  ultimately have "stuck_call k index cmd sv2"
    using svrun_stuck [OF assms(8)] assms(9) a by (simp add: stuck_call_def execute_register_def set_call_def)
  then show ?thesis using a(1) by (auto simp: stuck_call_def)
qed

text \<open>A leader without peers: what it proposes is committed at once. The codec of the witnesses knows
  one command.\<close>

definition lone_cfg :: Config where
  "lone_cfg = \<lparr>cID = ''n1'', cPeers = [], cTransport = True, cElectionTimeoutMin = 0, cElectionTimeoutMax = 0,
     cHeartbeatInterval = 0, cTickInterval = 0, cRPCTimeout = 0, cSnapshotThreshold = 0\<rparr>"

definition lone_leader :: "MemoryStorage Node" where
  "lone_leader = (node_from_state lone_cfg NewMemoryStorage (mem_view NewMemoryStorage) (boundary_entry 0 0))
     \<lparr>role := Leader, currentTerm := 1, leaderID := ''n1''\<rparr>"

definition one_put :: Command where "one_put = wit_cmd ''a'' 1 OP_PUT ''x'' ''1''"

definition one_codec :: codec where
  "one_codec = \<lparr>marshalC = \<lambda>c. Inr [7], unmarshalC = \<lambda>b. (one_put, None),
     marshalSnap = \<lambda>m. Inr [], unmarshalSnap = \<lambda>b. (\<lparr>snData = Map.empty, snSessions = Map.empty\<rparr>, None)\<rparr>"

definition lone_committed :: "MemoryStorage Node" where
  "lone_committed = (case Propose MemoryStorage_ops [7] lone_leader of Some (n, r) \<Rightarrow> n | None \<Rightarrow> lone_leader)"

definition lone_applied :: "MemoryStorage Node" where
  "lone_applied = (case apply_section ApplyTop lone_committed of
     Some (pc, n) \<Rightarrow> (case apply_section pc n of Some (pc', n') \<Rightarrow> n' | None \<Rightarrow> n) | None \<Rightarrow> lone_committed)"

definition apply_moves :: "'s Node \<Rightarrow> 's Node \<Rightarrow> bool" where
  "apply_moves n n' \<longleftrightarrow> (\<exists>pc pc' n1. apply_section ApplyTop n = Some (pc, n1) \<and> apply_section pc n1 = Some (pc', n'))"

lemma lone_steps:
  "Propose MemoryStorage_ops [7] lone_leader = Some (lone_committed, 1, 1, True)"
  "apply_moves lone_committed lone_applied"
  "apply_receive lone_applied = Some (command_msg \<lparr>eTerm = 1, eIndex = 1, eCommand = [7]\<rparr>, lone_applied\<lparr>applyCh := []\<rparr>)"
proof -
  have p: "Propose MemoryStorage_ops [7] lone_leader = Some (lone_committed, 1, 1, True)"
    by (simp add: lone_committed_def lone_leader_def node_from_state_def lone_cfg_def Propose_def lastIndexLocked_def
      appendLogLocked_def mem_defs NewMemoryStorage_def mem_view_def boundary_entry_def maybeAdvanceCommitLocked_def
      termAtLocked_def entryAtLocked_def replica_count_def majority_def Let_def)
  show "Propose MemoryStorage_ops [7] lone_leader = Some (lone_committed, 1, 1, True)" by (rule p)
  have c: "commitIndex lone_committed = 1" "lastApplied lone_committed = 0" "applyCh lone_committed = []"
    "pendingSnapshot lone_committed = None" "entryAtLocked lone_committed 1 = Some \<lparr>eTerm = 1, eIndex = 1, eCommand = [7]\<rparr>"
    by code_simp+
  let ?m = "command_msg \<lparr>eTerm = 1, eIndex = 1, eCommand = [7]\<rparr>"
  have a: "apply_section ApplyTop lone_committed = Some (ApplySend ?m True, lone_committed\<lparr>lastApplied := 1\<rparr>)"
    using c by (simp add: apply_batch_def)
  have b: "apply_section (ApplySend ?m True) (lone_committed\<lparr>lastApplied := 1\<rparr>) =
      Some (ApplyBatch, lone_committed\<lparr>lastApplied := 1, applyCh := [?m]\<rparr>)"
    using c by (simp add: applyCh_capacity_def)
  have n: "lone_applied = lone_committed\<lparr>lastApplied := 1, applyCh := [?m]\<rparr>"
    using a b by (simp add: lone_applied_def del: apply_section.simps)
  show "apply_moves lone_committed lone_applied" unfolding apply_moves_def
    by (intro exI conjI, rule a, unfold n, rule b)
  show "apply_receive lone_applied = Some (?m, lone_applied\<lparr>applyCh := []\<rparr>)" unfolding n by (simp add: apply_receive_def)
qed

definition lone_server :: "MemoryStorage Server" where
  "lone_server = NewServer lone_leader NewStore Map.empty"

definition lone_proposed :: "MemoryStorage Server" where
  "lone_proposed = set_call 0 (CallProposed 1 one_put) (lone_server\<lparr>svNode := lone_committed\<rparr>)"

lemma lone_proposes: "svstep MemoryStorage_ops one_codec apply_moves lone_server lone_proposed"
proof (rule svstep.request)
  show "svCalls lone_server 0 = None" by (simp add: lone_server_def NewServer_def)
  show "endpoint one_put one_put" by (simp add: endpoint_def rpc_Put_def one_put_def wit_cmd_def)
  show "execute_propose MemoryStorage_ops one_codec 0 one_put lone_server = Some lone_proposed"
    using lone_steps(1) by (simp add: execute_propose_def one_codec_def lone_proposed_def lone_server_def NewServer_def)
qed

text \<open>The apply loop takes the message of a server that waits for it, or does not.\<close>

lemma lone_takes:
  assumes "svNode sv = lone_applied"
  shows "runApplyLoop one_codec sv = Some (deliver 1 \<lparr>arCmd = one_put, arReply = snd (store_apply one_put (svStore sv))\<rparr>
    (sv\<lparr>svNode := lone_applied\<lparr>applyCh := []\<rparr>, svStore := fst (store_apply one_put (svStore sv)),
        svApplied := svApplied sv @ [(1, one_put, snd (store_apply one_put (svStore sv)))]\<rparr>))"
  using assms lone_steps(3)
  by (simp add: runApplyLoop_def apply_msg_def command_msg_def store_Apply_def one_codec_def case_prod_beta)

theorem result_missed_witness:
  "\<exists>sv sv1. svrun MemoryStorage_ops one_codec apply_moves lone_server sv \<and> runApplyLoop one_codec sv = Some sv1 \<and>
    (\<exists>c r. (1, c, r) \<in> set (svApplied sv1)) \<and> svChans (execute_register 0 1 one_put sv1) 0 = None \<and>
    svCalls (execute_register 0 1 one_put sv1) 0 = Some (CallWaiting 1 one_put)"
proof -
  let ?sv = "lone_proposed\<lparr>svNode := lone_applied\<rparr>"
  have "svstep MemoryStorage_ops one_codec apply_moves lone_proposed ?sv"
    by (rule svstep.node_moves) (use lone_steps(2) in \<open>simp add: lone_proposed_def set_call_def\<close>)
  then have r: "svrun MemoryStorage_ops one_codec apply_moves lone_server ?sv"
    by (intro svrun_step [OF svrun_step [OF svrun_refl lone_proposes]])
  have i: "sv_inv ?sv" by (rule svrun_inv [OF r]) (simp add: lone_server_def NewServer_inv)
  have c: "svCalls ?sv 0 = Some (CallProposed 1 one_put)" "svWaiters ?sv 1 = None"
    by (simp_all add: lone_proposed_def set_call_def lone_server_def NewServer_def)
  have m: "apply_receive (svNode ?sv) = Some (command_msg \<lparr>eTerm = 1, eIndex = 1, eCommand = [7]\<rparr>, lone_applied\<lparr>applyCh := []\<rparr>)"
    using lone_steps(3) by simp
  obtain sv1 where sv1: "runApplyLoop one_codec ?sv = Some sv1" using lone_takes [of ?sv] by simp
  have w: "svCalls (execute_register 0 1 one_put sv1) 0 = Some (CallWaiting 1 one_put)"
    by (simp add: execute_register_def set_call_def)
  have "past_index 1 (execute_register 0 1 one_put sv1) = past_index 1 sv1"
    by (simp add: past_index_def execute_register_def set_call_def)
  from result_missed [OF i c m _ _ sv1 svrun_refl this] show ?thesis
    using r sv1 w by (auto simp: command_msg_def)
qed

theorem reply_is_own_witness:
  "\<exists>sv reply. svrun MemoryStorage_ops one_codec apply_moves lone_server sv \<and>
    svCalls sv 0 = Some (CallReturned one_put (Inr reply)) \<and> crSuccess reply \<and>
    (\<exists>c r. (crIndex reply, c, Some r) \<in> set (svApplied sv) \<and> cmClientId c = ''a'' \<and> cmSeqNo c = 1 \<and> reply = r\<lparr>crIndex := crIndex reply\<rparr>)"
proof -
  let ?s1 = "execute_register 0 1 one_put lone_proposed"
  let ?s2 = "?s1\<lparr>svNode := lone_applied\<rparr>"
  have 1: "svstep MemoryStorage_ops one_codec apply_moves lone_proposed ?s1"
    by (rule svstep.registers) (simp add: lone_proposed_def set_call_def)
  have 2: "svstep MemoryStorage_ops one_codec apply_moves ?s1 ?s2"
    by (rule svstep.node_moves) (use lone_steps(2) in \<open>simp add: execute_register_def lone_proposed_def set_call_def\<close>)
  obtain s3 where s3: "runApplyLoop one_codec ?s2 = Some s3" using lone_takes [of ?s2] by simp
  have st: "svStore ?s2 = NewStore" "\<not> svStopped ?s2" "svWaiters ?s2 1 = Some 0"
    by (simp_all add: execute_register_def lone_proposed_def set_call_def lone_server_def NewServer_def)
  have ap: "snd (store_apply one_put NewStore) = Some ok_reply"
    by (simp add: store_apply_def applyLocked_def NewStore_def one_put_def wit_cmd_def dedupes_def)
  have 3: "svstep MemoryStorage_ops one_codec apply_moves ?s2 s3" by (rule svstep.applies [OF st(2) s3])
  have c3: "svChans s3 0 = Some \<lparr>arCmd = one_put, arReply = Some ok_reply\<rparr>" "svCalls s3 0 = Some (CallWaiting 1 one_put)"
    using s3 lone_takes [of ?s2] st(1,3) ap by (auto simp: deliver_def execute_register_def set_call_def)
  let ?s4 = "set_call 0 (CallReturned one_put (Inr (ok_reply\<lparr>crIndex := 1\<rparr>))) s3"
  have 4: "svstep MemoryStorage_ops one_codec apply_moves s3 ?s4"
    by (rule svstep.result [OF c3(2,1)]) (simp add: execute_result_def)
  have r: "svrun MemoryStorage_ops one_codec apply_moves lone_server ?s4"
    by (intro svrun_step [OF _ 4] svrun_step [OF _ 3] svrun_step [OF _ 2] svrun_step [OF _ 1]
        svrun_step [OF _ lone_proposes] svrun_refl)
  have "svCalls ?s4 0 = Some (CallReturned one_put (Inr (ok_reply\<lparr>crIndex := 1\<rparr>)))" by (simp add: set_call_def)
  moreover have "crSuccess (ok_reply\<lparr>crIndex := 1\<rparr>)" by (simp add: ok_reply_def)
  moreover have "cmClientId one_put = ''a''" "cmSeqNo one_put = 1" by (simp_all add: one_put_def wit_cmd_def)
  ultimately show ?thesis
    using reply_is_own [OF r [unfolded lone_server_def]] r by (metis (no_types, lifting))
qed

end
