(* ===== verification/Net_Properties.thy ===== *)
theory Net_Properties
  imports Supervisor Disk_Properties Kv_Properties
begin

text \<open>
  The properties of the transports and of the supervised life cycle of a node: partitions hold, the
  wire is transparent, isolation cuts both directions, and a restarted node resumes from its disk.
\<close>

section \<open>Networks\<close>



text \<open>C30: The gRPC transport is transparent. When neither side has isolated the other, a connection is
  there or can be dialled, the link delivers, and the handler of the receiver answers a Raft message
  with a reply of the matching type, then \<open>Send\<close> gives the sender exactly that reply: translating the
  message and the reply to wire messages and back changes no field.\<close>

theorem grpc_transparent:
  assumes "to \<notin> gtIsolated t1" "gt_client dial to t1 = (t1', Inr conn)" "joins link conn t2"
    and "gtHandler t2 = Some h" "sender req \<notin> gtIsolated t2"
    and "h w (sender req) req = (w', Inr reply)" "reply_fits req reply"
  shows "gt_Send dial link to req t1 w = (t1', w', Inr reply)"
proof -
  obtain pb where pb: "toWire req = Some pb" using assms(7) by (cases req) auto
  obtain resp where resp: "response_of pb reply = Some resp" "fromResponse resp = reply"
    using response_roundtrip [OF pb assms(7)] by blast
  have "gt_serve pb t2 w = Some (w', Inr resp)"
    using wire_roundtrip [OF pb] assms(4-6) resp(1) by (simp add: gt_serve_def dispatch_def)
  then have "link conn pb w = (w', Inr resp)" using assms(3) unfolding joins_def by blast
  then show ?thesis using assms(1,2) pb resp(2) by (simp add: gt_Send_def isolatedFrom_def)
qed

definition wit_receiver :: "(nat, nat) Transport" where
  "wit_receiver = gt_RegisterHandler (Some (\<lambda>w from req. (w + 1,
     Inr (AppendEntriesRep \<lparr>arTerm = 7, arSuccess = False, arConflictTerm = 3, arConflictIndex = 2\<rparr>)))) (gt_New ''n2'' Map.empty)"

definition wit_link :: "nat \<Rightarrow> PbRequest \<Rightarrow> nat \<Rightarrow> nat \<times> (error + PbResponse)" where
  "wit_link conn pb w = (case gt_serve pb wit_receiver w of
     Some (w', Inr resp) \<Rightarrow> (w', Inr resp) | _ \<Rightarrow> (w, Inl ErrUnreachable))"

theorem grpc_transparent_witness:
  "snd (gt_Send (\<lambda>addr. Inr 0) wit_link ''n2'' (AppendEntriesReq \<lparr>aeTerm = 7, aeLeaderID = ''n1'', aePrevLogIndex = 1, aePrevLogTerm = 1,
     aeEntries = [\<lparr>eTerm = 7, eIndex = 2, eCommand = [1, 2]\<rparr>], aeLeaderCommit = 1\<rparr>) (gt_New ''n1'' [''n2'' \<mapsto> ''h:1'']) 4) =
   (5, Inr (AppendEntriesRep \<lparr>arTerm = 7, arSuccess = False, arConflictTerm = 3, arConflictIndex = 2\<rparr>))"
proof -
  let ?t = "gt_New ''n1'' [''n2'' \<mapsto> ''h:1''] :: (nat, nat) Transport"
  let ?r = "AppendEntriesReq \<lparr>aeTerm = 7, aeLeaderID = ''n1'', aePrevLogIndex = 1, aePrevLogTerm = 1,
     aeEntries = [\<lparr>eTerm = 7, eIndex = 2, eCommand = [1, 2]\<rparr>], aeLeaderCommit = 1\<rparr>"
  let ?p = "AppendEntriesRep \<lparr>arTerm = 7, arSuccess = False, arConflictTerm = 3, arConflictIndex = 2\<rparr>"
  have j: "joins wit_link 0 wit_receiver" by (simp add: joins_def wit_link_def)
  have c: "gt_client (\<lambda>addr. Inr 0) ''n2'' ?t = (?t\<lparr>gtConns := (gtConns ?t)(''n2'' \<mapsto> 0)\<rparr>, Inr 0)"
    by (simp add: gt_client_def gt_New_def)
  have h: "\<exists>h. gtHandler wit_receiver = Some h \<and> h 4 ''n1'' ?r = (5, Inr ?p)"
    by (simp add: wit_receiver_def gt_RegisterHandler_def)
  then obtain h where h: "gtHandler wit_receiver = Some h" "h 4 (sender ?r) ?r = (5, Inr ?p)" by auto
  have i: "''n2'' \<notin> gtIsolated ?t" "sender ?r \<notin> gtIsolated wit_receiver"
    by (simp_all add: gt_New_def wit_receiver_def gt_RegisterHandler_def)
  show ?thesis using grpc_transparent [OF i(1) c j h(1) i(2) h(2)] by simp
qed

text \<open>Isolation is two-way from one side. After \<open>SetIsolation\<close> with a list that names another node,
  the transport neither sends to that node nor runs its handler for a message from it, and the world
  is not touched; of the nodes not in the list, and of itself, it is not isolated.\<close>

theorem isolation_both_ways:
  assumes "peer \<in> set cutoff" "peer \<noteq> gtID t"
  shows "gt_Send dial link peer req (SetIsolation cutoff t) w = (SetIsolation cutoff t, w, Inl ErrUnreachable) \<and>
    (fst (wire_from pb) = peer \<longrightarrow> gt_serve pb (SetIsolation cutoff t) w = Some (w, Inl (Some ErrUnreachable))) \<and>
    set (Isolation (SetIsolation cutoff t)) = set cutoff - {gtID t}"
proof -
  have i: "peer \<in> gtIsolated (SetIsolation cutoff t)" using assms by (simp add: SetIsolation_def)
  have "set (Isolation (SetIsolation cutoff t)) = set cutoff - {gtID t}" by (auto simp: Isolation_def SetIsolation_def)
  then show ?thesis using i
    by (auto simp: gt_Send_def isolatedFrom_def gt_serve_def dispatch_def split: prod.splits)
qed

theorem isolation_both_ways_witness:
  "gt_serve (PbVote \<lparr>pvTerm = 9, pvCandidateId = ''n1'', pvLastLogIndex = 0, pvLastLogTerm = 0\<rparr>) (SetIsolation [''n1'', ''n2''] wit_receiver) 4 =
     Some (4, Inl (Some ErrUnreachable)) \<and> set (Isolation (SetIsolation [''n1'', ''n2''] wit_receiver)) = {''n1''}"
proof -
  have i: "''n1'' \<in> set [''n1'', ''n2'']" "''n1'' \<noteq> gtID wit_receiver" "gtID wit_receiver = ''n2''"
    by (simp_all add: wit_receiver_def gt_RegisterHandler_def gt_New_def)
  show ?thesis
    using isolation_both_ways [OF i(1,2), of "\<lambda>a. Inl ErrUnreachable" "\<lambda>c p w. (w, Inl ErrUnreachable)" "OtherReq []" 4
        "PbVote \<lparr>pvTerm = 9, pvCandidateId = ''n1'', pvLastLogIndex = 0, pvLastLogTerm = 0\<rparr>"] i(3) by auto
qed

section \<open>The supervisor\<close>

text \<open>Everything that happens to a supervisor after \<open>New\<close>: the admin service, requests, and the steps
  of the current server.\<close>

inductive sup_step :: "codec \<Rightarrow> (DiskStorage Node \<Rightarrow> DiskStorage Node \<Rightarrow> bool) \<Rightarrow> ('w, 'c) Supervisor \<Rightarrow> ('w, 'c) Supervisor \<Rightarrow> bool"
  for cd moves where
  step_crash: "sup_step cd moves s (fst (sup_Crash s))"
| step_restart: "sup_Restart e s = Some (s', r) \<Longrightarrow> sup_step cd moves s s'"
| step_close: "sup_step cd moves s (sup_Close s)"
| step_partition: "sup_step cd moves s (fst (sup_SetPartition now ps s))"
| step_request: "sup_request cd k cmd s = Some (s', r) \<Longrightarrow> sup_step cd moves s s'"
| step_server: "spServer s = Some sv \<Longrightarrow> svrun DiskStorage_ops cd moves sv sv' \<Longrightarrow> sup_step cd moves s (s\<lparr>spServer := Some sv'\<rparr>)"

inductive sup_run :: "codec \<Rightarrow> (DiskStorage Node \<Rightarrow> DiskStorage Node \<Rightarrow> bool) \<Rightarrow> ('w, 'c) Supervisor \<Rightarrow> ('w, 'c) Supervisor \<Rightarrow> bool"
  for cd moves where
  sup_refl: "sup_run cd moves s s"
| sup_more: "sup_run cd moves s s1 \<Longrightarrow> sup_step cd moves s1 s2 \<Longrightarrow> sup_run cd moves s s2"

lemma sup_step_ok: "sup_step cd moves s s' \<Longrightarrow> sup_ok s \<Longrightarrow> sup_ok s'"
proof (induction rule: sup_step.induct)
  case (step_crash s)
  then show ?case using sup_crash_ok by (auto simp: sup_Crash_def)
next
  case (step_restart e s s' r)
  then show ?case using sup_restart_ok by (auto simp: sup_Restart_def)
next
  case (step_partition now ps s)
  then show ?case by (simp add: sup_SetPartition_def Let_def sup_ok_def)
next
  case (step_server s sv sv')
  then show ?case by (auto simp: sup_ok_def)
qed (use sup_Close_ok sup_request_ok in blast)+

lemma sup_run_ok: "sup_run cd moves s s' \<Longrightarrow> sup_ok s \<Longrightarrow> sup_ok s'"
  by (induction rule: sup_run.induct) (auto intro: sup_step_ok)

lemma sup_New_ok:
  assumes "sup_New e cfg tr fs = Some (Inr s)"
  shows "sup_ok s \<and> \<not> spCrashed s"
proof -
  let ?s0 = "\<lparr>spCfg = cfg, spTransport = tr, spHandler = False, spDisk = fs, spServer = None, spStartedAt = 0, spCrashed = False\<rparr>"
  have "startLocked e ?s0 = Some (s, None)"
    using assms by (auto simp: sup_New_def split: if_splits option.splits)
  from startLocked_cases [OF this] show ?thesis by (auto simp: sup_ok_def)
qed

text \<open>C25: The life cycle is consistent. In every state a supervisor reaches from \<open>New\<close> by crashes, restarts
  that succeed or fail, partitions, requests, steps of its server and \<open>Close\<close>: it is marked crashed
  exactly when no server is current and exactly when no handler is registered on the transport; a
  request to a crashed node is refused and changes nothing, and its status says so.\<close>

theorem supervisor_lifecycle:
  assumes "sup_New e cfg tr fs = Some (Inr s0)" "sup_run cd moves s0 s"
  shows "(spCrashed s \<longleftrightarrow> sup_current s = None) \<and> (spHandler s \<longleftrightarrow> sup_current s \<noteq> None) \<and>
    (spCrashed s \<longrightarrow> sup_request cd k cmd s = Some (s, Some (errCrashed (scID (spCfg s)))) \<and>
       (\<exists>st. sup_Status now s = Some st \<and> psLifecycle st = LIFECYCLE_CRASHED))"
proof -
  have "sup_ok s" using sup_run_ok [OF assms(2)] sup_New_ok [OF assms(1)] by simp
  then show ?thesis
    by (auto simp: sup_ok_def sup_current_def sup_request_def sup_Status_def sup_status_def down_status_def Let_def)
qed

definition wit_sup_cfg :: SupConfig where
  "wit_sup_cfg = \<lparr>scID = ''n1'', scPeers = [''n2'', ''n3''], scAddrs = Map.empty, scDataDir = ''d'', scTransport = True,
     scElectionTimeoutMin = 0, scElectionTimeoutMax = 0, scHeartbeatInterval = 0, scSnapshotThreshold = 0\<rparr>"

definition wit_sup_env :: env where "wit_sup_env = \<lparr>env_now = 1, env_Int63n = \<lambda>k. 0\<rparr>"

text \<open>Starting is opening the directory.\<close>

lemma startLocked_open:
  assumes "startLocked e s = Some (s', None)"
  obtains d ps b node where "disk_open (spDisk s) = Inr (d, ps)" "psLog ps = b # tl (psLog ps)"
    "node = resetElectionDeadlineLocked e (node_from_state (raft_config (spCfg s)) d ps b)"
    "spServer s' = Some (NewServer node NewStore (scAddrs (spCfg s)))"
proof -
  obtain fs store where n: "NewDiskStorage (spDisk s) = (fs, Inr store)"
    using assms by (auto simp: startLocked_def split: prod.splits sum.splits)
  then obtain st node where nn: "NewNode DiskStorage_ops e (raft_config (spCfg s)) store = Some (st, Inr node)"
    "spServer s' = Some (NewServer node NewStore (scAddrs (spCfg s)))"
    using assms by (auto simp: startLocked_def split: option.splits sum.splits prod.splits)
  obtain d r where l: "disk_Load store = (d, r)" by (cases "disk_Load store")
  have ld: "Load DiskStorage_ops store = (d, r)" using l by (simp add: DiskStorage_ops_def)
  obtain ps where ps: "r = Inr ps" using nn(1) ld by (auto simp: NewNode_def split: if_splits sum.splits)
  obtain b es where b: "psLog ps = b # es" using nn(1) ld ps by (auto simp: NewNode_def split: if_splits list.splits)
  have "node = resetElectionDeadlineLocked e (node_from_state (raft_config (spCfg s)) d ps b)"
    using nn(1) ld ps b by (auto simp: NewNode_def split: if_splits)
  moreover have "disk_open (spDisk s) = Inr (d, ps)" using n l ps by (simp add: disk_open_def)
  ultimately show ?thesis using that nn(2) b by simp
qed

lemma startLocked_quiet:
  assumes "disk_open (spDisk s) = Inr (d, ps)" "scID (spCfg s) \<noteq> []" "scTransport (spCfg s)"
    "orDefault (scElectionTimeoutMin (spCfg s)) defaultElectionTimeoutMin \<le> orDefault (scElectionTimeoutMax (spCfg s)) defaultElectionTimeoutMax"
  shows "\<exists>s'. startLocked e s = Some (s', None)"
proof -
  obtain fs store where n: "NewDiskStorage (spDisk s) = (fs, Inr store)" and l: "disk_Load store = (d, Inr ps)"
    using assms(1) by (auto simp: disk_open_def split: prod.splits sum.splits)
  have "psLog ps \<noteq> []"
    using disk_open_view(2) [of "d\<lparr>dFs := spDisk s\<rparr>" d ps] assms(1) by (simp add: disk_view_def)
  then obtain b es where "psLog ps = b # es" by (cases "psLog ps") auto
  then show ?thesis using n l assms(2-4)
    by (simp add: startLocked_def NewNode_def raft_config_def DiskStorage_ops_def)
qed

lemma wit_sup_start: "\<exists>s. sup_New wit_sup_env wit_sup_cfg (gt_New ''n1'' Map.empty :: ('w, 'c) Transport) empty_dir = Some (Inr s)"
proof -
  obtain d where d: "disk_open empty_dir = Inr (d, empty_state)" using open_empty by blast
  let ?s0 = "\<lparr>spCfg = wit_sup_cfg, spTransport = gt_New ''n1'' Map.empty :: ('w, 'c) Transport, spHandler = False, spDisk = empty_dir,
     spServer = None, spStartedAt = 0, spCrashed = False\<rparr>"
  have "\<exists>s. startLocked wit_sup_env ?s0 = Some (s, None)"
    by (rule startLocked_quiet [of _ d empty_state])
      (simp_all add: d wit_sup_cfg_def orDefault_def defaultElectionTimeoutMin_def defaultElectionTimeoutMax_def millisecond_def)
  then show ?thesis by (auto simp: sup_New_def wit_sup_cfg_def)
qed

theorem supervisor_lifecycle_witness:
  "\<exists>s0 s. sup_New wit_sup_env wit_sup_cfg (gt_New ''n1'' Map.empty :: (nat, nat) Transport) empty_dir = Some (Inr s0) \<and>
    sup_run one_codec apply_moves s0 s \<and> spCrashed s \<and> sup_current s = None \<and> \<not> spHandler s"
proof -
  obtain s0 :: "(nat, nat) Supervisor" where s0: "sup_New wit_sup_env wit_sup_cfg (gt_New ''n1'' Map.empty) empty_dir = Some (Inr s0)"
    using wit_sup_start by blast
  have r: "sup_run one_codec apply_moves s0 (fst (sup_Crash s0))" by (rule sup_more [OF sup_refl step_crash])
  have "spCrashed (fst (sup_Crash s0))" using sup_New_ok [OF s0] sup_crash_ok by (auto simp: sup_Crash_def)
  then show ?thesis using supervisor_lifecycle [OF s0 r] s0 r by auto
qed

text \<open>C16: Crash and restart resume from the disk. Crash a running node and restart it; if the restart
  succeeds, the new node is a follower whose term, vote, log and snapshot are exactly those on the disk
  of the old one, that has committed and applied exactly what the snapshot covers, and whose store
  starts empty; and if no system call fails and the disk is readable, the restart succeeds.\<close>

theorem crash_restart_resumes:
  assumes "sup_ok s" "spServer s = Some sv" "disk_recov (storage (svNode sv))"
    and "scID (spCfg s) \<noteq> []" "scTransport (spCfg s)"
    and "orDefault (scElectionTimeoutMin (spCfg s)) defaultElectionTimeoutMin \<le> orDefault (scElectionTimeoutMax (spCfg s)) defaultElectionTimeoutMax"
  defines "v \<equiv> disk_view (storage (svNode sv))"
  shows "(\<forall>s2. sup_restart e (sup_crash s) = Some (s2, None) \<longrightarrow> (\<exists>node. sup_Node s2 = Some node \<and>
      role node = Follower \<and> currentTerm node = psCurrentTerm v \<and> votedFor node = psVotedFor v \<and> nlog node = psLog v \<and>
      snapshotData node = psSnapshotData v \<and> commitIndex node = ps_boundary v \<and> lastApplied node = ps_boundary v \<and>
      map_option svStore (sup_current s2) = Some NewStore)) \<and>
    (faults (dFs (storage (svNode sv))) = [] \<longrightarrow> (\<exists>s2. sup_restart e (sup_crash s) = Some (s2, None)))"
proof -
  have c: "\<not> spCrashed s" using assms(1,2) by (simp add: sup_ok_def)
  then have cr: "spCrashed (sup_crash s)" "spDisk (sup_crash s) = dFs (storage (svNode sv))" "spCfg (sup_crash s) = spCfg s"
    using assms(2) by (simp_all add: sup_crash_def stopLocked_def server_disk_def)
  show ?thesis
  proof (intro conjI allI impI)
    fix s2 assume "sup_restart e (sup_crash s) = Some (s2, None)"
    then have "startLocked e (sup_crash s) = Some (s2, None)" using cr(1) by (simp add: sup_restart_def)
    then obtain d ps b node where n: "disk_open (spDisk (sup_crash s)) = Inr (d, ps)" "psLog ps = b # tl (psLog ps)"
      "node = resetElectionDeadlineLocked e (node_from_state (raft_config (spCfg (sup_crash s))) d ps b)"
      "spServer s2 = Some (NewServer node NewStore (scAddrs (spCfg (sup_crash s))))" by (rule startLocked_open)
    have "ps = v" using disk_open_view(2) n(1) cr(2) v_def by simp
    moreover have "hd (psLog ps) = b" using n(2) by (metis list.sel(1))
    ultimately show "\<exists>node. sup_Node s2 = Some node \<and>
      role node = Follower \<and> currentTerm node = psCurrentTerm v \<and> votedFor node = psVotedFor v \<and> nlog node = psLog v \<and>
      snapshotData node = psSnapshotData v \<and> commitIndex node = ps_boundary v \<and> lastApplied node = ps_boundary v \<and>
      map_option svStore (sup_current s2) = Some NewStore"
      using n(3,4)
      by (simp add: sup_Node_def sup_current_def NewServer_def resetElectionDeadlineLocked_def node_from_state_def Let_def ps_boundary_def)
  next
    assume "faults (dFs (storage (svNode sv))) = []"
    from quiet_open [OF this assms(3)] obtain d2 where "disk_open (spDisk (sup_crash s)) = Inr (d2, v)" using cr(2) v_def by auto
    from startLocked_quiet [OF this] show "\<exists>s2. sup_restart e (sup_crash s) = Some (s2, None)"
      using assms(4-6) cr(1,3) by (simp add: sup_restart_def)
  qed
qed

theorem crash_restart_resumes_witness:
  "\<exists>s :: (nat, nat) Supervisor. \<exists>s2 node. sup_New wit_sup_env wit_sup_cfg (gt_New ''n1'' Map.empty) empty_dir = Some (Inr s) \<and>
    sup_restart wit_sup_env (sup_crash s) = Some (s2, None) \<and> sup_Node s2 = Some node \<and> role node = Follower \<and> nlog node = [boundary_entry 0 0]"
proof -
  obtain s :: "(nat, nat) Supervisor" where s: "sup_New wit_sup_env wit_sup_cfg (gt_New ''n1'' Map.empty) empty_dir = Some (Inr s)"
    using wit_sup_start by blast
  note ok = sup_New_ok [OF s]
  let ?s0 = "\<lparr>spCfg = wit_sup_cfg, spTransport = gt_New ''n1'' Map.empty :: (nat, nat) Transport, spHandler = False, spDisk = empty_dir,
     spServer = None, spStartedAt = 0, spCrashed = False\<rparr>"
  have st: "startLocked wit_sup_env ?s0 = Some (s, None)"
    using s by (auto simp: sup_New_def split: if_splits option.splits)
  have cfg: "spCfg s = wit_sup_cfg" using startLocked_cases [OF st] by auto
  obtain d where d: "disk_open empty_dir = Inr (d, empty_state)" "quiet_disk d" "disk_inv d" using open_empty by blast
  obtain sv where sv: "spServer s = Some sv" "storage (svNode sv) = d"
  proof (rule startLocked_open [OF st])
    fix d' ps b node
    assume a: "disk_open (spDisk ?s0) = Inr (d', ps)"
      "node = resetElectionDeadlineLocked wit_sup_env (node_from_state (raft_config (spCfg ?s0)) d' ps b)"
      "spServer s = Some (NewServer node NewStore (scAddrs (spCfg ?s0)))"
    then have "storage node = d" using d(1) by (simp add: resetElectionDeadlineLocked_def node_from_state_def Let_def)
    then show thesis using that [of "NewServer node NewStore (scAddrs (spCfg ?s0))"] a(3) by (simp add: NewServer_def)
  qed
  have v: "disk_view d = empty_state" using disk_open_view(3) [of "d\<lparr>dFs := empty_dir\<rparr>" d empty_state] d(1) by simp
  have rec: "disk_recov (storage (svNode sv))" "faults (dFs (storage (svNode sv))) = []"
    using d sv(2) by (simp_all add: disk_inv_def quiet_disk_def)
  have ids: "scID (spCfg s) \<noteq> []" "scTransport (spCfg s)"
    "orDefault (scElectionTimeoutMin (spCfg s)) defaultElectionTimeoutMin \<le> orDefault (scElectionTimeoutMax (spCfg s)) defaultElectionTimeoutMax"
    by (simp_all add: cfg wit_sup_cfg_def orDefault_def defaultElectionTimeoutMin_def defaultElectionTimeoutMax_def millisecond_def)
  note cr = crash_restart_resumes [OF conjunct1 [OF ok] sv(1) rec(1) ids, of wit_sup_env]
  obtain s2 where s2: "sup_restart wit_sup_env (sup_crash s) = Some (s2, None)" using cr rec(2) by blast
  moreover have "psLog (disk_view (storage (svNode sv))) = [boundary_entry 0 0]" using v sv(2) by (simp add: empty_state_def)
  ultimately show ?thesis using cr s by auto
qed

end
