(* ===== verification/Raft_Rpc.thy ===== *)
theory Raft_Rpc
  imports Raft_Consensus Net_Properties
begin

text \<open>
  How a node of src/internal/raft/node.go gets to its critical sections: the loop \<open>run\<close> with its ticker, and
  the calls its goroutines make over a transport. The cluster of \<open>Raft_Cluster\<close> has these calls as
  separate steps, the delivery of a request and the return of a reply; here they are the calls of
  the code over the gRPC transport, and they turn out to be steps of that cluster.
\<close>

section \<open>What a goroutine makes of the answer to its call\<close>

text \<open>An error of \<open>Send\<close> or a reply of another type ends the goroutine.\<close>

fun vote_answer :: "error + Reply \<Rightarrow> RequestVoteReply option" where
  "vote_answer (Inr (RequestVoteRep r)) = Some r"
| "vote_answer _ = None"

fun append_answer :: "error + Reply \<Rightarrow> AppendEntriesReply option" where
  "append_answer (Inr (AppendEntriesRep r)) = Some r"
| "append_answer _ = None"

fun snapshot_answer :: "error + Reply \<Rightarrow> InstallSnapshotReply option" where
  "snapshot_answer (Inr (InstallSnapshotRep r)) = Some r"
| "snapshot_answer _ = None"

lemma vote_answer_Some: "vote_answer out = Some r \<longleftrightarrow> out = Inr (RequestVoteRep r)"
  by (cases out rule: vote_answer.cases) simp_all

lemma append_answer_Some: "append_answer out = Some r \<longleftrightarrow> out = Inr (AppendEntriesRep r)"
  by (cases out rule: append_answer.cases) simp_all

lemma snapshot_answer_Some: "snapshot_answer out = Some r \<longleftrightarrow> out = Inr (InstallSnapshotRep r)"
  by (cases out rule: snapshot_answer.cases) simp_all

lemmas answers = vote_answer_Some append_answer_Some snapshot_answer_Some

section \<open>A cluster behind gRPC transports\<close>

text \<open>What \<open>NewNode\<close> registers as the handler of node \<open>j\<close>. A panic ends the process.\<close>

definition node_handler :: "'s Storage \<Rightarrow> env \<Rightarrow> node_id \<Rightarrow> 's Raft_Cluster.Cluster handler" where
  "node_handler ops e j c from req =
     (if \<not> cAlive c j then (c, Inl (Some ErrCrashed))
      else case handle ops e req (cNode c j) of
        None \<Rightarrow> (c\<lparr>cAlive := (cAlive c)(j := False)\<rparr>, Inl (Some ErrCrashed))
      | Some (n, r) \<Rightarrow> (reply_to j from req r (put j n c), r))"

text \<open>A connection to the transport \<open>t2\<close>: a call is served there or not, and its response arrives or not.\<close>

definition carries :: "('c \<Rightarrow> PbRequest \<Rightarrow> 'w \<Rightarrow> 'w \<times> (error + PbResponse)) \<Rightarrow> ('w, 'd) Transport \<Rightarrow> bool" where
  "carries link t2 \<longleftrightarrow> (\<forall>conn pb w w' out. link conn pb w = (w', out) \<longrightarrow>
     w' = w \<and> (\<exists>err. out = Inl err) \<or>
     (\<exists>x. gt_serve pb t2 w = Some (w', x) \<and> (\<forall>resp. out = Inr resp \<longrightarrow> x = Inr resp)))"

lemma node_handler_step:
  assumes "node_handler ops e j c i req = (c', r)" "(i, j, req) \<in> cReqs c"
  shows "(c' = c \<or> cstep ops cfg c c') \<and> (\<forall>rep. r = Inr rep \<longrightarrow> (j, i, req, rep) \<in> cReps c' \<and> reply_fits req rep)"
proof (cases "cAlive c j")
  case False
  then show ?thesis using assms(1) by (auto simp: node_handler_def)
next
  case True
  show ?thesis
  proof (cases "handle ops e req (cNode c j)")
    case None
    then have "c' = c\<lparr>cAlive := (cAlive c)(j := False)\<rparr>" "r = Inl (Some ErrCrashed)" using assms(1) True by (simp_all add: node_handler_def)
    then show ?thesis using cstep.crash [OF True] by simp
  next
    case (Some x)
    obtain n y where x: "x = (n, y)" by (cases x)
    then have c': "c' = reply_to j i req r (put j n c)" "r = y" using assms(1) True Some by (auto simp: node_handler_def)
    have "cstep ops cfg c c'" by (rule cstep.deliver [OF True assms(2)]) (use Some x c' in simp_all)
    moreover have "(j, i, req, rep) \<in> cReps c' \<and> reply_fits req rep" if "r = Inr rep" for rep
      using that c' Some x handle_reply_fits by (auto simp: reply_to_def)
    ultimately show ?thesis by blast
  qed
qed

lemma serve_step:
  assumes "gt_serve pb t2 c = Some (c', x)" "toWire req = Some pb" "sender req = i" "gtHandler t2 = Some (node_handler ops e j)"
    and "(i, j, req) \<in> cReqs c"
  shows "(c' = c \<or> cstep ops cfg c c') \<and> (\<forall>resp. x = Inr resp \<longrightarrow> (j, i, req, fromResponse resp) \<in> cReps c')"
proof -
  obtain c1 r where d: "dispatch i req t2 c = (c1, r)" by (cases "dispatch i req t2 c")
  have s: "gt_serve pb t2 c = (case r of Inl err \<Rightarrow> Some (c1, Inl err) | Inr reply \<Rightarrow> map_option (\<lambda>resp. (c1, Inr resp)) (response_of pb reply))"
    using wire_roundtrip [OF assms(2)] assms(3) d by (simp add: gt_serve_def)
  show ?thesis
  proof (cases "i \<in> gtIsolated t2")
    case True
    then show ?thesis using s d assms(1) by (auto simp: dispatch_def)
  next
    case False
    then have "node_handler ops e j c i req = (c1, r)" using d assms(4) by (simp add: dispatch_def)
    note h = node_handler_step [OF this assms(5), of cfg]
    show ?thesis
    proof (cases r)
      case (Inl err)
      then show ?thesis using s assms(1) h by simp
    next
      case (Inr reply)
      then obtain resp where "response_of pb reply = Some resp" "fromResponse resp = reply"
        using response_roundtrip [OF assms(2)] h by blast
      then show ?thesis using s assms(1) h Inr by auto
    qed
  qed
qed

lemma send_step:
  assumes "carries link t2" "gtHandler t2 = Some (node_handler ops e j)" "(i, j, req) \<in> cReqs c" "sender req = i"
    and "gt_Send dial link j req t1 c = (t1', c', out)"
  shows "(c' = c \<or> cstep ops cfg c c') \<and> (\<forall>rep. out = Inr rep \<longrightarrow> (j, i, req, rep) \<in> cReps c')"
proof (cases "isolatedFrom t1 j")
  case True
  then show ?thesis using assms(5) by (auto simp: gt_Send_def)
next
  case False
  obtain t r where cl: "gt_client dial j t1 = (t, r)" by (cases "gt_client dial j t1")
  show ?thesis
  proof (cases r)
    case (Inl err)
    then show ?thesis using assms(5) False cl by (auto simp: gt_Send_def)
  next
    case (Inr conn)
    show ?thesis
    proof (cases "toWire req")
      case None
      then show ?thesis using assms(5) False cl Inr by (auto simp: gt_Send_def)
    next
      case (Some pb)
      obtain w o' where l: "link conn pb c = (w, o')" by (cases "link conn pb c")
      have out: "c' = w" "out = (case o' of Inl err \<Rightarrow> Inl err | Inr resp \<Rightarrow> Inr (fromResponse resp))"
        using assms(5) False cl Inr Some l by (auto simp: gt_Send_def split: sum.splits)
      consider (lost) err where "w = c" "o' = Inl err" | (served) x where "gt_serve pb t2 c = Some (w, x)" "\<forall>resp. o' = Inr resp \<longrightarrow> x = Inr resp"
      proof -
        have "w = c \<and> (\<exists>err. o' = Inl err) \<or> (\<exists>x. gt_serve pb t2 c = Some (w, x) \<and> (\<forall>resp. o' = Inr resp \<longrightarrow> x = Inr resp))"
          using assms(1) [unfolded carries_def, rule_format, OF l] .
        then show ?thesis using lost served by (elim disjE exE conjE) simp_all
      qed
      then show ?thesis
      proof cases
        case lost
        then show ?thesis using out by simp
      next
        case served
        from serve_step [OF served(1) Some assms(4,2,3), of cfg] served(2) out show ?thesis by (cases o') auto
      qed
    qed
  qed
qed

lemma cstep_replies: "cstep ops cfg c c' \<Longrightarrow> cReps c \<subseteq> cReps c'"
  by (cases rule: cstep.cases) (auto simp: cluster_ops split: sum.splits)

lemma run_replies: "run ops cfg fits c d \<Longrightarrow> cReps c \<subseteq> cReps d"
  by (induction rule: run.induct) (auto dest: cstep_replies)

text \<open>C18: A call over gRPC is what the cluster model says it is. Node \<open>i\<close> has sent a request to \<open>j\<close> (it is among the requests of
  the cluster) and a goroutine calls \<open>Send\<close> with it, over a connection that may lose the call or its response, to
  a transport whose handler is the node \<open>j\<close>. Then the call changes nothing or is one step of the cluster. If it
  returns an answer that the goroutine does not discard, then what the goroutine does with it, at any later point of the run at
  which \<open>i\<close> is up, is a step of the cluster as well: for votes, for appended entries and for snapshots.\<close>

theorem calls_are_cluster_steps:
  assumes "carries link t2" "gtHandler t2 = Some (node_handler ops e j)" "(i, j, req) \<in> cReqs c" "sender req = i"
    and "gt_Send dial link j req t1 c = (t1', c', out)"
  shows "(c' = c \<or> cstep ops cfg c c') \<and>
    (run ops cfg fits c' d \<and> cAlive d i \<longrightarrow>
      (\<forall>a r v ps n v'. req = RequestVoteReq a \<and> vote_answer out = Some r \<and> cBallots d i (rvTerm a) = Some (v, ps) \<and> j \<in> ps \<and>
         voteReply ops (rvTerm a) v r (cNode d i) = Some (n, v') \<longrightarrow> cstep ops cfg d (set_ballot i (rvTerm a) v' (ps - {j}) (put i n d))) \<and>
      (\<forall>a r n. req = AppendEntriesReq a \<and> append_answer out = Some r \<and>
         appendReply ops j (aeTerm a) (aePrevLogIndex a) (length (aeEntries a)) r (cNode d i) = Some n \<longrightarrow> cstep ops cfg d (put i n d)) \<and>
      (\<forall>a r n. req = InstallSnapshotReq a \<and> snapshot_answer out = Some r \<and>
         snapshotReply ops j (isTerm a) (isLastIncludedIndex a) r (cNode d i) = Some n \<longrightarrow> cstep ops cfg d (put i n d)))"
proof -
  note st = send_step [OF assms, of cfg]
  have rep: "(j, i, req, rep) \<in> cReps d" if "run ops cfg fits c' d" "out = Inr rep" for rep
    using st run_replies [OF that(1)] that(2) by blast
  show ?thesis
  proof (intro conjI impI allI; (elim conjE)?)
    show "c' = c \<or> cstep ops cfg c c'" using st by blast
  next
    fix a r v ps n v'
    assume h: "run ops cfg fits c' d" "cAlive d i" "req = RequestVoteReq a" "vote_answer out = Some r"
      "cBallots d i (rvTerm a) = Some (v, ps)" "j \<in> ps" "voteReply ops (rvTerm a) v r (cNode d i) = Some (n, v')"
    show "cstep ops cfg d (set_ballot i (rvTerm a) v' (ps - {j}) (put i n d))"
      by (rule cstep.vote_reply [OF h(2,5,6) _ _ h(7)]) (use rep [OF h(1)] h(3,4) assms(4) answers in auto)
  next
    fix a r n
    assume h: "run ops cfg fits c' d" "cAlive d i" "req = AppendEntriesReq a" "append_answer out = Some r"
      "appendReply ops j (aeTerm a) (aePrevLogIndex a) (length (aeEntries a)) r (cNode d i) = Some n"
    show "cstep ops cfg d (put i n d)"
      by (rule cstep.append_reply [OF h(2) _ h(5)]) (use rep [OF h(1)] h(3,4) answers in auto)
  next
    fix a r n
    assume h: "run ops cfg fits c' d" "cAlive d i" "req = InstallSnapshotReq a" "snapshot_answer out = Some r"
      "snapshotReply ops j (isTerm a) (isLastIncludedIndex a) r (cNode d i) = Some n"
    show "cstep ops cfg d (put i n d)"
      by (rule cstep.snapshot_reply [OF h(2) _ h(5)]) (use rep [OF h(1)] h(3,4) answers in auto)
  qed
qed

text \<open>''n1'' asks ''n2'' for its vote over a connection that works.\<close>

definition asked :: "MemoryStorage Raft_Cluster.Cluster" where
  "asked = the (trio_run [Restart ''n1'', Restart ''n2'', Start ''n1''] (demo_cluster trio))"

definition n2_transport :: "(MemoryStorage Raft_Cluster.Cluster, nat) Transport" where
  "n2_transport = gt_RegisterHandler (Some (node_handler MemoryStorage_ops demo_env ''n2'')) (gt_New ''n2'' Map.empty)"

definition n2_link :: "nat \<Rightarrow> PbRequest \<Rightarrow> MemoryStorage Raft_Cluster.Cluster \<Rightarrow> MemoryStorage Raft_Cluster.Cluster \<times> (error + PbResponse)" where
  "n2_link conn pb w = (case gt_serve pb n2_transport w of
     Some (w', Inr resp) \<Rightarrow> (w', Inr resp) | Some (w', Inl err) \<Rightarrow> (w', Inl ErrUnreachable) | None \<Rightarrow> (w, Inl ErrUnreachable))"

lemma n2_link_carries: "carries n2_link n2_transport"
  by (auto simp: carries_def n2_link_def split: option.splits sum.splits prod.splits)

theorem calls_are_cluster_steps_witness:
  "\<exists>t1' c'. gt_Send (\<lambda>addr. Inr 0) n2_link ''n2'' (RequestVoteReq (demo_vote ''n1'')) (gt_New ''n1'' [''n2'' \<mapsto> ''h:1'']) asked =
     (t1', c', Inr (RequestVoteRep demo_grant)) \<and> (c' = asked \<or> cstep MemoryStorage_ops trio_cfg asked c') \<and>
   (\<exists>n v. voteReply MemoryStorage_ops 1 1 demo_grant (cNode c' ''n1'') = Some (n, v) \<and> role n = Leader \<and>
      cstep MemoryStorage_ops trio_cfg c' (set_ballot ''n1'' 1 v ({''n2'', ''n3''} - {''n2''}) (put ''n1'' n c')))"
proof -
  let ?s = "gt_Send (\<lambda>addr. Inr 0) n2_link ''n2'' (RequestVoteReq (demo_vote ''n1'')) (gt_New ''n1'' [''n2'' \<mapsto> ''h:1'']) asked"
  obtain t1' c' out where s: "?s = (t1', c', out)" by (metis prod_cases3)
  have v: "case ?s of (t, c, x) \<Rightarrow> x = Inr (RequestVoteRep demo_grant) \<and> cAlive c ''n1'' \<and>
      (case voteReply MemoryStorage_ops 1 1 demo_grant (cNode c ''n1'') of Some (n, v) \<Rightarrow> role n = Leader | None \<Rightarrow> False)"
    by code_simp
  have b: "case ?s of (t, c, x) \<Rightarrow> cBallots c ''n1'' 1 = Some (1, {''n2'', ''n3''})" by code_simp
  have r: "(''n1'', ''n2'', RequestVoteReq (demo_vote ''n1'')) \<in> cReqs asked" by code_simp
  have h: "gtHandler n2_transport = Some (node_handler MemoryStorage_ops demo_env ''n2'')" by (simp add: n2_transport_def gt_RegisterHandler_def)
  have i: "sender (RequestVoteReq (demo_vote ''n1'')) = ''n1''" "rvTerm (demo_vote ''n1'') = 1" by (simp_all add: demo_vote_def)
  obtain n v' where n: "voteReply MemoryStorage_ops 1 1 demo_grant (cNode c' ''n1'') = Some (n, v')" "role n = Leader"
    using v s by (auto split: option.splits)
  note th = calls_are_cluster_steps [OF n2_link_carries h r i(1) s, where cfg = trio_cfg and fits = "\<lambda>t v. True" and d = c']
  show ?thesis using th s v b n i(2) run_refl by auto
qed

section \<open>The loop of a node\<close>

text \<open>
  One tick of \<open>run\<close>: the critical section of \<open>tick\<close>, then the election, the heartbeats and the signal for a
  snapshot that it has decided on. What is sent goes to goroutines: the vote request of an election, or the term
  and the peers to replicate to.
\<close>

definition run_tick :: "'s Storage \<Rightarrow> env \<Rightarrow> 's Node \<Rightarrow> ('s Node \<times> RequestVoteArgs option \<times> (nat \<times> node_id \<times> node_id list) option) option" where
  "run_tick ops e n = (case tick e n of (n1, ac) \<Rightarrow>
     (case (if taStartElection ac then startElection ops e n1 else Some (n1, None)) of
        None \<Rightarrow> None
      | Some (n2, args) \<Rightarrow> Some (signalSnapshot (taSnapshotRequest ac) n2, args,
          if taSendHeartbeats ac then replicateToPeers n2 else None)))"

text \<open>The loop, until \<open>Stop\<close>; the readings of the clock come from the ticker.\<close>

fun node_run :: "'s Storage \<Rightarrow> env list \<Rightarrow> 's Node \<Rightarrow> 's Node option" where
  "node_run ops [] n = Some n"
| "node_run ops (e # es) n = (case run_tick ops e n of None \<Rightarrow> None | Some (n1, _) \<Rightarrow> node_run ops es n1)"

definition trigger :: "nat option \<Rightarrow> 's Node \<Rightarrow> 's Node" where
  "trigger x n = n\<lparr>snapshotTriggerCh := x\<rparr>"

lemma save_trigger: "saveHardStateLocked ops t v (trigger x n) = trigger x (saveHardStateLocked ops t v n)"
  by (simp add: saveHardStateLocked_def disableLocked_def trigger_def Let_def split: prod.splits option.splits)

lemma signal_trigger: "signalSnapshot k n = trigger (if k > 0 \<and> snapshotTriggerCh n = None then Some k else snapshotTriggerCh n) n"
  by (simp add: signalSnapshot_def trigger_def)

lemma candidate_trigger: "becomeCandidateLocked ops e (trigger x n) = trigger x (becomeCandidateLocked ops e n)"
proof -
  have t: "(trigger x n)\<lparr>role := Candidate, leaderID := []\<rparr> = trigger x (n\<lparr>role := Candidate, leaderID := []\<rparr>)" by (simp add: trigger_def)
  have u: "failed (trigger x m) = failed m" "resetElectionDeadlineLocked e (trigger x m) = trigger x (resetElectionDeadlineLocked e m)"
    "currentTerm (trigger x m) = currentTerm m" "nid (trigger x m) = nid m" for m
    by (simp_all add: trigger_def resetElectionDeadlineLocked_def Let_def)
  show ?thesis unfolding becomeCandidateLocked_def t Let_def by (simp add: u save_trigger)
qed

lemma election_trigger: "startElection ops e (trigger x n) = map_option (\<lambda>(m, a). (trigger x m, a)) (startElection ops e n)"
proof -
  have u: "failed (trigger x m) = failed m" "lastLogInfoLocked (trigger x m) = lastLogInfoLocked m"
    "currentTerm (trigger x m) = currentTerm m" "nid (trigger x m) = nid m" for m
    by (simp_all add: trigger_def lastLogInfoLocked_def)
  show ?thesis by (simp add: startElection_def Let_def u candidate_trigger case_prod_beta option.map_comp comp_def split: bind_splits)
qed

lemma election_keeps_trigger:
  assumes "startElection ops e n = Some (m, a)"
  shows "snapshotTriggerCh m = snapshotTriggerCh n"
proof -
  have "trigger (snapshotTriggerCh n) n = n" by (simp add: trigger_def)
  then have "m = trigger (snapshotTriggerCh n) m" using election_trigger [of ops e "snapshotTriggerCh n" n] assms by simp
  then have "snapshotTriggerCh m = snapshotTriggerCh (trigger (snapshotTriggerCh n) m)" by (rule arg_cong)
  also have "\<dots> = snapshotTriggerCh n" by (simp add: trigger_def)
  finally show ?thesis .
qed

text \<open>A tick of the loop is one or two steps of the cluster: the timer, and the election. Afterwards its requests are on their way.\<close>

theorem tick_is_cluster_steps:
  assumes "cAlive c i" "run_tick ops e (cNode c i) = Some (n, args, hb)"
  shows "\<exists>c'. (cstep ops cfg c c' \<or> (\<exists>c1. cstep ops cfg c c1 \<and> cstep ops cfg c1 c')) \<and> cNode c' i = n \<and>
    (\<forall>a. args = Some a \<longrightarrow> (\<forall>p \<in> set (peers n). (i, p, RequestVoteReq a) \<in> cReqs c'))"
proof -
  obtain n1 ac where t: "tick e (cNode c i) = (n1, ac)" by (cases "tick e (cNode c i)")
  let ?k = "taSnapshotRequest ac"
  let ?c1 = "put i (signalSnapshot ?k n1) c"
  have s1: "cstep ops cfg c ?c1" by (rule cstep.clock_tick [OF assms(1) t refl])
  have c1: "cAlive ?c1 i" "cNode ?c1 i = signalSnapshot ?k n1" using assms(1) by (simp_all add: put_def)
  show ?thesis
  proof (cases "taStartElection ac")
    case False
    then have "n = signalSnapshot ?k n1" "args = None" using assms(2) t by (auto simp: run_tick_def)
    then show ?thesis using s1 c1 by (intro exI [of _ ?c1]) simp
  next
    case True
    then obtain n2 where n2: "startElection ops e n1 = Some (n2, args)" "n = signalSnapshot ?k n2"
      using assms(2) t by (auto simp: run_tick_def split: option.splits)
    have e: "startElection ops e (signalSnapshot ?k n1) = Some (n, args)"
      using n2 election_keeps_trigger [OF n2(1)] election_trigger [of ops e _ n1] by (simp add: signal_trigger)
    show ?thesis
    proof (cases args)
      case None
      then have "cstep ops cfg ?c1 (put i n ?c1)" using e c1 by (intro cstep.start_election_fails) auto
      then show ?thesis using s1 None by (intro exI [of _ "put i n ?c1"]) (auto simp: put_def)
    next
      case (Some a)
      let ?c' = "set_ballot i (rvTerm a) 1 (set (peers n)) (send_all ((\<lambda>p. (i, p, RequestVoteReq a)) ` set (peers n)) (put i n ?c1))"
      have "cstep ops cfg ?c1 ?c'" using e c1 Some by (intro cstep.start_election) auto
      then show ?thesis using s1 Some by (intro exI [of _ ?c']) (auto simp: cluster_ops)
    qed
  qed
qed

end
