(* ===== verification/Kv_Snapshots.thy ===== *)
theory Kv_Snapshots
  imports Kv_Properties Disk_Properties
begin

text \<open>
  The snapshot loop of the server (\<open>runSnapshotLoop\<close> in src/internal/kv/server.go) against the node and the
  disk. The node offers an index that its apply loop has taken from the log (\<open>tick\<close> in
  src/internal/raft/node.go), the loop snapshots whatever the store holds at that moment.
\<close>

text \<open>The tick of the timer, with its offer to the snapshot loop.\<close>

definition ticked :: "env \<Rightarrow> 's Node \<Rightarrow> 's Node" where
  "ticked e n = (let (n', acts) = tick e n in signalSnapshot (taSnapshotRequest acts) n')"

lemma ticked_offers:
  assumes "\<not> failed n" "snapshotTriggerCh n = None" "0 < snapshotThreshold n"
    "snapshotThreshold n \<le> int (lastApplied n - lastIncludedIndex n)" "lastIncludedIndex n \<le> lastApplied n"
    "lastSnapshotRequestedAt n < lastApplied n"
  shows "\<exists>h. ticked e n = n\<lparr>nextHeartbeat := h, lastSnapshotRequestedAt := lastApplied n, snapshotTriggerCh := Some (lastApplied n)\<rparr>"
proof -
  define n1 where "n1 = (if role n = Leader \<and> env_now e > nextHeartbeat n then n\<lparr>nextHeartbeat := env_now e + heartbeatInterval n\<rparr> else n)"
  obtain h where h: "n1 = n\<lparr>nextHeartbeat := h\<rparr>"
  proof
    show "n1 = n\<lparr>nextHeartbeat := nextHeartbeat n1\<rparr>" by (simp add: n1_def)
  qed
  have "tick e n = (n1\<lparr>lastSnapshotRequestedAt := lastApplied n\<rparr>,
      \<lparr>taStartElection = (role n \<noteq> Leader \<and> env_now e > electionDeadline n),
       taSendHeartbeats = (role n = Leader \<and> env_now e > nextHeartbeat n), taSnapshotRequest = lastApplied n\<rparr>)"
    unfolding tick_def Let_def n1_def [symmetric] using assms h by (simp add: u64_sub_def)
  then have "ticked e n = n\<lparr>nextHeartbeat := h, lastSnapshotRequestedAt := lastApplied n, snapshotTriggerCh := Some (lastApplied n)\<rparr>"
    using assms(2,6) h by (simp add: ticked_def signalSnapshot_def)
  then show ?thesis by blast
qed

text \<open>Handing over a snapshot of the applied index, on a disk that takes it.\<close>

lemma Snapshot_applied:
  assumes n: "log_ok n" "\<not> failed n" and k: "lastIncludedIndex n < k" "k \<le> lastApplied n" "entryAtLocked n k = Some x"
    and s: "SaveSnapshot ops (storage n) k (eTerm x) data = (st, None)"
  shows "\<exists>n'. Snapshot ops k data n = Some (n', None) \<and> storage n' = st \<and> snapshotData n' = data \<and>
    lastIncludedIndex n' = k \<and> entryAtLocked n' k = Some (x\<lparr>eCommand := []\<rparr>) \<and> lastApplied n' = lastApplied n"
proof -
  let ?p = "k - lastIncludedIndex n"
  have p: "?p < length (nlog n)" "nlog n ! ?p = x" using k by (auto simp: entryAtLocked_def split: if_splits)
  then have d: "drop ?p (nlog n) = x # drop (Suc ?p) (nlog n)" by (simp add: Cons_nth_drop_Suc [symmetric])
  have l: "k \<le> last_index n" using p(1) k(1) by (simp add: last_index_def)
  have "logFrom n k = Some (x # drop (Suc ?p) (nlog n))" using logFrom_ok [OF n(1), of k] k l d by simp
  moreover have "termAtLocked n k = Some (eTerm x)" using k(3) by (simp add: termAtLocked_def)
  ultimately show ?thesis using n(2) k s by (simp add: Snapshot_def entryAtLocked_def)
qed

text \<open>C37: A snapshot can be taken before its last commands have reached the state machine, and then they are lost.
  The apply loop of the node counts a command as applied when it takes it from the log, before it has
  sent it to the server. If the timer ticks now, the snapshot loop stores the state of a store that
  has not seen the command as the snapshot at the command's index, and the node drops the command
  from its log. Whatever node is built from the disk afterwards delivers that snapshot and goes on
  behind the command.\<close>

theorem snapshot_ahead_of_store:
  assumes n: "log_ok (svNode sv)" "commit_ok (svNode sv)" "\<not> failed (svNode sv)" "pendingSnapshot (svNode sv) = None"
    and k: "k = lastApplied (svNode sv) + 1" "k \<le> commitIndex (svNode sv)" "entryAtLocked (svNode sv) k = Some x"
    and t: "snapshotTriggerCh (svNode sv) = None" "0 < snapshotThreshold (svNode sv)"
      "snapshotThreshold (svNode sv) \<le> int (k - lastIncludedIndex (svNode sv))" "lastSnapshotRequestedAt (svNode sv) < k"
    and d: "disk_inv (storage (svNode sv))" "ps_boundary (disk_view (storage (svNode sv))) = lastIncludedIndex (svNode sv)"
    and s: "store_Snapshot (marshalSnap cd) (svStore sv) = Inr data" "snap_fits k (eTerm x) data"
      "SaveSnapshot DiskStorage_ops (storage (svNode sv)) k (eTerm x) data = (st, None)"
  shows "\<exists>n1 sv'. apply_section ApplyTop (svNode sv) = Some (ApplySend (command_msg x) True, n1) \<and>
    runSnapshotLoop DiskStorage_ops cd (sv\<lparr>svNode := ticked e n1\<rparr>) = Some sv' \<and> svStore sv' = svStore sv \<and>
    lastIncludedIndex (svNode sv') = k \<and> snapshotData (svNode sv') = data \<and>
    entryAtLocked (svNode sv') k = Some (x\<lparr>eCommand := []\<rparr>) \<and>
    (\<forall>e' cfg st' m. NewNode DiskStorage_ops e' cfg (storage (svNode sv')) = Some (st', Inr m) \<longrightarrow>
       pendingSnapshot m = Some (snapshot_msg data k (eTerm x)) \<and> lastApplied m = k)"
proof -
  let ?n = "svNode sv"
  let ?n1 = "?n\<lparr>lastApplied := k\<rparr>"
  have li: "lastIncludedIndex ?n < k" using n(2) k(1) by (simp add: commit_ok_def)
  have a: "apply_section ApplyTop ?n = Some (ApplySend (command_msg x) True, ?n1)"
    using n(4) k by (simp add: apply_batch_def)
  obtain h where h: "ticked e ?n1 = ?n1\<lparr>nextHeartbeat := h, lastSnapshotRequestedAt := k, snapshotTriggerCh := Some k\<rparr>"
    using ticked_offers [of ?n1 e] n(3) t li by auto
  let ?n2 = "?n1\<lparr>nextHeartbeat := h, lastSnapshotRequestedAt := k, snapshotTriggerCh := None\<rparr>"
  have "entryAtLocked ?n2 k = entryAtLocked ?n k" by (simp add: entryAtLocked_def)
  then have "log_ok ?n2" "\<not> failed ?n2" "lastIncludedIndex ?n2 < k" "k \<le> lastApplied ?n2" "entryAtLocked ?n2 k = Some x"
    "SaveSnapshot DiskStorage_ops (storage ?n2) k (eTerm x) data = (st, None)"
    using n(1,3) li k(3) s(3) by (simp_all add: log_ok_def)
  from Snapshot_applied [OF this] obtain n' where n': "Snapshot DiskStorage_ops k data ?n2 = Some (n', None)" "storage n' = st"
    "snapshotData n' = data" "lastIncludedIndex n' = k" "entryAtLocked n' k = Some (x\<lparr>eCommand := []\<rparr>)" by blast
  have r: "runSnapshotLoop DiskStorage_ops cd (sv\<lparr>svNode := ticked e ?n1\<rparr>) = Some (sv\<lparr>svNode := n'\<rparr>)"
    using n'(1) s(1) by (simp add: runSnapshotLoop_def h)
  have leg: "ps_legal (disk_view (storage ?n)) (CallSaveSnapshot k (eTerm x) data)" using li d(2) by simp
  have "storage_call DiskStorage_ops (storage ?n) (CallSaveSnapshot k (eTerm x) data) = (st, None)" using s(3) by simp
  from disk_call_ok [OF d(1) leg _ this] s(2) have v: "disk_recov st" "disk_view st = ps_call (CallSaveSnapshot k (eTerm x) data) (disk_view (storage ?n))"
    by (simp_all add: disk_inv_def)
  have "pendingSnapshot m = Some (snapshot_msg data k (eTerm x)) \<and> lastApplied m = k"
    if m: "NewNode DiskStorage_ops e' cfg st = Some (st', Inr m)" for e' cfg st' m
  proof -
    obtain ps b es where l: "Load DiskStorage_ops st = (st', Inr ps)" "psLog ps = b # es"
      "m = resetElectionDeadlineLocked e' (node_from_state cfg st' ps b)"
      using m by (auto simp: NewNode_def split: if_splits prod.splits sum.splits list.splits)
    have "ps = disk_view st" using disk.load_view [OF v(1) l(1)] by simp
    then have "b = boundary_entry (eTerm x) k" "psSnapshotData ps = data" using l(2) v(2) by simp_all
    then show ?thesis using l(3) li
      by (simp add: resetElectionDeadlineLocked_def node_from_state_def boundary_entry_def Let_def)
  qed
  then show ?thesis using a r n'(2-5) by (intro exI [of _ ?n1] exI [of _ "sv\<lparr>svNode := n'\<rparr>"]) simp
qed

text \<open>A follower whose disk holds three entries, the first one committed; its server has a new store.\<close>

definition behind_node :: "DiskStorage \<Rightarrow> DiskStorage Node" where
  "behind_node d = (node_from_state lone_cfg d (disk_view d) (boundary_entry 0 0))\<lparr>commitIndex := 1, snapshotThreshold := 1\<rparr>"

theorem snapshot_ahead_of_store_witness:
  "\<exists>(sv :: DiskStorage Server) n1 sv' x. apply_section ApplyTop (svNode sv) = Some (ApplySend (command_msg x) True, n1) \<and>
    eCommand x = [7] \<and> runSnapshotLoop DiskStorage_ops one_codec (sv\<lparr>svNode := ticked \<lparr>env_now = 0, env_Int63n = \<lambda>k. 0\<rparr> n1\<rparr>) = Some sv' \<and>
    svStore sv' = NewStore \<and> lastIncludedIndex (svNode sv') = 1 \<and> snapshotData (svNode sv') = [] \<and>
    entryAtLocked (svNode sv') 1 = Some (x\<lparr>eCommand := []\<rparr>)"
proof -
  let ?ps = "fold ps_call sample_calls empty_state"
  obtain d0 d1 where d: "disk_open empty_dir = Inr (d0, empty_state)" "storage_calls DiskStorage_ops d0 sample_calls = (d1, None)"
    "quiet_disk d1" "disk_inv d1"
    using open_empty_calls [OF sample_legal] by blast
  have "disk_inv d0" "disk_view d0 = empty_state" using disk_open_view [of "d0\<lparr>dFs := empty_dir\<rparr>" d0 empty_state] d(1) by simp_all
  then have v: "disk_view d1 = ?ps" using disk.calls_view [of d0 sample_calls d1] sample_legal d(2) by simp
  have ps: "psLog ?ps = [boundary_entry 0 0, \<lparr>eTerm = 1, eIndex = 1, eCommand = [7]\<rparr>, \<lparr>eTerm = 3, eIndex = 2, eCommand = []\<rparr>,
      \<lparr>eTerm = 3, eIndex = 3, eCommand = [8, 9]\<rparr>]" "psCurrentTerm ?ps = 3"
    by (simp_all add: sample_calls_def empty_state_def)
  let ?n = "behind_node d1" and ?x = "\<lparr>eTerm = 1, eIndex = 1, eCommand = [7]\<rparr>"
  define sv where "sv = NewServer ?n NewStore Map.empty"
  have f: "nlog ?n = psLog ?ps" "currentTerm ?n = 3" "storage ?n = d1" "\<not> failed ?n" "lastIncludedIndex ?n = 0" "lastIncludedTerm ?n = 0"
    "commitIndex ?n = 1" "lastApplied ?n = 0" "snapshotThreshold ?n = 1" "snapshotTriggerCh ?n = None" "lastSnapshotRequestedAt ?n = 0"
    "pendingSnapshot ?n = None"
    using ps v by (simp_all add: behind_node_def node_from_state_def boundary_entry_def)
  have ok: "log_ok ?n" "commit_ok ?n" "entryAtLocked ?n 1 = Some ?x"
    using f ps by (simp_all add: log_ok_def commit_ok_def last_index_def entryAtLocked_def boundary_entry_def terms_sorted_def)
  have b: "ps_boundary (disk_view d1) = 0" using v ps by (simp add: ps_boundary_def boundary_entry_def)
  then obtain st where st: "storage_call DiskStorage_ops d1 (CallSaveSnapshot 1 1 []) = (st, None)"
    using quiet_storage_call [OF d(3,4), of "CallSaveSnapshot 1 1 []"] by auto
  have sn: "svNode sv = ?n" "svStore sv = NewStore" by (simp_all add: sv_def NewServer_def)
  have data: "store_Snapshot (marshalSnap one_codec) (svStore sv) = Inr []" by (simp add: store_Snapshot_def one_codec_def)
  have "\<exists>n1 sv'. apply_section ApplyTop (svNode sv) = Some (ApplySend (command_msg ?x) True, n1) \<and>
    runSnapshotLoop DiskStorage_ops one_codec (sv\<lparr>svNode := ticked \<lparr>env_now = 0, env_Int63n = \<lambda>k. 0\<rparr> n1\<rparr>) = Some sv' \<and> svStore sv' = svStore sv \<and>
    lastIncludedIndex (svNode sv') = 1 \<and> snapshotData (svNode sv') = [] \<and>
    entryAtLocked (svNode sv') 1 = Some (?x\<lparr>eCommand := []\<rparr>) \<and>
    (\<forall>e' cfg st' m. NewNode DiskStorage_ops e' cfg (storage (svNode sv')) = Some (st', Inr m) \<longrightarrow>
       pendingSnapshot m = Some (snapshot_msg [] 1 (eTerm ?x)) \<and> lastApplied m = 1)"
    by (rule snapshot_ahead_of_store) (use f ok b d(4) st sn data in \<open>simp_all add: snap_fits_def\<close>)
  then show ?thesis using sn by (intro exI [of _ sv]) fastforce
qed

end
