(* ===== verification/Kv_Replicas.thy ===== *)
theory Kv_Replicas
  imports Raft_Feed Kv_Properties
begin

text \<open>
  The replicated state machine: a Raft group whose servers apply what their nodes deliver. Every
  replica is the plain key-value map after the fresh commands of a prefix of one committed log.
  Stated for runs without snapshots; \<open>Raft_Snapshots\<close> and \<open>Kv_Snapshots\<close> show how snapshots break it.
\<close>

section \<open>The store of a server\<close>

definition replica_step :: "codec \<Rightarrow> Store \<Rightarrow> ApplyMsg \<Rightarrow> Store" where
  "replica_step cd s m =
     (if amSnapshotValid m then fst (store_Restore (unmarshalSnap cd) (amSnapshot m) s)
      else fst (store_Apply (unmarshalC cd) (amCommand m) s))"

definition replica_store :: "codec \<Rightarrow> ApplyMsg list \<Rightarrow> Store" where
  "replica_store cd ms = foldl (replica_step cd) NewStore ms"

text \<open>It is what the apply loop of the server does with a message.\<close>

lemma runApplyLoop_store:
  assumes "apply_receive (svNode sv) = Some (m, n)" "runApplyLoop cd sv = Some sv'"
  shows "svStore sv' = replica_step cd (svStore sv) m"
  using assms
  by (auto simp: runApplyLoop_def apply_msg_def replica_step_def deliver_def split: prod.splits option.splits if_splits)

text \<open>The commands of a log; an entry that does not decode is none.\<close>

definition entry_commands :: "codec \<Rightarrow> LogEntry \<Rightarrow> Command list" where
  "entry_commands cd e = (case unmarshalC cd (eCommand e) of (cmd, None) \<Rightarrow> [cmd] | (cmd, Some err) \<Rightarrow> [])"

definition log_commands :: "codec \<Rightarrow> LogEntry list \<Rightarrow> Command list" where
  "log_commands cd es = concat (map (entry_commands cd) es)"

lemma store_run_append: "fst (store_run (xs @ ys) s) = fst (store_run ys (fst (store_run xs s)))"
  by (induction xs arbitrary: s) (simp_all add: case_prod_beta)

lemma replica_step_command: "replica_step cd s (command_msg e) = fst (store_run (entry_commands cd e) s)"
  by (simp add: replica_step_def command_msg_def store_Apply_def entry_commands_def case_prod_beta split: option.splits)

lemma replica_store_log: "replica_store cd (map command_msg es) = fst (store_run (log_commands cd es) NewStore)"
proof (induction es rule: rev_induct)
  case (snoc e es)
  have "replica_store cd (map command_msg (es @ [e])) = replica_step cd (replica_store cd (map command_msg es)) (command_msg e)"
    by (simp add: replica_store_def)
  then show ?case using snoc by (simp add: replica_step_command log_commands_def store_run_append)
qed (simp add: replica_store_def log_commands_def)

definition replica_map :: "codec \<Rightarrow> LogEntry list \<Rightarrow> string \<rightharpoonup> string" where
  "replica_map cd es = kv_run (fresh_log [] (log_commands cd es)) Map.empty"

lemma replica_store_map: "stData (replica_store cd (map command_msg es)) = replica_map cd es"
  using store_run_refines [OF sessions_ok_new, of "log_commands cd es"]
  by (simp add: replica_store_log replica_map_def NewStore_def)

section \<open>Replicas agree\<close>

text \<open>\<open>watch\<close> performs actions with the record of what the servers of some nodes take, and checks \<open>P\<close> in
  every state.\<close>

type_synonym taken = "(node_id \<times> ApplyMsg list) list"

fun watch :: "('s Cluster \<Rightarrow> bool) \<Rightarrow> 's Storage \<Rightarrow> (node_id \<Rightarrow> Config) \<Rightarrow> env \<Rightarrow> Action list \<Rightarrow>
    's Cluster \<times> taken \<Rightarrow> ('s Cluster \<times> taken) option" where
  "watch P ops cfg e [] (c, hs) = (if P c then Some (c, hs) else None)"
| "watch P ops cfg e (a # as) (c, hs) = (if P c then (case act ops cfg e a c of None \<Rightarrow> None
     | Some d \<Rightarrow> watch P ops cfg e as (d, map (\<lambda>(i, l). (i, observe c d (\<lambda>k. l) i)) hs)) else None)"

lemma watched_left:
  "watched P ops cfg d h' e h'' \<Longrightarrow> cstep ops cfg c d \<Longrightarrow> P c \<Longrightarrow> h' = observe c d h \<Longrightarrow> watched P ops cfg c h e h''"
proof (induction rule: watched.induct)
  case (watched_refl d h')
  then show ?case using watched_step [OF watched.watched_refl [of P c ops cfg h]] by simp
next
  case (watched_step d h' e h'' e')
  then show ?case using watched.watched_step by blast
qed

definition took :: "taken \<Rightarrow> (node_id \<Rightarrow> ApplyMsg list) \<Rightarrow> bool" where
  "took hs h \<longleftrightarrow> (\<forall>(i, l) \<in> set hs. h i = l)"

lemma watch_run:
  assumes cfg: "\<And>i. i \<notin> M \<Longrightarrow> \<not> cTransport (cfg i)" and P: "\<And>c. up_in M c \<Longrightarrow> P c \<Longrightarrow> Q c"
  shows "watch P ops cfg e as (c, hs) = Some (d, hs') \<Longrightarrow> up_in M c \<Longrightarrow> took hs h \<Longrightarrow>
    \<exists>h'. watched Q ops cfg c h d h' \<and> up_in M d \<and> took hs' h'"
proof (induction as arbitrary: c hs h)
  case Nil
  then have "c = d" "hs = hs'" "P c" by (auto split: if_splits)
  then show ?case using watched_refl [of Q d ops cfg h] P Nil by blast
next
  case (Cons a as)
  then obtain c1 where c1: "P c" "act ops cfg e a c = Some c1"
    "watch P ops cfg e as (c1, map (\<lambda>(i, l). (i, observe c c1 (\<lambda>k. l) i)) hs) = Some (d, hs')"
    by (auto split: if_splits option.splits)
  note s = act_cstep [OF c1(2)]
  have "took (map (\<lambda>(i, l). (i, observe c c1 (\<lambda>k. l) i)) hs) (observe c c1 h)"
    using Cons.prems(3) by (auto simp: took_def observe_def)
  then obtain h' where h': "watched Q ops cfg c1 (observe c c1 h) d h'" "up_in M d" "took hs' h'"
    using Cons.IH [OF c1(3) cstep_up_in [OF s Cons.prems(2) cfg]] by blast
  show ?case using watched_left [OF h'(1) s P [OF Cons.prems(2) c1(1)] refl] h'(2,3) by blast
qed


text \<open>In the run of three, ''n1'' and later ''n2'' hand the command to their servers.\<close>

definition trio_still :: "MemoryStorage Cluster \<Rightarrow> bool" where
  "trio_still c \<longleftrightarrow> kept_on mem_view trio c \<and> list_all (\<lambda>i. \<not> cAlive c i \<or> lastIncludedIndex (cNode c i) = 0) trio"

definition trio_watch :: "Action list \<Rightarrow> MemoryStorage Cluster \<times> taken \<Rightarrow> (MemoryStorage Cluster \<times> taken) option" where
  "trio_watch as ch = watch trio_still MemoryStorage_ops trio_cfg demo_env as ch"

definition served_c :: "MemoryStorage Cluster \<times> taken" where
  "served_c = the (trio_watch (trio_commits @ [Apply ''n1'', Apply ''n1'', Receive ''n1'']) (demo_cluster trio, [(''n1'', []), (''n2'', [])]))"

definition served_d :: "MemoryStorage Cluster \<times> taken" where
  "served_d = the (trio_watch (trio_tells @ [Apply ''n2'', Apply ''n2'', Receive ''n2'']) served_c)"

lemma served_some:
  "trio_watch (trio_commits @ [Apply ''n1'', Apply ''n1'', Receive ''n1'']) (demo_cluster trio, [(''n1'', []), (''n2'', [])]) \<noteq> None"
  "trio_watch (trio_tells @ [Apply ''n2'', Apply ''n2'', Receive ''n2'']) served_c \<noteq> None"
  "snd served_c = [(''n1'', [command_msg trio_entry]), (''n2'', [])]"
  "snd served_d = [(''n1'', [command_msg trio_entry]), (''n2'', [command_msg trio_entry])]"
  "cAlive (fst served_c) ''n1''" "cAlive (fst served_d) ''n2''"
  by code_simp+

lemma trio_watched:
  assumes "trio_watch as (c, hs) \<noteq> None" "up_in (set trio) c" "took hs h"
  shows "\<exists>h'. watched (\<lambda>c. stores_kept mem_view c \<and> no_snapshots c) MemoryStorage_ops trio_cfg c h (fst (the (trio_watch as (c, hs)))) h' \<and>
    up_in (set trio) (fst (the (trio_watch as (c, hs)))) \<and> took (snd (the (trio_watch as (c, hs)))) h'"
proof -
  have cfg: "\<not> cTransport (trio_cfg i)" if "i \<notin> set trio" for i using that by (simp add: trio_cfg_def)
  have P: "stores_kept mem_view c \<and> no_snapshots c" if "up_in (set trio) c" "trio_still c" for c
    using that kept_on_stores unfolding trio_still_def no_snapshots_def up_in_def list_all_iff by blast
  have "watch trio_still MemoryStorage_ops trio_cfg demo_env as (c, hs) =
      Some (fst (the (trio_watch as (c, hs))), snd (the (trio_watch as (c, hs))))"
    using assms(1) by (simp add: trio_watch_def)
  from watch_run [OF cfg P this assms(2,3)] show ?thesis .
qed

lemma served_runs:
  "\<exists>h h'. watched (\<lambda>c. stores_kept mem_view c \<and> no_snapshots c) MemoryStorage_ops trio_cfg (demo_cluster trio) (\<lambda>i. []) (fst served_c) h \<and>
    watched (\<lambda>c. stores_kept mem_view c \<and> no_snapshots c) MemoryStorage_ops trio_cfg (fst served_c) h (fst served_d) h' \<and>
    h ''n1'' = [command_msg trio_entry] \<and> h' ''n2'' = [command_msg trio_entry]"
proof -
  have u: "up_in (set trio) (demo_cluster trio)" by (simp add: up_in_def demo_cluster_def)
  have t: "took [(''n1'', []), (''n2'', [])] (\<lambda>i. [])" by (simp add: took_def)
  obtain h where h: "watched (\<lambda>c. stores_kept mem_view c \<and> no_snapshots c) MemoryStorage_ops trio_cfg (demo_cluster trio) (\<lambda>i. []) (fst served_c) h"
    "up_in (set trio) (fst served_c)" "took (snd served_c) h"
    using trio_watched [OF served_some(1) u t] unfolding served_c_def by blast
  have "trio_watch (trio_tells @ [Apply ''n2'', Apply ''n2'', Receive ''n2'']) (fst served_c, snd served_c) \<noteq> None"
    using served_some(2) by simp
  from trio_watched [OF this h(2,3)] obtain h' where
    h': "watched (\<lambda>c. stores_kept mem_view c \<and> no_snapshots c) MemoryStorage_ops trio_cfg (fst served_c) h (fst served_d) h'" "took (snd served_d) h'"
    unfolding served_d_def prod.collapse by blast
  have "h ''n1'' = [command_msg trio_entry]" "h' ''n2'' = [command_msg trio_entry]"
    using h(3) h'(2) unfolding took_def served_some(3,4) by simp_all
  then show ?thesis using h(1) h'(1) by blast
qed


end
