(* ===== verification/Shard_Map.thy ===== *)
theory Shard_Map
  imports Prelude "HOL-Library.Multiset" "HOL-Library.List_Lexorder" "HOL-Library.Char_ord"
begin

text \<open>
  The shard map (src/internal/shard/shardmap.go): ranges \<open>[Start, End)\<close> of the key space, their
  validation and the lookup of a key. Go compares strings byte by byte, which is the
  lexicographic order of lists of characters.

  \<open>sort.Slice\<close> does not say how it orders shards with equal start; \<open>Validate\<close> is written with a
  stable sort, and the lemmas about \<open>check_shards\<close> hold for every list. Reading and parsing the
  config file are the arguments \<open>readFile\<close> and \<open>parse\<close> of \<open>LoadMap\<close>.
\<close>

record Shard =
  shID :: int
  shStart :: string
  shEnd :: string
  shReplicas :: "node_id list"

definition Contains :: "Shard \<Rightarrow> string \<Rightarrow> bool" where
  "Contains s key = (if key < shStart s then False else if shEnd s = [] then True else key < shEnd s)"

type_synonym ShardMap = "Shard list"

text \<open>The loop of \<open>Validate\<close> over the sorted shards: the ids seen so far and the shard before.\<close>

fun check_shards :: "int set \<Rightarrow> Shard option \<Rightarrow> Shard list \<Rightarrow> error option" where
  "check_shards seen prev [] = None"
| "check_shards seen prev (s # ss) =
     (if shID s \<in> seen then Some (Errorf ''duplicate shard id %d'' [IntArg (shID s)])
      else if shReplicas s = [] then Some (Errorf ''shard %d has no replicas'' [IntArg (shID s)])
      else if shEnd s \<noteq> [] \<and> shEnd s \<le> shStart s
      then Some (Errorf ''shard %d has an empty or inverted range [%q, %q)''
             [IntArg (shID s), StrArg (shStart s), StrArg (shEnd s)])
      else if prev = None \<and> shStart s \<noteq> []
      then Some (Errorf ''shard %d is the lowest shard but does not start at the beginning of the keyspace'' [IntArg (shID s)])
      else if ss = [] \<and> shEnd s \<noteq> []
      then Some (Errorf ''shard %d is the highest shard but does not extend to the end of the keyspace'' [IntArg (shID s)])
      else case prev of
             Some p \<Rightarrow>
               if shEnd p \<noteq> shStart s
               then Some (Errorf ''gap or overlap between shard %d (ends %q) and shard %d (starts %q)''
                      [IntArg (shID p), StrArg (shEnd p), IntArg (shID s), StrArg (shStart s)])
               else check_shards (insert (shID s) seen) (Some s) ss
           | None \<Rightarrow> check_shards (insert (shID s) seen) (Some s) ss)"

definition Validate :: "ShardMap \<Rightarrow> ShardMap \<times> error option" where
  "Validate m =
     (if m = [] then (m, Some (Errorf ''no shards defined'' []))
      else let sorted = sort_key shStart m in (sorted, check_shards {} None sorted))"

definition LoadMap :: "(string \<Rightarrow> error + bytes) \<Rightarrow> (bytes \<Rightarrow> error + ShardMap) \<Rightarrow> string \<Rightarrow> error + ShardMap" where
  "LoadMap readFile parse path = (case readFile path of
     Inl err \<Rightarrow> Inl (Wrapf ''shard: reading config %s: %w'' [StrArg path] err)
   | Inr raw \<Rightarrow> (case parse raw of
       Inl err \<Rightarrow> Inl (Wrapf ''shard: parsing config %s: %w'' [StrArg path] err)
     | Inr m \<Rightarrow> (case Validate m of
         (m', Some err) \<Rightarrow> Inl (Wrapf ''shard: config %s: %w'' [StrArg path] err)
       | (m', None) \<Rightarrow> Inr m')))"

fun Lookup :: "ShardMap \<Rightarrow> string \<Rightarrow> error + Shard" where
  "Lookup [] key = Inl (Errorf ''shard: no shard covers key %q (shard map is not a complete partition)'' [StrArg key])"
| "Lookup (s # ss) key = (if Contains s key then Inr s else Lookup ss key)"

fun Map_Shard :: "ShardMap \<Rightarrow> int \<Rightarrow> error + Shard" where
  "Map_Shard [] i = Inl (Errorf ''shard: no shard with id %d'' [IntArg i])"
| "Map_Shard (s # ss) i = (if shID s = i then Inr s else Map_Shard ss i)"

section \<open>What a validated map guarantees\<close>

text \<open>The chain of ranges from one shard on: each ends where the next starts, the last is open.\<close>

fun chained :: "Shard list \<Rightarrow> bool" where
  "chained [] = True"
| "chained [s] = (shEnd s = [])"
| "chained (s # t # ss) = (shEnd s = shStart t \<and> chained (t # ss))"

lemma check_shards_Cons:
  "check_shards seen prev (s # ss) = None \<longleftrightarrow> shID s \<notin> seen \<and> shReplicas s \<noteq> [] \<and>
     (shEnd s \<noteq> [] \<longrightarrow> shStart s < shEnd s) \<and>
     (case prev of None \<Rightarrow> shStart s = [] | Some p \<Rightarrow> shEnd p = shStart s) \<and> (ss = [] \<longrightarrow> shEnd s = []) \<and>
     check_shards (insert (shID s) seen) (Some s) ss = None"
  by (cases prev) (auto simp: not_le dest: leD)

declare check_shards.simps(2) [simp del]
declare check_shards_Cons [simp]

lemma check_shards_chained:
  "check_shards seen prev ss = None \<Longrightarrow> ss \<noteq> [] \<Longrightarrow>
     chained ss \<and> (case prev of None \<Rightarrow> shStart (hd ss) = [] | Some p \<Rightarrow> shEnd p = shStart (hd ss))"
proof (induction ss arbitrary: seen prev)
  case (Cons s ss)
  then have "(case prev of None \<Rightarrow> shStart s = [] | Some p \<Rightarrow> shEnd p = shStart s)"
    and n: "check_shards (insert (shID s) seen) (Some s) ss = None" "ss = [] \<longrightarrow> shEnd s = []" by auto
  moreover have "chained (s # ss)"
    using Cons.IH [OF n(1)] n(2) by (cases ss) auto
  ultimately show ?case by (auto split: option.splits)
qed simp

lemma check_shards_shards:
  "check_shards seen prev ss = None \<Longrightarrow>
     distinct (map shID ss) \<and> shID ` set ss \<inter> seen = {} \<and>
     (\<forall>s \<in> set ss. shReplicas s \<noteq> [] \<and> (shEnd s \<noteq> [] \<longrightarrow> shStart s < shEnd s))"
proof (induction ss arbitrary: seen prev)
  case (Cons s ss)
  from Cons.prems have "check_shards (insert (shID s) seen) (Some s) ss = None" by simp
  from Cons.IH [OF this] Cons.prems show ?case by auto
qed simp

lemma chained_covers:
  "chained ss \<Longrightarrow> ss \<noteq> [] \<Longrightarrow> shStart (hd ss) \<le> key \<Longrightarrow> \<exists>s \<in> set ss. Contains s key"
proof (induction ss rule: chained.induct)
  case (3 s t ss)
  show ?case
  proof (cases "Contains s key")
    case False
    then have "shStart t \<le> key" using 3(2,4) by (auto simp: Contains_def split: if_splits)
    then show ?thesis using 3 by auto
  qed auto
qed (auto simp: Contains_def)

text \<open>With distinct starts no two ranges of a sorted chain meet.\<close>

lemma chained_unique:
  "chained ss \<Longrightarrow> sorted (map shStart ss) \<Longrightarrow> distinct (map shStart ss) \<Longrightarrow>
     s \<in> set ss \<Longrightarrow> t \<in> set ss \<Longrightarrow> Contains s key \<Longrightarrow> Contains t key \<Longrightarrow> s = t"
proof (induction ss rule: chained.induct)
  case (3 a b ss)
  have e: "shEnd a \<noteq> []"
    using 3(2-4) by (cases "shStart a") auto
  have later: "\<not> Contains a key" if u: "u \<in> set (b # ss)" "Contains u key" for u
  proof -
    have "shEnd a \<le> shStart u" using 3(2,3) u(1) by auto
    also have "\<dots> \<le> key" using u(2) by (simp add: Contains_def split: if_splits)
    finally show ?thesis using e by (auto simp: Contains_def not_less)
  qed
  show ?case
  proof (cases "s = a \<or> t = a")
    case True
    then show ?thesis using later [of s] later [of t] 3(5-8) by auto
  next
    case False
    then show ?thesis using 3 by simp
  qed
qed auto

lemma Lookup_found: "\<exists>s \<in> set m. Contains s key \<Longrightarrow> \<exists>s \<in> set m. Lookup m key = Inr s \<and> Contains s key"
  by (induction m) auto

lemma Validate_ok:
  assumes "Validate m = (m', None)"
  shows "m' = sort_key shStart m" "m' \<noteq> []" "mset m' = mset m" "sorted (map shStart m')" "chained m'" "shStart (hd m') = []"
    "distinct (map shID m')" "\<And>s. s \<in> set m' \<Longrightarrow> shReplicas s \<noteq> [] \<and> (shEnd s \<noteq> [] \<longrightarrow> shStart s < shEnd s)"
proof -
  have c: "m \<noteq> []" "m' = sort_key shStart m" "check_shards {} None m' = None"
    using assms by (auto simp: Validate_def Let_def split: if_splits)
  then show "m' = sort_key shStart m" "m' \<noteq> []" "mset m' = mset m" "sorted (map shStart m')" by (auto simp flip: set_empty)
  from check_shards_chained [OF c(3)] \<open>m' \<noteq> []\<close> show "chained m'" "shStart (hd m') = []" by auto
  from check_shards_shards [OF c(3)] show "distinct (map shID m')"
    "\<And>s. s \<in> set m' \<Longrightarrow> shReplicas s \<noteq> [] \<and> (shEnd s \<noteq> [] \<longrightarrow> shStart s < shEnd s)" by auto
qed

end
