(* ===== verification/Shard_Client.thy ===== *)
theory Shard_Client
  imports Shard_Map Kv_Store
begin

text \<open>
  Routing: the leader cache (src/internal/shard/router.go) and the client that sweeps the replicas
  of a shard until one of them serves the request (src/internal/shard/client.go).

  The resolver, the nodes behind it, the clock and the context are the arguments \<open>env\<close> of the
  client, functions over a world of type \<open>'w\<close>: reading \<open>ctx.Err()\<close>, resolving a node, one attempt
  under its timeout, waiting for the backoff or the context. The retry loop runs until the
  context is done; the model counts its passes with fuel, and \<open>do_loop_returns\<close> shows that enough
  fuel gives a result whenever the context ends after finitely many waits.
\<close>

section \<open>The router\<close>

record Router =
  rShards :: ShardMap
  rLeaders :: "int \<rightharpoonup> node_id"

definition NewRouter :: "ShardMap \<Rightarrow> Router" where
  "NewRouter m = \<lparr>rShards = m, rLeaders = Map.empty\<rparr>"

definition ShardFor :: "Router \<Rightarrow> string \<Rightarrow> error + Shard" where
  "ShardFor r key = Lookup (rShards r) key"

definition Router_Leader :: "Router \<Rightarrow> int \<Rightarrow> node_id option" where
  "Router_Leader r i = rLeaders r i"

definition SetLeader :: "int \<Rightarrow> node_id \<Rightarrow> Router \<Rightarrow> Router" where
  "SetLeader i leader r = (if leader = [] then r else r\<lparr>rLeaders := (rLeaders r)(i \<mapsto> leader)\<rparr>)"

definition InvalidateLeader :: "int \<Rightarrow> Router \<Rightarrow> Router" where
  "InvalidateLeader i r = r\<lparr>rLeaders := (rLeaders r)(i := None)\<rparr>"

definition Candidates :: "Router \<Rightarrow> Shard \<Rightarrow> node_id list" where
  "Candidates r s = (case Router_Leader r (shID s) of
     None \<Rightarrow> shReplicas s
   | Some cached \<Rightarrow> cached # filter (\<lambda>node. node \<noteq> cached) (shReplicas s))"

lemma Candidates_cover: "set (shReplicas s) \<subseteq> set (Candidates r s)"
  by (auto simp: Candidates_def split: option.splits)

lemma Candidates_perm:
  assumes "distinct (shReplicas s)" "\<And>l. Router_Leader r (shID s) = Some l \<Longrightarrow> l \<in> set (shReplicas s)"
  shows "mset (Candidates r s) = mset (shReplicas s)"
proof (cases "Router_Leader r (shID s)")
  case (Some l)
  have "distinct (Candidates r s)" "set (Candidates r s) = set (shReplicas s)"
    using assms Some by (auto simp: Candidates_def)
  then show ?thesis using assms(1) by (simp add: set_eq_iff_mset_eq_distinct)
qed (simp add: Candidates_def)

section \<open>The client\<close>

datatype Endpoint = EpGet | EpPut | EpAppend | EpDelete

record 'w client_env =
  ceCtxErr :: "'w \<Rightarrow> 'w \<times> error option"
  ceResolve :: "'w \<Rightarrow> node_id \<Rightarrow> 'w \<times> error option"
  ceCall :: "'w \<Rightarrow> node_id \<Rightarrow> Endpoint \<Rightarrow> Command \<Rightarrow> 'w \<times> (error + CommandReply)"
  ceWait :: "'w \<Rightarrow> 'w"

record Client =
  clRouter :: Router
  clClientID :: string
  clSeq :: nat

definition NewClient :: "Router \<Rightarrow> string \<Rightarrow> Client" where
  "NewClient r i = \<lparr>clRouter = r, clClientID = i, clSeq = 0\<rparr>"

text \<open>One pass over the candidates. \<open>st\<close> is the router, the world and the last error.\<close>

definition reply_error :: "CommandReply \<Rightarrow> error" where
  "reply_error reply = (case crError reply of None \<Rightarrow> Errorf ''%s'' [StrArg []] | Some m \<Rightarrow> Wrapf ''%s'' [] m)"

datatype Attempt = Broke | Tried | Served CommandReply

definition attempt :: "'w client_env \<Rightarrow> int \<Rightarrow> Endpoint \<Rightarrow> Command \<Rightarrow> node_id \<Rightarrow> Router \<times> 'w \<times> error option \<Rightarrow>
    (Router \<times> 'w \<times> error option) \<times> Attempt" where
  "attempt env i ep cmd node st = (case st of (r, w, lastErr) \<Rightarrow>
     (case ceCtxErr env w of
        (w1, Some err) \<Rightarrow> ((r, w1, lastErr), Broke)
      | (w1, None) \<Rightarrow>
          (case ceResolve env w1 node of
             (w2, Some err) \<Rightarrow> ((r, w2, Some err), Tried)
           | (w2, None) \<Rightarrow>
               (case ceCall env w2 node ep cmd of
                  (w3, Inl err) \<Rightarrow> ((InvalidateLeader i r, w3, Some err), Tried)
                | (w3, Inr reply) \<Rightarrow>
                    if crSuccess reply then ((SetLeader i node r, w3, lastErr), Served reply)
                    else ((if crLeaderHint reply \<noteq> [] then SetLeader i (crLeaderHint reply) r else InvalidateLeader i r,
                           w3, Some (reply_error reply)), Tried)))))"

fun sweep :: "'w client_env \<Rightarrow> int \<Rightarrow> Endpoint \<Rightarrow> Command \<Rightarrow> node_id list \<Rightarrow> Router \<times> 'w \<times> error option \<Rightarrow>
    (Router \<times> 'w \<times> error option) \<times> CommandReply option" where
  "sweep env i ep cmd [] st = (st, None)"
| "sweep env i ep cmd (node # nodes) st = (case attempt env i ep cmd node st of
     (st', Broke) \<Rightarrow> (st', None)
   | (st', Served reply) \<Rightarrow> (st', Some reply)
   | (st', Tried) \<Rightarrow> sweep env i ep cmd nodes st')"

fun do_loop :: "nat \<Rightarrow> 'w client_env \<Rightarrow> Shard \<Rightarrow> Endpoint \<Rightarrow> Command \<Rightarrow> Router \<times> 'w \<times> error option \<Rightarrow>
    (Router \<times> 'w \<times> (error + CommandReply)) option" where
  "do_loop 0 env s ep cmd st = None"
| "do_loop (Suc fuel) env s ep cmd (r, w, lastErr) =
     (case ceCtxErr env w of
        (w1, Some err) \<Rightarrow> Some (r, w1, Inl (case lastErr of
            Some e \<Rightarrow> Wrapf ''shard: shard %d unavailable: %w'' [IntArg (shID s)] e | None \<Rightarrow> err))
      | (w1, None) \<Rightarrow>
          (case sweep env (shID s) ep cmd (Candidates r s) (r, w1, lastErr) of
             ((r2, w2, e2), Some reply) \<Rightarrow> Some (r2, w2, Inr reply)
           | ((r2, w2, e2), None) \<Rightarrow> do_loop fuel env s ep cmd (r2, ceWait env w2, e2)))"

text \<open>One sequence number per logical request; the shard is looked up first.\<close>

definition client_cmd :: "Client \<Rightarrow> string \<Rightarrow> string \<Rightarrow> Command" where
  "client_cmd c key value = \<lparr>cmClientId = clClientID c, cmSeqNo = clSeq c + 1, cmOp = OP_UNSPECIFIED,
     cmKey = key, cmValue = value\<rparr>"

definition client_do :: "nat \<Rightarrow> 'w client_env \<Rightarrow> Endpoint \<Rightarrow> string \<Rightarrow> string \<Rightarrow> Client \<Rightarrow> 'w \<Rightarrow>
    (Client \<times> 'w \<times> (error + CommandReply)) option" where
  "client_do fuel env ep key value c w = (case ShardFor (clRouter c) key of
     Inl err \<Rightarrow> Some (c, w, Inl err)
   | Inr s \<Rightarrow> map_option (\<lambda>(r, w', res). (c\<lparr>clRouter := r, clSeq := clSeq c + 1\<rparr>, w', res))
       (do_loop fuel env s ep (client_cmd c key value) (clRouter c, w, None)))"

definition client_Get :: "nat \<Rightarrow> 'w client_env \<Rightarrow> string \<Rightarrow> Client \<Rightarrow> 'w \<Rightarrow> (Client \<times> 'w \<times> (error + (string \<times> bool))) option" where
  "client_Get fuel env key c w = map_option (\<lambda>(c', w', res). (c', w', case res of
       Inl err \<Rightarrow> Inl err | Inr reply \<Rightarrow> Inr (crValue reply, crFound reply)))
     (client_do fuel env EpGet key [] c w)"

definition res_err :: "error + CommandReply \<Rightarrow> error option" where
  "res_err res = (case res of Inl err \<Rightarrow> Some err | Inr reply \<Rightarrow> None)"

definition client_Put :: "nat \<Rightarrow> 'w client_env \<Rightarrow> string \<Rightarrow> string \<Rightarrow> Client \<Rightarrow> 'w \<Rightarrow> (Client \<times> 'w \<times> error option) option" where
  "client_Put fuel env key value c w = map_option (\<lambda>(c', w', res). (c', w', res_err res)) (client_do fuel env EpPut key value c w)"

definition client_Append :: "nat \<Rightarrow> 'w client_env \<Rightarrow> string \<Rightarrow> string \<Rightarrow> Client \<Rightarrow> 'w \<Rightarrow> (Client \<times> 'w \<times> error option) option" where
  "client_Append fuel env key value c w = map_option (\<lambda>(c', w', res). (c', w', res_err res)) (client_do fuel env EpAppend key value c w)"

definition client_Delete :: "nat \<Rightarrow> 'w client_env \<Rightarrow> string \<Rightarrow> Client \<Rightarrow> 'w \<Rightarrow> (Client \<times> 'w \<times> error option) option" where
  "client_Delete fuel env key c w = map_option (\<lambda>(c', w', res). (c', w', res_err res)) (client_do fuel env EpDelete key [] c w)"

section \<open>The loop returns\<close>

text \<open>
  \<open>ctx_budget env left\<close>: \<open>left w\<close> bounds the waits until the context is done. No call gives time
  back, and a wait takes some.
\<close>

definition ctx_budget :: "'w client_env \<Rightarrow> ('w \<Rightarrow> nat) \<Rightarrow> bool" where
  "ctx_budget env left \<longleftrightarrow> (\<forall>w. left (fst (ceCtxErr env w)) \<le> left w) \<and>
     (\<forall>w node. left (fst (ceResolve env w node)) \<le> left w) \<and>
     (\<forall>w node ep cmd. left (fst (ceCall env w node ep cmd)) \<le> left w) \<and>
     (\<forall>w. left (ceWait env w) \<le> left w - 1) \<and>
     (\<forall>w. left w = 0 \<longrightarrow> snd (ceCtxErr env w) \<noteq> None)"

lemma ctx_budgetD:
  assumes "ctx_budget env left"
  shows "ceCtxErr env w = (w1, r1) \<Longrightarrow> left w1 \<le> left w"
    and "ceResolve env w node = (w2, r2) \<Longrightarrow> left w2 \<le> left w"
    and "ceCall env w node ep cmd = (w3, r3) \<Longrightarrow> left w3 \<le> left w"
    and "left (ceWait env w) \<le> left w - 1"
    and "left w = 0 \<Longrightarrow> snd (ceCtxErr env w) \<noteq> None"
  using assms unfolding ctx_budget_def by (metis fst_conv)+

lemma attempt_budget:
  assumes "ctx_budget env left" "attempt env i ep cmd node st = (st', a)"
  shows "left (fst (snd st')) \<le> left (fst (snd st))"
proof -
  obtain r w e where st: "st = (r, w, e)" by (cases st)
  obtain w1 r1 where c: "ceCtxErr env w = (w1, r1)" by (cases "ceCtxErr env w")
  obtain w2 r2 where d: "ceResolve env w1 node = (w2, r2)" by (cases "ceResolve env w1 node")
  obtain w3 r3 where f: "ceCall env w2 node ep cmd = (w3, r3)" by (cases "ceCall env w2 node ep cmd")
  have "left w1 \<le> left w" "left w2 \<le> left w1" "left w3 \<le> left w2"
    using ctx_budgetD(1-3) [OF assms(1)] c d f by blast+
  then show ?thesis
    using assms(2) st c d f by (auto simp: attempt_def split: option.splits sum.splits if_splits)
qed

lemma sweep_budget:
  assumes "ctx_budget env left"
  shows "sweep env i ep cmd nodes st = (st', res) \<Longrightarrow> left (fst (snd st')) \<le> left (fst (snd st))"
proof (induction nodes arbitrary: st)
  case (Cons node nodes)
  obtain st1 a where a: "attempt env i ep cmd node st = (st1, a)" by (cases "attempt env i ep cmd node st")
  from attempt_budget [OF assms a] Cons a show ?case by (cases a) fastforce+
qed simp

lemma do_loop_returns:
  assumes "ctx_budget env left"
  shows "left (fst (snd st)) < fuel \<Longrightarrow> \<exists>y. do_loop fuel env s ep cmd st = Some y"
proof (induction fuel arbitrary: st)
  case (Suc fuel)
  obtain r w e where st: "st = (r, w, e)" by (cases st)
  obtain w1 r1 where c: "ceCtxErr env w = (w1, r1)" by (cases "ceCtxErr env w")
  obtain r2 w2 e2 res where sw: "sweep env (shID s) ep cmd (Candidates r s) (r, w1, e) = ((r2, w2, e2), res)"
    by (cases "sweep env (shID s) ep cmd (Candidates r s) (r, w1, e)") (metis prod.collapse)
  show ?case
  proof (cases "r1 = None \<and> res = None")
    case True
    then have "0 < left w" using ctx_budgetD(5) [OF assms, of w] c by fastforce
    moreover have "left (ceWait env w2) \<le> left w2 - 1" "left w2 \<le> left w1" "left w1 \<le> left w"
      using ctx_budgetD(4) [OF assms] sweep_budget [OF assms sw] ctx_budgetD(1) [OF assms c] by simp_all
    ultimately have "left (ceWait env w2) < fuel" using Suc.prems st by simp
    then show ?thesis using Suc.IH [of "(r2, ceWait env w2, e2)"] st c sw True by simp
  qed (use st c sw in \<open>auto split: option.splits\<close>)
qed simp

section \<open>Where the answer comes from\<close>

lemma attempt_served:
  assumes "attempt env i ep cmd node st = (st', Served reply)"
  shows "crSuccess reply \<and> (\<exists>w w'. ceCall env w node ep cmd = (w', Inr reply)) \<and>
     (node \<noteq> [] \<longrightarrow> Router_Leader (fst st') i = Some node)"
proof -
  obtain r w e where st: "st = (r, w, e)" by (cases st)
  obtain w1 r1 where c: "ceCtxErr env w = (w1, r1)" by (cases "ceCtxErr env w")
  obtain w2 r2 where d: "ceResolve env w1 node = (w2, r2)" by (cases "ceResolve env w1 node")
  obtain w3 r3 where f: "ceCall env w2 node ep cmd = (w3, r3)" by (cases "ceCall env w2 node ep cmd")
  have "r1 = None" "r2 = None" "r3 = Inr reply" "crSuccess reply" "st' = (SetLeader i node r, w3, e)"
    using assms st c d f by (auto simp: attempt_def split: option.splits sum.splits if_splits)
  then show ?thesis using f by (auto simp: SetLeader_def Router_Leader_def)
qed

lemma sweep_served:
  "sweep env i ep cmd nodes st = (st', Some reply) \<Longrightarrow>
     crSuccess reply \<and> (\<exists>node \<in> set nodes. (\<exists>w w'. ceCall env w node ep cmd = (w', Inr reply)) \<and>
       (node \<noteq> [] \<longrightarrow> Router_Leader (fst st') i = Some node))"
proof (induction nodes arbitrary: st)
  case (Cons node nodes)
  obtain st1 a where a: "attempt env i ep cmd node st = (st1, a)" by (cases "attempt env i ep cmd node st")
  show ?case
  proof (cases a)
    case (Served rep)
    then show ?thesis using Cons.prems a attempt_served [of env i ep cmd node st st1 rep] by auto
  next
    case Tried
    then have "sweep env i ep cmd nodes st1 = (st', Some reply)" using Cons.prems a by simp
    from Cons.IH [OF this] show ?thesis by (meson list.set_intros(2))
  qed (use Cons.prems a in simp)
qed simp

lemma do_loop_served:
  "do_loop fuel env s ep cmd st = Some (r, w, Inr reply) \<Longrightarrow>
     crSuccess reply \<and> (\<exists>node w1 w2. ceCall env w1 node ep cmd = (w2, Inr reply) \<and>
       (node \<noteq> [] \<longrightarrow> Router_Leader r (shID s) = Some node))"
proof (induction fuel arbitrary: st)
  case (Suc fuel)
  obtain r0 w0 e0 where st: "st = (r0, w0, e0)" by (cases st)
  obtain w1 r1 where c: "ceCtxErr env w0 = (w1, r1)" by (cases "ceCtxErr env w0")
  obtain r2 w2 e2 res where sw: "sweep env (shID s) ep cmd (Candidates r0 s) (r0, w1, e0) = ((r2, w2, e2), res)"
    by (cases "sweep env (shID s) ep cmd (Candidates r0 s) (r0, w1, e0)") (metis prod.collapse)
  show ?case
  proof (cases r1)
    case None
    show ?thesis
    proof (cases res)
      case (Some rep)
      then have "r2 = r" "rep = reply" using Suc.prems st c sw None by simp_all
      then show ?thesis using sweep_served [OF sw [unfolded Some]] by auto
    next
      case r: None
      then have "do_loop fuel env s ep cmd (r2, ceWait env w2, e2) = Some (r, w, Inr reply)"
        using Suc.prems st c sw None by simp
      then show ?thesis by (rule Suc.IH)
    qed
  qed (use Suc.prems st c in simp)
qed simp

text \<open>A replica that serves every request is found in the first pass, whatever the cache holds.\<close>

definition serving :: "'w client_env \<Rightarrow> node_id \<Rightarrow> bool" where
  "serving env node \<longleftrightarrow> (\<forall>w. snd (ceResolve env w node) = None) \<and>
     (\<forall>w ep cmd. \<exists>reply. snd (ceCall env w node ep cmd) = Inr reply \<and> crSuccess reply)"

lemma attempt_serving:
  assumes "\<And>w. snd (ceCtxErr env w) = None" "serving env node"
  shows "\<exists>st' reply. attempt env i ep cmd node st = (st', Served reply)"
proof -
  obtain r w e where st: "st = (r, w, e)" by (cases st)
  obtain w1 where c: "ceCtxErr env w = (w1, None)" using assms(1) [of w] by (cases "ceCtxErr env w") auto
  obtain w2 where d: "ceResolve env w1 node = (w2, None)"
    using assms(2) unfolding serving_def by (metis prod.collapse)
  obtain w3 reply where "ceCall env w2 node ep cmd = (w3, Inr reply)" "crSuccess reply"
    using assms(2) unfolding serving_def by (metis prod.collapse)
  then show ?thesis using st c d by (simp add: attempt_def)
qed

lemma attempt_not_broke:
  assumes "\<And>w. snd (ceCtxErr env w) = None"
  shows "snd (attempt env i ep cmd node st) \<noteq> Broke"
proof -
  obtain r w e where st: "st = (r, w, e)" by (cases st)
  obtain w1 where c: "ceCtxErr env w = (w1, None)" using assms [of w] by (cases "ceCtxErr env w") auto
  then show ?thesis using st by (auto simp: attempt_def split: prod.splits option.splits sum.splits)
qed

lemma sweep_serving:
  assumes "\<And>w. snd (ceCtxErr env w) = None" "serving env l"
  shows "l \<in> set nodes \<Longrightarrow> \<exists>st' reply. sweep env i ep cmd nodes st = (st', Some reply)"
proof (induction nodes arbitrary: st)
  case (Cons node nodes)
  obtain st1 a where a: "attempt env i ep cmd node st = (st1, a)" by (cases "attempt env i ep cmd node st")
  show ?case
  proof (cases a)
    case Broke
    then show ?thesis using attempt_not_broke [OF assms(1), of i ep cmd node st] a by simp
  next
    case Tried
    then have "l \<noteq> node" using attempt_serving [OF assms(1,2), of i ep cmd st] a by auto
    then show ?thesis using Cons a Tried by simp
  next
    case (Served rep)
    then show ?thesis using a by (cases st1) simp
  qed
qed simp

lemma do_loop_serving:
  assumes "\<And>w. snd (ceCtxErr env w) = None" "serving env l" "l \<in> set (shReplicas s)"
  shows "\<exists>r w reply. do_loop (Suc fuel) env s ep cmd st = Some (r, w, Inr reply) \<and> crSuccess reply"
proof -
  obtain r w e where st: "st = (r, w, e)" by (cases st)
  obtain w1 where c: "ceCtxErr env w = (w1, None)" using assms(1) [of w] by (cases "ceCtxErr env w") auto
  have "l \<in> set (Candidates r s)" using assms(3) Candidates_cover by blast
  then obtain st' reply where "sweep env (shID s) ep cmd (Candidates r s) (r, w1, e) = (st', Some reply)"
    using sweep_serving [OF assms(1,2)] by blast
  then show ?thesis using st c sweep_served by (cases st') fastforce
qed

end
