(* ===== verification/Shard_Properties.thy ===== *)
theory Shard_Properties
  imports Shard_Client
begin

text \<open>
  The properties of sharding: what a validated map promises of every key, what validation misses,
  and when the client returns and succeeds.
\<close>

text \<open>C22: A shard map that passes validation routes every key: \<open>Lookup\<close> returns a shard of the map whose
  range holds the key, and when no two shards start at the same key it is the only one.\<close>

theorem lookup_total_unique:
  assumes "Validate m = (m', None)"
  shows "\<exists>s \<in> set m. Lookup m' key = Inr s \<and> Contains s key \<and>
    (distinct (map shStart m) \<longrightarrow> (\<forall>t \<in> set m. Contains t key \<longrightarrow> t = s))"
proof -
  note v = Validate_ok [OF assms]
  have m: "set m' = set m" "mset (map shStart m') = mset (map shStart m)" using v(1) by simp_all
  have "\<exists>s \<in> set m'. Contains s key" by (rule chained_covers [OF v(5,2)]) (simp add: v(6))
  from Lookup_found [OF this] obtain s where s: "s \<in> set m'" "Lookup m' key = Inr s" "Contains s key" by blast
  have "t = s" if "distinct (map shStart m)" "t \<in> set m" "Contains t key" for t
  proof -
    have "distinct (map shStart m')" using that(1) m(2) by (metis mset_eq_imp_distinct_iff)
    then show ?thesis using chained_unique [OF v(5,4)] that s m(1) by blast
  qed
  then show ?thesis using s m(1) by blast
qed

definition wit_map :: ShardMap where
  "wit_map = [\<lparr>shID = 2, shStart = ''m'', shEnd = [], shReplicas = [''n2'', ''n3'']\<rparr>,
     \<lparr>shID = 1, shStart = [], shEnd = ''m'', shReplicas = [''n1'']\<rparr>]"

lemma wit_map_ok: "Validate wit_map = (rev wit_map, None)"
  by (simp add: Validate_def wit_map_def Let_def check_shards_Cons)

theorem lookup_total_unique_witness:
  "\<exists>s. Lookup (rev wit_map) ''k'' = Inr s \<and> Contains s ''k'' \<and> s \<noteq> wit_map ! 0"
proof -
  obtain s where s: "Lookup (rev wit_map) ''k'' = Inr s" "Contains s ''k''"
    using lookup_total_unique [OF wit_map_ok, of "''k''"] by blast
  moreover have "\<not> Contains (wit_map ! 0) ''k''" by code_simp
  ultimately show ?thesis by auto
qed

text \<open>Validation does not reject every overlap. It compares the end of each shard with the start of
  the next, and the empty string means both the lowest start and no end: two shards that both span the
  whole key space pass, and every key is in both ranges.\<close>

theorem overlapping_shards_accepted:
  "\<exists>m m' s t. Validate m = (m', None) \<and> s \<in> set m \<and> t \<in> set m \<and> s \<noteq> t \<and> (\<forall>key. Contains s key \<and> Contains t key)"
proof -
  let ?s = "\<lparr>shID = 1, shStart = [], shEnd = [], shReplicas = [''n1'']\<rparr>" and ?t = "\<lparr>shID = 2, shStart = [], shEnd = [], shReplicas = [''n2'']\<rparr>"
  have "Validate [?s, ?t] = ([?s, ?t], None)" by (simp add: Validate_def Let_def check_shards_Cons)
  moreover have "Contains ?s key \<and> Contains ?t key" for key by (simp add: Contains_def)
  moreover have "?s \<noteq> ?t" by simp
  ultimately show ?thesis by (metis list.set_intros)
qed

section \<open>The client\<close>

text \<open>C23: A call of the client returns. When the context allows only finitely many more waits (no more
  than \<open>left\<close> says, and no call gives any back), enough fuel gives a result; and a success it returns is a
  reply that a node gave to this very request, marked as a success, under the number the client
  reserved for it.\<close>

theorem client_returns:
  assumes "ctx_budget env left" "left w < fuel"
  shows "\<exists>c' w' res. client_do fuel env ep key value c w = Some (c', w', res) \<and>
    (\<forall>reply. res = Inr reply \<longrightarrow> crSuccess reply \<and>
      (\<exists>node w1 w2. ceCall env w1 node ep (client_cmd c key value) = (w2, Inr reply)))"
proof (cases "ShardFor (clRouter c) key")
  case (Inl err)
  then show ?thesis by (simp add: client_do_def)
next
  case (Inr s)
  obtain r w' res where d: "do_loop fuel env s ep (client_cmd c key value) (clRouter c, w, None) = Some (r, w', res)"
    using do_loop_returns [OF assms(1), of "(clRouter c, w, None)" fuel s ep "client_cmd c key value"] assms(2) by auto
  show ?thesis
  proof (cases res)
    case (Inr reply)
    then show ?thesis using \<open>ShardFor (clRouter c) key = Inr s\<close> d do_loop_served [OF d [unfolded Inr]]
      by (auto simp: client_do_def)
  qed (use \<open>ShardFor (clRouter c) key = Inr s\<close> d in \<open>simp add: client_do_def\<close>)
qed

text \<open>A world of three waits in which only \<open>''n3''\<close> answers, with a success.\<close>

definition wit_client_env :: "nat client_env" where
  "wit_client_env = \<lparr>ceCtxErr = \<lambda>w. (w, if w = 0 then Some (Errorf ''context done'' []) else None),
     ceResolve = \<lambda>w node. (w, None),
     ceCall = \<lambda>w node ep cmd. (w, if node = ''n3'' then Inr ok_reply else Inl (Errorf ''unavailable'' [])),
     ceWait = \<lambda>w. w - 1\<rparr>"

theorem client_returns_witness:
  "\<exists>c' w' res. client_do 4 wit_client_env EpPut ''z'' ''1'' (NewClient (NewRouter (rev wit_map)) ''a'') 3 = Some (c', w', res)"
proof -
  have "ctx_budget wit_client_env (\<lambda>w. w)" by (simp add: ctx_budget_def wit_client_env_def)
  from client_returns [OF this, of 3 4 EpPut "''z''" "''1''" "NewClient (NewRouter (rev wit_map)) ''a''"] show ?thesis by auto
qed

text \<open>C26: The client finds the serving replica. If the context is not done and one replica of the shard of
  the key serves every request, the first pass over the candidates succeeds, whatever the leader cache
  holds, whatever hints the other replicas give and however they fail.\<close>

theorem client_finds_server:
  assumes "\<And>w. snd (ceCtxErr env w) = None" "serving env l"
    and "ShardFor (clRouter c) key = Inr s" "l \<in> set (shReplicas s)"
  shows "\<exists>c' w' reply. client_do (Suc fuel) env ep key value c w = Some (c', w', Inr reply) \<and> crSuccess reply \<and>
    clSeq c' = clSeq c + 1"
proof -
  obtain r w' reply where "do_loop (Suc fuel) env s ep (client_cmd c key value) (clRouter c, w, None) = Some (r, w', Inr reply)"
    "crSuccess reply"
    using do_loop_serving [OF assms(1,2,4)] by blast
  then show ?thesis using assms(3) by (simp add: client_do_def)
qed

theorem client_finds_server_witness:
  "\<exists>c' w' reply. client_do 1 (wit_client_env\<lparr>ceCtxErr := \<lambda>w. (w, None)\<rparr>) EpPut ''z'' ''1''
     ((NewClient (NewRouter (rev wit_map)) ''a'')\<lparr>clRouter := SetLeader 2 ''gone'' (NewRouter (rev wit_map))\<rparr>) 3 = Some (c', w', Inr reply) \<and>
   crSuccess reply"
proof -
  let ?env = "wit_client_env\<lparr>ceCtxErr := \<lambda>w. (w, None)\<rparr>"
  let ?c = "(NewClient (NewRouter (rev wit_map)) ''a'')\<lparr>clRouter := SetLeader 2 ''gone'' (NewRouter (rev wit_map))\<rparr>"
  have s: "serving ?env ''n3''" by (simp add: serving_def wit_client_env_def ok_reply_def)
  have l: "ShardFor (clRouter ?c) ''z'' = Inr (wit_map ! 0)"
    by (simp add: ShardFor_def NewClient_def SetLeader_def NewRouter_def wit_map_def Contains_def)
  have "\<exists>c' w' reply. client_do (Suc 0) ?env EpPut ''z'' ''1'' ?c 3 = Some (c', w', Inr reply) \<and> crSuccess reply \<and> clSeq c' = clSeq ?c + 1"
    by (rule client_finds_server [OF _ s l]) (simp_all add: wit_map_def)
  then show ?thesis by auto
qed

end
