(* ===== verification/Supervisor_Strays.thy ===== *)
theory Supervisor_Strays
  imports Net_Properties
begin

text \<open>
  Goroutines that outlive a crash. \<open>Node.Stop\<close> (src/internal/raft/node.go) waits for \<open>run\<close> and
  \<open>applyLoop\<close> only: the goroutines of an election and of replication are in no wait group, so one that
  waits for its RPC when \<open>Supervisor.Crash\<close> runs comes back later, in the node object it was started on.
  That object's storage has been closed, but \<open>SaveHardState\<close> writes a file by name and not through the
  handle that was closed: it works on the directory of whatever incarnation is running by then.

  \<open>Process\<close> is a supervisor together with the node objects that its crashes have left to their
  goroutines. A crash of the whole operating system process leaves none.
\<close>

section \<open>A process and what is left of its former nodes\<close>

record ('w, 'c) Process =
  prSup :: "('w, 'c) Supervisor"
  prLeft :: "DiskStorage Node list"

definition left_behind :: "DiskStorage Server \<Rightarrow> DiskStorage Node" where
  "left_behind sv = (svNode sv)\<lparr>storage := (storage (svNode sv))\<lparr>dOpen := False\<rparr>\<rparr>"

definition pr_Crash :: "('w, 'c) Process \<Rightarrow> ('w, 'c) Process" where
  "pr_Crash p = \<lparr>prSup = sup_crash (prSup p), prLeft = prLeft p @
     (if spCrashed (prSup p) then [] else case spServer (prSup p) of None \<Rightarrow> [] | Some sv \<Rightarrow> [left_behind sv])\<rparr>"

definition pr_Restart :: "env \<Rightarrow> ('w, 'c) Process \<Rightarrow> ('w, 'c) Process option" where
  "pr_Restart e p = (case sup_restart e (prSup p) of
     Some (s, None) \<Rightarrow> Some (p\<lparr>prSup := s\<rparr>) | _ \<Rightarrow> None)"

text \<open>What a goroutine does once its RPC has returned.\<close>

datatype Returned =
    VoteReturned nat nat RequestVoteReply
  | AppendReturned node_id nat nat nat AppendEntriesReply
  | SnapshotReturned node_id nat nat InstallSnapshotReply

fun returned :: "Returned \<Rightarrow> DiskStorage Node \<Rightarrow> DiskStorage Node option" where
  "returned (VoteReturned t votes r) n = map_option fst (voteReply DiskStorage_ops t votes r n)"
| "returned (AppendReturned p t prev k r) n = appendReply DiskStorage_ops p t prev k r n"
| "returned (SnapshotReturned p t sent r) n = snapshotReply DiskStorage_ops p t sent r n"

fun returned_term :: "Returned \<Rightarrow> nat" where
  "returned_term (VoteReturned t votes r) = rrTerm r"
| "returned_term (AppendReturned p t prev k r) = arTerm r"
| "returned_term (SnapshotReturned p t sent r) = irTerm r"

definition live_files :: "('w, 'c) Supervisor \<Rightarrow> Fs" where
  "live_files s = (case spServer s of None \<Rightarrow> spDisk s | Some sv \<Rightarrow> server_disk sv)"

definition with_files :: "Fs \<Rightarrow> ('w, 'c) Supervisor \<Rightarrow> ('w, 'c) Supervisor" where
  "with_files fs s = (case spServer s of
     None \<Rightarrow> s\<lparr>spDisk := fs\<rparr>
   | Some sv \<Rightarrow> s\<lparr>spServer := Some (sv\<lparr>svNode := (svNode sv)\<lparr>storage := (storage (svNode sv))\<lparr>dFs := fs\<rparr>\<rparr>\<rparr>)\<rparr>)"

text \<open>The \<open>k\<close>-th node that was left behind gets a reply: it works on the files as they are now.\<close>

definition pr_Return :: "nat \<Rightarrow> Returned \<Rightarrow> ('w, 'c) Process \<Rightarrow> ('w, 'c) Process option" where
  "pr_Return k r p =
     (if length (prLeft p) \<le> k then None
      else let n = prLeft p ! k
        in map_option (\<lambda>n'. \<lparr>prSup = with_files (dFs (storage n')) (prSup p), prLeft = (prLeft p)[k := n']\<rparr>)
             (returned r (n\<lparr>storage := (storage n)\<lparr>dFs := live_files (prSup p)\<rparr>\<rparr>)))"

text \<open>The running node starts an election, and answers a request for its vote.\<close>

definition pr_Election :: "env \<Rightarrow> ('w, 'c) Process \<Rightarrow> (('w, 'c) Process \<times> RequestVoteArgs option) option" where
  "pr_Election e p = (case spServer (prSup p) of
     None \<Rightarrow> None
   | Some sv \<Rightarrow> map_option (\<lambda>(n, r). (p\<lparr>prSup := (prSup p)\<lparr>spServer := Some (sv\<lparr>svNode := n\<rparr>)\<rparr>\<rparr>, r))
       (startElection DiskStorage_ops e (svNode sv)))"

definition pr_Vote :: "env \<Rightarrow> RequestVoteArgs \<Rightarrow> ('w, 'c) Process \<Rightarrow>
    (('w, 'c) Process \<times> (error option + RequestVoteReply)) option" where
  "pr_Vote e args p = (case spServer (prSup p) of
     None \<Rightarrow> None
   | Some sv \<Rightarrow> map_option (\<lambda>(n, r). (p\<lparr>prSup := (prSup p)\<lparr>spServer := Some (sv\<lparr>svNode := n\<rparr>)\<rparr>\<rparr>, r))
       (handleRequestVote DiskStorage_ops e args (svNode sv)))"

section \<open>A reply of a newer term rewrites the hard state\<close>

lemma returned_newer:
  "\<not> failed n \<Longrightarrow> currentTerm n < returned_term r \<Longrightarrow>
     returned r n = Some (becomeFollowerLocked DiskStorage_ops (returned_term r) n)"
  by (cases r) (simp_all add: voteReply_def appendReply_def snapshotReply_def)

lemma quiet_SaveHardState: "disk_SaveHardState d t v = (d', r) \<Longrightarrow> faults (dFs d) = [] \<Longrightarrow> r = None \<and> faults (dFs d') = []"
  by (auto simp: disk_SaveHardState_def Let_def split: prod.splits dest: quiet_stepD [OF quiet_replace])

lemma returned_saves:
  assumes "\<not> failed n" "currentTerm n < returned_term r" "faults (dFs (storage n)) = []" "hard_fits (returned_term r) []"
  shows "\<exists>n'. returned r n = Some n' \<and> faults (dFs (storage n')) = [] \<and>
    disk_SaveHardState (storage n) (returned_term r) [] = (storage n', None)"
proof -
  obtain d r' where d: "disk_SaveHardState (storage n) (returned_term r) [] = (d, r')"
    by (cases "disk_SaveHardState (storage n) (returned_term r) []")
  have q: "r' = None \<and> faults (dFs d) = []" by (rule quiet_SaveHardState [OF d assms(3)])
  show ?thesis
    using returned_newer [OF assms(1,2)] d q assms(2)
    by (simp add: becomeFollowerLocked_def saveHardStateLocked_def DiskStorage_ops_def)
qed

text \<open>Files alone decide what is read back.\<close>

lemma view_of_files: "dFs d = dFs d' \<Longrightarrow> disk_view d = disk_view d' \<and> (disk_recov d \<longleftrightarrow> disk_recov d')"
  by (simp add: disk_view_def disk_hs_def disk_snap_def wal_entries_def wal_file_def disk_recov_def)

text \<open>
  A reply that comes back after a crash and a restart takes the vote of the running node back. Let a
  node that was left behind get a reply of a term newer than its own. Then the files under the running
  node hold that term and no vote, whatever they held before, while its memory and its log stay as they
  were; after the next crash and restart the node is in that term and has not voted.
\<close>

lemma with_files_running:
  "spServer s = Some sv \<Longrightarrow> spServer (with_files fs s) =
     Some (sv\<lparr>svNode := (svNode sv)\<lparr>storage := (storage (svNode sv))\<lparr>dFs := fs\<rparr>\<rparr>\<rparr>) \<and>
     spCfg (with_files fs s) = spCfg s \<and> (sup_ok (with_files fs s) \<longleftrightarrow> sup_ok s)"
  by (simp add: with_files_def sup_ok_def)

theorem late_reply_takes_vote_back:
  fixes p :: "('w, 'c) Process"
  assumes "k < length (prLeft p)" "\<not> failed (prLeft p ! k)" "currentTerm (prLeft p ! k) < returned_term r" "hard_fits (returned_term r) []"
    and "sup_ok (prSup p)" "spServer (prSup p) = Some sv" "disk_recov (storage (svNode sv))" "faults (dFs (storage (svNode sv))) = []"
    and "scID (spCfg (prSup p)) \<noteq> []" "scTransport (spCfg (prSup p))"
    and "orDefault (scElectionTimeoutMin (spCfg (prSup p))) defaultElectionTimeoutMin \<le>
         orDefault (scElectionTimeoutMax (spCfg (prSup p))) defaultElectionTimeoutMax"
  shows "\<exists>p1 p2 n1 n2. pr_Return k r p = Some p1 \<and> sup_Node (prSup p1) = Some n1 \<and>
    currentTerm n1 = currentTerm (svNode sv) \<and> votedFor n1 = votedFor (svNode sv) \<and> nlog n1 = nlog (svNode sv) \<and>
    pr_Restart e (pr_Crash p1) = Some p2 \<and> sup_Node (prSup p2) = Some n2 \<and>
    currentTerm n2 = returned_term r \<and> votedFor n2 = [] \<and>
    nlog n2 = psLog (disk_view (storage (svNode sv))) \<and> snapshotData n2 = psSnapshotData (disk_view (storage (svNode sv)))"
proof -
  let ?n = "(prLeft p ! k)\<lparr>storage := (storage (prLeft p ! k))\<lparr>dFs := live_files (prSup p)\<rparr>\<rparr>"
  have fs: "live_files (prSup p) = dFs (storage (svNode sv))" using assms(6) by (simp add: live_files_def server_disk_def)
  obtain n' where n': "returned r ?n = Some n'" "faults (dFs (storage n')) = []"
    "disk_SaveHardState (storage ?n) (returned_term r) [] = (storage n', None)"
    using returned_saves [of ?n r] assms(2-4,8) fs by auto
  let ?d = "(storage (svNode sv))\<lparr>dFs := dFs (storage n')\<rparr>"
  let ?s = "with_files (dFs (storage n')) (prSup p)"
  let ?p1 = "\<lparr>prSup = ?s, prLeft = (prLeft p)[k := n']\<rparr>"
  have p1: "pr_Return k r p = Some ?p1" using assms(1) n'(1) by (simp add: pr_Return_def Let_def)
  note w = with_files_running [OF assms(6), of "dFs (storage n')"]
  let ?sv = "sv\<lparr>svNode := (svNode sv)\<lparr>storage := ?d\<rparr>\<rparr>"
  note vn = view_of_files [of "storage ?n" "storage (svNode sv)"] view_of_files [of ?d "storage n'"]
  note h = SaveHardState_view [OF n'(3) assms(4)]
  have rec: "disk_recov ?d" using h(4) vn assms(7) fs by simp
  have hs: "disk_hs ?d = (returned_term r, [])" "disk_snap ?d = disk_snap (storage (svNode sv))" "wal_file ?d = wal_file (storage (svNode sv))"
    using h(1-3) fs by (simp_all add: disk_hs_def disk_snap_def wal_file_def)
  then have v: "psCurrentTerm (disk_view ?d) = returned_term r" "psVotedFor (disk_view ?d) = []"
    "psLog (disk_view ?d) = psLog (disk_view (storage (svNode sv)))"
    "psSnapshotData (disk_view ?d) = psSnapshotData (disk_view (storage (svNode sv)))"
    by (simp_all add: disk_view_def make_view_def wal_entries_def split: prod.splits)
  have srv: "spServer ?s = Some ?sv" "sup_ok ?s" "spCfg ?s = spCfg (prSup p)" using w assms(5) by simp_all
  have q: "disk_recov (storage (svNode ?sv))" "faults (dFs (storage (svNode ?sv))) = []" using rec n'(2) by simp_all
  note cr = crash_restart_resumes [OF srv(2,1) q(1) assms(9-11) [folded srv(3)], of e]
  obtain s2 node where s2: "sup_restart e (sup_crash ?s) = Some (s2, None)" "sup_Node s2 = Some node"
    "currentTerm node = returned_term r" "votedFor node = []"
    "nlog node = psLog (disk_view (storage (svNode sv)))" "snapshotData node = psSnapshotData (disk_view (storage (svNode sv)))"
    using cr q(2) v by auto
  have "\<exists>p2. pr_Restart e (pr_Crash ?p1) = Some p2 \<and> prSup p2 = s2"
    using s2(1) by (simp add: pr_Restart_def pr_Crash_def)
  then show ?thesis using p1 s2 srv(1) by (auto simp: sup_Node_def)
qed

section \<open>Two votes in one term\<close>

text \<open>A node ''n1'' with an empty log that keeps term \<open>t\<close> and vote \<open>v\<close>, in memory and on the disk.\<close>

definition blank :: "nat \<Rightarrow> node_id \<Rightarrow> DiskStorage Node \<Rightarrow> bool" where
  "blank t v n \<longleftrightarrow> \<not> failed n \<and> quiet_disk (storage n) \<and> disk_inv (storage n) \<and>
     disk_view (storage n) = \<lparr>psCurrentTerm = t, psVotedFor = v, psLog = [boundary_entry 0 0], psSnapshotData = []\<rparr> \<and>
     currentTerm n = t \<and> votedFor n = v \<and> nlog n = [boundary_entry 0 0] \<and> lastIncludedIndex n = 0 \<and> nid n = ''n1''"

lemma blank_save:
  assumes "blank t v n" "hard_fits t' v'"
  shows "blank t' v' (saveHardStateLocked DiskStorage_ops t' v' n)"
proof -
  obtain d r where d: "disk_SaveHardState (storage n) t' v' = (d, r)" by (cases "disk_SaveHardState (storage n) t' v'")
  have q: "r = None" "quiet_disk d" using quiet_save [OF d] assms(1) by (simp_all add: blank_def)
  note h = SaveHardState_view [OF d assms(2)]
  have "disk_view d = \<lparr>psCurrentTerm = t', psVotedFor = v', psLog = [boundary_entry 0 0], psSnapshotData = []\<rparr>"
    using h(1-3) q(1) assms(1) by (auto simp: blank_def disk_view_def make_view_def wal_entries_def split: prod.splits)
  then show ?thesis
    using assms(1) h(5) q d by (simp add: blank_def saveHardStateLocked_def DiskStorage_ops_def)
qed

lemma blank_more [simp]:
  "blank t v (resetElectionDeadlineLocked e n) \<longleftrightarrow> blank t v n" "blank t v (n\<lparr>role := ro\<rparr>) \<longleftrightarrow> blank t v n"
  "blank t v (n\<lparr>leaderID := l\<rparr>) \<longleftrightarrow> blank t v n"
  by (simp_all add: blank_def resetElectionDeadlineLocked_def Let_def)

definition ask_vote :: "nat \<Rightarrow> node_id \<Rightarrow> RequestVoteArgs" where
  "ask_vote t c = \<lparr>rvTerm = t, rvCandidateID = c, rvLastLogIndex = 0, rvLastLogTerm = 0\<rparr>"

definition granted_in :: "nat \<Rightarrow> RequestVoteReply" where
  "granted_in t = \<lparr>rrTerm = t, rrVoteGranted = True\<rparr>"

lemma blank_last: "blank t v n \<Longrightarrow> lastLogInfoLocked n = Some (0, 0)"
  by (simp add: blank_def lastLogInfoLocked_def boundary_entry_def)

lemma blank_vote:
  assumes "blank t v n" "t < t' \<or> t = t' \<and> v = []" "hard_fits t' c"
  shows "\<exists>n'. handleRequestVote DiskStorage_ops e (ask_vote t' c) n = Some (n', Inr (granted_in t')) \<and> blank t' c n'"
proof -
  have f: "hard_fits t' []" using assms(3) by (simp add: hard_fits_def)
  define n1 where "n1 = (if t' > currentTerm n then becomeFollowerLocked DiskStorage_ops t' n else n)"
  have b1: "blank t' [] n1"
  proof (cases "t < t'")
    case True
    then have "n1 = saveHardStateLocked DiskStorage_ops t' [] (n\<lparr>role := Follower\<rparr>)"
      using assms(1) by (simp add: n1_def becomeFollowerLocked_def blank_def)
    then show ?thesis using blank_save [OF _ f, of t v "n\<lparr>role := Follower\<rparr>"] assms(1) by simp
  next
    case False
    then show ?thesis using assms(1,2) by (auto simp: n1_def blank_def)
  qed
  let ?n2 = "saveHardStateLocked DiskStorage_ops t' c n1"
  have b2: "blank t' c ?n2" by (rule blank_save [OF b1 assms(3)])
  have u: "candidateLogUpToDateLocked n1 0 0 = Some True" using blank_last [OF b1] by (simp add: candidateLogUpToDateLocked_def)
  have "handleRequestVote DiskStorage_ops e (ask_vote t' c) n =
      Some (resetElectionDeadlineLocked e ?n2, Inr (granted_in t'))"
  proof -
    have nf: "\<not> failed n" "\<not> failed n1" "\<not> failed ?n2" "currentTerm n1 = t'" "votedFor n1 = []"
      using assms(1) b1 b2 by (simp_all add: blank_def)
    show ?thesis unfolding handleRequestVote_def ask_vote_def RequestVoteArgs.select_convs n1_def [symmetric]
      using nf u by (simp add: granted_in_def Let_def)
  qed
  then show ?thesis using b2 by simp
qed

lemma blank_election:
  assumes "blank t v n" "hard_fits (t + 1) ''n1''"
  shows "\<exists>n'. startElection DiskStorage_ops e n = Some (n', Some (ask_vote (t + 1) ''n1'')) \<and> blank (t + 1) ''n1'' n'"
proof -
  let ?n1 = "saveHardStateLocked DiskStorage_ops (t + 1) ''n1'' (n\<lparr>role := Candidate, leaderID := []\<rparr>)"
  have "blank t v (n\<lparr>role := Candidate, leaderID := []\<rparr>)" using assms(1) by (simp add: blank_def)
  then have b: "blank (t + 1) ''n1'' ?n1" by (rule blank_save [OF _ assms(2)])
  then have c: "becomeCandidateLocked DiskStorage_ops e n = resetElectionDeadlineLocked e ?n1"
    using assms(1) by (simp add: becomeCandidateLocked_def Let_def blank_def)
  have "blank (t + 1) ''n1'' (resetElectionDeadlineLocked e ?n1)" using b by simp
  then show ?thesis
    using assms(1) blank_last [of "t + 1" "''n1''" "resetElectionDeadlineLocked e ?n1"] c
    by (simp add: startElection_def Let_def ask_vote_def blank_def)
qed

text \<open>The process of ''n1'' whose node is blank.\<close>

definition blank_process :: "nat \<Rightarrow> node_id \<Rightarrow> ('w, 'c) Process \<Rightarrow> bool" where
  "blank_process t v p \<longleftrightarrow> sup_ok (prSup p) \<and> spCfg (prSup p) = wit_sup_cfg \<and>
     (\<exists>sv. spServer (prSup p) = Some sv \<and> blank t v (svNode sv))"

text \<open>Its disk holds term \<open>t\<close> and vote \<open>v\<close>, whatever the node has in memory.\<close>

definition stored :: "nat \<Rightarrow> node_id \<Rightarrow> ('w, 'c) Process \<Rightarrow> bool" where
  "stored t v p \<longleftrightarrow> sup_ok (prSup p) \<and> spCfg (prSup p) = wit_sup_cfg \<and>
     (\<exists>sv. spServer (prSup p) = Some sv \<and> faults (dFs (storage (svNode sv))) = [] \<and> disk_recov (storage (svNode sv)) \<and>
       disk_view (storage (svNode sv)) = \<lparr>psCurrentTerm = t, psVotedFor = v, psLog = [boundary_entry 0 0], psSnapshotData = []\<rparr>)"

lemma blank_stored: "blank_process t v p \<Longrightarrow> stored t v p"
  by (auto simp: blank_process_def stored_def blank_def quiet_disk_def disk_inv_def)

lemma blank_start:
  assumes "startLocked e s = Some (s', None)" "spCfg s = wit_sup_cfg" "sup_ok s'"
    and "\<exists>d. disk_open (spDisk s) = Inr (d, \<lparr>psCurrentTerm = t, psVotedFor = v, psLog = [boundary_entry 0 0], psSnapshotData = []\<rparr>) \<and>
      quiet_disk d"
  shows "blank_process t v \<lparr>prSup = s', prLeft = l\<rparr>"
proof -
  obtain d where d: "disk_open (spDisk s) = Inr (d, \<lparr>psCurrentTerm = t, psVotedFor = v, psLog = [boundary_entry 0 0], psSnapshotData = []\<rparr>)"
    "quiet_disk d" using assms(4) by blast
  have "disk_open (dFs (d\<lparr>dFs := spDisk s\<rparr>)) = Inr (d, \<lparr>psCurrentTerm = t, psVotedFor = v, psLog = [boundary_entry 0 0], psSnapshotData = []\<rparr>)"
    using d(1) by simp
  note o = disk_open_view [OF this]
  have cfg: "spCfg s' = wit_sup_cfg" using startLocked_cases [OF assms(1)] assms(2) by auto
  obtain node where n: "node = resetElectionDeadlineLocked e (node_from_state (raft_config (spCfg s)) d
        \<lparr>psCurrentTerm = t, psVotedFor = v, psLog = [boundary_entry 0 0], psSnapshotData = []\<rparr> (boundary_entry 0 0))"
      "spServer s' = Some (NewServer node NewStore (scAddrs (spCfg s)))"
    by (rule startLocked_open [OF assms(1)]) (use d(1) in auto)
  have "blank t v node"
    using n(1) o d(2) assms(2)
    by (simp add: blank_def node_from_state_def raft_config_def wit_sup_cfg_def boundary_entry_def resetElectionDeadlineLocked_def Let_def)
  then show ?thesis using n(2) assms(3) cfg by (simp add: blank_process_def NewServer_def)
qed

lemma stored_restart:
  assumes "stored t v p"
  shows "\<exists>p'. pr_Restart e (pr_Crash p) = Some p' \<and> blank_process t v p' \<and>
    prLeft p' = prLeft p @ [left_behind (the (spServer (prSup p)))]"
proof -
  obtain sv where sv: "sup_ok (prSup p)" "spCfg (prSup p) = wit_sup_cfg" "spServer (prSup p) = Some sv"
    and q: "faults (dFs (storage (svNode sv))) = []" "disk_recov (storage (svNode sv))"
    and v: "disk_view (storage (svNode sv)) = \<lparr>psCurrentTerm = t, psVotedFor = v, psLog = [boundary_entry 0 0], psSnapshotData = []\<rparr>"
    using assms by (auto simp: stored_def)
  have c: "\<not> spCrashed (prSup p)" using sv(1,3) by (simp add: sup_ok_def)
  let ?c = "sup_crash (prSup p)"
  have cr: "spCrashed ?c" "spDisk ?c = dFs (storage (svNode sv))" "spCfg ?c = wit_sup_cfg" "sup_ok ?c"
    using c sv(1-3) sup_crash_ok [OF sv(1)] by (simp_all add: sup_crash_def stopLocked_def server_disk_def)
  obtain d where d: "disk_open (spDisk ?c) = Inr (d, \<lparr>psCurrentTerm = t, psVotedFor = v, psLog = [boundary_entry 0 0], psSnapshotData = []\<rparr>)"
    "quiet_disk d" using quiet_open [OF q] cr(2) v by auto
  have "\<exists>s'. startLocked e ?c = Some (s', None)"
    by (rule startLocked_quiet [OF d(1)])
      (simp_all add: cr(3) wit_sup_cfg_def orDefault_def defaultElectionTimeoutMin_def defaultElectionTimeoutMax_def millisecond_def)
  then obtain s' where s': "startLocked e ?c = Some (s', None)" by blast
  have ok: "sup_ok s'" using startLocked_ok [OF s' cr(4,1)] by simp
  have b: "blank_process t v \<lparr>prSup = s', prLeft = prLeft p @ [left_behind sv]\<rparr>"
    by (rule blank_start [OF s' cr(3) ok]) (use d in blast)
  have "pr_Restart e (pr_Crash p) = Some \<lparr>prSup = s', prLeft = prLeft p @ [left_behind sv]\<rparr>"
    using s' cr(1) c sv(3) by (simp add: pr_Restart_def pr_Crash_def sup_restart_def)
  then show ?thesis using b sv(3) by simp
qed

lemma blank_process_vote:
  assumes "blank_process t v p" "t < t' \<or> t = t' \<and> v = []" "hard_fits t' c"
  shows "\<exists>p'. pr_Vote e (ask_vote t' c) p = Some (p', Inr (granted_in t')) \<and> blank_process t' c p' \<and> prLeft p' = prLeft p"
proof -
  obtain sv where sv: "sup_ok (prSup p)" "spCfg (prSup p) = wit_sup_cfg" "spServer (prSup p) = Some sv"
    "blank t v (svNode sv)" using assms(1) by (auto simp: blank_process_def)
  obtain n where n: "handleRequestVote DiskStorage_ops e (ask_vote t' c) (svNode sv) = Some (n, Inr (granted_in t'))" "blank t' c n"
    using blank_vote [OF sv(4) assms(2,3)] by blast
  then show ?thesis using sv n by (auto simp: pr_Vote_def blank_process_def sup_ok_def)
qed

lemma blank_process_election:
  assumes "blank_process t v p" "hard_fits (t + 1) ''n1''"
  shows "\<exists>p'. pr_Election e p = Some (p', Some (ask_vote (t + 1) ''n1'')) \<and> blank_process (t + 1) ''n1'' p' \<and> prLeft p' = prLeft p"
proof -
  obtain sv where sv: "sup_ok (prSup p)" "spCfg (prSup p) = wit_sup_cfg" "spServer (prSup p) = Some sv"
    "blank t v (svNode sv)" using assms(1) by (auto simp: blank_process_def)
  obtain n where n: "startElection DiskStorage_ops e (svNode sv) = Some (n, Some (ask_vote (t + 1) ''n1''))" "blank (t + 1) ''n1'' n"
    using blank_election [OF sv(4) assms(2), of e] by blast
  then show ?thesis using sv by (auto simp: pr_Election_def blank_process_def sup_ok_def)
qed

text \<open>A node left behind by a blank process gets a reply of a newer term.\<close>

lemma blank_process_return:
  assumes "blank_process t v p" "prLeft p = [left_behind sv]" "blank t1 v1 (svNode sv)" "t1 < t'" "hard_fits t' []"
  shows "\<exists>p'. pr_Return 0 (VoteReturned t1 votes \<lparr>rrTerm = t', rrVoteGranted = False\<rparr>) p = Some p' \<and> stored t' [] p'"
proof -
  let ?r = "VoteReturned t1 votes \<lparr>rrTerm = t', rrVoteGranted = False\<rparr>"
  obtain cur where cur: "sup_ok (prSup p)" "spCfg (prSup p) = wit_sup_cfg" "spServer (prSup p) = Some cur" "blank t v (svNode cur)"
    using assms(1) by (auto simp: blank_process_def)
  let ?n = "(left_behind sv)\<lparr>storage := (storage (left_behind sv))\<lparr>dFs := live_files (prSup p)\<rparr>\<rparr>"
  have fs: "dFs (storage ?n) = dFs (storage (svNode cur))" using cur(3) by (simp add: live_files_def server_disk_def)
  have n: "\<not> failed ?n" "currentTerm ?n = t1" "faults (dFs (storage ?n)) = []"
    using assms(3) cur(4) fs by (simp_all add: left_behind_def blank_def quiet_disk_def)
  obtain n' where n': "returned ?r ?n = Some n'" "faults (dFs (storage n')) = []"
    "disk_SaveHardState (storage ?n) t' [] = (storage n', None)"
    using returned_saves [of ?n ?r] n assms(4,5) by auto
  note h = SaveHardState_view [OF n'(3) assms(5)]
  note vn = view_of_files [OF fs]
  let ?d = "(storage (svNode cur))\<lparr>dFs := dFs (storage n')\<rparr>"
  have vd: "disk_view ?d = disk_view (storage n')" "disk_recov ?d = disk_recov (storage n')"
    using view_of_files [of ?d "storage n'"] by simp_all
  have "disk_view (storage n') = \<lparr>psCurrentTerm = t', psVotedFor = [], psLog = [boundary_entry 0 0], psSnapshotData = []\<rparr>"
    using h(1-3) cur(4) vn by (auto simp: blank_def disk_view_def make_view_def wal_entries_def split: prod.splits)
  moreover have "disk_recov ?d" using vd(2) h(4) vn cur(4) by (simp add: blank_def disk_inv_def)
  ultimately have "stored t' [] \<lparr>prSup = with_files (dFs (storage n')) (prSup p), prLeft = (prLeft p)[0 := n']\<rparr>"
    using with_files_running [OF cur(3), of "dFs (storage n')"] cur(1,2) n'(2) vd(1) by (simp add: stored_def)
  moreover have "pr_Return 0 ?r p = Some \<lparr>prSup = with_files (dFs (storage n')) (prSup p), prLeft = (prLeft p)[0 := n']\<rparr>"
    using assms(2) n'(1) by (simp add: pr_Return_def Let_def del: returned.simps)
  ultimately show ?thesis by blast
qed

text \<open>A candidate of a group of three that was in term 1, has voted for itself there, and asks for votes in
  term 2: with the one reply \<open>rep\<close> it leads term 2.\<close>

definition rival :: "node_id \<Rightarrow> node_id list \<Rightarrow> MemoryStorage Node" where
  "rival i ps = (node_from_state \<lparr>cID = i, cPeers = ps, cTransport = True, cElectionTimeoutMin = 0, cElectionTimeoutMax = 0,
     cHeartbeatInterval = 0, cTickInterval = 0, cRPCTimeout = 0, cSnapshotThreshold = 0\<rparr> NewMemoryStorage
     \<lparr>psCurrentTerm = 1, psVotedFor = i, psLog = [boundary_entry 0 0], psSnapshotData = []\<rparr> (boundary_entry 0 0))"

definition wins_with :: "RequestVoteReply \<Rightarrow> node_id \<Rightarrow> node_id list \<Rightarrow> bool" where
  "wins_with rep i ps = (case startElection MemoryStorage_ops wit_sup_env (rival i ps) of
     Some (n, Some args) \<Rightarrow> args = ask_vote 2 i \<and> (case voteReply MemoryStorage_ops (rvTerm args) 1 rep n of
       Some (n', _) \<Rightarrow> role n' = Leader \<and> currentTerm n' = 2 | None \<Rightarrow> False)
   | _ \<Rightarrow> False)"

lemma rivals_win: "wins_with (granted_in 2) ''n2'' [''n1'', ''n3'']" "wins_with (granted_in 2) ''n3'' [''n1'', ''n2'']"
  by code_simp+

text \<open>C17: A node that is crashed and restarted by its supervisor can vote twice in one term, and so elect two
  leaders. ''n1'' asks for votes in term 1, is crashed and restarted while a reply is on its way, and
  votes for ''n2'' in term 2. Then the reply arrives at the goroutine of the former node: it refuses in
  term 2, and \<open>SaveHardState\<close> writes term 2 without a vote over the vote on the disk. After the next crash
  and restart ''n1'' votes for ''n3'' in term 2 as well, and each of the two leads term 2 with that vote.\<close>

theorem late_reply_elects_two_leaders:
  "\<exists>s p1 p2 p3 p4 p5 p6.
     sup_New wit_sup_env wit_sup_cfg (gt_New ''n1'' Map.empty :: (nat, nat) Transport) empty_dir = Some (Inr s) \<and>
     pr_Election wit_sup_env \<lparr>prSup = s, prLeft = []\<rparr> = Some (p1, Some (ask_vote 1 ''n1'')) \<and>
     pr_Restart wit_sup_env (pr_Crash p1) = Some p2 \<and>
     pr_Vote wit_sup_env (ask_vote 2 ''n2'') p2 = Some (p3, Inr (granted_in 2)) \<and>
     pr_Return 0 (VoteReturned 1 1 \<lparr>rrTerm = 2, rrVoteGranted = False\<rparr>) p3 = Some p4 \<and>
     pr_Restart wit_sup_env (pr_Crash p4) = Some p5 \<and>
     pr_Vote wit_sup_env (ask_vote 2 ''n3'') p5 = Some (p6, Inr (granted_in 2)) \<and>
     wins_with (granted_in 2) ''n2'' [''n1'', ''n3''] \<and> wins_with (granted_in 2) ''n3'' [''n1'', ''n2'']"
proof -
  obtain s :: "(nat, nat) Supervisor" where s: "sup_New wit_sup_env wit_sup_cfg (gt_New ''n1'' Map.empty) empty_dir = Some (Inr s)"
    using wit_sup_start by blast
  let ?s0 = "\<lparr>spCfg = wit_sup_cfg, spTransport = gt_New ''n1'' Map.empty :: (nat, nat) Transport, spHandler = False, spDisk = empty_dir,
     spServer = None, spStartedAt = 0, spCrashed = False\<rparr>"
  have st: "startLocked wit_sup_env ?s0 = Some (s, None)" using s by (auto simp: sup_New_def split: if_splits option.splits)
  have b0: "blank_process 0 [] \<lparr>prSup = s, prLeft = []\<rparr>"
    by (rule blank_start [OF st _ conjunct1 [OF sup_New_ok [OF s]]]) (use open_empty in \<open>auto simp: empty_state_def\<close>)
  have f: "hard_fits 1 ''n1''" "hard_fits 2 ''n2''" "hard_fits 2 ''n3''" "hard_fits 2 []" by (simp_all add: hard_fits_def)
  obtain p1 where p1: "pr_Election wit_sup_env \<lparr>prSup = s, prLeft = []\<rparr> = Some (p1, Some (ask_vote 1 ''n1''))"
    "blank_process 1 ''n1'' p1" "prLeft p1 = []"
    using blank_process_election [OF b0, of wit_sup_env] f(1) by auto
  obtain sv where sv: "spServer (prSup p1) = Some sv" "blank 1 ''n1'' (svNode sv)" using p1(2) by (auto simp: blank_process_def)
  obtain p2 where p2: "pr_Restart wit_sup_env (pr_Crash p1) = Some p2" "blank_process 1 ''n1'' p2" "prLeft p2 = [left_behind sv]"
    using stored_restart [OF blank_stored [OF p1(2)], of wit_sup_env] p1(3) sv(1) by auto
  obtain p3 where p3: "pr_Vote wit_sup_env (ask_vote 2 ''n2'') p2 = Some (p3, Inr (granted_in 2))" "blank_process 2 ''n2'' p3"
    "prLeft p3 = [left_behind sv]"
    using blank_process_vote [OF p2(2) _ f(2), of wit_sup_env] p2(3) by auto
  obtain p4 where p4: "pr_Return 0 (VoteReturned 1 1 \<lparr>rrTerm = 2, rrVoteGranted = False\<rparr>) p3 = Some p4" "stored 2 [] p4"
    using blank_process_return [OF p3(2,3) sv(2) _ f(4), of 1] by auto
  obtain p5 where p5: "pr_Restart wit_sup_env (pr_Crash p4) = Some p5" "blank_process 2 [] p5"
    using stored_restart [OF p4(2), of wit_sup_env] by auto
  obtain p6 where p6: "pr_Vote wit_sup_env (ask_vote 2 ''n3'') p5 = Some (p6, Inr (granted_in 2))"
    using blank_process_vote [OF p5(2) _ f(3), of wit_sup_env] by auto
  show ?thesis using s p1(1) p2(1) p3(1) p4(1) p5(1) p6 rivals_win by blast
qed

end
