(* ===== verification/Gateway_View.thy ===== *)
theory Gateway_View
  imports Supervisor
begin

text \<open>
  The gateway's view of the cluster (src/internal/gateway/cluster.go): polling the nodes, the
  derived summary, the reachability groups, the event log and the subscribers.

  Parameters: \<open>statusRPC\<close> is the status call to a node, whose answer is the \<open>PbNodeStatus\<close> of the
  supervisor or the message of the failure; \<open>now\<close> is the clock, read once per poll. Go visits a
  map in an unspecified order: \<open>summarize\<close> takes the order of the agreement map as an argument, and
  \<open>leader_is_agreed\<close> of \<open>Gateway_Properties\<close> shows that it does not matter. A subscriber channel holds one token, so it is
  a Boolean.
\<close>

section \<open>Data\<close>

record Member =
  mID :: node_id
  mAddr :: string

record NodeView =
  nvID :: string
  nvAddr :: string
  nvReachable :: bool
  nvLifecycle :: string
  nvError :: string
  nvRole :: string
  nvTerm :: nat
  nvLeaderID :: string
  nvCommitIndex :: nat
  nvLastApplied :: nat
  nvLastLogIndex :: nat
  nvLogLen :: nat
  nvLastIncludedIndex :: nat
  nvLastIncludedTerm :: nat
  nvKeyCount :: nat
  nvUptimeMs :: nat
  nvIsolatedFrom :: "string list"
  nvFollowers :: "string \<rightharpoonup> nat \<times> nat"

record ClusterView =
  cvSize :: nat
  cvQuorum :: nat
  cvRunning :: nat
  cvLeader :: string
  cvTerm :: nat
  cvHighestTerm :: nat
  cvGroups :: nat
  cvLargestGroup :: nat
  cvHasQuorum :: bool
  cvCommitIndex :: nat
  cvKeyCount :: nat

record GwSnapshot =
  gsTS :: int
  gsCluster :: ClusterView
  gsNodes :: "NodeView list"

record Event =
  evSeq :: nat
  evTS :: int
  evKind :: string
  evNode :: string
  evText :: message

definition eventRing :: nat where "eventRing = 200"
definition termEventInterval :: int where "termEventInterval = 4000 * millisecond"
definition idleBroadcastInterval :: int where "idleBroadcastInterval = 3000 * millisecond"

record GwCluster =
  gcMembers :: "Member list"
  gcSnapshot :: GwSnapshot
  gcEvents :: "Event list"
  gcNextSeq :: nat
  gcSubs :: "nat \<rightharpoonup> bool"
  gcLastTermEvent :: "string \<rightharpoonup> int"
  gcLastBroadcast :: int

section \<open>Members\<close>

definition gw_Quorum :: "Member list \<Rightarrow> nat" where
  "gw_Quorum ms = length ms div 2 + 1"

definition IDForAddr :: "Member list \<Rightarrow> string \<Rightarrow> node_id option" where
  "IDForAddr ms addr = map_of (rev (map (\<lambda>m. (mAddr m, mID m)) ms)) addr"

definition Known :: "Member list \<Rightarrow> node_id \<Rightarrow> bool" where
  "Known ms i \<longleftrightarrow> i \<in> mID ` set ms"

section \<open>Polling one node\<close>

definition unreachable_view :: "Member \<Rightarrow> NodeView" where
  "unreachable_view m = \<lparr>nvID = mID m, nvAddr = mAddr m, nvReachable = False, nvLifecycle = ''unreachable'',
     nvError = [], nvRole = [], nvTerm = 0, nvLeaderID = [], nvCommitIndex = 0, nvLastApplied = 0,
     nvLastLogIndex = 0, nvLogLen = 0, nvLastIncludedIndex = 0, nvLastIncludedTerm = 0, nvKeyCount = 0,
     nvUptimeMs = 0, nvIsolatedFrom = [], nvFollowers = Map.empty\<rparr>"

definition pollNode :: "(node_id \<Rightarrow> string + PbNodeStatus) \<Rightarrow> Member \<Rightarrow> NodeView" where
  "pollNode statusRPC m = (case statusRPC (mID m) of
     Inl msg \<Rightarrow> (unreachable_view m)\<lparr>nvError := msg\<rparr>
   | Inr st \<Rightarrow> (unreachable_view m)\<lparr>nvReachable := True,
       nvLifecycle := (if psLifecycle st = LIFECYCLE_RUNNING then ''running'' else ''crashed''),
       nvRole := psRole st, nvTerm := psTerm st, nvLeaderID := psLeaderId st, nvCommitIndex := psCommitIndex st,
       nvLastApplied := psLastApplied st, nvLastLogIndex := psLastLogIndex st, nvLogLen := psLogLen st,
       nvLastIncludedIndex := psLastIncludedIndex st, nvLastIncludedTerm := psLastIncludedTerm st,
       nvKeyCount := psKeyCount st, nvUptimeMs := psUptimeMs st, nvIsolatedFrom := psIsolatedFrom st,
       nvFollowers := psFollowers st\<rparr>)"

section \<open>Reachability groups\<close>

definition cut_off :: "NodeView list \<Rightarrow> string \<Rightarrow> string \<Rightarrow> bool" where
  "cut_off running a b = (case map_of (rev (map (\<lambda>v. (nvID v, nvIsolatedFrom v)) running)) a of
     None \<Rightarrow> False | Some cutoff \<Rightarrow> b \<in> set cutoff)"

definition connected :: "NodeView list \<Rightarrow> string \<Rightarrow> string \<Rightarrow> bool" where
  "connected running a b \<longleftrightarrow> \<not> cut_off running a b \<and> \<not> cut_off running b a"

text \<open>The inner loop: every unseen neighbour is marked and queued.\<close>

definition visit :: "(string \<Rightarrow> string \<Rightarrow> bool) \<Rightarrow> string list \<Rightarrow> string \<Rightarrow> string set \<times> string list \<Rightarrow> string set \<times> string list" where
  "visit conn ids i sq = fold (\<lambda>other (seen, queue).
     if other \<notin> seen \<and> conn i other then (insert other seen, queue @ [other]) else (seen, queue)) ids sq"

lemma visit_measure:
  "visit conn ids i (seen, queue) = (seen', queue') \<Longrightarrow> set ids \<subseteq> A \<Longrightarrow> finite A \<Longrightarrow>
     card (A - seen') + length queue' = card (A - seen) + length queue"
proof (induction ids arbitrary: seen queue)
  case (Cons x ids)
  show ?case
  proof (cases "x \<notin> seen \<and> conn i x")
    case True
    then have "visit conn ids i (insert x seen, queue @ [x]) = (seen', queue')"
      using Cons.prems(1) by (simp add: visit_def)
    from Cons.IH [OF this] have "card (A - seen') + length queue' = card (A - insert x seen) + Suc (length queue)"
      using Cons.prems(2,3) by simp
    moreover have "card (A - seen) = Suc (card (A - insert x seen))"
      using Cons.prems(2,3) True by (metis DiffI Diff_insert card_Suc_Diff1 finite_Diff list.set_intros(1) subsetD)
    ultimately show ?thesis by simp
  next
    case False
    then have "visit conn ids i (seen, queue) = (seen', queue')" using Cons.prems(1) by (auto simp: visit_def)
    with Cons show ?thesis by simp
  qed
qed (simp add: visit_def)

function bfs :: "(string \<Rightarrow> string \<Rightarrow> bool) \<Rightarrow> string list \<Rightarrow> string set \<Rightarrow> string list \<Rightarrow> nat \<Rightarrow> string set \<times> nat" where
  "bfs conn ids seen [] sz = (seen, sz)"
| "bfs conn ids seen (i # queue) sz =
     (let (seen', queue') = visit conn ids i (seen, queue) in bfs conn ids seen' queue' (sz + 1))"
  by pat_completeness auto
termination
proof (relation "measure (\<lambda>(conn, ids, seen, queue, sz). card (set ids - seen) + length queue)", goal_cases)
  case (2 conn ids seen i queue sz p seen' queue')
  then show ?case using visit_measure [of conn ids i seen queue seen' queue' "set ids"] by simp
qed simp

definition connectivity :: "NodeView list \<Rightarrow> nat \<times> nat" where
  "connectivity running =
     (let (groups, largest, seen) = fold (\<lambda>v (groups, largest, seen).
        if nvID v \<in> seen then (groups, largest, seen)
        else let (seen', sz) = bfs (connected running) (map nvID running) (insert (nvID v) seen) [nvID v] 0
             in (groups + 1, max largest sz, seen')) running (0, 0, {})
      in (groups, largest))"

section \<open>The summary\<close>

definition is_running :: "NodeView \<Rightarrow> bool" where
  "is_running v \<longleftrightarrow> nvLifecycle v = ''running''"

definition agree_keys :: "NodeView list \<Rightarrow> (string \<times> nat) list" where
  "agree_keys running = map (\<lambda>v. (nvLeaderID v, nvTerm v)) (filter (\<lambda>v. nvLeaderID v \<noteq> []) running)"

definition votes :: "NodeView list \<Rightarrow> string \<times> nat \<Rightarrow> nat" where
  "votes running key = count_list (agree_keys running) key"

fun agreed :: "nat \<Rightarrow> NodeView list \<Rightarrow> (string \<times> nat) list \<Rightarrow> string \<times> nat \<Rightarrow> string \<times> nat" where
  "agreed quorum running [] out = out"
| "agreed quorum running (key # keys) out =
     agreed quorum running keys (if votes running key \<ge> quorum \<and> snd key \<ge> snd out then key else out)"

definition summarize :: "nat \<Rightarrow> ((string \<times> nat) list \<Rightarrow> (string \<times> nat) list) \<Rightarrow> NodeView list \<Rightarrow> ClusterView" where
  "summarize quorum order views =
     (let running = filter is_running views;
          out = agreed quorum running (order (remdups (agree_keys running))) ([], 0);
          (groups, largest) = connectivity running
      in \<lparr>cvSize = length views, cvQuorum = quorum, cvRunning = length running, cvLeader = fst out, cvTerm = snd out,
          cvHighestTerm = fold (\<lambda>v m. max m (nvTerm v)) running 0,
          cvGroups = groups, cvLargestGroup = largest, cvHasQuorum = (largest \<ge> quorum),
          cvCommitIndex = fold (\<lambda>v m. max m (nvCommitIndex v)) running 0,
          cvKeyCount = fold (\<lambda>v m. max m (nvKeyCount v)) running 0\<rparr>)"

definition poll :: "(node_id \<Rightarrow> string + PbNodeStatus) \<Rightarrow> ((string \<times> nat) list \<Rightarrow> (string \<times> nat) list) \<Rightarrow> int \<Rightarrow>
    Member list \<Rightarrow> GwSnapshot" where
  "poll statusRPC order now ms =
     (let views = map (pollNode statusRPC) ms
      in \<lparr>gsTS = now div millisecond, gsCluster = summarize (gw_Quorum ms) order views, gsNodes = views\<rparr>)"

section \<open>Events and subscribers\<close>

definition gw_notify :: "GwCluster \<Rightarrow> GwCluster" where
  "gw_notify c = c\<lparr>gcSubs := (\<lambda>k. map_option (\<lambda>_. True) (gcSubs c k))\<rparr>"

definition ring_push :: "Event list \<Rightarrow> Event \<Rightarrow> Event list" where
  "ring_push es e = (let es' = es @ [e] in if length es' > eventRing then drop (length es' - eventRing) es' else es')"

definition Record :: "int \<Rightarrow> string \<Rightarrow> string \<Rightarrow> message \<Rightarrow> GwCluster \<Rightarrow> GwCluster" where
  "Record now kind node txt c = gw_notify (c\<lparr>gcNextSeq := gcNextSeq c + 1,
     gcEvents := ring_push (gcEvents c)
       \<lparr>evSeq = gcNextSeq c + 1, evTS = now div millisecond, evKind = kind, evNode = node, evText = txt\<rparr>\<rparr>)"

definition EventsSince :: "nat \<Rightarrow> GwCluster \<Rightarrow> Event list" where
  "EventsSince s c = filter (\<lambda>e. evSeq e > s) (gcEvents c)"

definition Subscribe :: "nat \<Rightarrow> GwCluster \<Rightarrow> GwCluster" where
  "Subscribe k c = c\<lparr>gcSubs := (gcSubs c)(k \<mapsto> False)\<rparr>"

definition Unsubscribe :: "nat \<Rightarrow> GwCluster \<Rightarrow> GwCluster" where
  "Unsubscribe k c = c\<lparr>gcSubs := (gcSubs c)(k := None)\<rparr>"

section \<open>Transitions\<close>

definition sameStrings :: "string list \<Rightarrow> string list \<Rightarrow> bool" where
  "sameStrings a b \<longleftrightarrow> length a = length b \<and> list_all (\<lambda>(x, y). x = y) (zip a b)"

definition recordTermAdvance :: "int \<Rightarrow> NodeView \<Rightarrow> nat \<Rightarrow> GwCluster \<Rightarrow> GwCluster" where
  "recordTermAdvance now node jump c =
     (if nvRole node \<noteq> ''candidate'' \<and> jump \<le> 1 then c
      else case gcLastTermEvent c (nvID node) of
        lastEvent \<Rightarrow>
          if lastEvent \<noteq> None \<and> now - the lastEvent < termEventInterval then c
          else let c1 = c\<lparr>gcLastTermEvent := (gcLastTermEvent c)(nvID node \<mapsto> now)\<rparr>
               in if nvRole node = ''candidate''
                  then Record now ''term'' (nvID node) (Errorf
                    ''%s is standing for election and losing - now at term %d, with no majority to elect it''
                    [StrArg (nvID node), NatArg (nvTerm node)]) c1
                  else Record now ''term'' (nvID node) (Errorf
                    ''%s jumped to term %d - it has met a node that has been electing without it''
                    [StrArg (nvID node), NatArg (nvTerm node)]) c1)"

definition when_do :: "bool \<Rightarrow> ('a \<Rightarrow> 'a) \<Rightarrow> 'a \<Rightarrow> 'a" where
  "when_do b f x = (if b then f x else x)"

definition lifecycle_event :: "int \<Rightarrow> NodeView \<Rightarrow> GwCluster \<Rightarrow> GwCluster" where
  "lifecycle_event now v =
     (if nvLifecycle v = ''crashed''
      then Record now ''lifecycle'' (nvID v) (Errorf ''%s crashed - process state gone, disk intact'' [StrArg (nvID v)])
      else if nvLifecycle v = ''unreachable''
      then Record now ''lifecycle'' (nvID v) (Errorf ''%s stopped answering'' [StrArg (nvID v)])
      else if nvLifecycle v = ''running''
      then Record now ''lifecycle'' (nvID v) (Errorf ''%s recovered from its write-ahead log'' [StrArg (nvID v)])
      else id)"

definition node_transition :: "int \<Rightarrow> NodeView \<Rightarrow> NodeView \<Rightarrow> GwCluster \<Rightarrow> GwCluster" where
  "node_transition now was v c =
     (let c1 = when_do (nvLifecycle was \<noteq> nvLifecycle v) (lifecycle_event now v) c;
          c2 = when_do (is_running v \<and> nvRole was \<noteq> nvRole v \<and> nvRole v = ''leader'')
                 (Record now ''election'' (nvID v) (Errorf ''%s won the election for term %d'' [StrArg (nvID v), NatArg (nvTerm v)])) c1;
          c3 = when_do (is_running v \<and> nvRole was = ''leader'' \<and> nvRole v \<noteq> ''leader'' \<and> is_running was)
                 (Record now ''election'' (nvID v) (Errorf ''%s stepped down to %s'' [StrArg (nvID v), StrArg (nvRole v)])) c2;
          c4 = when_do (is_running v \<and> nvTerm v > nvTerm was \<and> is_running was)
                 (recordTermAdvance now v (nvTerm v - nvTerm was)) c3
      in when_do (\<not> sameStrings (nvIsolatedFrom was) (nvIsolatedFrom v))
           (if nvIsolatedFrom v = []
            then Record now ''network'' (nvID v) (Errorf ''%s rejoined the network'' [StrArg (nvID v)])
            else Record now ''network'' (nvID v) (Errorf ''%s partitioned away from %v'' [StrArg (nvID v), StrsArg (nvIsolatedFrom v)])) c4)"

definition recordTransitions :: "int \<Rightarrow> GwSnapshot \<Rightarrow> GwSnapshot \<Rightarrow> GwCluster \<Rightarrow> GwCluster" where
  "recordTransitions now prev next c =
     (let before = map_of (rev (map (\<lambda>v. (nvID v, v)) (gsNodes prev)));
          c1 = fold (\<lambda>v c. case before (nvID v) of None \<Rightarrow> c | Some was \<Rightarrow> node_transition now was v c) (gsNodes next) c;
          cv = gsCluster next
      in when_do (cvHasQuorum (gsCluster prev) \<noteq> cvHasQuorum cv)
           (Record now ''quorum'' [] (if cvHasQuorum cv
              then Errorf ''quorum restored - %d of %d nodes up'' [NatArg (cvRunning cv), NatArg (cvSize cv)]
              else Errorf ''quorum lost - %d of %d nodes up, %d needed; writes now correctly refused''
                     [NatArg (cvRunning cv), NatArg (cvSize cv), NatArg (cvQuorum cv)])) c1)"

section \<open>Comparing snapshots\<close>

definition nodeViewEqual :: "NodeView \<Rightarrow> NodeView \<Rightarrow> bool" where
  "nodeViewEqual a b =
     (if nvID a \<noteq> nvID b \<or> nvAddr a \<noteq> nvAddr b \<or> nvReachable a \<noteq> nvReachable b \<or> nvLifecycle a \<noteq> nvLifecycle b \<or>
         nvError a \<noteq> nvError b \<or> nvRole a \<noteq> nvRole b \<or> nvTerm a \<noteq> nvTerm b \<or> nvLeaderID a \<noteq> nvLeaderID b \<or>
         nvCommitIndex a \<noteq> nvCommitIndex b \<or> nvLastApplied a \<noteq> nvLastApplied b \<or>
         nvLastLogIndex a \<noteq> nvLastLogIndex b \<or> nvLogLen a \<noteq> nvLogLen b \<or>
         nvLastIncludedIndex a \<noteq> nvLastIncludedIndex b \<or> nvLastIncludedTerm a \<noteq> nvLastIncludedTerm b \<or>
         nvKeyCount a \<noteq> nvKeyCount b
      then False
      else if \<not> sameStrings (nvIsolatedFrom a) (nvIsolatedFrom b) \<or>
              card (dom (nvFollowers a)) \<noteq> card (dom (nvFollowers b))
      then False
      else \<forall>peer \<in> dom (nvFollowers a). nvFollowers b peer = nvFollowers a peer)"

definition materiallyEqual :: "GwSnapshot \<Rightarrow> GwSnapshot \<Rightarrow> bool" where
  "materiallyEqual a b =
     (if gsCluster a \<noteq> gsCluster b \<or> length (gsNodes a) \<noteq> length (gsNodes b) then False
      else list_all (\<lambda>(x, y). nodeViewEqual x y) (zip (gsNodes a) (gsNodes b)))"

section \<open>The polling loop\<close>

text \<open>One tick of the poller.\<close>

definition gw_run :: "(node_id \<Rightarrow> string + PbNodeStatus) \<Rightarrow> ((string \<times> nat) list \<Rightarrow> (string \<times> nat) list) \<Rightarrow> int \<Rightarrow>
    GwCluster \<Rightarrow> GwCluster" where
  "gw_run statusRPC order now c =
     (let next = poll statusRPC order now (gcMembers c);
          prev = gcSnapshot c;
          c1 = recordTransitions now prev next (c\<lparr>gcSnapshot := next\<rparr>)
      in if \<not> materiallyEqual prev next \<or> now - gcLastBroadcast c \<ge> idleBroadcastInterval
         then gw_notify (c1\<lparr>gcLastBroadcast := now\<rparr>) else c1)"

definition NewCluster :: "(string \<Rightarrow> error option) \<Rightarrow> (node_id \<Rightarrow> string + PbNodeStatus) \<Rightarrow>
    ((string \<times> nat) list \<Rightarrow> (string \<times> nat) list) \<Rightarrow> int \<Rightarrow> Member list \<Rightarrow> error + GwCluster" where
  "NewCluster dial statusRPC order now members =
     (if members = [] then Inl (Errorf ''gateway: at least one node is required'' [])
      else let ms = sort_key mID members
           in case find (\<lambda>m. dial (mAddr m) \<noteq> None) ms of
                Some m \<Rightarrow> Inl (Wrapf ''gateway: dialing %s at %s: %w'' [StrArg (mID m), StrArg (mAddr m)] (the (dial (mAddr m))))
              | None \<Rightarrow> Inr \<lparr>gcMembers = ms, gcSnapshot = poll statusRPC order now ms, gcEvents = [], gcNextSeq = 0,
                             gcSubs = Map.empty, gcLastTermEvent = Map.empty, gcLastBroadcast = now\<rparr>)"

lemmas [gateway_defs] = gw_notify_def ring_push_def EventsSince_def when_do_def

end
