(* ===== verification/Go_Strings.thy ===== *)
theory Go_Strings
  imports Prelude
begin

text \<open>
  The functions of Go's package \<open>strings\<close> that the program uses, on lists of bytes. \<open>TrimSpace\<close>
  removes the ASCII white space; the two Latin-1 spaces that Go also removes do not occur in
  the flags it is used on.
\<close>

definition is_space :: "char \<Rightarrow> bool" where
  "is_space c \<longleftrightarrow> of_char c \<in> {9, 10, 11, 12, 13, 32 :: nat}"

definition TrimSpace :: "string \<Rightarrow> string" where
  "TrimSpace s = rev (dropWhile is_space (rev (dropWhile is_space s)))"

fun Split :: "char \<Rightarrow> string \<Rightarrow> string list" where
  "Split sep [] = [[]]"
| "Split sep (c # cs) =
     (if c = sep then [] # Split sep cs
      else case Split sep cs of [] \<Rightarrow> [[c]] | w # ws \<Rightarrow> (c # w) # ws)"

text \<open>\<open>Cut\<close>: the parts before and after the first separator, and whether there is one.\<close>

definition Cut :: "char \<Rightarrow> string \<Rightarrow> string \<times> string \<times> bool" where
  "Cut sep s = (if sep \<in> set s
     then (takeWhile (\<lambda>c. c \<noteq> sep) s, tl (dropWhile (\<lambda>c. c \<noteq> sep) s), True) else (s, [], False))"

definition HasSuffix :: "string \<Rightarrow> string \<Rightarrow> bool" where
  "HasSuffix s suffix \<longleftrightarrow> length suffix \<le> length s \<and> drop (length s - length suffix) s = suffix"

definition LastIndex :: "string \<Rightarrow> string \<Rightarrow> nat option" where
  "LastIndex s sub = find (\<lambda>i. take (length sub) (drop i s) = sub) (rev [0..<Suc (length s)])"

fun Join :: "string list \<Rightarrow> string \<Rightarrow> string" where
  "Join [] sep = []"
| "Join [s] sep = s"
| "Join (s # ss) sep = s @ sep @ Join ss sep"

section \<open>Round trips\<close>

lemma Split_Nil_neq: "Split sep s \<noteq> []"
  by (cases s) (auto split: list.splits)

lemma Split_no_sep: "sep \<notin> set w \<Longrightarrow> Split sep w = [w]"
  by (induction w) auto

lemma Split_append: "sep \<notin> set w \<Longrightarrow> Split sep (w @ sep # s) = w # Split sep s"
  by (induction w) (auto split: list.splits)

lemma Split_Join:
  "(\<And>w. w \<in> set ws \<Longrightarrow> sep \<notin> set w) \<Longrightarrow> ws \<noteq> [] \<Longrightarrow> Split sep (Join ws [sep]) = ws"
proof (induction ws)
  case c: (Cons w ws)
  show ?case
  proof (cases ws)
    case Nil
    then show ?thesis using c.prems by (simp add: Split_no_sep)
  next
    case (Cons v vs)
    then have "Join (w # ws) [sep] = w @ sep # Join ws [sep]" by simp
    with Cons c.IH c.prems show ?thesis by (simp add: Split_append)
  qed
qed simp

lemma Cut_append: "sep \<notin> set a \<Longrightarrow> Cut sep (a @ sep # b) = (a, b, True)"
  by (induction a) (auto simp: Cut_def)

text \<open>A word without white space at its ends is its own trimming.\<close>

definition trimmed :: "string \<Rightarrow> bool" where
  "trimmed s \<longleftrightarrow> s \<noteq> [] \<and> \<not> is_space (hd s) \<and> \<not> is_space (last s)"

lemma TrimSpace_trimmed: "trimmed s \<Longrightarrow> TrimSpace s = s"
proof -
  assume t: "trimmed s"
  then have "dropWhile is_space s = s" by (cases s) (auto simp: trimmed_def)
  moreover have "dropWhile is_space (rev s) = rev s"
    using t by (cases "rev s") (auto simp: trimmed_def last_rev hd_rev dest: sym)
  ultimately show ?thesis by (simp add: TrimSpace_def)
qed

end
