(* ===== verification/Gateway_Client.thy ===== *)
theory Gateway_Client
  imports Gateway_View Go_Strings Complex_Main
begin

text \<open>
  The gateway's own client (src/internal/gateway/kvclient.go): it finds the leader by asking, and
  records every hop.

  The context, the clock, the nodes and the wait between passes are the argument \<open>env\<close>, functions
  over a world of type \<open>'w\<close>; \<open>geSnapshot\<close> is the view the cluster poller has at that moment. The
  gRPC status package is \<open>status_message\<close> (\<open>status.FromError\<close> and \<open>Message\<close>), the text of any other
  error is \<open>error_text\<close>. Passes are counted with fuel; \<open>gw_loop_returns\<close> shows that the time budget
  bounds them. Latencies are kept in microseconds, the code divides them by 1000 for display.
\<close>

section \<open>Data\<close>

record Hop =
  hoNode :: string
  hoOutcome :: string
  hoDetail :: "message option"
  hoLatencyUs :: int

record GwResult =
  grOK :: bool
  grOp :: string
  grKey :: string
  grValue :: string
  grFound :: bool
  grServedBy :: string
  grIndex :: nat
  grAttempts :: "Hop list"
  grTotalUs :: int
  grError :: "message option"

record GwClient =
  gkClientID :: string
  gkSeq :: nat
  gkLeader :: node_id

record 'w gw_env =
  geCtxErr :: "'w \<Rightarrow> 'w \<times> error option"
  geNow :: "'w \<Rightarrow> 'w \<times> int"
  geCall :: "'w \<Rightarrow> node_id \<Rightarrow> string \<Rightarrow> Command \<Rightarrow> 'w \<times> (error + CommandReply)"
  geWait :: "'w \<Rightarrow> 'w"
  geSnapshot :: "'w \<Rightarrow> GwSnapshot"
  geMessage :: "error \<Rightarrow> string"

definition gw_NewClient :: "string \<Rightarrow> GwClient" where
  "gw_NewClient i = \<lparr>gkClientID = i, gkSeq = 0, gkLeader = []\<rparr>"

definition msSince :: "int \<Rightarrow> int \<Rightarrow> int" where
  "msSince now t = (now - t) div 1000"

text \<open>\<open>grpcMessage\<close> keeps what follows the last ``desc = '' of a status message.\<close>

definition grpcMessage :: "(error \<Rightarrow> string option) \<Rightarrow> (error \<Rightarrow> string) \<Rightarrow> error option \<Rightarrow> string" where
  "grpcMessage status_message error_text err = (case err of
     None \<Rightarrow> []
   | Some e \<Rightarrow> (case status_message e of
       None \<Rightarrow> error_text e
     | Some msg \<Rightarrow> (case LastIndex msg ''desc = '' of None \<Rightarrow> msg | Some i \<Rightarrow> drop (i + length ''desc = '') msg)))"

section \<open>Finding a node\<close>

definition gw_candidates :: "Member list \<Rightarrow> node_id \<Rightarrow> node_id list" where
  "gw_candidates ms cached =
     (if cached \<noteq> [] \<and> Known ms cached then [cached] else []) @
     map mID (filter (\<lambda>m. mID m \<noteq> cached) ms)"

definition resolveHint :: "Member list \<Rightarrow> string \<Rightarrow> node_id" where
  "resolveHint ms hint = (case IDForAddr ms hint of
     Some i \<Rightarrow> i
   | None \<Rightarrow> (case Cut (CHR '':'') hint of
       (_, port, True) \<Rightarrow> (case find (\<lambda>m. HasSuffix (mAddr m) ('':'' @ port)) ms of Some m \<Rightarrow> mID m | None \<Rightarrow> hint)
     | (_, _, False) \<Rightarrow> hint))"

definition gw_call :: "'w gw_env \<Rightarrow> Member list \<Rightarrow> 'w \<Rightarrow> node_id \<Rightarrow> string \<Rightarrow> Command \<Rightarrow> 'w \<times> (error + CommandReply)" where
  "gw_call env ms w i op cmd =
     (if \<not> Known ms i then (w, Inl (Errorf ''unknown node %s'' [StrArg i]))
      else if op \<in> {''get'', ''put'', ''append'', ''delete''} then geCall env w i op cmd
      else (w, Inl (Errorf ''unknown operation %q'' [StrArg op])))"

definition explainFailure :: "GwSnapshot \<Rightarrow> message" where
  "explainFailure snap = (let cv = gsCluster snap in
     if \<not> cvHasQuorum cv
     then Errorf ''no quorum: %d of %d nodes are up, %d are needed to commit anything. The store is refusing the write rather than accepting one it could lose.''
            [NatArg (cvRunning cv), NatArg (cvSize cv), NatArg (cvQuorum cv)]
     else if cvLeader cv = []
     then Errorf ''no leader right now: the cluster is mid-election. Retrying would normally succeed within a second.'' []
     else Errorf ''timed out before any node could commit the request'' [])"

section \<open>One operation\<close>

text \<open>\<open>leader\<close> is the cached leader, \<open>hops\<close> the attempts so far.\<close>

datatype HopEnd = HopBroke | HopNext | HopRedirected | HopServed node_id CommandReply

definition gw_hop :: "'w gw_env \<Rightarrow> Member list \<Rightarrow> string \<Rightarrow> Command \<Rightarrow> node_id \<Rightarrow> node_id \<times> 'w \<times> Hop list \<Rightarrow>
    (node_id \<times> 'w \<times> Hop list) \<times> HopEnd" where
  "gw_hop env ms op cmd i st = (case st of (leader, w, hops) \<Rightarrow>
     (case geCtxErr env w of
        (w1, Some err) \<Rightarrow> ((leader, w1, hops), HopBroke)
      | (w1, None) \<Rightarrow>
          (case geNow env w1 of (w2, hop) \<Rightarrow>
          (case gw_call env ms w2 i op cmd of (w3, res) \<Rightarrow>
          (case geNow env w3 of (w4, done) \<Rightarrow>
             (let attempt = \<lparr>hoNode = i, hoOutcome = [], hoDetail = None, hoLatencyUs = msSince done hop\<rparr>
              in case res of
                   Inl err \<Rightarrow> (([], w4, hops @ [attempt\<lparr>hoOutcome := ''unreachable'',
                       hoDetail := Some (Errorf ''%s'' [StrArg (geMessage env err)])\<rparr>]), HopNext)
                 | Inr reply \<Rightarrow>
                     if crSuccess reply
                     then ((i, w4, hops @ [attempt\<lparr>hoOutcome := ''ok''\<rparr>]), HopServed i reply)
                     else if crLeaderHint reply \<noteq> []
                     then (let target = resolveHint ms (crLeaderHint reply)
                           in ((target, w4, hops @ [attempt\<lparr>hoOutcome := ''redirected'',
                                hoDetail := Some (Errorf ''not leader; sent us to %s'' [StrArg target])\<rparr>]), HopRedirected))
                     else (([], w4, hops @ [attempt\<lparr>hoOutcome := ''refused'', hoDetail := crError reply\<rparr>]), HopNext)))))))"

fun gw_pass :: "'w gw_env \<Rightarrow> Member list \<Rightarrow> string \<Rightarrow> Command \<Rightarrow> node_id list \<Rightarrow> node_id \<times> 'w \<times> Hop list \<Rightarrow>
    (node_id \<times> 'w \<times> Hop list) \<times> (node_id \<times> CommandReply) option" where
  "gw_pass env ms op cmd [] st = (st, None)"
| "gw_pass env ms op cmd (i # is) st = (case gw_hop env ms op cmd i st of
     (st', HopBroke) \<Rightarrow> (st', None)
   | (st', HopRedirected) \<Rightarrow> (st', None)
   | (st', HopServed j reply) \<Rightarrow> (st', Some (j, reply))
   | (st', HopNext) \<Rightarrow> gw_pass env ms op cmd is st')"

definition gw_result :: "string \<Rightarrow> string \<Rightarrow> GwResult" where
  "gw_result op key = \<lparr>grOK = False, grOp = op, grKey = key, grValue = [], grFound = False, grServedBy = [],
     grIndex = 0, grAttempts = [], grTotalUs = 0, grError = None\<rparr>"

definition gw_served :: "'w gw_env \<Rightarrow> int \<Rightarrow> string \<Rightarrow> string \<Rightarrow> node_id \<Rightarrow> CommandReply \<Rightarrow> Hop list \<Rightarrow> 'w \<Rightarrow> 'w \<times> GwResult" where
  "gw_served env started op key j reply hops w = (case geNow env w of (w', now) \<Rightarrow>
     (w', (gw_result op key)\<lparr>grOK := True, grValue := crValue reply, grFound := crFound reply,
        grServedBy := j, grIndex := crIndex reply, grAttempts := hops, grTotalUs := msSince now started\<rparr>))"

fun gw_loop :: "nat \<Rightarrow> 'w gw_env \<Rightarrow> Member list \<Rightarrow> int \<Rightarrow> string \<Rightarrow> string \<Rightarrow> Command \<Rightarrow> node_id \<times> 'w \<times> Hop list \<Rightarrow>
    (node_id \<times> 'w \<times> GwResult) option" where
  "gw_loop 0 env ms started op key cmd st = None"
| "gw_loop (Suc fuel) env ms started op key cmd (leader, w, hops) =
     (case gw_pass env ms op cmd (gw_candidates ms leader) (leader, w, hops) of
        ((leader1, w1, hops1), Some (j, reply)) \<Rightarrow>
          (case gw_served env started op key j reply hops1 w1 of (w2, res) \<Rightarrow> Some (leader1, w2, res))
      | ((leader1, w1, hops1), None) \<Rightarrow>
          (case geCtxErr env w1 of
             (w2, Some err) \<Rightarrow> (case geNow env w2 of (w3, now) \<Rightarrow>
                Some (leader1, w3, (gw_result op key)\<lparr>grAttempts := hops1, grTotalUs := msSince now started,
                   grError := Some (explainFailure (geSnapshot env w3))\<rparr>))
           | (w2, None) \<Rightarrow> gw_loop fuel env ms started op key cmd (leader1, geWait env w2, hops1)))"

definition gw_cmd :: "GwClient \<Rightarrow> string \<Rightarrow> string \<Rightarrow> Command" where
  "gw_cmd c key value = \<lparr>cmClientId = gkClientID c, cmSeqNo = gkSeq c + 1, cmOp = OP_UNSPECIFIED, cmKey = key, cmValue = value\<rparr>"

definition gw_Do :: "nat \<Rightarrow> 'w gw_env \<Rightarrow> Member list \<Rightarrow> string \<Rightarrow> string \<Rightarrow> string \<Rightarrow> GwClient \<Rightarrow> 'w \<Rightarrow>
    (GwClient \<times> 'w \<times> GwResult) option" where
  "gw_Do fuel env ms op key value c w = (case geNow env w of (w1, started) \<Rightarrow>
     map_option (\<lambda>(leader, w2, res). (c\<lparr>gkSeq := gkSeq c + 1, gkLeader := leader\<rparr>, w2, res))
       (gw_loop fuel env ms started op key (gw_cmd c key value) (gkLeader c, w1, [])))"

section \<open>The request ends\<close>

definition gw_budget :: "'w gw_env \<Rightarrow> ('w \<Rightarrow> nat) \<Rightarrow> bool" where
  "gw_budget env left \<longleftrightarrow> (\<forall>w. left (fst (geCtxErr env w)) \<le> left w) \<and>
     (\<forall>w. left (fst (geNow env w)) \<le> left w) \<and>
     (\<forall>w i op cmd. left (fst (geCall env w i op cmd)) \<le> left w) \<and>
     (\<forall>w. left (geWait env w) \<le> left w - 1) \<and>
     (\<forall>w. left w = 0 \<longrightarrow> snd (geCtxErr env w) \<noteq> None)"

lemma gw_budgetD:
  assumes "gw_budget env left"
  shows "geCtxErr env w = (w1, r1) \<Longrightarrow> left w1 \<le> left w"
    and "geNow env w = (w2, r2) \<Longrightarrow> left w2 \<le> left w"
    and "gw_call env ms w i op cmd = (w3, r3) \<Longrightarrow> left w3 \<le> left w"
    and "left (geWait env w) \<le> left w - 1"
    and "left w = 0 \<Longrightarrow> snd (geCtxErr env w) \<noteq> None"
proof -
  have c: "left (fst (gw_call env ms w i op cmd)) \<le> left w" using assms by (simp add: gw_call_def gw_budget_def)
  show "gw_call env ms w i op cmd = (w3, r3) \<Longrightarrow> left w3 \<le> left w" using c by (metis fst_conv)
qed (use assms in \<open>unfold gw_budget_def, metis fst_conv\<close>)+

lemma gw_hop_budget:
  assumes b: "gw_budget env left" and h: "gw_hop env ms op cmd i st = (st', e)"
  shows "left (fst (snd st')) \<le> left (fst (snd st))"
proof -
  obtain leader w hops where st: "st = (leader, w, hops)" by (cases st)
  obtain w1 r1 where c: "geCtxErr env w = (w1, r1)" by (cases "geCtxErr env w")
  obtain w2 t2 where n: "geNow env w1 = (w2, t2)" by (cases "geNow env w1")
  obtain w3 r3 where f: "gw_call env ms w2 i op cmd = (w3, r3)" by (cases "gw_call env ms w2 i op cmd")
  obtain w4 t4 where m: "geNow env w3 = (w4, t4)" by (cases "geNow env w3")
  have "left w1 \<le> left w" "left w2 \<le> left w1" "left w3 \<le> left w2" "left w4 \<le> left w3"
    using gw_budgetD(1-3) [OF b] c n f m by blast+
  moreover have "fst (snd st') \<in> {w1, w4}"
    using h st c n f m by (auto simp: gw_hop_def Let_def split: option.splits sum.splits if_splits)
  ultimately show ?thesis using st by auto
qed

lemma gw_pass_budget:
  assumes "gw_budget env left"
  shows "gw_pass env ms op cmd is st = (st', res) \<Longrightarrow> left (fst (snd st')) \<le> left (fst (snd st))"
proof (induction "is" arbitrary: st)
  case (Cons i "is")
  obtain st1 e where h: "gw_hop env ms op cmd i st = (st1, e)" by (cases "gw_hop env ms op cmd i st")
  have l: "left (fst (snd st1)) \<le> left (fst (snd st))" by (rule gw_hop_budget [OF assms h])
  show ?case
  proof (cases "e = HopNext")
    case True
    then have "gw_pass env ms op cmd is st1 = (st', res)" using Cons.prems h by simp
    from Cons.IH [OF this] l show ?thesis by simp
  next
    case False
    then have "st' = st1" using Cons.prems h by (cases e) simp_all
    then show ?thesis using l by simp
  qed
qed simp

lemma gw_loop_returns:
  assumes b: "gw_budget env left"
  shows "left (fst (snd st)) < fuel \<Longrightarrow> \<exists>y. gw_loop fuel env ms started op key cmd st = Some y"
proof (induction fuel arbitrary: st)
  case (Suc fuel)
  obtain leader w hops where st: "st = (leader, w, hops)" by (cases st)
  obtain leader1 w1 hops1 res where p: "gw_pass env ms op cmd (gw_candidates ms leader) (leader, w, hops) = ((leader1, w1, hops1), res)"
    by (cases "gw_pass env ms op cmd (gw_candidates ms leader) (leader, w, hops)") (metis prod.collapse)
  obtain w2 r2 where c: "geCtxErr env w1 = (w2, r2)" by (cases "geCtxErr env w1")
  show ?case
  proof (cases "res = None \<and> r2 = None")
    case True
    have l: "left w1 \<le> left w" "left w2 \<le> left w1" "left (geWait env w2) \<le> left w2 - 1" "0 < left w1"
      using gw_pass_budget [OF b p] gw_budgetD(1) [OF b c] gw_budgetD(4) [OF b, of w2] gw_budgetD(5) [OF b, of w1] c True
      by fastforce+
    then have "left (geWait env w2) < fuel" using Suc.prems st by simp
    then show ?thesis using Suc.IH [of "(leader1, geWait env w2, hops1)"] st p c True by simp
  next
    case False
    then show ?thesis using st p c by (cases res; cases r2) (auto simp: case_prod_beta)
  qed
qed simp

end
