(* ===== verification/Gateway_Chaos.thy ===== *)
theory Gateway_Chaos
  imports Gateway_View
begin

text \<open>
  Fault injection over the nodes' admin service (src/internal/gateway/chaos.go).

  The nodes are a world of type \<open>'w\<close>; \<open>chCrash\<close>, \<open>chRestart\<close> and \<open>chSetPartition\<close> are the admin calls
  to one node, whose failure is the text that \<open>grpcMessage\<close> makes of it. The record \<open>Chaos\<close> holds
  the view of the cluster (its members, its last snapshot and its event log) and what the
  watchdog remembers: when a fault was last introduced, and whether there is one.
\<close>

record 'w admin_env =
  chCrash :: "'w \<Rightarrow> node_id \<Rightarrow> 'w \<times> (string + LifecycleReply)"
  chRestart :: "'w \<Rightarrow> node_id \<Rightarrow> 'w \<times> (string + LifecycleReply)"
  chSetPartition :: "'w \<Rightarrow> node_id \<Rightarrow> string list \<Rightarrow> 'w \<times> string option"

record Chaos =
  chCluster :: GwCluster
  chLastFaultAt :: int
  chHealthy :: bool

definition NewChaos :: "GwCluster \<Rightarrow> Chaos" where
  "NewChaos c = \<lparr>chCluster = c, chLastFaultAt = 0, chHealthy = True\<rparr>"

definition noteFault :: "int \<Rightarrow> Chaos \<Rightarrow> Chaos" where
  "noteFault now c = c\<lparr>chLastFaultAt := now, chHealthy := False\<rparr>"

definition noteHealed :: "Chaos \<Rightarrow> Chaos" where
  "noteHealed c = c\<lparr>chHealthy := True\<rparr>"

definition chMembers :: "Chaos \<Rightarrow> Member list" where
  "chMembers c = gcMembers (chCluster c)"

definition chNodes :: "Chaos \<Rightarrow> NodeView list" where
  "chNodes c = gsNodes (gcSnapshot (chCluster c))"

definition clusterIsWhole :: "Chaos \<Rightarrow> bool" where
  "clusterIsWhole c \<longleftrightarrow> list_all (\<lambda>v. is_running v \<and> nvIsolatedFrom v = []) (chNodes c)"

definition nodeIsRunning :: "Chaos \<Rightarrow> node_id \<Rightarrow> bool" where
  "nodeIsRunning c i = (case find (\<lambda>v. nvID v = i) (chNodes c) of None \<Rightarrow> False | Some v \<Rightarrow> is_running v)"

section \<open>Single nodes\<close>

definition lifecycle_error :: "string \<Rightarrow> node_id \<Rightarrow> string + LifecycleReply \<Rightarrow> error option" where
  "lifecycle_error fmt i res = (case res of
     Inl msg \<Rightarrow> Some (Errorf fmt [StrArg i, StrArg msg])
   | Inr reply \<Rightarrow> (case lrError reply of None \<Rightarrow> None | Some m \<Rightarrow> Some (Wrapf fmt [StrArg i] m)))"

definition ch_Crash :: "'w admin_env \<Rightarrow> int \<Rightarrow> node_id \<Rightarrow> Chaos \<Rightarrow> 'w \<Rightarrow> Chaos \<times> 'w \<times> error option" where
  "ch_Crash env now i c w =
     (if \<not> Known (chMembers c) i then (c, w, Some (Errorf ''unknown node %s'' [StrArg i]))
      else case chCrash env w i of (w1, res) \<Rightarrow>
        (case lifecycle_error ''crashing %s: %s'' i res of
           Some err \<Rightarrow> (c, w1, Some err)
         | None \<Rightarrow> (noteFault now c, w1, None)))"

definition ch_CrashLeader :: "'w admin_env \<Rightarrow> int \<Rightarrow> Chaos \<Rightarrow> 'w \<Rightarrow> Chaos \<times> 'w \<times> node_id \<times> error option" where
  "ch_CrashLeader env now c w =
     (let leader = cvLeader (gsCluster (gcSnapshot (chCluster c)))
      in if leader = [] then (c, w, [], Some (Errorf ''there is no leader right now - the cluster is mid-election'' []))
         else case ch_Crash env now leader c w of (c1, w1, err) \<Rightarrow> (c1, w1, leader, err))"

definition ch_Restart :: "'w admin_env \<Rightarrow> node_id \<Rightarrow> Chaos \<Rightarrow> 'w \<Rightarrow> 'w \<times> error option" where
  "ch_Restart env i c w =
     (if \<not> Known (chMembers c) i then (w, Some (Errorf ''unknown node %s'' [StrArg i]))
      else case chRestart env w i of (w1, res) \<Rightarrow> (w1, lifecycle_error ''restarting %s: %s'' i res))"

section \<open>Partitions\<close>

definition cutOff :: "Member list \<Rightarrow> node_id set \<Rightarrow> Member \<Rightarrow> string list" where
  "cutOff ms inGroup m = map mID (filter (\<lambda>other. mID other \<noteq> mID m \<and> (mID other \<in> inGroup) \<noteq> (mID m \<in> inGroup)) ms)"

text \<open>Every node is told; the first refusal of a running node is remembered.\<close>

fun set_partitions :: "'w admin_env \<Rightarrow> Chaos \<Rightarrow> node_id set \<Rightarrow> Member list \<Rightarrow> error option \<Rightarrow> 'w \<Rightarrow> 'w \<times> error option" where
  "set_partitions env c inGroup [] firstErr w = (w, firstErr)"
| "set_partitions env c inGroup (m # ms) firstErr w =
     (case chSetPartition env w (mID m) (cutOff (chMembers c) inGroup m) of
        (w1, None) \<Rightarrow> set_partitions env c inGroup ms firstErr w1
      | (w1, Some msg) \<Rightarrow> set_partitions env c inGroup ms
          (if firstErr = None \<and> nodeIsRunning c (mID m)
           then Some (Errorf ''partitioning %s: %s'' [StrArg (mID m), StrArg msg]) else firstErr) w1)"

definition ch_Partition :: "'w admin_env \<Rightarrow> int \<Rightarrow> node_id list \<Rightarrow> Chaos \<Rightarrow> 'w \<Rightarrow> Chaos \<times> 'w \<times> error option" where
  "ch_Partition env now grp c w =
     (case find (\<lambda>i. \<not> Known (chMembers c) i) grp of
        Some i \<Rightarrow> (c, w, Some (Errorf ''unknown node %s'' [StrArg i]))
      | None \<Rightarrow>
          if card (set grp) = length (chMembers c)
          then (c, w, Some (Errorf ''a partition with every node on one side is not a partition'' []))
          else case set_partitions env c (set grp) (chMembers c) None w of
                 (w1, Some err) \<Rightarrow> (c, w1, Some err)
               | (w1, None) \<Rightarrow> (if grp \<noteq> [] then noteFault now c else c, w1, None))"

definition ch_Heal :: "'w admin_env \<Rightarrow> int \<Rightarrow> Chaos \<Rightarrow> 'w \<Rightarrow> Chaos \<times> 'w \<times> error option" where
  "ch_Heal env now c w = ch_Partition env now [] c w"

text \<open>\<open>Recover\<close> heals, then restarts every node of the snapshot that is not running.\<close>

fun restart_all :: "'w admin_env \<Rightarrow> Chaos \<Rightarrow> NodeView list \<Rightarrow> error option \<Rightarrow> 'w \<Rightarrow> 'w \<times> error option" where
  "restart_all env c [] firstErr w = (w, firstErr)"
| "restart_all env c (v # vs) firstErr w =
     (if is_running v then restart_all env c vs firstErr w
      else case ch_Restart env (nvID v) c w of
        (w1, err) \<Rightarrow> restart_all env c vs (if firstErr = None then err else firstErr) w1)"

definition ch_Recover :: "'w admin_env \<Rightarrow> int \<Rightarrow> Chaos \<Rightarrow> 'w \<Rightarrow> Chaos \<times> 'w \<times> error option" where
  "ch_Recover env now c w = (case ch_Heal env now c w of (c1, w1, err1) \<Rightarrow>
     (case restart_all env c1 (chNodes c1) err1 w1 of
        (w2, None) \<Rightarrow> (noteHealed c1, w2, None)
      | (w2, Some err) \<Rightarrow> (c1, w2, Some err)))"

section \<open>The watchdog\<close>

definition ch_record :: "int \<Rightarrow> message \<Rightarrow> Chaos \<Rightarrow> Chaos" where
  "ch_record now txt c = c\<lparr>chCluster := Record now ''network'' [] txt (chCluster c)\<rparr>"

definition watchdog :: "'w admin_env \<Rightarrow> int \<Rightarrow> int \<Rightarrow> Chaos \<Rightarrow> 'w \<Rightarrow> Chaos \<times> 'w" where
  "watchdog env after now c w =
     (let idle = (\<not> chHealthy c \<and> now - chLastFaultAt c > after)
      in if \<not> idle then (c, w)
         else if clusterIsWhole c then (noteHealed c, w)
         else case ch_Recover env now (ch_record now
                (Errorf ''no activity for %s - restoring every node and healing the network'' [IntArg after]) c) w of
                (c1, w1, None) \<Rightarrow> (c1, w1)
              | (c1, w1, Some err) \<Rightarrow> (ch_record now (Wrapf ''automatic recovery failed: '' [] err) c1, w1))"

section \<open>A partition is symmetric\<close>

lemma cutOff_iff:
  "i \<in> set (cutOff ms g m) \<longleftrightarrow> (\<exists>other \<in> set ms. mID other = i \<and> i \<noteq> mID m \<and> (i \<in> g) \<noteq> (mID m \<in> g))"
  by (auto simp: cutOff_def)

lemma cutOff_sym:
  assumes "m \<in> set ms" "m' \<in> set ms"
  shows "mID m' \<in> set (cutOff ms g m) \<longleftrightarrow> mID m \<in> set (cutOff ms g m')"
  using assms by (auto simp: cutOff_iff)

text \<open>The transports after every node has been told, each with the isolation of its own list.\<close>

definition partitioned :: "Member list \<Rightarrow> node_id set \<Rightarrow> (node_id \<Rightarrow> ('w, 'c) Transport) \<Rightarrow> bool" where
  "partitioned ms g tr \<longleftrightarrow> (\<forall>m \<in> set ms. \<forall>i \<in> mID ` set ms.
     i \<in> gtIsolated (tr (mID m)) \<longleftrightarrow> i \<noteq> mID m \<and> (i \<in> g) \<noteq> (mID m \<in> g))"

definition tell :: "Member list \<Rightarrow> node_id set \<Rightarrow> Member \<Rightarrow> (node_id \<Rightarrow> ('w, 'c) Transport) \<Rightarrow> (node_id \<Rightarrow> ('w, 'c) Transport)" where
  "tell ms g m tr = tr(mID m := SetIsolation (cutOff ms g m) (tr (mID m)))"

text \<open>The admin calls on supervisors that are all up: they set the isolation of the transport.\<close>

definition transports_env :: "(node_id \<Rightarrow> ('w, 'c) Transport) admin_env" where
  "transports_env = \<lparr>chCrash = (\<lambda>w i. (w, Inr \<lparr>lrLifecycle = LIFECYCLE_CRASHED, lrError = None\<rparr>)),
     chRestart = (\<lambda>w i. (w, Inr \<lparr>lrLifecycle = LIFECYCLE_RUNNING, lrError = None\<rparr>)),
     chSetPartition = (\<lambda>w i ps. (w(i := SetIsolation ps (w i)), None))\<rparr>"

lemma set_partitions_tell:
  "set_partitions transports_env c g ms None w = (fold (\<lambda>m. tell (chMembers c) g m) ms w, None)"
  by (induction ms arbitrary: w) (simp_all add: transports_env_def tell_def)

lemma fold_tell:
  assumes "distinct (map mID ms)" "\<And>m. m \<in> set ms \<Longrightarrow> gtID (w (mID m)) = mID m" "m \<in> set ms"
  shows "gtIsolated (fold (\<lambda>m. tell all g m) ms w (mID m)) = set (cutOff all g m)"
  using assms
proof (induction ms arbitrary: w)
  case (Cons x ms)
  have other: "fold (\<lambda>m. tell all g m) ms w (mID x) = w (mID x)" if "mID x \<notin> mID ` set ms" for w
    using that by (induction ms arbitrary: w) (auto simp: tell_def)
  show ?case
  proof (cases "m = x")
    case True
    have "mID x \<notin> set (cutOff all g x)" by (auto simp: cutOff_def)
    then have "set (filter (\<lambda>peer. peer \<noteq> mID x) (cutOff all g x)) = set (cutOff all g x)" by auto
    moreover have "gtID (w (mID x)) = mID x" using Cons.prems(2) by simp
    ultimately have "gtIsolated (tell all g x w (mID x)) = set (cutOff all g x)"
      by (simp add: tell_def SetIsolation_def)
    moreover have "fold (\<lambda>m. tell all g m) (x # ms) w (mID x) = tell all g x w (mID x)"
      using Cons.prems(1) other [of "tell all g x w"] by simp
    ultimately show ?thesis using True by simp
  next
    case False
    then have m: "m \<in> set ms" using Cons.prems(3) by simp
    have "gtID (tell all g x w (mID k)) = mID k" if "k \<in> set ms" for k
      using Cons.prems(1,2) that by (auto simp: tell_def SetIsolation_def)
    from Cons.IH [OF _ this m] show ?thesis using Cons.prems(1) by simp
  qed
qed simp

end
