(* ===== verification/Gateway_Http.thy ===== *)
theory Gateway_Http
  imports Gateway_Client Gateway_Chaos
begin

text \<open>
  The HTTP surface of the gateway (src/internal/gateway/http.go): the rate limiter, the checks on
  keys and values, the key-value and fault endpoints, the event stream.

  A request is its route, the body after \<open>decodeJSON\<close> (a parameter: either the decoded body or the
  decoding error) and the client address; a response is a status code and a body. The token
  bucket counts in rationals where the code has \<open>float64\<close>; time is in nanoseconds.
\<close>

section \<open>Options\<close>

record Options =
  opWebDir :: string
  opAllowChaos :: bool
  opMaxKeyLen :: nat
  opMaxValueLen :: nat
  opMaxKeys :: nat
  opWritesPerMinute :: int
  opFaultsPerMinute :: int
  opTrustProxyHeaders :: bool

definition DefaultOptions :: Options where
  "DefaultOptions = \<lparr>opWebDir = [], opAllowChaos = True, opMaxKeyLen = 64, opMaxValueLen = 512, opMaxKeys = 200,
     opWritesPerMinute = 60, opFaultsPerMinute = 30, opTrustProxyHeaders = False\<rparr>"

section \<open>The rate limiter\<close>

record bucket =
  buTokens :: rat
  buLast :: int

record limiter =
  liPerMinute :: int
  liBuckets :: "string \<rightharpoonup> bucket"

definition newLimiter :: "int \<Rightarrow> limiter" where
  "newLimiter perMinute = \<lparr>liPerMinute = perMinute, liBuckets = Map.empty\<rparr>"

definition second :: int where "second = 1000 * millisecond"
definition minute :: int where "minute = 60 * second"

definition sweep_buckets :: "int \<Rightarrow> (string \<rightharpoonup> bucket) \<Rightarrow> (string \<rightharpoonup> bucket)" where
  "sweep_buckets now bs =
     (if card (dom bs) > 4096
      then (\<lambda>k. case bs k of None \<Rightarrow> None | Some b \<Rightarrow> if now - buLast b > minute then None else Some b)
      else bs)"

text \<open>The tokens of a bucket at time \<open>now\<close>, refilled since it was last used.\<close>

definition refilled :: "int \<Rightarrow> int \<Rightarrow> bucket \<Rightarrow> rat" where
  "refilled perMinute now b =
     min (of_int perMinute) (buTokens b + of_int (now - buLast b) / of_int second * (of_int perMinute / 60))"

definition allow :: "int \<Rightarrow> string \<Rightarrow> limiter \<Rightarrow> limiter \<times> bool" where
  "allow now key l =
     (if liPerMinute l \<le> 0 then (l, True)
      else
        let bs = sweep_buckets now (liBuckets l);
            b = (case bs key of None \<Rightarrow> \<lparr>buTokens = of_int (liPerMinute l), buLast = now\<rparr> | Some b \<Rightarrow> b);
            tokens = refilled (liPerMinute l) now b
        in if tokens < 1 then (l\<lparr>liBuckets := bs(key \<mapsto> \<lparr>buTokens = tokens, buLast = now\<rparr>)\<rparr>, False)
           else (l\<lparr>liBuckets := bs(key \<mapsto> \<lparr>buTokens = tokens - 1, buLast = now\<rparr>)\<rparr>, True))"

text \<open>\<open>splitHostPort\<close> is \<open>net.SplitHostPort\<close>, \<open>None\<close> its error.\<close>

definition clientIP :: "(string \<Rightarrow> string option) \<Rightarrow> string \<Rightarrow> string \<Rightarrow> bool \<Rightarrow> string" where
  "clientIP splitHostPort forwardedFor remoteAddr trustProxy =
     (if trustProxy \<and> forwardedFor \<noteq> []
      then (case Cut (CHR '','') forwardedFor of (first, _, ok) \<Rightarrow> TrimSpace (if ok then first else forwardedFor))
      else case splitHostPort remoteAddr of None \<Rightarrow> remoteAddr | Some host \<Rightarrow> host)"

section \<open>The server\<close>

record GwServer =
  hsChaos :: Chaos \<comment> \<open>with the cluster view in it\<close>
  hsClient :: GwClient
  hsOpts :: Options
  hsWriteLimit :: limiter
  hsFaultLimit :: limiter
  hsKeys :: "string set"

definition gw_NewServer :: "Chaos \<Rightarrow> GwClient \<Rightarrow> Options \<Rightarrow> GwServer" where
  "gw_NewServer ch cl opts = \<lparr>hsChaos = ch, hsClient = cl, hsOpts = opts, hsWriteLimit = newLimiter (opWritesPerMinute opts),
     hsFaultLimit = newLimiter (opFaultsPerMinute opts), hsKeys = {}\<rparr>"

definition hsCluster :: "GwServer \<Rightarrow> GwCluster" where
  "hsCluster s = chCluster (hsChaos s)"

record kvRequest =
  krKey :: string
  krValue :: string

definition gw_validate :: "GwServer \<Rightarrow> string \<Rightarrow> kvRequest \<Rightarrow> error option" where
  "gw_validate s op req = (let o' = hsOpts s in
     if krKey req = [] then Some (Errorf ''a key is required'' [])
     else if length (krKey req) > opMaxKeyLen o'
     then Some (Errorf ''keys are limited to %d characters here'' [NatArg (opMaxKeyLen o')])
     else if CHR 0x0A \<in> set (krKey req) \<or> CHR 0x0D \<in> set (krKey req)
     then Some (Errorf ''keys may not contain newlines'' [])
     else if op = ''get'' \<or> op = ''delete'' then None
     else if length (krValue req) > opMaxValueLen o'
     then Some (Errorf ''values are limited to %d characters here'' [NatArg (opMaxValueLen o')])
     else if krKey req \<notin> hsKeys s \<and> card (hsKeys s) \<ge> opMaxKeys o'
     then Some (Errorf ''this demo holds at most %d keys; delete one to store another'' [NatArg (opMaxKeys o')])
     else None)"

definition trackKey :: "string \<Rightarrow> string \<Rightarrow> bool \<Rightarrow> GwServer \<Rightarrow> GwServer" where
  "trackKey op key ok s =
     (if \<not> ok then s
      else if op = ''put'' \<or> op = ''append'' then s\<lparr>hsKeys := insert key (hsKeys s)\<rparr>
      else if op = ''delete'' then s\<lparr>hsKeys := hsKeys s - {key}\<rparr>
      else s)"

definition hs_record :: "int \<Rightarrow> string \<Rightarrow> message \<Rightarrow> GwServer \<Rightarrow> GwServer" where
  "hs_record now node txt s =
     s\<lparr>hsChaos := (hsChaos s)\<lparr>chCluster := Record now ''write'' node txt (hsCluster s)\<rparr>\<rparr>"

definition recordOperation :: "int \<Rightarrow> string \<Rightarrow> string \<Rightarrow> GwResult \<Rightarrow> GwServer \<Rightarrow> GwServer" where
  "recordOperation now op key r s =
     (if grOK r \<and> op = ''get'' then s
      else if grOK r
      then hs_record now (grServedBy r) (Errorf ''%s %q committed at log index %d by %s%s''
             ([StrArg op, StrArg key, NatArg (grIndex r), StrArg (grServedBy r)] @
              (if length (grAttempts r) > 1 then [StrArg '' after %d hops'', NatArg (length (grAttempts r))] else [StrArg []]))) s
      else hs_record now [] (case grError r of
             None \<Rightarrow> Errorf ''%s %q failed: %s'' [StrArg op, StrArg key, StrArg []]
           | Some m \<Rightarrow> Wrapf ''%s %q failed: %s'' [StrArg op, StrArg key] m) s)"

datatype Body =
    BodyError message
  | BodyResult GwResult
  | BodySnapshot GwSnapshot "Event list"
  | BodyConfig bool nat nat nat nat nat
  | BodyKeys "string set" nat
  | BodyChaos string string
  | BodyText string
  | BodyEmpty

type_synonym response = "nat \<times> Body"

section \<open>Key-value requests\<close>

text \<open>
  \<open>handleKV\<close> up to the call, and from its result on; requests run concurrently, so another
  request can come between the two.
\<close>

definition handleKV_admit :: "int \<Rightarrow> string \<Rightarrow> error + kvRequest \<Rightarrow> string \<Rightarrow> GwServer \<Rightarrow> GwServer \<times> (response + kvRequest)" where
  "handleKV_admit now op body ip s =
     (if op \<notin> {''get'', ''put'', ''append'', ''delete''}
      then (s, Inl (404, BodyError (Errorf ''unknown operation %q'' [StrArg op])))
      else case body of
        Inl err \<Rightarrow> (s, Inl (400, BodyError err))
      | Inr req \<Rightarrow> (case gw_validate s op req of
          Some err \<Rightarrow> (s, Inl (400, BodyError err))
        | None \<Rightarrow>
            if op = ''get'' then (s, Inr req)
            else case allow now ip (hsWriteLimit s) of
              (l, ok) \<Rightarrow> (s\<lparr>hsWriteLimit := l\<rparr>,
                 if ok then Inr req
                 else Inl (429, BodyError (Errorf ''this demo allows %d writes per minute per visitor; reads are unlimited''
                        [IntArg (opWritesPerMinute (hsOpts s))])))))"

definition handleKV_finish :: "int \<Rightarrow> string \<Rightarrow> kvRequest \<Rightarrow> GwResult \<Rightarrow> GwServer \<Rightarrow> GwServer \<times> response" where
  "handleKV_finish now op req r s =
     (recordOperation now op (krKey req) r (trackKey op (krKey req) (grOK r) s), (200, BodyResult r))"

definition handleKV :: "nat \<Rightarrow> 'w gw_env \<Rightarrow> int \<Rightarrow> string \<Rightarrow> error + kvRequest \<Rightarrow> string \<Rightarrow> GwServer \<Rightarrow> 'w \<Rightarrow>
    (GwServer \<times> 'w \<times> response) option" where
  "handleKV fuel env now op body ip s w = (case handleKV_admit now op body ip s of
     (s1, Inl resp) \<Rightarrow> Some (s1, w, resp)
   | (s1, Inr req) \<Rightarrow> map_option (\<lambda>(cl, w1, r).
       (case handleKV_finish now op req r (s1\<lparr>hsClient := cl\<rparr>) of (s2, resp) \<Rightarrow> (s2, w1, resp)))
       (gw_Do fuel env (gcMembers (hsCluster s1)) op (krKey req) (krValue req) (hsClient s1) w))"

section \<open>Fault requests\<close>

record chaosRequest =
  cqNode :: string
  cqGroup :: "string list"

definition chaos_action :: "'w admin_env \<Rightarrow> int \<Rightarrow> string \<Rightarrow> chaosRequest \<Rightarrow> Chaos \<Rightarrow> 'w \<Rightarrow>
    (Chaos \<times> 'w \<times> string \<times> error option) option" where
  "chaos_action env now action req c w =
     (if action = ''crash'' then (case ch_Crash env now (cqNode req) c w of (c1, w1, err) \<Rightarrow> Some (c1, w1, cqNode req, err))
      else if action = ''crash-leader'' then Some (ch_CrashLeader env now c w)
      else if action = ''restart'' then (case ch_Restart env (cqNode req) c w of (w1, err) \<Rightarrow> Some (c, w1, cqNode req, err))
      else if action = ''isolate'' then (case ch_Partition env now [cqNode req] c w of (c1, w1, err) \<Rightarrow> Some (c1, w1, cqNode req, err))
      else if action = ''partition''
      then (case ch_Partition env now (cqGroup req) c w of (c1, w1, err) \<Rightarrow> Some (c1, w1, Join (cqGroup req) '', '', err))
      else if action = ''heal'' then (case ch_Heal env now c w of (c1, w1, err) \<Rightarrow> Some (c1, w1, [], err))
      else if action = ''recover'' then (case ch_Recover env now c w of (c1, w1, err) \<Rightarrow> Some (c1, w1, [], err))
      else None)"

definition handleChaos :: "'w admin_env \<Rightarrow> int \<Rightarrow> string \<Rightarrow> error + chaosRequest \<Rightarrow> string \<Rightarrow> GwServer \<Rightarrow> 'w \<Rightarrow>
    GwServer \<times> 'w \<times> response" where
  "handleChaos env now action body ip s w =
     (if \<not> opAllowChaos (hsOpts s)
      then (s, w, (403, BodyError (Errorf ''fault injection is disabled on this deployment'' [])))
      else case allow now ip (hsFaultLimit s) of
        (l, False) \<Rightarrow> (s\<lparr>hsFaultLimit := l\<rparr>, w, (429, BodyError (Errorf
            ''this demo allows %d faults per minute per visitor'' [IntArg (opFaultsPerMinute (hsOpts s))])))
      | (l, True) \<Rightarrow> (let s1 = s\<lparr>hsFaultLimit := l\<rparr> in
          case body of
            Inl err \<Rightarrow> (s1, w, (400, BodyError err))
          | Inr req \<Rightarrow> (case chaos_action env now action req (hsChaos s1) w of
              None \<Rightarrow> (s1, w, (404, BodyError (Errorf ''unknown fault %q'' [StrArg action])))
            | Some (c, w1, affected, Some err) \<Rightarrow> (s1\<lparr>hsChaos := c\<rparr>, w1, (400, BodyError err))
            | Some (c, w1, affected, None) \<Rightarrow> (s1\<lparr>hsChaos := c\<rparr>, w1, (200, BodyChaos action affected)))))"

section \<open>Reading the view\<close>

definition handleCluster :: "GwServer \<Rightarrow> response" where
  "handleCluster s = (200, BodySnapshot (gcSnapshot (hsCluster s)) (EventsSince 0 (hsCluster s)))"

definition handleConfig :: "GwServer \<Rightarrow> response" where
  "handleConfig s = (let o' = hsOpts s; ms = gcMembers (hsCluster s) in
     (200, BodyConfig (opAllowChaos o') (opMaxKeyLen o') (opMaxValueLen o') (opMaxKeys o') (gw_Quorum ms) (length ms)))"

definition handleKeys :: "GwServer \<Rightarrow> response" where
  "handleKeys s = (200, BodyKeys (hsKeys s) (opMaxKeys (hsOpts s)))"

text \<open>What one push of the stream sends, and the event it has got to.\<close>

definition stream_send :: "nat \<Rightarrow> GwCluster \<Rightarrow> (GwSnapshot \<times> Event list) \<times> nat" where
  "stream_send lastEvent c =
     (let events = EventsSince lastEvent c
      in ((gcSnapshot c, events), if events \<noteq> [] then evSeq (last events) else lastEvent))"

definition withCORS :: "string \<Rightarrow> response \<Rightarrow> response" where
  "withCORS method next = (if method = ''OPTIONS'' then (204, BodyEmpty) else next)"

section \<open>The caps\<close>

text \<open>What the bucket of a key can spend at time \<open>now\<close>; a new key has a full one.\<close>

definition credit :: "int \<Rightarrow> string \<Rightarrow> limiter \<Rightarrow> rat" where
  "credit now key l = (case liBuckets l key of
     None \<Rightarrow> of_int (liPerMinute l) | Some b \<Rightarrow> refilled (liPerMinute l) now b)"

lemma gw_validate_room:
  "gw_validate s op req = None \<Longrightarrow> op \<noteq> ''get'' \<Longrightarrow> op \<noteq> ''delete'' \<Longrightarrow>
     krKey req \<in> hsKeys s \<or> card (hsKeys s) < opMaxKeys (hsOpts s)"
  by (auto simp: gw_validate_def Let_def split: if_splits)

end
