(* ===== verification/Gateway_Properties.thy ===== *)
theory Gateway_Properties
  imports Gateway_Http
begin

text \<open>
  The properties of the gateway: the leader it shows is the one a majority agrees on, its event log
  has no holes, a partition it sets is symmetric, and its rate limiter limits the rate.
\<close>

section \<open>The leader in the summary\<close>

lemma count_list_two: "a \<noteq> b \<Longrightarrow> count_list xs a + count_list xs b \<le> length xs"
  by (induction xs) auto

lemma votes_unique:
  assumes "votes running k \<ge> q" "votes running k' \<ge> q" "length running < 2 * q"
  shows "k = k'"
proof (rule ccontr)
  assume "k \<noteq> k'"
  then have "votes running k + votes running k' \<le> length (agree_keys running)" by (simp add: votes_def count_list_two)
  also have "\<dots> \<le> length running" by (simp add: agree_keys_def)
  finally show False using assms by simp
qed

lemma agreed_spec:
  assumes "length running < 2 * q" "out = ([], 0) \<or> votes running out \<ge> q"
  shows "(agreed q running keys out = out \<or> votes running (agreed q running keys out) \<ge> q) \<and>
    (\<forall>k \<in> set keys. votes running k \<ge> q \<longrightarrow> agreed q running keys out = k) \<and>
    (votes running out \<ge> q \<longrightarrow> agreed q running keys out = out)"
  using assms(2)
proof (induction keys arbitrary: out)
  case (Cons key keys)
  show ?case
  proof (cases "votes running key \<ge> q")
    case True
    have o: "votes running out \<ge> q \<Longrightarrow> out = key" using votes_unique [OF _ True assms(1)] by blast
    have s: "(if votes running key \<ge> q \<and> snd key \<ge> snd out then key else out) = key"
    proof (cases "out = ([], 0)")
      case False
      then have "out = key" using Cons.prems o by blast
      then show ?thesis by (simp only: if_cancel)
    qed (simp add: True)
    have "agreed q running (key # keys) out = agreed q running keys key" using s by (simp only: agreed.simps)
    then show ?thesis using Cons.IH [of key] True o by auto
  next
    case False
    then show ?thesis using Cons.IH [OF Cons.prems] by auto
  qed
qed simp

lemma votes_filter:
  "fst k \<noteq> [] \<Longrightarrow> votes running k = length (filter (\<lambda>v. nvLeaderID v = fst k \<and> nvTerm v = snd k) running)"
  by (induction running) (auto simp: votes_def agree_keys_def)

lemma votes_nobody: "votes running ([], t) = 0"
  by (auto simp: votes_def agree_keys_def count_list_0_iff)

text \<open>C32: The gateway shows a leader exactly when a majority agrees on it. In the snapshot of a poll, node
  \<open>l\<close> is named the leader of term \<open>t\<close> if and only if at least half of the members plus one are running
  and name \<open>l\<close> as the leader of that very term; the order in which the map of agreements is visited does
  not matter, and with no such pair no leader is shown.\<close>

theorem leader_is_agreed:
  fixes statusRPC :: "node_id \<Rightarrow> string + PbNodeStatus" and now :: int and ms :: "Member list"
    and order :: "(string \<times> nat) list \<Rightarrow> (string \<times> nat) list"
  assumes "\<And>ks. set (order ks) = set ks"
  defines "snap \<equiv> poll statusRPC order now ms"
  shows "(l \<noteq> [] \<longrightarrow> (cvLeader (gsCluster snap) = l \<and> cvTerm (gsCluster snap) = t \<longleftrightarrow>
      gw_Quorum ms \<le> length (filter (\<lambda>v. is_running v \<and> nvLeaderID v = l \<and> nvTerm v = t) (gsNodes snap)))) \<and>
    (cvLeader (gsCluster snap) = [] \<longrightarrow> cvTerm (gsCluster snap) = 0)"
proof -
  let ?running = "filter is_running (map (pollNode statusRPC) ms)"
  let ?q = "gw_Quorum ms"
  let ?out = "agreed ?q ?running (order (remdups (agree_keys ?running))) ([], 0)"
  have q: "length ?running < 2 * ?q" "0 < ?q"
  proof -
    have "length ?running \<le> length ms" using length_filter_le [of is_running "map (pollNode statusRPC) ms"] by simp
    also have "\<dots> < 2 * ?q" by (simp add: gw_Quorum_def)
    finally show "length ?running < 2 * ?q" .
  qed (simp add: gw_Quorum_def)
  note sp = agreed_spec [OF q(1), of "([], 0)" "order (remdups (agree_keys ?running))"]
  have out: "cvLeader (gsCluster snap) = fst ?out" "cvTerm (gsCluster snap) = snd ?out"
    "gsNodes snap = map (pollNode statusRPC) ms"
    by (simp_all add: snap_def poll_def summarize_def Let_def case_prod_beta)
  have yes: "?out = (l, t) \<longleftrightarrow> ?q \<le> votes ?running (l, t)" if "l \<noteq> []" for l t
  proof
    assume "?out = (l, t)" then show "?q \<le> votes ?running (l, t)" using sp that by auto
  next
    assume v: "?q \<le> votes ?running (l, t)"
    then have "(l, t) \<in> set (agree_keys ?running)" using q(2) by (auto simp: votes_def count_list_0_iff intro: ccontr)
    then show "?out = (l, t)" using sp v assms(1) by auto
  qed
  have no: "snd ?out = 0" if "fst ?out = []"
  proof -
    have "votes ?running ?out = 0" using votes_nobody [of ?running "snd ?out"] that by (metis prod.collapse)
    then have "?out = ([], 0)" using sp q(2) by auto
    then show ?thesis by simp
  qed
  have f: "votes ?running (l, t) = length (filter (\<lambda>v. is_running v \<and> nvLeaderID v = l \<and> nvTerm v = t) (gsNodes snap))" if "l \<noteq> []" for l t
    unfolding out(3) using votes_filter [of "(l, t)" ?running] that by (simp only: fst_conv snd_conv not_False_eq_True filter_filter simp_thms)
  have "cvLeader (gsCluster snap) = l \<and> cvTerm (gsCluster snap) = t \<longleftrightarrow> ?out = (l, t)"
    unfolding out by (simp add: prod_eq_iff)
  then have "cvLeader (gsCluster snap) = l \<and> cvTerm (gsCluster snap) = t \<longleftrightarrow>
      gw_Quorum ms \<le> length (filter (\<lambda>v. is_running v \<and> nvLeaderID v = l \<and> nvTerm v = t) (gsNodes snap))" if "l \<noteq> []"
    unfolding f [OF that, symmetric] using yes [OF that, of t] by (rule trans)
  moreover have "cvTerm (gsCluster snap) = 0" if "cvLeader (gsCluster snap) = []"
    unfolding out(2) by (rule no) (use that in \<open>simp only: out(1)\<close>)
  ultimately show ?thesis by (intro conjI impI)
qed

definition wit_status :: "string \<Rightarrow> nat \<Rightarrow> PbNodeStatus" where
  "wit_status l t = (down_status ''n'' [])\<lparr>psLifecycle := LIFECYCLE_RUNNING, psLeaderId := l, psTerm := t\<rparr>"

definition wit_rpc :: "node_id \<Rightarrow> string + PbNodeStatus" where
  "wit_rpc i = (if i = ''n3'' then Inl ''down'' else Inr (wit_status ''n1'' 4))"

definition wit_members :: "Member list" where
  "wit_members = [\<lparr>mID = ''n1'', mAddr = ''h:1''\<rparr>, \<lparr>mID = ''n2'', mAddr = ''h:2''\<rparr>, \<lparr>mID = ''n3'', mAddr = ''h:3''\<rparr>]"

theorem leader_is_agreed_witness:
  "cvLeader (gsCluster (poll wit_rpc rev 0 wit_members)) = ''n1'' \<and> cvTerm (gsCluster (poll wit_rpc rev 0 wit_members)) = 4"
proof -
  have "gw_Quorum wit_members \<le> length (filter (\<lambda>v. is_running v \<and> nvLeaderID v = ''n1'' \<and> nvTerm v = 4) (gsNodes (poll wit_rpc rev 0 wit_members)))"
    by (simp add: poll_def wit_members_def gw_Quorum_def pollNode_def wit_rpc_def wit_status_def down_status_def is_running_def unreachable_view_def Let_def)
  then show ?thesis using leader_is_agreed [of rev "''n1''" wit_rpc 0 wit_members 4] by simp
qed

section \<open>The event log\<close>

definition ev_ok :: "GwCluster \<Rightarrow> bool" where
  "ev_ok c \<longleftrightarrow> length (gcEvents c) \<le> eventRing \<and> length (gcEvents c) \<le> gcNextSeq c \<and>
     map evSeq (gcEvents c) = [gcNextSeq c + 1 - length (gcEvents c) ..< gcNextSeq c + 1]"

lemma ev_ok_same: "gcEvents c' = gcEvents c \<Longrightarrow> gcNextSeq c' = gcNextSeq c \<Longrightarrow> ev_ok c' = ev_ok c"
  by (simp add: ev_ok_def)

lemma ev_ok_notify [simp]: "ev_ok (gw_notify c) = ev_ok c"
  by (rule ev_ok_same) (simp_all add: gw_notify_def)

lemma Record_ok: "ev_ok c \<Longrightarrow> ev_ok (Record now kind node txt c)"
proof -
  assume a: "ev_ok c"
  let ?e = "\<lparr>evSeq = gcNextSeq c + 1, evTS = now div millisecond, evKind = kind, evNode = node, evText = txt\<rparr>"
  have m: "map evSeq (gcEvents c @ [?e]) = [gcNextSeq c + 1 - length (gcEvents c) ..< gcNextSeq c + 2]"
    using a by (simp add: ev_ok_def)
  show ?thesis
  proof (cases "length (gcEvents c) < eventRing")
    case True
    then show ?thesis using a m by (simp add: Record_def ev_ok_def ring_push_def Let_def gw_notify_def)
  next
    case False
    then have l: "length (gcEvents c) = eventRing" using a by (simp add: ev_ok_def)
    have "map evSeq (drop 1 (gcEvents c @ [?e])) = drop 1 [gcNextSeq c + 1 - length (gcEvents c) ..< gcNextSeq c + 2]"
      by (simp only: drop_map [symmetric] m)
    obtain k where k: "gcNextSeq c = 200 + k" using a l by (auto simp: ev_ok_def eventRing_def le_iff_add)
    then have "map evSeq (drop 1 (gcEvents c @ [?e])) = [k + 2 ..< 202 + k]"
      using \<open>map evSeq (drop 1 _) = _\<close> l by (simp add: eventRing_def del: upt_Suc)
    then show ?thesis using a l k
      by (simp add: Record_def ev_ok_def ring_push_def Let_def gw_notify_def eventRing_def del: upt_Suc)
  qed
qed

lemma when_do_ok: "(\<And>c. ev_ok c \<Longrightarrow> ev_ok (f c)) \<Longrightarrow> ev_ok c \<Longrightarrow> ev_ok (when_do b f c)"
  by (simp add: when_do_def)

lemma lifecycle_event_ok: "ev_ok c \<Longrightarrow> ev_ok (lifecycle_event now v c)"
  by (simp add: lifecycle_event_def Record_ok)

lemma recordTermAdvance_ok: "ev_ok c \<Longrightarrow> ev_ok (recordTermAdvance now v j c)"
  using ev_ok_same [of "c\<lparr>gcLastTermEvent := x\<rparr>" c for x]
  by (auto simp: recordTermAdvance_def Let_def intro: Record_ok)

lemma node_transition_ok: "ev_ok c \<Longrightarrow> ev_ok (node_transition now was v c)"
  unfolding node_transition_def Let_def
  by (intro when_do_ok) (auto intro: Record_ok lifecycle_event_ok recordTermAdvance_ok)

lemma fold_ok: "(\<And>x c. ev_ok c \<Longrightarrow> ev_ok (f x c)) \<Longrightarrow> ev_ok c \<Longrightarrow> ev_ok (fold f xs c)"
  by (induction xs arbitrary: c) auto

lemma recordTransitions_ok: "ev_ok c \<Longrightarrow> ev_ok (recordTransitions now prev next c)"
  unfolding recordTransitions_def Let_def
  by (intro when_do_ok fold_ok Record_ok) (auto split: option.splits intro: node_transition_ok)

lemma gw_run_ok: "ev_ok c \<Longrightarrow> ev_ok (gw_run statusRPC order now c)"
proof -
  assume "ev_ok c"
  then have "ev_ok (c\<lparr>gcSnapshot := x\<rparr>)" for x using ev_ok_same [of "c\<lparr>gcSnapshot := x\<rparr>" c] by simp
  then have "ev_ok (recordTransitions now p x (c\<lparr>gcSnapshot := x\<rparr>))" for p x by (rule recordTransitions_ok)
  then show ?thesis
    using ev_ok_same [of "d\<lparr>gcLastBroadcast := now\<rparr>" d for d] by (simp add: gw_run_def Let_def)
qed

text \<open>What happens to the cluster view: ticks of the poller, events of the other parts, subscribers.\<close>

datatype ViewOp =
    Tick "node_id \<Rightarrow> string + PbNodeStatus" "(string \<times> nat) list \<Rightarrow> (string \<times> nat) list" int
  | Note int string string message
  | Sub nat | Unsub nat

fun view_op :: "ViewOp \<Rightarrow> GwCluster \<Rightarrow> GwCluster" where
  "view_op (Tick rpc order now) c = gw_run rpc order now c"
| "view_op (Note now kind node txt) c = Record now kind node txt c"
| "view_op (Sub k) c = Subscribe k c"
| "view_op (Unsub k) c = Unsubscribe k c"

lemma view_op_ok: "ev_ok c \<Longrightarrow> ev_ok (view_op a c)"
  using ev_ok_same [of "c\<lparr>gcSubs := x\<rparr>" c for x]
  by (cases a) (auto simp: Subscribe_def Unsubscribe_def intro: gw_run_ok Record_ok)

text \<open>The event log has no holes. From \<open>NewCluster\<close> on, through polls, recorded events and
  subscriptions in any order, the log holds at most 200 events, the newest ones, numbered without gaps
  up to the last number given out; a stream that asks for what follows event \<open>s\<close> gets all of it
  when \<open>s\<close> is not older than the log reaches back.\<close>

theorem event_log_gapless:
  fixes acts :: "ViewOp list" and c0 :: GwCluster
  assumes "NewCluster dial rpc order now0 ms = Inr c0"
  defines "c \<equiv> fold view_op acts c0"
  shows "length (gcEvents c) \<le> 200 \<and>
    map evSeq (gcEvents c) = [gcNextSeq c + 1 - length (gcEvents c) ..< gcNextSeq c + 1] \<and>
    (gcNextSeq c - length (gcEvents c) \<le> s \<longrightarrow> map evSeq (EventsSince s c) = [s + 1 ..< gcNextSeq c + 1])"
proof -
  have "ev_ok c0" using assms(1) by (auto simp: NewCluster_def ev_ok_def Let_def split: if_splits option.splits)
  then have ok: "ev_ok c" unfolding c_def by (rule fold_ok [rotated]) (rule view_op_ok)
  have "map evSeq (EventsSince s c) = filter (\<lambda>k. k > s) (map evSeq (gcEvents c))"
    by (simp add: EventsSince_def filter_map comp_def)
  moreover have "filter (\<lambda>k. k > s) [a ..< b] = [s + 1 ..< b]" if "a \<le> s + 1" for a b :: nat
    using that by (induction b) auto
  ultimately have "map evSeq (EventsSince s c) = [s + 1 ..< gcNextSeq c + 1]" if "gcNextSeq c + 1 - length (gcEvents c) \<le> s + 1"
    using ok that by (simp only: ev_ok_def)
  then show ?thesis using ok by (simp add: ev_ok_def eventRing_def del: upt_Suc)
qed

theorem event_log_gapless_witness:
  "\<exists>c0. NewCluster (\<lambda>a. None) wit_rpc rev 0 wit_members = Inr c0 \<and>
    map evSeq (EventsSince 1 (fold view_op [Note 0 ''write'' [] (Errorf ''a'' []), Sub 0, Note 1 ''write'' [] (Errorf ''b'' [])] c0)) = [2]"
proof -
  let ?acts = "[Note 0 ''write'' [] (Errorf ''a'' []), Sub 0, Note 1 ''write'' [] (Errorf ''b'' [])]"
  obtain c0 where c0: "NewCluster (\<lambda>a. None) wit_rpc rev 0 wit_members = Inr c0" "gcNextSeq c0 = 0" "gcEvents c0 = []"
    by (simp add: NewCluster_def wit_members_def Let_def find_None_iff)
  have n: "gcNextSeq (fold view_op ?acts c0) = 2" using c0(2) by (simp add: Record_def Subscribe_def gw_notify_def)
  have l: "length (gcEvents (fold view_op ?acts c0)) = 2"
    using c0(3) by (simp add: Record_def Subscribe_def gw_notify_def ring_push_def Let_def eventRing_def)
  have "map evSeq (EventsSince 1 (fold view_op ?acts c0)) = [1 + 1 ..< gcNextSeq (fold view_op ?acts c0) + 1]"
    using event_log_gapless [OF c0(1), where acts = ?acts and s = 1] n l by (simp only: diff_self_eq_0 le0 simp_thms)
  also have "\<dots> = [1 + 1 ..< 2 + 1]" unfolding n ..
  also have "\<dots> = [2]" by (simp add: eval_nat_numeral)
  finally show ?thesis by (intro exI conjI) (rule c0(1))
qed

section \<open>A partition\<close>

text \<open>A partition set through the gateway cuts both directions and nothing else. On a cluster whose
  nodes are all up, with distinct ids and each transport carrying the id of its node, a partition of
  known nodes that leaves some node out returns no error, and afterwards the transport of a member is
  isolated from another member exactly when one of the two is in the group and the other is not.\<close>

theorem partition_symmetric:
  fixes w :: "node_id \<Rightarrow> ('w, 'c) Transport"
  assumes "distinct (map mID (chMembers c))" "\<And>m. m \<in> set (chMembers c) \<Longrightarrow> gtID (w (mID m)) = mID m"
    and "set grp \<subseteq> mID ` set (chMembers c)" "card (set grp) \<noteq> length (chMembers c)"
  shows "\<exists>c' w'. ch_Partition transports_env now grp c w = (c', w', None) \<and> partitioned (chMembers c) (set grp) w' \<and>
    (grp \<noteq> [] \<longrightarrow> \<not> chHealthy c')"
proof -
  let ?w = "fold (\<lambda>m. tell (chMembers c) (set grp) m) (chMembers c) w"
  have k: "find (\<lambda>i. \<not> Known (chMembers c) i) grp = None" using assms(3) by (auto simp: find_None_iff Known_def)
  have "ch_Partition transports_env now grp c w = (if grp \<noteq> [] then noteFault now c else c, ?w, None)"
    using k assms(4) by (simp add: ch_Partition_def set_partitions_tell)
  moreover have "partitioned (chMembers c) (set grp) ?w"
    unfolding partitioned_def
  proof (intro ballI)
    fix m i assume m: "m \<in> set (chMembers c)" "i \<in> mID ` set (chMembers c)"
    show "i \<in> gtIsolated (?w (mID m)) \<longleftrightarrow> i \<noteq> mID m \<and> (i \<in> set grp) \<noteq> (mID m \<in> set grp)"
    proof -
      have "gtIsolated (?w (mID m)) = set (cutOff (chMembers c) (set grp) m)" by (rule fold_tell [OF assms(1,2) m(1)])
      then show ?thesis using m(2) by (auto simp: cutOff_iff)
    qed
  qed
  ultimately show ?thesis by (auto simp: noteFault_def)
qed

definition wit_chaos :: Chaos where
  "wit_chaos = NewChaos \<lparr>gcMembers = wit_members, gcSnapshot = poll wit_rpc rev 0 wit_members, gcEvents = [], gcNextSeq = 0,
     gcSubs = Map.empty, gcLastTermEvent = Map.empty, gcLastBroadcast = 0\<rparr>"

theorem partition_symmetric_witness:
  "\<exists>c' w'. ch_Partition transports_env 0 [''n3''] wit_chaos (\<lambda>i. gt_New i Map.empty :: (nat, nat) Transport) = (c', w', None) \<and>
    partitioned wit_members {''n3''} w' \<and> \<not> chHealthy c'"
proof -
  have m: "chMembers wit_chaos = wit_members" by (simp add: chMembers_def wit_chaos_def NewChaos_def)
  show ?thesis
    using partition_symmetric [of wit_chaos "\<lambda>i. gt_New i Map.empty :: (nat, nat) Transport" "[''n3'']" 0]
    by (simp add: m) (simp add: wit_members_def gt_New_def)
qed

text \<open>A refusal of a running node ends \<open>Partition\<close> with an error after the other nodes have been told, and
  the fault is not noted: the watchdog sees a healthy cluster and never heals it.\<close>

lemma failed_partition_forgotten:
  assumes "find (\<lambda>i. \<not> Known (chMembers c) i) grp = None" "card (set grp) \<noteq> length (chMembers c)" "chHealthy c"
    and "set_partitions env c (set grp) (chMembers c) None w = (w1, Some err)"
  shows "ch_Partition env now grp c w = (c, w1, Some err)" "watchdog env after later c w1 = (c, w1)"
  using assms by (simp_all add: ch_Partition_def watchdog_def Let_def)

section \<open>The rate limiter\<close>

fun allow_run :: "(int \<times> string) list \<Rightarrow> limiter \<Rightarrow> limiter \<times> (string \<times> bool) list" where
  "allow_run [] l = (l, [])"
| "allow_run ((now, key) # calls) l = (case allow now key l of
     (l1, ok) \<Rightarrow> (case allow_run calls l1 of (l2, rs) \<Rightarrow> (l2, (key, ok) # rs)))"

definition granted :: "string \<Rightarrow> (int \<times> string) list \<Rightarrow> limiter \<Rightarrow> nat" where
  "granted key calls l = count_list (snd (allow_run calls l)) (key, True)"

definition lim_ok :: "int \<Rightarrow> limiter \<Rightarrow> bool" where
  "lim_ok t l \<longleftrightarrow> 0 < liPerMinute l \<and> (\<forall>k b. liBuckets l k = Some b \<longrightarrow>
     0 \<le> buTokens b \<and> buTokens b \<le> of_int (liPerMinute l) \<and> buLast b \<le> t)"

definition refill :: "int \<Rightarrow> int \<Rightarrow> rat" where
  "refill perMinute d = of_int d / of_int second * (of_int perMinute / 60)"

lemma refill_mono: "0 < L \<Longrightarrow> 0 \<le> d \<Longrightarrow> 0 \<le> refill L d"
  by (simp add: refill_def second_def millisecond_def)

lemma refill_add: "refill L (d + e) = refill L d + refill L e"
  by (simp add: refill_def second_def millisecond_def add_divide_distrib algebra_simps)

lemma refilled_eq: "refilled L now b = min (of_int L) (buTokens b + refill L (now - buLast b))"
  by (simp add: refilled_def refill_def)

lemma refilled_minute:
  assumes "0 < L" "0 \<le> buTokens b" "minute < now - buLast b"
  shows "refilled L now b = of_int L"
proof -
  have "refill L minute = of_int L" by (simp add: refill_def minute_def second_def millisecond_def)
  moreover have "refill L (now - buLast b) = refill L minute + refill L (now - buLast b - minute)"
    using refill_add [of L minute "now - buLast b - minute"] by simp
  moreover have "0 \<le> refill L (now - buLast b - minute)" using assms by (intro refill_mono) auto
  ultimately show ?thesis using assms(2) by (simp add: refilled_eq)
qed

lemma credit_bounds:
  assumes "lim_ok t l" "t \<le> now"
  shows "0 \<le> credit now k l" "credit now k l \<le> of_int (liPerMinute l)"
proof -
  have L: "0 < liPerMinute l" using assms(1) by (simp add: lim_ok_def)
  show "0 \<le> credit now k l" "credit now k l \<le> of_int (liPerMinute l)"
    using assms L refill_mono [OF L]
    by (fastforce simp: credit_def refilled_eq lim_ok_def split: option.splits intro!: add_nonneg_nonneg refill_mono)+
qed

lemma credit_time:
  assumes "lim_ok t l" "t \<le> a" "a \<le> b"
  shows "credit b k l \<le> credit a k l + refill (liPerMinute l) (b - a)"
proof -
  have L: "0 < liPerMinute l" using assms(1) by (simp add: lim_ok_def)
  have r: "0 \<le> refill (liPerMinute l) (b - a)" using refill_mono [OF L] assms(3) by simp
  show ?thesis
  proof (cases "liBuckets l k")
    case (Some u)
    have "refill (liPerMinute l) (b - buLast u) = refill (liPerMinute l) (a - buLast u) + refill (liPerMinute l) (b - a)"
      using refill_add [of "liPerMinute l" "a - buLast u" "b - a"] by simp
    then show ?thesis using Some r by (simp add: credit_def refilled_eq min_def)
  qed (use r in \<open>simp add: credit_def\<close>)
qed

lemma credit_sweep:
  assumes "lim_ok t l" "t \<le> now"
  shows "credit now k (l\<lparr>liBuckets := sweep_buckets now (liBuckets l)\<rparr>) = credit now k l"
    "lim_ok now (l\<lparr>liBuckets := sweep_buckets now (liBuckets l)\<rparr>)"
proof -
  have "refilled (liPerMinute l) now b = of_int (liPerMinute l)" if "liBuckets l k = Some b" "minute < now - buLast b" for b
    using refilled_minute that assms by (auto simp: lim_ok_def)
  then show "credit now k (l\<lparr>liBuckets := sweep_buckets now (liBuckets l)\<rparr>) = credit now k l"
    by (auto simp: credit_def sweep_buckets_def split: option.splits)
  show "lim_ok now (l\<lparr>liBuckets := sweep_buckets now (liBuckets l)\<rparr>)"
    using assms by (fastforce simp: lim_ok_def sweep_buckets_def split: option.splits if_splits)
qed

lemma allow_credit:
  assumes "lim_ok t l" "t \<le> now" "allow now key l = (l', ok)"
  shows "lim_ok now l'" "liPerMinute l' = liPerMinute l"
    "credit now k l' = credit now k l - (if ok \<and> k = key then 1 else 0)"
proof -
  let ?l = "l\<lparr>liBuckets := sweep_buckets now (liBuckets l)\<rparr>"
  note sw = credit_sweep [OF assms(1,2)]
  have L: "0 < liPerMinute l" using assms(1) by (simp add: lim_ok_def)
  define tk where "tk = credit now key ?l"
  have b: "0 \<le> tk" "tk \<le> of_int (liPerMinute l)" using credit_bounds [OF sw(2), of now key] by (simp_all add: tk_def)
  have r: "refilled (liPerMinute l) now (case sweep_buckets now (liBuckets l) key of
      None \<Rightarrow> \<lparr>buTokens = of_int (liPerMinute l), buLast = now\<rparr> | Some u \<Rightarrow> u) = tk"
    by (simp add: tk_def credit_def refilled_eq refill_def split: option.splits)
  have l': "l' = ?l\<lparr>liBuckets := (liBuckets ?l)(key \<mapsto> \<lparr>buTokens = (if ok then tk - 1 else tk), buLast = now\<rparr>)\<rparr>" "ok \<longleftrightarrow> 1 \<le> tk"
    using assms(3) L r by (auto simp: allow_def Let_def split: if_splits)
  show "liPerMinute l' = liPerMinute l" using l'(1) by simp
  have n: "0 \<le> (if ok then tk - 1 else tk)" "(if ok then tk - 1 else tk) \<le> of_int (liPerMinute l)" using l'(2) b by auto
  show "lim_ok now l'" using sw(2) n l'(1) L by (auto simp: lim_ok_def)
  have "credit now k l' = credit now k ?l - (if ok \<and> k = key then 1 else 0)"
  proof (cases "k = key")
    case True
    then have "credit now k l' = (if ok then tk - 1 else tk)" using n l'(1) by (simp add: credit_def refilled_eq refill_def)
    then show ?thesis using True by (simp add: tk_def)
  next
    case False
    then have "liBuckets l' k = liBuckets ?l k" using l'(1) by simp
    then show ?thesis using False l'(1) by (auto simp: credit_def split: option.splits)
  qed
  then show "credit now k l' = credit now k l - (if ok \<and> k = key then 1 else 0)" using sw(1) by simp
qed

lemma granted_bound:
  "lim_ok t l \<Longrightarrow> sorted (t # map fst calls) \<Longrightarrow>
     of_nat (granted key calls l) \<le> credit t key l + refill (liPerMinute l) (last (t # map fst calls) - t)"
proof (induction calls arbitrary: t l)
  case Nil
  then show ?case using credit_bounds [OF Nil(1), of t key] by (simp add: granted_def refill_def)
next
  case (Cons call calls)
  obtain now k where call: "call = (now, k)" by (cases call)
  obtain l1 ok where a: "allow now k l = (l1, ok)" by (cases "allow now k l")
  have tn: "t \<le> now" "sorted (now # map fst calls)" using Cons.prems(2) call by simp_all
  note ac = allow_credit [OF Cons.prems(1) tn(1) a]
  let ?e = "last (now # map fst calls)"
  have IH: "of_nat (granted key calls l1) \<le> credit now key l1 + refill (liPerMinute l) (?e - now)"
    using Cons.IH [OF ac(1) tn(2)] ac(2) by simp
  have g: "granted key (call # calls) l = granted key calls l1 + (if ok \<and> key = k then 1 else 0)"
    using a call by (auto simp: granted_def split: prod.splits)
  have "of_nat (granted key (call # calls) l) \<le> credit now key l + refill (liPerMinute l) (?e - now)"
    using IH g ac(3) [of key] by (cases "ok \<and> key = k") auto
  also have "\<dots> \<le> credit t key l + refill (liPerMinute l) (now - t) + refill (liPerMinute l) (?e - now)"
    using credit_time [OF Cons.prems(1) order.refl tn(1), of key] by simp
  also have "\<dots> = credit t key l + refill (liPerMinute l) (?e - t)"
    using refill_add [of "liPerMinute l" "now - t" "?e - now"] by simp
  finally show ?case using call by simp
qed



end
