(* ===== verification/Gateway_Routes.thy ===== *)
theory Gateway_Routes
  imports Gateway_Properties
begin

text \<open>
  The rest of src/internal/gateway/http.go: the routing table, the decoding of bodies, the event stream and
  the static files of the console, and the whole handler.

  A path is the list of its segments. The patterns have the meaning that the package \<open>net/http\<close>
  documents: GET also serves HEAD, \<open>{op}\<close> is one segment that is not empty, segments are compared after
  the percent signs have been decoded, a path that is not clean is redirected, a path that other methods
  have is 405. The JSON decoder, the decoding of percent signs, \<open>SplitHostPort\<close>, the file system and the
  file server are parameters.
\<close>

section \<open>Bodies\<close>

text \<open>The decoder gets at most 8 KiB and is told whether there would be more; \<open>EOF\<close> is a body without a value.\<close>

definition maxBody :: nat where "maxBody = 8 * 2 ^ 10"

definition EOF :: error where "EOF = Errorf ''EOF'' []"

definition decodeJSON :: "(bytes \<Rightarrow> bool \<Rightarrow> error + 'a) \<Rightarrow> 'a \<Rightarrow> bytes \<Rightarrow> error + 'a" where
  "decodeJSON decode zero body = (case decode (take maxBody body) (maxBody < length body) of
     Inr v \<Rightarrow> Inr v
   | Inl err \<Rightarrow> if err = EOF then Inr zero else Inl (Wrapf ''malformed request body: %w'' [] err))"

section \<open>Static files\<close>

text \<open>\<open>filepath.Clean\<close> of a rooted path, on its segments; \<open>..\<close> at the root stays there.\<close>

fun clean_segments :: "string list \<Rightarrow> string list \<Rightarrow> string list" where
  "clean_segments [] acc = rev acc"
| "clean_segments (s # ss) acc =
     (if s = [] \<or> s = ''.'' then clean_segments ss acc
      else if s = ''..'' then clean_segments ss (drop 1 acc)
      else clean_segments ss (s # acc))"

datatype Served = ServeRequested | ServeIndex "string list"

text \<open>\<open>stat\<close> tells whether a path is a directory, \<open>None\<close> is its error. The file server gets the request as it came.\<close>

definition spaHandler :: "(string list \<Rightarrow> bool option) \<Rightarrow> string list \<Rightarrow> string list \<Rightarrow> Served" where
  "spaHandler stat dir path =
     (if stat (dir @ clean_segments path []) = Some False then ServeRequested else ServeIndex (dir @ [''index.html'']))"

text \<open>The path that is looked at never leaves the directory of the console.\<close>

lemma clean_inside: "set (clean_segments ss acc) \<inter> {[], ''.'', ''..''} = {}" if "set acc \<inter> {[], ''.'', ''..''} = {}"
  using that by (induction ss acc rule: clean_segments.induct) (auto dest: in_set_dropD)

lemma clean_idem: "clean_segments (clean_segments ss []) [] = clean_segments ss []"
proof -
  have "clean_segments xs acc = rev acc @ xs" if "set xs \<inter> {[], ''.'', ''..''} = {}" for xs acc
    using that by (induction xs arbitrary: acc) auto
  then show ?thesis using clean_inside [of "[]" ss] by simp
qed

section \<open>Routes\<close>

datatype Route =
    ToCluster | ToStream | ToConfig | ToKeys | ToHealth | ToKV string | ToChaos string | ToWeb
  | NotAllowed | NotFound

fun get_route :: "string list \<Rightarrow> Route option" where
  "get_route segs =
     (if segs = [''api'', ''cluster''] then Some ToCluster
      else if segs = [''api'', ''stream''] then Some ToStream
      else if segs = [''api'', ''config''] then Some ToConfig
      else if segs = [''api'', ''keys''] then Some ToKeys
      else if segs = [''healthz''] then Some ToHealth
      else None)"

fun post_route :: "string list \<Rightarrow> Route option" where
  "post_route [a, b, op] =
     (if a = ''api'' \<and> b = ''kv'' \<and> op \<noteq> [] then Some (ToKV op)
      else if a = ''api'' \<and> b = ''chaos'' \<and> op \<noteq> [] then Some (ToChaos op)
      else None)"
| "post_route _ = None"

definition route :: "bool \<Rightarrow> string \<Rightarrow> string list \<Rightarrow> Route" where
  "route web method segs =
     (let g = (case get_route segs of Some r \<Rightarrow> Some r | None \<Rightarrow> if web then Some ToWeb else None);
          own = (if method = ''GET'' \<or> method = ''HEAD'' then g else if method = ''POST'' then post_route segs else None)
      in case own of
           Some r \<Rightarrow> r
         | None \<Rightarrow> if g \<noteq> None \<or> post_route segs \<noteq> None then NotAllowed else NotFound)"

text \<open>The path that the mux redirects to: cleaned, and with its slash at the end.\<close>

definition mux_clean :: "string list \<Rightarrow> string list" where
  "mux_clean segs = (let cs = clean_segments segs []
     in if cs = [] then [[]] else if last segs = [] then cs @ [[]] else cs)"

lemma mux_clean_idem: "mux_clean (mux_clean segs) = mux_clean segs"
proof -
  let ?cs = "clean_segments segs []"
  have app: "clean_segments (xs @ [[]]) acc = clean_segments xs acc" for xs acc
    by (induction xs acc rule: clean_segments.induct) auto
  have last: "?cs \<noteq> [] \<Longrightarrow> last ?cs \<noteq> []" using clean_inside [of "[]" segs] by (metis disjoint_iff insertI1 last_in_set list.set(1) empty_iff)
  show ?thesis using clean_idem [of segs] last by (auto simp: mux_clean_def Let_def app)
qed

section \<open>The event stream\<close>

datatype Frame = FrameSnapshot GwSnapshot | FrameEvents "Event list" | FrameKeepAlive

datatype Wake = Updated | Heartbeat | Gone

text \<open>One push, when \<open>k\<close> more writes to the client work; \<open>None\<close> is the end of the stream.\<close>

definition stream_push :: "nat \<Rightarrow> nat \<Rightarrow> GwCluster \<Rightarrow> Frame list \<times> nat option" where
  "stream_push k lastEvent c = (case stream_send lastEvent c of
     ((snap, events), lastEvent') \<Rightarrow>
       (let frames = FrameSnapshot snap # (if events \<noteq> [] then [FrameEvents events] else [])
        in if length frames \<le> k then (frames, Some lastEvent') else (take k frames, None)))"

text \<open>The loop; with each wake comes the view as it is then.\<close>

fun stream_loop :: "nat \<Rightarrow> nat \<Rightarrow> (Wake \<times> GwCluster) list \<Rightarrow> Frame list" where
  "stream_loop k l [] = []"
| "stream_loop k l ((Updated, c) # ws) = (case stream_push k l c of
     (fs, None) \<Rightarrow> fs
   | (fs, Some l') \<Rightarrow> fs @ stream_loop (k - length fs) l' ws)"
| "stream_loop k l ((Heartbeat, c) # ws) = (if k = 0 then [] else FrameKeepAlive # stream_loop (k - 1) l ws)"
| "stream_loop k l ((Gone, c) # ws) = []"

definition handleStream :: "nat \<Rightarrow> GwCluster \<Rightarrow> (Wake \<times> GwCluster) list \<Rightarrow> Frame list" where
  "handleStream k c ws = stream_loop k 0 ((Updated, c) # ws)"

fun sent_events :: "Frame list \<Rightarrow> nat list" where
  "sent_events [] = []"
| "sent_events (FrameEvents es # fs) = map evSeq es @ sent_events fs"
| "sent_events (f # fs) = sent_events fs"

section \<open>The handler\<close>

record HttpRequest =
  rqMethod :: string
  rqEscaped :: "string list" \<comment> \<open>the path as it was sent\<close>
  rqPath :: "string list" \<comment> \<open>the decoded path\<close>
  rqBody :: bytes
  rqForwardedFor :: string
  rqRemoteAddr :: string

datatype HttpReply = Reply response | Streaming | StaticFile Served | Redirected "string list"

text \<open>What the handlers use of the world: the request's context and the members, and the decoders.\<close>

record 'w http_env =
  heFuel :: nat
  heKV :: "'w gw_env"
  heAdmin :: "'w admin_env"
  heUnescape :: "string \<Rightarrow> string"
  heFlusher :: bool
  heSplitHostPort :: "string \<Rightarrow> string option"
  heKvBody :: "bytes \<Rightarrow> bool \<Rightarrow> error + kvRequest"
  heChaosBody :: "bytes \<Rightarrow> bool \<Rightarrow> error + chaosRequest"
  heStat :: "string list \<Rightarrow> bool option"

definition client_of :: "'w http_env \<Rightarrow> HttpRequest \<Rightarrow> GwServer \<Rightarrow> string" where
  "client_of he r s = clientIP (heSplitHostPort he) (rqForwardedFor r) (rqRemoteAddr r) (opTrustProxyHeaders (hsOpts s))"

definition mux_serve :: "'w http_env \<Rightarrow> int \<Rightarrow> HttpRequest \<Rightarrow> GwServer \<Rightarrow> 'w \<Rightarrow> (GwServer \<times> 'w \<times> HttpReply) option" where
  "mux_serve he now r s w =
    (if rqMethod r \<noteq> ''CONNECT'' \<and> mux_clean (rqEscaped r) \<noteq> rqEscaped r then Some (s, w, Redirected (mux_clean (rqEscaped r)))
     else case route (opWebDir (hsOpts s) \<noteq> []) (rqMethod r) (map (heUnescape he) (rqEscaped r)) of
     ToCluster \<Rightarrow> Some (s, w, Reply (handleCluster s))
   | ToConfig \<Rightarrow> Some (s, w, Reply (handleConfig s))
   | ToKeys \<Rightarrow> Some (s, w, Reply (handleKeys s))
   | ToHealth \<Rightarrow> Some (s, w, Reply (200, BodyText (''ok'' @ [CHR 0x0A])))
   | ToStream \<Rightarrow> Some (s, w, if heFlusher he then Streaming else Reply (500, BodyText ''streaming unsupported''))
   | ToWeb \<Rightarrow> Some (s, w, StaticFile (spaHandler (heStat he) [opWebDir (hsOpts s)] (rqPath r)))
   | ToKV op \<Rightarrow> map_option (\<lambda>(s1, w1, resp). (s1, w1, Reply resp))
       (handleKV (heFuel he) (heKV he) now op (decodeJSON (heKvBody he) \<lparr>krKey = [], krValue = []\<rparr> (rqBody r)) (client_of he r s) s w)
   | ToChaos action \<Rightarrow>
       (case handleChaos (heAdmin he) now action (decodeJSON (heChaosBody he) \<lparr>cqNode = [], cqGroup = []\<rparr> (rqBody r)) (client_of he r s) s w of
          (s1, w1, resp) \<Rightarrow> Some (s1, w1, Reply resp))
   | NotAllowed \<Rightarrow> Some (s, w, Reply (405, BodyText ''Method Not Allowed''))
   | NotFound \<Rightarrow> Some (s, w, Reply (404, BodyText ''404 page not found'')))"

definition Handler :: "'w http_env \<Rightarrow> int \<Rightarrow> HttpRequest \<Rightarrow> GwServer \<Rightarrow> 'w \<Rightarrow> (GwServer \<times> 'w \<times> HttpReply) option" where
  "Handler he now r s w =
     (if rqMethod r = ''OPTIONS'' then Some (s, w, Reply (withCORS (rqMethod r) (200, BodyEmpty)))
      else mux_serve he now r s w)"

text \<open>The headers every reply carries.\<close>

definition cors_headers :: "(string \<times> string) list" where
  "cors_headers = [(''Access-Control-Allow-Origin'', ''*''), (''Access-Control-Allow-Headers'', ''Content-Type''),
     (''Access-Control-Allow-Methods'', ''GET, POST, OPTIONS'')]"

section \<open>What a request can change\<close>

lemma trackKey_opts: "hsOpts (trackKey op key ok s) = hsOpts s"
  by (simp add: trackKey_def)

lemma recordOperation_opts: "hsOpts (recordOperation now op key res s) = hsOpts s"
  by (simp add: recordOperation_def hs_record_def)

lemma handleKV_finish_opts: "handleKV_finish now op req res s = (s', resp) \<Longrightarrow> hsOpts s' = hsOpts s"
  by (auto simp: handleKV_finish_def recordOperation_opts trackKey_opts)

lemma handleKV_admit_opts: "handleKV_admit now op body ip s = (s', out) \<Longrightarrow> hsOpts s' = hsOpts s"
  by (auto simp: handleKV_admit_def split: if_splits sum.splits option.splits prod.splits)

lemma handleKV_opts:
  assumes "handleKV fuel env now op body ip s w = Some (s', w', resp)"
  shows "hsOpts s' = hsOpts s"
proof -
  obtain s1 out where a: "handleKV_admit now op body ip s = (s1, out)" by (cases "handleKV_admit now op body ip s")
  note s1 = handleKV_admit_opts [OF a]
  show ?thesis
  proof (cases out)
    case (Inl x)
    then show ?thesis using assms a s1 by (simp add: handleKV_def)
  next
    case (Inr req)
    obtain cl w1 res where g: "gw_Do fuel env (gcMembers (hsCluster s1)) op (krKey req) (krValue req) (hsClient s1) w = Some (cl, w1, res)"
      using assms a Inr by (auto simp: handleKV_def)
    obtain s2 resp2 where f: "handleKV_finish now op req res (s1\<lparr>hsClient := cl\<rparr>) = (s2, resp2)"
      by (cases "handleKV_finish now op req res (s1\<lparr>hsClient := cl\<rparr>)")
    have "s' = s2" using assms a Inr g f by (simp add: handleKV_def)
    then show ?thesis using handleKV_finish_opts [OF f] s1 by simp
  qed
qed

lemma handleChaos_opts: "handleChaos env now action body ip s w = (s', w', resp) \<Longrightarrow> hsOpts s' = hsOpts s"
  by (auto simp: handleChaos_def Let_def split: if_splits sum.splits option.splits prod.splits bool.splits)

lemma post_route_paths:
  "post_route segs = Some (ToKV op) \<Longrightarrow> segs = [''api'', ''kv'', op]"
  "post_route segs = Some (ToChaos op) \<Longrightarrow> segs = [''api'', ''chaos'', op]"
  by (cases segs rule: post_route.cases; simp split: if_splits)+

lemma get_route_paths: "get_route segs \<noteq> Some (ToKV op)" "get_route segs \<noteq> Some (ToChaos op)"
  by simp_all

lemma route_effect:
  assumes "r = ToKV op \<or> r = ToChaos op" "route web method segs = r"
  shows "method = ''POST'' \<and> post_route segs = Some r"
  using assms get_route_paths [of segs op]
  by (auto simp: route_def Let_def simp del: get_route.simps split: if_splits option.splits)


section \<open>The stream loses and repeats nothing\<close>

text \<open>The number of the oldest event that the log still holds; it and the newest one only grow.\<close>

definition oldest :: "GwCluster \<Rightarrow> nat" where
  "oldest c = gcNextSeq c + 1 - length (gcEvents c)"

definition ev_good :: "GwCluster \<Rightarrow> bool" where
  "ev_good c \<longleftrightarrow> ev_ok c \<and> (gcEvents c = [] \<longrightarrow> gcNextSeq c = 0)"

lemma ev_goodD: "ev_good c \<Longrightarrow> ev_ok c"
  by (simp add: ev_good_def)

definition grows :: "(GwCluster \<Rightarrow> GwCluster) \<Rightarrow> bool" where
  "grows f \<longleftrightarrow> (\<forall>c. ev_good c \<longrightarrow> ev_good (f c) \<and> gcNextSeq c \<le> gcNextSeq (f c) \<and> oldest c \<le> oldest (f c))"

lemma ev_growsD: "grows f \<Longrightarrow> ev_good c \<Longrightarrow> ev_good (f c) \<and> gcNextSeq c \<le> gcNextSeq (f c) \<and> oldest c \<le> oldest (f c)"
  by (simp add: grows_def)

lemma grows_same: "(\<And>c. gcEvents (f c) = gcEvents c \<and> gcNextSeq (f c) = gcNextSeq c) \<Longrightarrow> grows f"
  by (simp add: grows_def oldest_def ev_good_def ev_ok_def)

lemma grows_comp: "grows f \<Longrightarrow> grows g \<Longrightarrow> grows (\<lambda>c. g (f c))"
  unfolding grows_def by (blast intro: le_trans)

lemma grows_Record: "grows (Record now kind node txt)"
  unfolding grows_def
proof (intro allI impI conjI)
  fix c assume c: "ev_good c"
  show "ev_good (Record now kind node txt c)"
    using Record_ok [OF ev_goodD [OF c]] by (simp add: ev_good_def Record_def gw_notify_def ring_push_def Let_def eventRing_def)
  show "gcNextSeq c \<le> gcNextSeq (Record now kind node txt c)" by (simp add: Record_def gw_notify_def)
  show "oldest c \<le> oldest (Record now kind node txt c)"
  proof -
    have "length (gcEvents c) \<le> eventRing" "length (gcEvents c) \<le> gcNextSeq c" using c by (simp_all add: ev_good_def ev_ok_def)
    then show ?thesis
      by (cases "length (gcEvents c) = eventRing") (simp_all add: oldest_def Record_def gw_notify_def ring_push_def Let_def eventRing_def)
  qed
qed

lemma grows_if: "grows f \<Longrightarrow> grows g \<Longrightarrow> grows (\<lambda>c. if b c then f c else g c)"
  by (simp add: grows_def)

lemma grows_id: "grows (\<lambda>c. c)" "grows id"
  by (simp_all add: grows_def)

lemma grows_when: "grows f \<Longrightarrow> grows g \<Longrightarrow> grows (\<lambda>c. when_do b f (g c))"
  by (cases b) (simp_all add: when_do_def grows_comp)

lemma grows_choice: "grows f \<Longrightarrow> grows g \<Longrightarrow> grows (if b then f else g)"
  by simp

lemma grows_fold: "(\<And>x. grows (f x)) \<Longrightarrow> grows (fold f xs)"
  by (induction xs) (auto simp: grows_id comp_def intro: grows_comp)

lemma grows_lifecycle: "grows (lifecycle_event now v)"
  unfolding lifecycle_event_def by (auto intro: grows_Record grows_id)

lemma grows_term: "grows (recordTermAdvance now v j)"
proof -
  have "grows (\<lambda>c. c\<lparr>gcLastTermEvent := (gcLastTermEvent c)(nvID v \<mapsto> now)\<rparr>)" by (rule grows_same) simp
  from grows_comp [OF this grows_Record]
  have r: "grows (\<lambda>c. Record now k i x (c\<lparr>gcLastTermEvent := (gcLastTermEvent c)(nvID v \<mapsto> now)\<rparr>))" for k i x .
  show ?thesis unfolding recordTermAdvance_def Let_def by (cases "nvRole v = ''candidate''") (auto intro!: grows_if grows_id r)
qed

lemma grows_node: "grows (node_transition now was v)"
  unfolding node_transition_def [abs_def] Let_def
  by (intro grows_when grows_choice grows_lifecycle grows_Record grows_term grows_id(1))

lemma grows_transitions: "grows (recordTransitions now prev next)"
proof -
  have "grows (fold (\<lambda>v c. case before (nvID v) of None \<Rightarrow> c | Some was \<Rightarrow> node_transition now was v c) vs)"
    for before :: "string \<Rightarrow> NodeView option" and vs
  proof (rule grows_fold)
    fix v show "grows (\<lambda>c. case before (nvID v) of None \<Rightarrow> c | Some was \<Rightarrow> node_transition now was v c)"
      by (cases "before (nvID v)") (simp_all add: grows_id grows_node)
  qed
  then show ?thesis unfolding recordTransitions_def [abs_def] Let_def by (intro grows_when grows_Record)
qed

lemma grows_op: "grows (view_op a)"
proof (cases a)
  case (Tick rpc order now)
  have n: "grows (\<lambda>c. c\<lparr>gcSnapshot := x\<rparr>)" "grows (\<lambda>c. gw_notify (c\<lparr>gcLastBroadcast := now\<rparr>))" for x
    by (rule grows_same, simp add: gw_notify_def)+
  have "grows (gw_run rpc order now)"
    unfolding grows_def
  proof (intro allI impI)
    fix c assume c: "ev_good c"
    let ?next = "poll rpc order now (gcMembers c)"
    note g1 = ev_growsD [OF grows_comp [OF n(1) grows_transitions [of now "gcSnapshot c" ?next]] c, of ?next]
    note g2 = ev_growsD [OF n(2), of "recordTransitions now (gcSnapshot c) ?next (c\<lparr>gcSnapshot := ?next\<rparr>)"]
    show "ev_good (gw_run rpc order now c) \<and> gcNextSeq c \<le> gcNextSeq (gw_run rpc order now c) \<and> oldest c \<le> oldest (gw_run rpc order now c)"
      using g1 g2 by (auto simp: gw_run_def Let_def)
  qed
  then show ?thesis using Tick by (simp add: grows_def)
next
  case (Note now kind node msg)
  then show ?thesis using grows_Record [of now kind node msg] by (simp add: grows_def)
qed (rule grows_same; simp add: Subscribe_def Unsubscribe_def)+

text \<open>The view when the stream is opened and at each of its wakes, from what has happened to it in between.\<close>

fun stream_views :: "GwCluster \<Rightarrow> (ViewOp list \<times> Wake) list \<Rightarrow> (Wake \<times> GwCluster) list" where
  "stream_views c [] = []"
| "stream_views c ((acts, wk) # ss) = (wk, fold view_op acts c) # stream_views (fold view_op acts c) ss"

lemma view_ops_grow: "ev_good c \<Longrightarrow> ev_good (fold view_op acts c) \<and> gcNextSeq c \<le> gcNextSeq (fold view_op acts c) \<and>
    oldest c \<le> oldest (fold view_op acts c)"
  by (rule ev_growsD [OF grows_fold]) (rule grows_op)

lemma ev_ok_since:
  assumes "ev_good c"
  shows "map evSeq (EventsSince l c) = [max (l + 1) (oldest c) ..< gcNextSeq c + 1]"
proof -
  have "map evSeq (gcEvents c) = [oldest c ..< gcNextSeq c + 1]" using ev_goodD [OF assms] by (simp only: ev_ok_def oldest_def)
  moreover have "map evSeq (EventsSince l c) = filter (\<lambda>k. l < k) (map evSeq (gcEvents c))"
    by (simp add: EventsSince_def filter_map comp_def)
  ultimately have "map evSeq (EventsSince l c) = filter (\<lambda>k. l < k) [oldest c ..< gcNextSeq c + 1]" by simp
  moreover have "filter (\<lambda>k. l < k) [a ..< b] = [max (l + 1) a ..< b]" for a b
    by (induction b) (auto simp: max_def)
  ultimately show ?thesis by simp
qed

text \<open>A push sends the numbers behind \<open>l\<close> that the log holds, and goes on behind the newest one.\<close>

lemma stream_push_ok:
  assumes "ev_good c" "l \<le> gcNextSeq c" "stream_push k l c = (fs, r)"
  shows "(\<exists>n. sent_events fs = take n [max (l + 1) (oldest c) ..< gcNextSeq c + 1] \<and> (r \<noteq> None \<or> 2 \<le> k \<longrightarrow>
      sent_events fs = [max (l + 1) (oldest c) ..< gcNextSeq c + 1] \<and> r = Some (gcNextSeq c))) \<and> length fs \<le> 2"
proof -
  let ?es = "EventsSince l c"
  note m = ev_ok_since [OF assms(1), of l]
  have sent: "sent_events (take j (FrameSnapshot x # (if ?es \<noteq> [] then [FrameEvents ?es] else []))) = (if 2 \<le> j then map evSeq ?es else [])" for j x
    by (cases j; cases "j - 1"; simp)
  have new: "(if ?es \<noteq> [] then evSeq (last ?es) else l) = gcNextSeq c"
  proof (cases "?es = []")
    case True
    then have "[max (l + 1) (oldest c) ..< gcNextSeq c + 1] = []" using m by simp
    then have "gcNextSeq c + 1 \<le> max (l + 1) (oldest c)" by (simp only: upt_eq_Nil_conv) simp
    then show ?thesis using True assms(1,2) by (cases "gcEvents c") (auto simp: oldest_def ev_good_def ev_ok_def max_def split: if_splits)
  next
    case False
    then have "evSeq (last ?es) = last (map evSeq ?es)" by (simp add: last_map)
    then have "evSeq (last ?es) = last [max (l + 1) (oldest c) ..< gcNextSeq c + 1]" by (simp only: m)
    moreover have "max (l + 1) (oldest c) < gcNextSeq c + 1" using False m by (metis Nil_is_map_conv not_le upt_conv_Nil)
    ultimately show ?thesis using False by simp
  qed
  show ?thesis
  proof (cases "2 \<le> k \<or> ?es = [] \<and> 1 \<le> k")
    case True
    then have "fs = FrameSnapshot (gcSnapshot c) # (if ?es \<noteq> [] then [FrameEvents ?es] else [])" "r = Some (gcNextSeq c)"
      using assms(3) new by (auto simp: stream_push_def stream_send_def Let_def split: if_splits)
    then have "sent_events fs = map evSeq ?es" "r = Some (gcNextSeq c)" "length fs \<le> 2" by auto
    then show ?thesis using m by (intro conjI exI [of _ "length (map evSeq ?es)"]) auto
  next
    case False
    then have "fs = take k (FrameSnapshot (gcSnapshot c) # (if ?es \<noteq> [] then [FrameEvents ?es] else []))" "r = None" "k < 2"
      using assms(3) by (auto simp: stream_push_def stream_send_def Let_def split: if_splits)
    then show ?thesis using sent [of k] by (intro conjI exI [of _ 0]) auto
  qed
qed

lemma sent_append [simp]: "sent_events (fs @ gs) = sent_events fs @ sent_events gs"
  by (induction fs rule: sent_events.induct) auto

text \<open>The loop from a view on: everything behind \<open>l\<close>, in order; and once it has pushed the last view, all that
  the log still holds of it, when \<open>l\<close> had everything up to it.\<close>

lemma views_end:
  "ev_good c \<Longrightarrow> ss \<noteq> [] \<Longrightarrow> ev_good (snd (last (stream_views c ss))) \<and> oldest c \<le> oldest (snd (last (stream_views c ss)))"
proof (induction c ss rule: stream_views.induct)
  case (2 c acts wk ss)
  note g = view_ops_grow [OF 2(2), of acts]
  show ?case
  proof (cases "ss = []")
    case False
    then have "stream_views (fold view_op acts c) ss \<noteq> []" by (cases ss) auto
    then show ?thesis using 2(1) g False by auto
  qed (use g in simp)
qed simp

definition pushed :: "nat \<Rightarrow> nat \<Rightarrow> GwCluster \<Rightarrow> (ViewOp list \<times> Wake) list \<Rightarrow> nat list" where
  "pushed k l c ss = sent_events (stream_loop k l (stream_views c ss))"

lemma pushed_simps [simp]:
  "pushed k l c [] = []"
  "pushed k l c ((acts, Gone) # ss) = []"
  "pushed k l c ((acts, Heartbeat) # ss) = (if k = 0 then [] else pushed (k - 1) l (fold view_op acts c) ss)"
  "pushed k l c ((acts, Updated) # ss) = (case stream_push k l (fold view_op acts c) of
     (fs, None) \<Rightarrow> sent_events fs
   | (fs, Some l') \<Rightarrow> sent_events fs @ pushed (k - length fs) l' (fold view_op acts c) ss)"
  by (simp_all add: pushed_def split: prod.splits option.splits)

lemma pushed_order:
  "ev_good c \<Longrightarrow> l \<le> gcNextSeq c \<Longrightarrow> sorted_wrt (<) (pushed k l c ss) \<and> (\<forall>x \<in> set (pushed k l c ss). l < x)"
proof (induction ss arbitrary: k l c)
  case (Cons a ss)
  obtain acts wk where a: "a = (acts, wk)" by (cases a)
  let ?c = "fold view_op acts c"
  note g = view_ops_grow [OF Cons.prems(1), of acts]
  have le: "l \<le> gcNextSeq ?c" using g Cons.prems(2) by simp
  show ?case
  proof (cases wk)
    case Updated
    obtain fs res where p: "stream_push k l ?c = (fs, res)" by (cases "stream_push k l ?c")
    obtain n where n: "sent_events fs = take n [max (l + 1) (oldest ?c) ..< gcNextSeq ?c + 1]"
      "res \<noteq> None \<Longrightarrow> res = Some (gcNextSeq ?c)"
      using stream_push_ok [OF _ le p] g by blast
    have s: "sorted_wrt (<) (sent_events fs)" unfolding n(1) by (rule sorted_wrt_take) (rule sorted_wrt_upt)
    have b: "\<forall>x \<in> set (sent_events fs). l < x \<and> x \<le> gcNextSeq ?c"
      unfolding n(1) by (auto dest!: in_set_takeD simp del: upt_Suc)
    show ?thesis
    proof (cases res)
      case None
      then show ?thesis using a Updated p s b by simp
    next
      case (Some l')
      then have "l' = gcNextSeq ?c" using n(2) by simp
      then have "sorted_wrt (<) (pushed (k - length fs) l' ?c ss) \<and> (\<forall>x \<in> set (pushed (k - length fs) l' ?c ss). gcNextSeq ?c < x)"
        using Cons.IH [of ?c l' "k - length fs"] g by simp
      then show ?thesis using a Updated p s b Some le by (auto simp: sorted_wrt_append intro: le_less_trans)
    qed
  next
    case Heartbeat
    then show ?thesis using Cons.IH [OF _ le, of "k - 1"] g a by auto
  qed (use a in simp)
qed simp

lemma pushed_all:
  assumes "ev_good c" "l \<le> gcNextSeq c" "2 * length ss \<le> k" "list_all (\<lambda>a. snd a \<noteq> Gone) ss" "ss \<noteq> []" "snd (last ss) = Updated"
    and "oldest (snd (last (stream_views c ss))) \<le> x" "x \<le> gcNextSeq (snd (last (stream_views c ss)))" "l < x"
  shows "x \<in> set (pushed k l c ss)"
  using assms
proof (induction ss arbitrary: k l c)
  case (Cons a ss)
  obtain acts wk where a: "a = (acts, wk)" by (cases a)
  let ?c = "fold view_op acts c"
  note g = view_ops_grow [OF Cons.prems(1), of acts]
  have le: "l \<le> gcNextSeq ?c" using g Cons.prems(2) by simp
  have views: "stream_views ?c ss \<noteq> []" if "ss \<noteq> []" using that by (cases ss) auto
  have rest: "x \<in> set (pushed k' l' ?c ss)" if "ss \<noteq> []" "l' \<le> gcNextSeq ?c" "2 * length ss \<le> k'" "l' < x" for k' l'
    using Cons.IH [of ?c l' k'] g that Cons.prems(4-8) a views by auto
  show ?case
  proof (cases wk)
    case Updated
    obtain fs res where p: "stream_push k l ?c = (fs, res)" by (cases "stream_push k l ?c")
    have "2 \<le> k" using Cons.prems(3) by simp
    then have n: "sent_events fs = [max (l + 1) (oldest ?c) ..< gcNextSeq ?c + 1]" "res = Some (gcNextSeq ?c)" "length fs \<le> 2"
      using stream_push_ok [OF _ le p] g by blast+
    have P: "pushed k l c (a # ss) = sent_events fs @ pushed (k - length fs) (gcNextSeq ?c) ?c ss"
      using a Updated p n(2) by simp
    show ?thesis
    proof (cases "x \<le> gcNextSeq ?c")
      case True
      have "oldest ?c \<le> x"
        using Cons.prems(7) views_end [of ?c ss] g a views by (cases "ss = []") auto
      then have "x \<in> set (sent_events fs)" using True Cons.prems(9) unfolding n(1) by (simp del: upt_Suc)
      then show ?thesis using P by simp
    next
      case False
      then have "ss \<noteq> []" using Cons.prems(8) a by auto
      then show ?thesis using rest [of "gcNextSeq ?c" "k - length fs"] P False Cons.prems(3) n(3) by simp
    qed
  next
    case Heartbeat
    then have "ss \<noteq> []" using Cons.prems(6) a by auto
    then show ?thesis using rest [of l "k - 1"] Heartbeat a Cons.prems(3,9) le by simp
  qed (use a Cons.prems(4) in simp)
qed simp

text \<open>C29: The event stream repeats nothing and loses nothing that is still there. Open a stream on a view that came about
  by polls, recorded events and subscriptions, and let more of them happen between its wakes. Then the
  numbers of the events it sends strictly increase, however far the connection gets. While the client stays and
  its connection works, after a push the stream has sent every event that the log holds.\<close>

theorem stream_exactly_once:
  fixes before :: "ViewOp list" and ss :: "(ViewOp list \<times> Wake) list"
  assumes "NewCluster dial rpc order now0 ms = Inr c0"
  defines "c \<equiv> fold view_op before c0" and "script \<equiv> ([], Updated) # ss"
  shows "sorted_wrt (<) (sent_events (handleStream k c (stream_views c ss))) \<and>
    (2 * length script \<le> k \<and> list_all (\<lambda>a. snd a \<noteq> Gone) script \<and> snd (last script) = Updated \<longrightarrow>
      evSeq ` set (gcEvents (snd (last (stream_views c script)))) \<subseteq> set (sent_events (handleStream k c (stream_views c ss))))"
proof -
  have "ev_good c0" using assms(1) by (auto simp: NewCluster_def ev_good_def ev_ok_def Let_def split: if_splits option.splits)
  then have ok: "ev_good c" unfolding c_def using view_ops_grow by blast
  have P: "sent_events (handleStream k c (stream_views c ss)) = pushed k 0 c script"
    by (simp add: handleStream_def pushed_def script_def)
  have v: "evSeq ` set (gcEvents d) = {oldest d ..< gcNextSeq d + 1} \<and> 0 < oldest d" if "ev_good d" for d
  proof -
    have "map evSeq (gcEvents d) = [oldest d ..< gcNextSeq d + 1]" using ev_goodD [OF that] by (simp only: ev_ok_def oldest_def)
    from arg_cong [OF this, of set] show ?thesis using ev_goodD [OF that] by (simp add: oldest_def ev_ok_def del: upt_Suc)
  qed
  have e: "ev_good (snd (last (stream_views c script)))" using views_end [OF ok, of script] by (simp add: script_def)
  show ?thesis
    unfolding P using pushed_order [OF ok] pushed_all [OF ok, of 0 script k] v [OF e] by (auto simp: script_def simp del: pushed_simps)
qed

section \<open>Examples\<close>

text \<open>A view with two events, one before the stream is opened and one while it is open.\<close>

theorem stream_exactly_once_witness:
  "\<exists>c0. NewCluster (\<lambda>a. None) wit_rpc rev 0 wit_members = Inr c0 \<and>
    (let c = fold view_op [Note 0 ''write'' [] (Errorf ''a'' [])] c0;
         sent = sent_events (handleStream 10 c (stream_views c [([], Heartbeat), ([Note 1 ''write'' [] (Errorf ''b'' [])], Updated)]))
     in sorted_wrt (<) sent \<and> {1, 2} \<subseteq> set sent)"
proof -
  obtain c0 where c0: "NewCluster (\<lambda>a. None) wit_rpc rev 0 wit_members = Inr c0" "gcNextSeq c0 = 0" "gcEvents c0 = []"
    by (simp add: NewCluster_def wit_members_def Let_def find_None_iff)
  let ?ss = "[([], Heartbeat), ([Note 1 ''write'' [] (Errorf ''b'' [])], Updated)]"
  have e: "map evSeq (gcEvents (Record 1 ''write'' [] (Errorf ''b'' []) (Record 0 ''write'' [] (Errorf ''a'' []) c0))) = [1, 2]"
    using c0(2,3) by (simp add: Record_def gw_notify_def ring_push_def Let_def eventRing_def)
  then have "evSeq ` set (gcEvents (Record 1 ''write'' [] (Errorf ''b'' []) (Record 0 ''write'' [] (Errorf ''a'' []) c0))) = {1, 2}"
    by (metis list.set_map list.simps(15) empty_set)
  then show ?thesis
    using stream_exactly_once [OF c0(1), where before = "[Note 0 ''write'' [] (Errorf ''a'' [])]" and ss = ?ss and k = 10] c0(1)
    by (auto simp: Let_def)
qed

text \<open>A gateway without a console whose cluster counts the calls it gets.\<close>

definition count_admin :: "nat admin_env" where
  "count_admin = \<lparr>chCrash = \<lambda>w i. (w + 1, Inr \<lparr>lrLifecycle = LIFECYCLE_CRASHED, lrError = None\<rparr>),
     chRestart = \<lambda>w i. (w + 1, Inr \<lparr>lrLifecycle = LIFECYCLE_RUNNING, lrError = None\<rparr>),
     chSetPartition = \<lambda>w i ps. (w + 1, None)\<rparr>"

definition count_http :: "nat http_env" where
  "count_http = \<lparr>heFuel = 1, heKV = \<lparr>geCtxErr = \<lambda>w. (w, None), geNow = \<lambda>w. (w, 0), geCall = \<lambda>w i op cmd. (w + 1, Inl EOF), geWait = \<lambda>w. w,
       geSnapshot = \<lambda>w. poll wit_rpc rev 0 wit_members, geMessage = \<lambda>e. []\<rparr>,
     heAdmin = count_admin, heUnescape = id, heFlusher = True, heSplitHostPort = \<lambda>a. None, heKvBody = \<lambda>b more. Inl EOF,
     heChaosBody = \<lambda>b more. Inr \<lparr>cqNode = ''n1'', cqGroup = []\<rparr>, heStat = \<lambda>p. None\<rparr>"

definition count_gateway :: GwServer where
  "count_gateway = gw_NewServer wit_chaos (gw_NewClient ''g'') DefaultOptions"

definition crash_n1 :: HttpRequest where
  "crash_n1 = \<lparr>rqMethod = ''POST'', rqEscaped = [''api'', ''chaos'', ''crash''], rqPath = [''api'', ''chaos'', ''crash''], rqBody = [], rqForwardedFor = [], rqRemoteAddr = ''a''\<rparr>"

lemma crash_n1_run: "\<exists>s'. Handler count_http 0 crash_n1 count_gateway 0 = Some (s', 1, Reply (200, BodyChaos ''crash'' ''n1''))"
  by (simp add: Handler_def crash_n1_def mux_serve_def mux_clean_def route_def count_gateway_def gw_NewServer_def DefaultOptions_def handleChaos_def
      allow_def newLimiter_def sweep_buckets_def refilled_def chaos_action_def decodeJSON_def count_http_def count_admin_def ch_Crash_def
      lifecycle_error_def Known_def chMembers_def wit_chaos_def NewChaos_def wit_members_def Let_def)


end
