(* ===== verification/Cli_Tools.thy ===== *)
theory Cli_Tools
  imports Go_Strings Shard_Client Gateway_View
begin

text \<open>
  The commands: argument parsing and the endpoint sweep of src/cmd/distkv-cli/main.go, the peer list
  and the Raft group of src/cmd/distkv-server/main.go, the member list of
  src/cmd/distkv-gateway/main.go. Flags, signals, listeners and printing are left out.

  The sweep of the client runs until its context is done; the model bounds the number of its
  attempts and passes with fuel.
\<close>

section \<open>The client's command line\<close>

definition ToLower :: "string \<Rightarrow> string" where
  "ToLower s = map (\<lambda>c. let n = of_char c :: nat in if 65 \<le> n \<and> n \<le> 90 then char_of (n + 32) else c) s"

definition splitEndpoints :: "string \<Rightarrow> string list" where
  "splitEndpoints s = filter (\<lambda>p. p \<noteq> []) (map TrimSpace (Split (CHR '','') s))"

text \<open>The operation, the key and the value of the arguments.\<close>

definition cli_args :: "string list \<Rightarrow> error + (string \<times> string \<times> string)" where
  "cli_args args = (case args of
     [] \<Rightarrow> Inl (Errorf ''no command given'' [])
   | a # as \<Rightarrow>
       let op = ToLower a in
       if op = ''get'' then (case as of [k] \<Rightarrow> Inr (op, k, []) | _ \<Rightarrow> Inl (Errorf ''get takes exactly one argument: get <key>'' []))
       else if op = ''put'' then (case as of [k, v] \<Rightarrow> Inr (op, k, v) | _ \<Rightarrow> Inl (Errorf ''put takes exactly two arguments: put <key> <value>'' []))
       else if op = ''append'' then (case as of [k, v] \<Rightarrow> Inr (op, k, v) | _ \<Rightarrow> Inl (Errorf ''append takes exactly two arguments: append <key> <value>'' []))
       else if op = ''delete'' then (case as of [k] \<Rightarrow> Inr (op, k, []) | _ \<Rightarrow> Inl (Errorf ''delete takes exactly one argument: delete <key>'' []))
       else Inl (Errorf ''unknown command %q'' [StrArg a]))"

text \<open>The command that is sent: every run of the program uses sequence number 1.\<close>

definition cli_cmd :: "string \<Rightarrow> string \<Rightarrow> string \<Rightarrow> Command" where
  "cli_cmd clientID key value = \<lparr>cmClientId = clientID, cmSeqNo = 1, cmOp = OP_UNSPECIFIED, cmKey = key, cmValue = value\<rparr>"

section \<open>The client's sweep\<close>

record 'w cli_env =
  xeCtxErr :: "'w \<Rightarrow> 'w \<times> error option"
  xeDial :: "string \<Rightarrow> error option"
  xeCall :: "'w \<Rightarrow> string \<Rightarrow> string \<Rightarrow> Command \<Rightarrow> 'w \<times> (error + CommandReply)"
  xeWait :: "'w \<Rightarrow> 'w"

record 'w cli_state =
  xsAddrs :: "string list"
  xsConns :: "string set"
  xsLastErr :: "error option"
  xsWorld :: 'w

definition cli_refused :: "CommandReply \<Rightarrow> error" where
  "cli_refused reply = (case crError reply of
     None \<Rightarrow> Errorf ''%s (leader hint: %q)'' [StrArg [], StrArg (crLeaderHint reply)]
   | Some m \<Rightarrow> Wrapf ''%s (leader hint: %q)'' [StrArg (crLeaderHint reply)] m)"

text \<open>The inner loop at position \<open>i\<close>. After a hint is put in front, \<open>i = 0\<close> is followed by \<open>i++\<close>.\<close>

fun cli_pass :: "nat \<Rightarrow> 'w cli_env \<Rightarrow> string \<Rightarrow> Command \<Rightarrow> nat \<Rightarrow> 'w cli_state \<Rightarrow> ('w cli_state \<times> CommandReply option) option" where
  "cli_pass 0 env op cmd i s = None"
| "cli_pass (Suc fuel) env op cmd i s =
     (if i \<ge> length (xsAddrs s) then Some (s, None)
      else
        let addr = xsAddrs s ! i
        in case xeCtxErr env (xsWorld s) of
          (w1, Some err) \<Rightarrow> Some (s\<lparr>xsWorld := w1\<rparr>, None)
        | (w1, None) \<Rightarrow>
            (case (if addr \<in> xsConns s then None else xeDial env addr) of
               Some err \<Rightarrow> cli_pass fuel env op cmd (i + 1) (s\<lparr>xsWorld := w1, xsLastErr := Some err\<rparr>)
             | None \<Rightarrow>
                 (let s1 = s\<lparr>xsConns := insert addr (xsConns s)\<rparr>
                  in case xeCall env w1 addr op cmd of
                    (w2, Inl err) \<Rightarrow> cli_pass fuel env op cmd (i + 1) (s1\<lparr>xsWorld := w2, xsLastErr := Some err\<rparr>)
                  | (w2, Inr reply) \<Rightarrow>
                      if crSuccess reply then Some (s1\<lparr>xsWorld := w2\<rparr>, Some reply)
                      else
                        let s2 = s1\<lparr>xsWorld := w2, xsLastErr := Some (cli_refused reply)\<rparr>;
                            hint = crLeaderHint reply
                        in if CHR '':'' \<in> set hint \<and> hint \<notin> set (xsAddrs s2)
                           then cli_pass fuel env op cmd (0 + 1) (s2\<lparr>xsAddrs := hint # xsAddrs s2\<rparr>)
                           else cli_pass fuel env op cmd (i + 1) s2)))"

fun cli_execute :: "nat \<Rightarrow> nat \<Rightarrow> 'w cli_env \<Rightarrow> string \<Rightarrow> Command \<Rightarrow> 'w cli_state \<Rightarrow> ('w cli_state \<times> (error + CommandReply)) option" where
  "cli_execute 0 attempts env op cmd s = None"
| "cli_execute (Suc fuel) attempts env op cmd s =
     (case xeCtxErr env (xsWorld s) of
        (w1, Some err) \<Rightarrow> Some (s\<lparr>xsWorld := w1\<rparr>, Inl (case xsLastErr s of
            Some e \<Rightarrow> Wrapf ''no endpoint accepted the request: %w'' [] e | None \<Rightarrow> err))
      | (w1, None) \<Rightarrow>
          (case cli_pass attempts env op cmd 0 (s\<lparr>xsWorld := w1\<rparr>) of
             None \<Rightarrow> None
           | Some (s1, Some reply) \<Rightarrow> Some (s1, Inr reply)
           | Some (s1, None) \<Rightarrow> cli_execute fuel attempts env op cmd (s1\<lparr>xsWorld := xeWait env (xsWorld s1)\<rparr>)))"

text \<open>\<open>randomID\<close> is the generated session id; the result is what is printed.\<close>

definition cli_run :: "nat \<Rightarrow> nat \<Rightarrow> 'w cli_env \<Rightarrow> string list \<Rightarrow> string \<Rightarrow> string \<Rightarrow> string \<Rightarrow> 'w \<Rightarrow> (error + string) option" where
  "cli_run fuel attempts env args endpoints clientID randomID w =
     (if args = [] then Some (Inl (Errorf ''no command given'' []))
      else if splitEndpoints endpoints = [] then Some (Inl (Errorf ''-endpoints listed no usable addresses'' []))
      else case cli_args args of
        Inl err \<Rightarrow> Some (Inl err)
      | Inr (op, key, value) \<Rightarrow>
          map_option (\<lambda>(s, res). case res of
              Inl err \<Rightarrow> Inl err
            | Inr reply \<Rightarrow> Inr (if op = ''get'' then (if crFound reply then crValue reply else ''(not found)'') else ''OK''))
            (cli_execute fuel attempts env op (cli_cmd (if clientID = [] then randomID else clientID) key value)
               \<lparr>xsAddrs = splitEndpoints endpoints, xsConns = {}, xsLastErr = None, xsWorld = w\<rparr>))"

section \<open>The server's peers\<close>

fun peers_loop :: "string list \<Rightarrow> (node_id \<rightharpoonup> string) \<Rightarrow> error + (node_id \<rightharpoonup> string)" where
  "peers_loop [] addrs = Inr addrs"
| "peers_loop (p # ps) addrs =
     (let part = TrimSpace p
      in if part = [] then peers_loop ps addrs
         else case Cut (CHR ''='') part of
           (name, addr, ok) \<Rightarrow>
             if \<not> ok \<or> TrimSpace name = [] \<or> TrimSpace addr = []
             then Inl (Errorf ''malformed peer %q, want id=host:port'' [StrArg part])
             else peers_loop ps (addrs(TrimSpace name \<mapsto> TrimSpace addr)))"

definition parsePeers :: "string \<Rightarrow> error + (node_id \<rightharpoonup> string)" where
  "parsePeers s =
     (if TrimSpace s = [] then Inl (Errorf ''-peers is required, as a comma-separated list of id=host:port'' [])
      else case peers_loop (Split (CHR '','') s) Map.empty of
        Inl err \<Rightarrow> Inl err
      | Inr addrs \<Rightarrow> if addrs = Map.empty then Inl (Errorf ''-peers listed no usable entries'' []) else Inr addrs)"

fun shard_group :: "ShardMap \<Rightarrow> node_id \<Rightarrow> node_id list option" where
  "shard_group [] i = None"
| "shard_group (s # ss) i = (if i \<in> set (shReplicas s) then Some (shReplicas s) else shard_group ss i)"

definition shardGroupFor :: "(string \<Rightarrow> error + bytes) \<Rightarrow> (bytes \<Rightarrow> error + ShardMap) \<Rightarrow> string \<Rightarrow> node_id \<Rightarrow> error + node_id list" where
  "shardGroupFor readFile parse path i = (case LoadMap readFile parse path of
     Inl err \<Rightarrow> Inl err
   | Inr m \<Rightarrow> (case shard_group m i of
       Some g \<Rightarrow> Inr g
     | None \<Rightarrow> Inl (Errorf ''node %s does not appear in any shard in %s'' [StrArg i, StrArg path])))"

fun group_peers :: "(node_id \<rightharpoonup> string) \<Rightarrow> node_id \<Rightarrow> node_id list \<Rightarrow> error + node_id list" where
  "group_peers addrs self [] = Inr []"
| "group_peers addrs self (p # ps) =
     (if p = self then group_peers addrs self ps
      else if addrs p = None then Inl (Errorf ''shard replica %s has no address in -peers'' [StrArg p])
      else map_sum id (\<lambda>rest. p # rest) (group_peers addrs self ps))"

text \<open>The checks of the server's \<open>run\<close> and its Raft group; \<open>keys\<close> lists the peer map in some order.\<close>

definition server_peers :: "((node_id \<rightharpoonup> string) \<Rightarrow> node_id list) \<Rightarrow> (string \<Rightarrow> error + bytes) \<Rightarrow> (bytes \<Rightarrow> error + ShardMap) \<Rightarrow>
    node_id \<Rightarrow> string \<Rightarrow> string \<Rightarrow> string \<Rightarrow> error + ((node_id \<rightharpoonup> string) \<times> node_id list)" where
  "server_peers keys readFile parse i peersFlag dataDir shardConfig =
     (if i = [] then Inl (Errorf ''-id is required'' [])
      else if dataDir = [] then Inl (Errorf ''-data-dir is required'' [])
      else case parsePeers peersFlag of
        Inl err \<Rightarrow> Inl err
      | Inr addrs \<Rightarrow>
          if addrs i = None then Inl (Errorf ''-peers must include this node (%s); got %v'' [StrArg i, StrsArg (keys addrs)])
          else case (if shardConfig = [] then Inr (keys addrs) else shardGroupFor readFile parse shardConfig i) of
            Inl err \<Rightarrow> Inl err
          | Inr grp \<Rightarrow> map_sum id (\<lambda>ps. (addrs, ps)) (group_peers addrs i grp))"

section \<open>The gateway's members\<close>

fun nodes_loop :: "string list \<Rightarrow> node_id set \<Rightarrow> error + Member list" where
  "nodes_loop [] seen = Inr []"
| "nodes_loop (p # ps) seen =
     (let part = TrimSpace p
      in if part = [] then nodes_loop ps seen
         else case Cut (CHR ''='') part of
           (name0, addr0, ok) \<Rightarrow>
             let name = TrimSpace name0; addr = TrimSpace addr0
             in if \<not> ok \<or> name = [] \<or> addr = []
                then Inl (Errorf ''malformed node %q, want id=host:port'' [StrArg part])
                else if name \<in> seen then Inl (Errorf ''node %s listed twice'' [StrArg name])
                else map_sum id (\<lambda>ms. \<lparr>mID = name, mAddr = addr\<rparr> # ms) (nodes_loop ps (insert name seen)))"

definition parseNodes :: "string \<Rightarrow> error + Member list" where
  "parseNodes s =
     (if TrimSpace s = [] then Inl (Errorf ''-nodes is required, as a comma-separated list of id=host:port'' [])
      else case nodes_loop (Split (CHR '','') s) {} of
        Inl err \<Rightarrow> Inl err
      | Inr ms \<Rightarrow> if ms = [] then Inl (Errorf ''-nodes listed no usable entries'' []) else Inr ms)"

section \<open>Printing and parsing the member list\<close>

definition show_member :: "Member \<Rightarrow> string" where
  "show_member m = mID m @ CHR ''='' # mAddr m"

definition member_ok :: "Member \<Rightarrow> bool" where
  "member_ok m \<longleftrightarrow> trimmed (mID m) \<and> trimmed (mAddr m) \<and> CHR ''='' \<notin> set (mID m) \<and>
     CHR '','' \<notin> set (mID m) \<and> CHR '','' \<notin> set (mAddr m)"

lemma show_member_trimmed: "member_ok m \<Longrightarrow> TrimSpace (show_member m) = show_member m"
  by (rule TrimSpace_trimmed) (auto simp: member_ok_def trimmed_def show_member_def)

lemma nodes_loop_show:
  "list_all member_ok ms \<Longrightarrow> distinct (map mID ms) \<Longrightarrow> seen \<inter> mID ` set ms = {} \<Longrightarrow>
     nodes_loop (map show_member ms) seen = Inr ms"
proof (induction ms arbitrary: seen)
  case (Cons m ms)
  then have m: "member_ok m" by simp
  have "nodes_loop (map show_member ms) (insert (mID m) seen) = Inr ms"
    using Cons.prems by (intro Cons.IH) auto
  moreover have "Cut (CHR ''='') (show_member m) = (mID m, mAddr m, True)"
    using m by (simp add: show_member_def Cut_append member_ok_def)
  moreover have "TrimSpace (mID m) = mID m" "TrimSpace (mAddr m) = mAddr m" "mID m \<noteq> []" "mAddr m \<noteq> []"
    using m by (auto simp: member_ok_def trimmed_def TrimSpace_trimmed)
  moreover have "show_member m \<noteq> []" by (simp add: show_member_def)
  ultimately show ?case
    using Cons.prems show_member_trimmed [OF m] by (simp add: Let_def)
qed simp

lemma server_peers_group:
  assumes "group_peers addrs i grp = Inr ps"
  shows "ps = filter (\<lambda>p. p \<noteq> i) grp \<and> set ps \<subseteq> dom addrs"
  using assms
proof (induction grp arbitrary: ps)
  case (Cons p grp)
  then show ?case by (cases "group_peers addrs i grp") (auto split: if_splits)
qed simp

end
