(* ===== verification/Bench.thy ===== *)
theory Bench
  imports Kv_Store Complex_Main "HOL-Library.Multiset"
begin

text \<open>
  The load generator (src/bench/bench.go): one client's operations, the result of a run and the
  percentiles. Rates and percentiles are rationals where the code has \<open>float64\<close>, durations are
  integers in nanoseconds. The clock, the random source, the leader function and the nodes are
  the argument \<open>env\<close> over a world of type \<open>'w\<close>.
\<close>

record Workload =
  wlName :: string
  wlReadFraction :: rat

definition ReadHeavy :: Workload where "ReadHeavy = \<lparr>wlName = ''read-heavy'', wlReadFraction = 95 / 100\<rparr>"
definition WriteHeavy :: Workload where "WriteHeavy = \<lparr>wlName = ''write-heavy'', wlReadFraction = 5 / 100\<rparr>"
definition Mixed :: Workload where "Mixed = \<lparr>wlName = ''mixed'', wlReadFraction = 50 / 100\<rparr>"

record BenchConfig =
  bcWorkload :: Workload
  bcNodes :: int
  bcClients :: int
  bcDuration :: int
  bcKeys :: int
  bcValueSize :: int
  bcOpTimeout :: int
  bcSeed :: int
  bcWarmupOps :: int
  bcMaxAttempts :: int

record BenchResult =
  brWorkload :: string
  brNodes :: int
  brClients :: int
  brDuration :: int
  brOps :: nat
  brErrors :: nat
  brThroughput :: rat
  brP50 :: int
  brP95 :: int
  brP99 :: int
  brMax :: int

definition bench_defaults :: "BenchConfig \<Rightarrow> BenchConfig" where
  "bench_defaults c = c\<lparr>
     bcKeys := (if bcKeys c \<le> 0 then 100 else bcKeys c),
     bcValueSize := (if bcValueSize c \<le> 0 then 64 else bcValueSize c),
     bcOpTimeout := (if bcOpTimeout c \<le> 0 then 2000000000 else bcOpTimeout c),
     bcMaxAttempts := (if bcMaxAttempts c \<le> 0 then 20 else bcMaxAttempts c)\<rparr>"

section \<open>Percentiles\<close>

text \<open>\<open>int(p * n)\<close> truncates; the fractions used are not negative.\<close>

definition percentile :: "int list \<Rightarrow> rat \<Rightarrow> int" where
  "percentile xs p =
     (if xs = [] then 0
      else let idx = nat \<lfloor>p * of_nat (length xs)\<rfloor>
           in xs ! (if idx \<ge> length xs then length xs - 1 else idx))"

record Distribution =
  diSamples :: "int list"
  diMin :: int
  diP50 :: int
  diP95 :: int
  diP99 :: int
  diMax :: int
  diMean :: int

definition Summarize :: "int list \<Rightarrow> Distribution" where
  "Summarize samples =
     (if samples = [] then \<lparr>diSamples = [], diMin = 0, diP50 = 0, diP95 = 0, diP99 = 0, diMax = 0, diMean = 0\<rparr>
      else let sorted = sort samples
           in \<lparr>diSamples = sorted, diMin = sorted ! 0, diP50 = percentile sorted (50 / 100),
               diP95 = percentile sorted (95 / 100), diP99 = percentile sorted (99 / 100),
               diMax = sorted ! (length sorted - 1), diMean = sum_list sorted div int (length sorted)\<rparr>)"

section \<open>One client\<close>

record 'w bench_env =
  beDone :: "'w \<Rightarrow> 'w \<times> bool"
  beNow :: "'w \<Rightarrow> 'w \<times> int"
  beIntn :: "'w \<Rightarrow> int \<Rightarrow> 'w \<times> int"
  beFloat64 :: "'w \<Rightarrow> 'w \<times> rat"
  beLeader :: "'w \<Rightarrow> 'w \<times> string option"
  beGet :: "'w \<Rightarrow> string \<Rightarrow> Command \<Rightarrow> 'w \<times> (error + CommandReply)"
  bePut :: "'w \<Rightarrow> string \<Rightarrow> Command \<Rightarrow> 'w \<times> (error + CommandReply)"
  beSleep :: "'w \<Rightarrow> 'w"
  beKey :: "int \<Rightarrow> string" \<comment> \<open>\<open>key-%d\<close>\<close>

text \<open>The attempts of one operation: whether one of them succeeded.\<close>

fun bench_attempts :: "nat \<Rightarrow> 'w bench_env \<Rightarrow> bool \<Rightarrow> Command \<Rightarrow> 'w \<Rightarrow> 'w \<times> bool" where
  "bench_attempts 0 env isRead cmd w = (w, False)"
| "bench_attempts (Suc k) env isRead cmd w = (case beDone env w of
     (w1, True) \<Rightarrow> (w1, False)
   | (w1, False) \<Rightarrow> (case beLeader env w1 of
       (w2, None) \<Rightarrow> bench_attempts k env isRead cmd (beSleep env w2)
     | (w2, Some node) \<Rightarrow> (case (if isRead then beGet env w2 node cmd else bePut env w2 node cmd) of
         (w3, Inr reply) \<Rightarrow> if crSuccess reply then (w3, True) else bench_attempts k env isRead cmd (beSleep env w3)
       | (w3, Inl err) \<Rightarrow> bench_attempts k env isRead cmd (beSleep env w3))))"

text \<open>One round of the client loop: its samples and its error count.\<close>

definition bench_op :: "'w bench_env \<Rightarrow> BenchConfig \<Rightarrow> string \<Rightarrow> nat \<Rightarrow> 'w \<times> int list \<times> nat \<Rightarrow> 'w \<times> int list \<times> nat" where
  "bench_op env cfg clientID s st = (case st of (w, samples, errs) \<Rightarrow>
     (case beIntn env w (bcKeys cfg) of (w1, k) \<Rightarrow>
     (case beFloat64 env w1 of (w2, f) \<Rightarrow>
      (let isRead = f < wlReadFraction (bcWorkload cfg);
           cmd = \<lparr>cmClientId = clientID, cmSeqNo = s, cmOp = OP_UNSPECIFIED, cmKey = beKey env k,
                  cmValue = (if isRead then [] else replicate (nat (bcValueSize cfg)) CHR ''x'')\<rparr>
       in case beNow env w2 of (w3, opStart) \<Rightarrow>
          (case bench_attempts (nat (bcMaxAttempts cfg)) env isRead cmd w3 of (w4, ok) \<Rightarrow>
          (case beNow env w4 of (w5, now) \<Rightarrow>
             if ok then (w5, samples @ [now - opStart], errs)
             else case beDone env w5 of (w6, stop) \<Rightarrow> (w6, samples, if stop then errs else errs + 1)))))))"

text \<open>The client loop for at most \<open>fuel\<close> rounds; it numbers its operations from 1.\<close>

fun bench_client :: "nat \<Rightarrow> 'w bench_env \<Rightarrow> BenchConfig \<Rightarrow> string \<Rightarrow> nat \<Rightarrow> 'w \<times> int list \<times> nat \<Rightarrow> ('w \<times> int list \<times> nat) option" where
  "bench_client 0 env cfg clientID s st = None"
| "bench_client (Suc fuel) env cfg clientID s (w, samples, errs) = (case beDone env w of
     (w1, True) \<Rightarrow> Some (w1, samples, errs)
   | (w1, False) \<Rightarrow> bench_client fuel env cfg clientID (s + 1) (bench_op env cfg clientID (s + 1) (w1, samples, errs)))"

definition bench_result :: "BenchConfig \<Rightarrow> int \<Rightarrow> int list \<Rightarrow> nat \<Rightarrow> BenchResult" where
  "bench_result cfg elapsed samples0 errs =
     (let samples = sort samples0; some = (samples \<noteq> [])
      in \<lparr>brWorkload = wlName (bcWorkload cfg), brNodes = bcNodes cfg, brClients = bcClients cfg,
          brDuration = elapsed, brOps = length samples, brErrors = errs,
          brThroughput = (if elapsed > 0 then of_nat (length samples) / (of_int elapsed / 1000000000) else 0),
          brP50 = (if some then percentile samples (50 / 100) else 0),
          brP95 = (if some then percentile samples (95 / 100) else 0),
          brP99 = (if some then percentile samples (99 / 100) else 0),
          brMax = (if some then samples ! (length samples - 1) else 0)\<rparr>)"

section \<open>The clients of a run\<close>

text \<open>
  The clients work in parallel. Each adds its samples and its errors to the common ones, under the mutex, when
  its loop has ended: a client that finishes first comes first. \<open>outs\<close> are the clients' results in that order.
\<close>

definition bench_collect :: "int list \<times> nat \<Rightarrow> int list \<times> nat \<Rightarrow> int list \<times> nat" where
  "bench_collect out acc = (fst acc @ fst out, snd acc + snd out)"

definition bench_Run :: "BenchConfig \<Rightarrow> int \<Rightarrow> int \<Rightarrow> (int list \<times> nat) list \<Rightarrow> BenchResult" where
  "bench_Run cfg start finish outs = (case fold bench_collect outs ([], 0) of
     (samples, errs) \<Rightarrow> bench_result (bench_defaults cfg) (finish - start) samples errs)"

lemma bench_collected: "fold bench_collect outs (xs, k) = (xs @ concat (map fst outs), k + sum_list (map snd outs))"
  by (induction outs arbitrary: xs k) (simp_all add: bench_collect_def)

text \<open>The result of a run depends on what the clients measured and not on the order in which they finish.\<close>

theorem run_order_irrelevant:
  assumes "mset outs = mset outs'"
  shows "bench_Run cfg start finish outs = bench_Run cfg start finish outs'"
proof -
  have "mset (concat (map fst outs)) = mset (concat (map fst outs'))"
    using assms by (simp add: mset_concat flip: sum_mset_sum_list)
  then have s: "sort (concat (map fst outs)) = sort (concat (map fst outs'))"
    by (metis mset_sort properties_for_sort sorted_sort)
  have e: "sum_list (map snd outs) = sum_list (map snd outs')"
    using assms by (metis mset_map sum_mset_sum_list)
  have l: "length (concat (map fst outs)) = length (concat (map fst outs'))"
    using s by (metis length_sort)
  show ?thesis using s e l by (simp add: bench_Run_def bench_collected bench_result_def Let_def)
qed

text \<open>Every operation that a client measured is counted, and the largest latency is that of one of them.\<close>

theorem run_counts_all:
  assumes "out \<in> set outs" "x \<in> set (fst out)"
  shows "brOps (bench_Run cfg start finish outs) = (\<Sum>out \<leftarrow> outs. length (fst out)) \<and> x \<le> brMax (bench_Run cfg start finish outs)"
proof -
  let ?xs = "concat (map fst outs)"
  have i: "x \<in> set ?xs" using assms by auto
  then obtain k where k: "k < length (sort ?xs)" "sort ?xs ! k = x" by (metis in_set_conv_nth set_sort)
  then have "x \<le> sort ?xs ! (length ?xs - 1)" using sorted_nth_mono [OF sorted_sort, of k "length ?xs - 1" ?xs] by simp
  moreover have "?xs \<noteq> []" "sort ?xs \<noteq> []" using i by (metis empty_iff empty_set, metis empty_iff empty_set set_sort)
  ultimately show ?thesis
    by (simp add: bench_Run_def bench_collected bench_result_def Let_def length_concat comp_def)
qed

section \<open>Bounds of a percentile\<close>

definition percentile_index :: "nat \<Rightarrow> rat \<Rightarrow> nat" where
  "percentile_index n p = (let idx = nat \<lfloor>p * of_nat n\<rfloor> in if idx \<ge> n then n - 1 else idx)"

lemma percentile_nth: "xs \<noteq> [] \<Longrightarrow> percentile xs p = xs ! percentile_index (length xs) p \<and> percentile_index (length xs) p < length xs"
  by (auto simp: percentile_def percentile_index_def Let_def)

lemma percentile_index_mono: "p \<le> q \<Longrightarrow> percentile_index n p \<le> percentile_index n q"
proof -
  assume "p \<le> q"
  then have "\<lfloor>p * of_nat n\<rfloor> \<le> \<lfloor>q * of_nat n\<rfloor>" by (intro floor_mono mult_right_mono) auto
  then have "nat \<lfloor>p * of_nat n\<rfloor> \<le> nat \<lfloor>q * of_nat n\<rfloor>" by (rule nat_mono)
  then show ?thesis by (auto simp: percentile_index_def Let_def)
qed

lemma percentile_mono: "sorted xs \<Longrightarrow> p \<le> q \<Longrightarrow> percentile xs p \<le> percentile xs q"
  by (cases "xs = []") (simp add: percentile_def, metis percentile_nth percentile_index_mono sorted_nth_mono)

text \<open>The nearest rank: the smallest sample with at least a share of \<open>p\<close> of the samples at or below it.\<close>

definition nearest_rank :: "int list \<Rightarrow> rat \<Rightarrow> int" where
  "nearest_rank xs p = xs ! (nat \<lceil>p * of_nat (length xs)\<rceil> - 1)"

end
