(* ===== verification/Tool_Properties.thy ===== *)
theory Tool_Properties
  imports Cli_Tools Bench Gateway_Client
begin

text \<open>
  The commands: the member list of the gateway is read back as it is written, a redirect is not
  followed at once by the command-line client, the load generator's percentile is not the nearest
  rank. And the gateway's client: a request ends.
\<close>

section \<open>The member list\<close>

lemma dropWhile_keeps: "x \<in> set xs \<Longrightarrow> \<not> P x \<Longrightarrow> x \<in> set (dropWhile P xs)"
  by (induction xs) auto

lemma TrimSpace_nonempty: "x \<in> set s \<Longrightarrow> \<not> is_space x \<Longrightarrow> TrimSpace s \<noteq> []"
  using dropWhile_keeps [of x "rev (dropWhile is_space s)" is_space] dropWhile_keeps [of x s is_space]
  by (auto simp: TrimSpace_def)

lemma parse_nodes_roundtrip:
  assumes "list_all member_ok ms" "distinct (map mID ms)" "ms \<noteq> []"
  shows "parseNodes (Join (map show_member ms) '','') = Inr ms"
proof -
  have sep: "CHR '','' \<notin> set w" if "w \<in> set (map show_member ms)" for w
    using that assms(1) by (auto simp: list_all_iff member_ok_def show_member_def)
  have sp: "Split (CHR '','') (Join (map show_member ms) '','') = map show_member ms"
    by (rule Split_Join [OF sep]) (use assms(3) in auto)
  have "CHR ''='' \<in> set (Join (map show_member ms) '','')"
    using assms(3) by (cases ms; cases "tl ms") (auto simp: show_member_def)
  then have "TrimSpace (Join (map show_member ms) '','') \<noteq> []"
    by (rule TrimSpace_nonempty) (simp add: is_space_def)
  then show ?thesis using sp nodes_loop_show [OF assms(1,2)] assms(3) by (simp add: parseNodes_def)
qed

section \<open>Redirects\<close>

text \<open>The command-line client does not follow a redirect at once. Its only endpoint \<open>a\<close> answers every
  attempt with a redirect to an address \<open>h\<close>. The client puts \<open>h\<close> in front and sets the loop variable to
  0, which the loop increments before the next attempt: the next attempt goes to \<open>a\<close> again, the pass
  ends without \<open>h\<close> having been asked, and the client sleeps first. The log of attempts is the world.\<close>

theorem redirect_not_followed_at_once:
  assumes "\<And>w. xeCtxErr env w = (w, None)" "xeDial env a = None"
    and "\<And>w x. xeCall env w x op cmd = (w @ [x], Inr reply)"
    and "\<not> crSuccess reply" "crLeaderHint reply = h" "CHR '':'' \<in> set h" "h \<noteq> a"
  shows "\<exists>s'. cli_pass (Suc (Suc (Suc fuel))) env op cmd 0 \<lparr>xsAddrs = [a], xsConns = {}, xsLastErr = None, xsWorld = w\<rparr> = Some (s', None) \<and>
    xsWorld s' = w @ [a, a] \<and> xsAddrs s' = [h, a]"
  using assms by (simp add: Let_def)

theorem redirect_not_followed_at_once_witness:
  "\<exists>s'. cli_pass 3 \<lparr>xeCtxErr = \<lambda>w. (w, None), xeDial = \<lambda>a. None,
       xeCall = \<lambda>w x op cmd. (w @ [x], Inr (empty_reply\<lparr>crLeaderHint := ''n2:1''\<rparr>)), xeWait = \<lambda>w. w\<rparr>
     ''get'' (cli_cmd ''c'' ''k'' []) 0 \<lparr>xsAddrs = [''n1:1''], xsConns = {}, xsLastErr = None, xsWorld = []\<rparr> = Some (s', None) \<and>
    xsWorld s' = [''n1:1'', ''n1:1'']"
proof -
  let ?env = "\<lparr>xeCtxErr = \<lambda>w. (w, None), xeDial = \<lambda>a. None,
       xeCall = \<lambda>w x op cmd. (w @ [x], Inr (empty_reply\<lparr>crLeaderHint := ''n2:1''\<rparr>)), xeWait = \<lambda>w. w\<rparr>"
  have "\<exists>s'. cli_pass (Suc (Suc (Suc 0))) ?env ''get'' (cli_cmd ''c'' ''k'' []) 0 \<lparr>xsAddrs = [''n1:1''], xsConns = {}, xsLastErr = None, xsWorld = []\<rparr> = Some (s', None) \<and>
    xsWorld s' = [] @ [''n1:1'', ''n1:1''] \<and> xsAddrs s' = [''n2:1'', ''n1:1'']"
    by (rule redirect_not_followed_at_once [where reply = "empty_reply\<lparr>crLeaderHint := ''n2:1''\<rparr>"]) (simp_all add: empty_reply_def)
  then show ?thesis by (auto simp: eval_nat_numeral simp del: cli_pass.simps)
qed

section \<open>Percentiles\<close>

text \<open>A percentile is one of the samples; percentiles are ordered.\<close>

lemma percentile_range:
  assumes "xs \<noteq> []" "sorted xs" "0 \<le> p" "p \<le> q"
  shows "percentile xs p \<in> set xs" "xs ! 0 \<le> percentile xs p" "percentile xs p \<le> percentile xs q"
    "percentile xs q \<le> xs ! (length xs - 1)"
proof -
  note n = percentile_nth [OF assms(1)]
  show "percentile xs p \<in> set xs" using n by (metis nth_mem)
  show "xs ! 0 \<le> percentile xs p" using n sorted_nth_mono [OF assms(2)] by (metis le0)
  show "percentile xs p \<le> percentile xs q" by (rule percentile_mono [OF assms(2,4)])
  show "percentile xs q \<le> xs ! (length xs - 1)" using n sorted_nth_mono [OF assms(2)] assms(1)
    by (metis Suc_pred' diff_less le_simps(2) length_greater_0_conv zero_less_one)
qed

text \<open>The comment promises the nearest rank; on two samples the median is the second one, not the first.\<close>

lemma percentile_not_nearest_rank:
  "percentile [1, 2] (50 / 100) = 2 \<and> nearest_rank [1, 2] (50 / 100) = 1"
  by (simp add: percentile_def nearest_rank_def)

section \<open>The gateway's request\<close>

lemma gw_Do_returns:
  assumes "gw_budget env left" "left w < fuel"
  shows "\<exists>c' w' res. gw_Do fuel env ms op key value c w = Some (c', w', res) \<and> gkSeq c' = gkSeq c + 1"
proof -
  obtain w1 started where n: "geNow env w = (w1, started)" by (cases "geNow env w")
  have "left w1 < fuel" using gw_budgetD(2) [OF assms(1) n] assms(2) by simp
  then obtain leader w2 res where "gw_loop fuel env ms started op key (gw_cmd c key value) (gkLeader c, w1, []) = Some (leader, w2, res)"
    using gw_loop_returns [OF assms(1), of "(gkLeader c, w1, [])"] by (metis fst_conv prod.exhaust snd_conv)
  then show ?thesis using n by (simp add: gw_Do_def)
qed

end
