(* ===== verification/Server_Main.thy ===== *)
theory Server_Main
  imports Cli_Tools Supervisor Raft_Consensus Gateway_Http
begin

text \<open>
  The two server commands as they are put together: the flags, the checks and the wiring of
  src/cmd/distkv-server/main.go and src/cmd/distkv-gateway/main.go. The listener, what the gRPC server
  drives until it ends, the file of the shard map and the order in which a Go map is listed are
  arguments. Then what the consensus theorems ask of the members, \<open>raft_group\<close>, from the flags.
\<close>

section \<open>distkv-server\<close>

record ServerFlags =
  sfId :: node_id
  sfListen :: string
  sfPeers :: string
  sfDataDir :: string
  sfShardConfig :: string
  sfSnapshotThreshold :: int
  sfElectionMin :: int
  sfElectionMax :: int
  sfHeartbeat :: int

definition server_flags :: ServerFlags where
  "server_flags = \<lparr>sfId = [], sfListen = '':7070'', sfPeers = [], sfDataDir = [], sfShardConfig = [],
     sfSnapshotThreshold = 10000, sfElectionMin = 150 * millisecond, sfElectionMax = 300 * millisecond,
     sfHeartbeat = 50 * millisecond\<rparr>"

text \<open>What the process reads and lists.\<close>

record host =
  hoKeys :: "(node_id \<rightharpoonup> string) \<Rightarrow> node_id list"
  hoReadFile :: "string \<Rightarrow> error + bytes"
  hoParse :: "bytes \<Rightarrow> error + ShardMap"
  hoListen :: "string \<Rightarrow> error option"

text \<open>The supervisor's configuration.\<close>

definition server_config :: "host \<Rightarrow> ServerFlags \<Rightarrow> error + SupConfig" where
  "server_config ho f =
     (case server_peers (hoKeys ho) (hoReadFile ho) (hoParse ho) (sfId f) (sfPeers f) (sfDataDir f) (sfShardConfig f) of
        Inl err \<Rightarrow> Inl err
      | Inr (addrs, ps) \<Rightarrow> Inr \<lparr>scID = sfId f, scPeers = ps, scAddrs = addrs, scDataDir = sfDataDir f, scTransport = True,
          scElectionTimeoutMin = sfElectionMin f, scElectionTimeoutMax = sfElectionMax f,
          scHeartbeatInterval = sfHeartbeat f, scSnapshotThreshold = sfSnapshotThreshold f\<rparr>)"

datatype ServeEnd = Signalled | ServeError error

text \<open>
  \<open>run\<close>: \<open>serve\<close> is what happens to the supervisor from the start of the gRPC server to a signal or the
  server's error. The supervisor that is left is closed, and so is the transport. \<open>None\<close> is a panic.
\<close>

definition server_run :: "host \<Rightarrow> env \<Rightarrow> (('w, 'c) Supervisor \<Rightarrow> ('w, 'c) Supervisor \<times> ServeEnd) \<Rightarrow> ServerFlags \<Rightarrow> Fs \<Rightarrow>
    (('w, 'c) Supervisor option \<times> error option) option" where
  "server_run ho e serve f fs = (case server_config ho f of
     Inl err \<Rightarrow> Some (None, Some err)
   | Inr cfg \<Rightarrow> (case sup_New e cfg (gt_New (sfId f) (scAddrs cfg)) fs of
       None \<Rightarrow> None
     | Some (Inl err) \<Rightarrow> Some (None, Some err)
     | Some (Inr s) \<Rightarrow> (case hoListen ho (sfListen f) of
         Some err \<Rightarrow> Some (Some (sup_Close s), Some (Wrapf ''listening on %s: %w'' [StrArg (sfListen f)] err))
       | None \<Rightarrow> (case serve s of
           (s', Signalled) \<Rightarrow> Some (Some (sup_Close s'), None)
         | (s', ServeError err) \<Rightarrow> Some (Some (sup_Close s'), Some err)))))"

section \<open>distkv-gateway\<close>

record GatewayFlags =
  gfListen :: string
  gfNodes :: string
  gfWeb :: string
  gfAutoHeal :: int
  gfOptions :: Options

definition gateway_flags :: GatewayFlags where
  "gateway_flags = \<lparr>gfListen = '':8080'', gfNodes = [], gfWeb = [], gfAutoHeal = 5 * minute,
     gfOptions = DefaultOptions\<lparr>opAllowChaos := True, opTrustProxyHeaders := False\<rparr>\<rparr>"

text \<open>\<open>main\<close> and \<open>run\<close> up to the listener: the server behind the handler, with the first poll
  made, and whether the watchdog runs.\<close>

definition gateway_run :: "(string \<Rightarrow> error option) \<Rightarrow> (node_id \<Rightarrow> string + PbNodeStatus) \<Rightarrow>
    ((string \<times> nat) list \<Rightarrow> (string \<times> nat) list) \<Rightarrow> int \<Rightarrow> string \<Rightarrow> GatewayFlags \<Rightarrow> error + (GwServer \<times> bool)" where
  "gateway_run dial statusRPC order now clientID f = (case parseNodes (gfNodes f) of
     Inl err \<Rightarrow> Inl err
   | Inr members \<Rightarrow> (case NewCluster dial statusRPC order now members of
       Inl err \<Rightarrow> Inl err
     | Inr cluster \<Rightarrow> Inr (gw_NewServer (NewChaos cluster) (gw_NewClient clientID) ((gfOptions f)\<lparr>opWebDir := gfWeb f\<rparr>),
         0 < gfAutoHeal f)))"

section \<open>The members of a group, from their flags\<close>

definition no_member :: "node_id \<Rightarrow> Config" where
  "no_member i = \<lparr>cID = i, cPeers = [], cTransport = False, cElectionTimeoutMin = 0, cElectionTimeoutMax = 0,
     cHeartbeatInterval = 0, cTickInterval = 0, cRPCTimeout = 0, cSnapshotThreshold = 0\<rparr>"

text \<open>The Raft configurations of the processes that were started with the flags \<open>fl i\<close> for \<open>i \<in> M\<close>.\<close>

definition started :: "(node_id \<Rightarrow> host) \<Rightarrow> (node_id \<Rightarrow> ServerFlags) \<Rightarrow> node_id set \<Rightarrow> node_id \<Rightarrow> Config" where
  "started ho fl M i =
     (if i \<in> M then case server_config (ho i) (fl i) of Inr c \<Rightarrow> raft_config c | Inl err \<Rightarrow> no_member i else no_member i)"

lemma group_peers_ok:
  "set grp \<subseteq> dom addrs \<Longrightarrow> group_peers addrs i grp = Inr (filter (\<lambda>p. p \<noteq> i) grp)"
  by (induction grp) auto

lemma peers_loop_names: "peers_loop ps addrs = Inr addrs' \<Longrightarrow> addrs [] = None \<Longrightarrow> addrs' [] = None"
  by (induction ps addrs rule: peers_loop.induct) (auto simp: Let_def split: if_splits prod.splits)

lemma parsePeers_names: "parsePeers f = Inr addrs \<Longrightarrow> addrs [] = None"
  using peers_loop_names by (auto simp: parsePeers_def split: if_splits sum.splits)

lemma server_config_ok:
  assumes "parsePeers (sfPeers f) = Inr addrs" "sfId f \<in> dom addrs" "sfDataDir f \<noteq> []"
    and "(if sfShardConfig f = [] then Inr (hoKeys ho addrs) else shardGroupFor (hoReadFile ho) (hoParse ho) (sfShardConfig f) (sfId f)) = Inr grp"
    and "set grp \<subseteq> dom addrs"
  shows "\<exists>c. server_config ho f = Inr c \<and> cID (raft_config c) = sfId f \<and>
    cPeers (raft_config c) = filter (\<lambda>p. p \<noteq> sfId f) grp \<and> cTransport (raft_config c)"
proof -
  have "sfId f \<noteq> []" using assms(2) parsePeers_names [OF assms(1)] by auto
  moreover have "addrs (sfId f) \<noteq> None" using assms(2) by auto
  ultimately have "server_peers (hoKeys ho) (hoReadFile ho) (hoParse ho) (sfId f) (sfPeers f) (sfDataDir f) (sfShardConfig f) =
      Inr (addrs, filter (\<lambda>p. p \<noteq> sfId f) grp)"
    using assms(1,3,4) group_peers_ok [OF assms(5)] unfolding server_peers_def by simp
  then show ?thesis by (simp add: server_config_def raft_config_def)
qed

lemma started_group:
  assumes M: "finite M" "odd (card M)"
    and m: "\<And>i. i \<in> M \<Longrightarrow> \<exists>c grp. server_config (ho i) (fl i) = Inr c \<and> cID (raft_config c) = i \<and>
      cPeers (raft_config c) = filter (\<lambda>p. p \<noteq> i) grp \<and> distinct grp \<and> set grp = M"
  shows "raft_group (started ho fl M) M"
proof -
  have "cID (started ho fl M i) = i \<and> i \<notin> set (cPeers (started ho fl M i)) \<and>
       (if i \<in> M then distinct (cPeers (started ho fl M i)) \<and> set (cPeers (started ho fl M i)) = M - {i} else \<not> cTransport (started ho fl M i))" for i
  proof (cases "i \<in> M")
    case True
    from m [OF this] obtain c grp where c: "server_config (ho i) (fl i) = Inr c" "cID (raft_config c) = i"
      "cPeers (raft_config c) = filter (\<lambda>p. p \<noteq> i) grp" "distinct grp" "set grp = M" by blast
    then show ?thesis using True by (auto simp: started_def)
  next
    case False
    then show ?thesis by (simp add: started_def no_member_def)
  qed
  then show ?thesis using M by (simp add: raft_group_def)
qed

text \<open>C27: Servers started with one peer list form a Raft group as the consensus theorems need it. Let every node of
  the list run with its own id, the same -peers, a data directory and no shard map; each may list the
  map of peers in its own order. If the list names an odd number of nodes, their Raft configurations
  are a \<open>raft_group\<close> of exactly these nodes.\<close>

theorem servers_form_group:
  assumes "parsePeers flag = Inr addrs" "odd (card (dom addrs))"
    and "\<And>i. i \<in> dom addrs \<Longrightarrow> sfId (fl i) = i \<and> sfPeers (fl i) = flag \<and> sfShardConfig (fl i) = [] \<and> sfDataDir (fl i) \<noteq> []"
    and "\<And>i. i \<in> dom addrs \<Longrightarrow> distinct (hoKeys (ho i) addrs) \<and> set (hoKeys (ho i) addrs) = dom addrs"
  shows "raft_group (started ho fl (dom addrs)) (dom addrs)"
proof (rule started_group)
  show "finite (dom addrs)" using assms(2) card.infinite by fastforce
  show "odd (card (dom addrs))" by (rule assms(2))
  fix i assume i: "i \<in> dom addrs"
  note f = assms(3) [OF i] and k = assms(4) [OF i]
  have "\<exists>c. server_config (ho i) (fl i) = Inr c \<and> cID (raft_config c) = sfId (fl i) \<and>
    cPeers (raft_config c) = filter (\<lambda>p. p \<noteq> sfId (fl i)) (hoKeys (ho i) addrs) \<and> cTransport (raft_config c)"
    by (rule server_config_ok) (use f k i assms(1) in auto)
  then show "\<exists>c grp. server_config (ho i) (fl i) = Inr c \<and> cID (raft_config c) = i \<and>
      cPeers (raft_config c) = filter (\<lambda>p. p \<noteq> i) grp \<and> distinct grp \<and> set grp = dom addrs"
    using f k by auto
qed

text \<open>Three servers with the same -peers flag.\<close>

definition trio_flag :: string where "trio_flag = ''n1=a:1,n2=b:1, n3=c:1''"

definition trio_host :: host where
  "trio_host = \<lparr>hoKeys = \<lambda>m. [''n3'', ''n1'', ''n2''], hoReadFile = \<lambda>p. Inr [], hoParse = \<lambda>b. Inr [], hoListen = \<lambda>a. None\<rparr>"

lemma trio_flag_peers: "parsePeers trio_flag = Inr [''n1'' \<mapsto> ''a:1'', ''n2'' \<mapsto> ''b:1'', ''n3'' \<mapsto> ''c:1'']"
proof -
  have s: "Split (CHR '','') trio_flag = [''n1=a:1'', ''n2=b:1'', '' n3=c:1'']" "TrimSpace trio_flag \<noteq> []" by code_simp+
  have t: "TrimSpace ''n1=a:1'' = ''n1=a:1''" "TrimSpace ''n2=b:1'' = ''n2=b:1''" "TrimSpace '' n3=c:1'' = ''n3=c:1''"
    "TrimSpace ''n1'' = ''n1''" "TrimSpace ''n2'' = ''n2''" "TrimSpace ''n3'' = ''n3''"
    "TrimSpace ''a:1'' = ''a:1''" "TrimSpace ''b:1'' = ''b:1''" "TrimSpace ''c:1'' = ''c:1''" by code_simp+
  have c: "Cut (CHR ''='') ''n1=a:1'' = (''n1'', ''a:1'', True)" "Cut (CHR ''='') ''n2=b:1'' = (''n2'', ''b:1'', True)"
    "Cut (CHR ''='') ''n3=c:1'' = (''n3'', ''c:1'', True)" by code_simp+
  have "[''n1'' \<mapsto> ''a:1'', ''n2'' \<mapsto> ''b:1'', ''n3'' \<mapsto> ''c:1''] \<noteq> Map.empty" by simp
  then show ?thesis by (simp add: parsePeers_def s t c Let_def)
qed

theorem servers_form_group_witness:
  "raft_group (started (\<lambda>i. trio_host) (\<lambda>i. server_flags\<lparr>sfId := i, sfPeers := trio_flag, sfDataDir := ''d''\<rparr>) {''n1'', ''n2'', ''n3''})
     {''n1'', ''n2'', ''n3''}"
proof -
  have d: "dom [''n1'' \<mapsto> ''a:1'', ''n2'' \<mapsto> ''b:1'', ''n3'' \<mapsto> ''c:1''] = {''n1'', ''n2'', ''n3''}" by auto
  show ?thesis
    by (rule servers_form_group [OF trio_flag_peers, unfolded d]) (auto simp: server_flags_def trio_host_def)
qed

text \<open>With a shard map: the replicas of a shard, when no replica is listed in a shard before it.\<close>

theorem shard_forms_group:
  assumes "parsePeers flag = Inr addrs" "distinct (shReplicas s)" "odd (length (shReplicas s))" "set (shReplicas s) \<subseteq> dom addrs"
    and "\<And>i. i \<in> set (shReplicas s) \<Longrightarrow> sfId (fl i) = i \<and> sfPeers (fl i) = flag \<and> sfShardConfig (fl i) = path \<and> sfDataDir (fl i) \<noteq> []"
    and "path \<noteq> []" "\<And>i. i \<in> set (shReplicas s) \<Longrightarrow> LoadMap (hoReadFile (ho i)) (hoParse (ho i)) path = Inr m"
    and "m = pre @ s # post" "\<And>r. r \<in> set pre \<Longrightarrow> set (shReplicas r) \<inter> set (shReplicas s) = {}"
  shows "raft_group (started ho fl (set (shReplicas s))) (set (shReplicas s))"
proof (rule started_group)
  show "odd (card (set (shReplicas s)))" using assms(2,3) by (simp add: distinct_card)
  fix i assume i: "i \<in> set (shReplicas s)"
  note f = assms(5) [OF i]
  have "shard_group m i = Some (shReplicas s)"
    unfolding assms(8) using assms(9) i by (induction pre) auto
  then have "shardGroupFor (hoReadFile (ho i)) (hoParse (ho i)) path i = Inr (shReplicas s)"
    using assms(7) [OF i] by (simp add: shardGroupFor_def)
  then have "\<exists>c. server_config (ho i) (fl i) = Inr c \<and> cID (raft_config c) = sfId (fl i) \<and>
    cPeers (raft_config c) = filter (\<lambda>p. p \<noteq> sfId (fl i)) (shReplicas s) \<and> cTransport (raft_config c)"
    by (intro server_config_ok) (use f i assms(1,4,6) in auto)
  then show "\<exists>c grp. server_config (ho i) (fl i) = Inr c \<and> cID (raft_config c) = i \<and>
      cPeers (raft_config c) = filter (\<lambda>p. p \<noteq> i) grp \<and> distinct grp \<and> set grp = set (shReplicas s)"
    using f assms(2) by auto
qed simp

text \<open>
  A shard map in which one node is a replica of two shards passes \<open>Validate\<close>. The node then joins the group of
  the first shard only, while the replicas of the second take it for one of theirs: its peers are
  ''b'' and ''c'', and it is a peer of ''d''.
\<close>

definition shared_map :: ShardMap where
  "shared_map = [\<lparr>shID = 0, shStart = [], shEnd = ''m'', shReplicas = [''a'', ''b'', ''c'']\<rparr>,
                 \<lparr>shID = 1, shStart = ''m'', shEnd = [], shReplicas = [''a'', ''d'', ''e'']\<rparr>]"

definition shared_addrs :: "node_id \<rightharpoonup> string" where
  "shared_addrs = (\<lambda>i. Some i)"

theorem shared_replica_accepted:
  "Validate shared_map = (shared_map, None) \<and>
   shard_group shared_map ''a'' = Some [''a'', ''b'', ''c''] \<and> group_peers shared_addrs ''a'' [''a'', ''b'', ''c''] = Inr [''b'', ''c''] \<and>
   shard_group shared_map ''d'' = Some [''a'', ''d'', ''e''] \<and> group_peers shared_addrs ''d'' [''a'', ''d'', ''e''] = Inr [''a'', ''e'']"
proof -
  have "sort_key shStart shared_map = shared_map" by (simp add: shared_map_def)
  moreover have "check_shards {} None shared_map = None" by (simp add: shared_map_def)
  ultimately show ?thesis by (simp add: Validate_def Let_def shared_addrs_def) (simp add: shared_map_def)
qed

end
