(* ===== verification/Test_Cluster.thy ===== *)
theory Test_Cluster
  imports Server_Main Sim_Network
begin

text \<open>
  The in-process clusters that the tests run on (src/internal/testutil/cluster.go, raft_cluster.go): nodes of
  one simulated network, their Raft nodes, restarts and the wait for a leader.

  A transport of the simulated network is its node's id. What \<open>NewNode\<close> registers on it is the node
  itself, again the id. A store is a parameter: \<open>ops\<close> with \<open>dflt\<close> for the one that \<open>NewNode\<close> makes
  when the configuration brings none. \<open>Fatal\<close> is \<open>t.Fatalf\<close>, \<open>None\<close> a panic.
\<close>

section \<open>Nodes on one network\<close>

text \<open>Sprintf with \<open>%d\<close>, for a natural number.\<close>

definition digit :: "nat \<Rightarrow> char" where
  "digit k = char_of (48 + k)"

fun Itoa :: "nat \<Rightarrow> string" where
  "Itoa k = (if k < 10 then [digit k] else Itoa (k div 10) @ [digit (k mod 10)])"

declare Itoa.simps [simp del]

record TestCluster =
  tcNetwork :: "node_id Network"
  tcIDs :: "node_id list"
  tcTrans :: "node_id \<rightharpoonup> node_id"

definition node_name :: "string \<Rightarrow> nat \<Rightarrow> node_id" where
  "node_name pfx i = pfx @ ''-'' @ Itoa i"

definition NewClusterWithPrefix :: "string \<Rightarrow> nat \<Rightarrow> TestCluster" where
  "NewClusterWithPrefix pfx n =
     fold (\<lambda>i c. c\<lparr>tcIDs := tcIDs c @ [node_name pfx i], tcTrans := (tcTrans c)(node_name pfx i \<mapsto> node_name pfx i)\<rparr>)
       [0..<n] \<lparr>tcNetwork = NewNetwork, tcIDs = [], tcTrans = Map.empty\<rparr>"

definition test_NewCluster :: "nat \<Rightarrow> TestCluster" where
  "test_NewCluster n = NewClusterWithPrefix ''node'' n"

definition test_cleanup :: "TestCluster \<Rightarrow> TestCluster" where
  "test_cleanup c = c\<lparr>tcNetwork := fold fake_Close (tcIDs c) (tcNetwork c)\<rparr>"

definition test_Partition :: "node_id list \<Rightarrow> node_id list \<Rightarrow> TestCluster \<Rightarrow> TestCluster" where
  "test_Partition a b c = c\<lparr>tcNetwork := Partition a b (tcNetwork c)\<rparr>"

definition test_Heal :: "TestCluster \<Rightarrow> TestCluster" where
  "test_Heal c = c\<lparr>tcNetwork := Heal (tcNetwork c)\<rparr>"

text \<open>A sender that is not in the cluster is a nil transport, and its \<open>Send\<close> a panic.\<close>

definition test_Send :: "draws \<Rightarrow> ctx_wait \<Rightarrow> TestCluster \<Rightarrow> node_id \<Rightarrow> node_id \<Rightarrow> node_id SendOutcome option" where
  "test_Send dr ctx c from dest = map_option (\<lambda>tr. fake_Send dr ctx (tcNetwork c) tr dest) (tcTrans c from)"

text \<open>Slicing past the end is a panic.\<close>

definition test_Split :: "nat \<Rightarrow> TestCluster \<Rightarrow> (node_id list \<times> node_id list) option" where
  "test_Split k c = (if k \<le> length (tcIDs c) then Some (take k (tcIDs c), drop k (tcIDs c)) else None)"

section \<open>Raft nodes on it\<close>

record 's RaftCluster =
  rcCluster :: TestCluster
  rcNodes :: "node_id \<rightharpoonup> 's Node"
  rcCfgs :: "node_id \<rightharpoonup> Config \<times> 's option"

datatype 'a outcome = Fatal error | Fine 'a

type_synonym 's opt = "nat \<Rightarrow> Config \<times> 's option \<Rightarrow> Config \<times> 's option"

definition test_config :: "TestCluster \<Rightarrow> node_id \<Rightarrow> Config" where
  "test_config c i = \<lparr>cID = i, cPeers = filter (\<lambda>other. other \<noteq> i) (tcIDs c), cTransport = (tcTrans c i \<noteq> None),
     cElectionTimeoutMin = 30 * millisecond, cElectionTimeoutMax = 60 * millisecond,
     cHeartbeatInterval = 10 * millisecond, cTickInterval = 3 * millisecond, cRPCTimeout = 15 * millisecond,
     cSnapshotThreshold = 0\<rparr>"

text \<open>The loop over the nodes, from the \<open>k\<close>-th on.\<close>

fun raft_nodes :: "'s Storage \<Rightarrow> env \<Rightarrow> 's \<Rightarrow> 's opt list \<Rightarrow> nat \<Rightarrow> node_id list \<Rightarrow> 's RaftCluster \<Rightarrow> 's RaftCluster outcome option" where
  "raft_nodes ops e dflt opts k [] rc = Some (Fine rc)"
| "raft_nodes ops e dflt opts k (i # is) rc =
     (let cfg = fold (\<lambda>f. f k) opts (test_config (rcCluster rc) i, None)
      in case NewNode ops e (fst cfg) (case snd cfg of None \<Rightarrow> dflt | Some st \<Rightarrow> st) of
           None \<Rightarrow> None
         | Some (_, Inl err) \<Rightarrow> Some (Fatal (Wrapf ''raft.NewNode(%s): %v'' [StrArg i] err))
         | Some (_, Inr node) \<Rightarrow> raft_nodes ops e dflt opts (k + 1) is
             \<lparr>rcCluster = (rcCluster rc)\<lparr>tcNetwork := fake_RegisterHandler i i (tcNetwork (rcCluster rc))\<rparr>,
              rcNodes = (rcNodes rc)(i \<mapsto> node), rcCfgs = (rcCfgs rc)(i \<mapsto> cfg)\<rparr>)"

definition NewRaftClusterWithPrefix :: "'s Storage \<Rightarrow> env \<Rightarrow> 's \<Rightarrow> string \<Rightarrow> nat \<Rightarrow> 's opt list \<Rightarrow> 's RaftCluster outcome option" where
  "NewRaftClusterWithPrefix ops e dflt pfx n opts =
     (let c = NewClusterWithPrefix pfx n
      in raft_nodes ops e dflt opts 0 (tcIDs c) \<lparr>rcCluster = c, rcNodes = Map.empty, rcCfgs = Map.empty\<rparr>)"

definition NewRaftCluster :: "'s Storage \<Rightarrow> env \<Rightarrow> 's \<Rightarrow> nat \<Rightarrow> 's opt list \<Rightarrow> 's RaftCluster outcome option" where
  "NewRaftCluster ops e dflt n opts = NewRaftClusterWithPrefix ops e dflt ''node'' n opts"

text \<open>
  The node is stopped and built again from its configuration. A store that came with the configuration is
  the object the old node wrote to; without one, \<open>NewNode\<close> makes a new one.
\<close>

definition rc_Restart :: "'s Storage \<Rightarrow> env \<Rightarrow> 's \<Rightarrow> node_id \<Rightarrow> 's RaftCluster \<Rightarrow> ('s RaftCluster \<times> 's Node) outcome option" where
  "rc_Restart ops e dflt i rc = (case (rcNodes rc i, rcCfgs rc i) of
     (Some old, Some cfg) \<Rightarrow>
       (case NewNode ops e (fst cfg) (case snd cfg of None \<Rightarrow> dflt | Some _ \<Rightarrow> storage old) of
          None \<Rightarrow> None
        | Some (_, Inl err) \<Rightarrow> Some (Fatal (Wrapf ''raft.NewNode(%s) on restart: %v'' [StrArg i] err))
        | Some (_, Inr node) \<Rightarrow> Some (Fine (rc\<lparr>rcNodes := (rcNodes rc)(i \<mapsto> node)\<rparr>, node)))
   | _ \<Rightarrow> None)"

text \<open>A round of the wait: what \<open>State\<close> returns for one node after the other. The last round ends at the deadline.\<close>

fun AwaitLeader :: "(node_id \<times> nat \<times> Role) list list \<Rightarrow> node_id outcome" where
  "AwaitLeader [] = Fatal (Errorf ''no leader elected within %s'' [])"
| "AwaitLeader (rd # rounds) =
     (case filter (\<lambda>(i, t, ro). ro = Leader) rd of
        [] \<Rightarrow> AwaitLeader rounds
      | [(i, _)] \<Rightarrow> Fine i
      | l \<Rightarrow> Fatal (Errorf ''observed %d leaders simultaneously'' [NatArg (length l)]))"

section \<open>The names\<close>

lemma digit_eq: "j < 10 \<Longrightarrow> k < 10 \<Longrightarrow> digit j = digit k \<Longrightarrow> j = k"
  using of_char_of [of "48 + j"] of_char_of [of "48 + k"] by (auto simp: digit_def dest: arg_cong [of _ _ "of_char :: char \<Rightarrow> nat"])

lemma Itoa_small: "k < 10 \<Longrightarrow> Itoa k = [digit k]"
  by (subst Itoa.simps) simp

lemma Itoa_large: "\<not> k < 10 \<Longrightarrow> Itoa k = Itoa (k div 10) @ [digit (k mod 10)]"
  by (subst Itoa.simps) simp

lemma Itoa_length: "0 < length (Itoa k)" "length (Itoa k) = 1 \<longleftrightarrow> k < 10"
proof -
  show p: "0 < length (Itoa k)" for k by (cases "k < 10") (simp_all add: Itoa_small Itoa_large)
  show "length (Itoa k) = 1 \<longleftrightarrow> k < 10" using p [of "k div 10"] by (cases "k < 10") (simp_all add: Itoa_small Itoa_large)
qed

lemma Itoa_eq: "Itoa j = Itoa k \<Longrightarrow> j = k"
proof (induction j arbitrary: k rule: Itoa.induct)
  case (1 j)
  have s: "j < 10 \<longleftrightarrow> k < 10" using Itoa_length(2) [of j] Itoa_length(2) [of k] 1(2) by simp
  show ?case
  proof (cases "j < 10")
    case True
    then show ?thesis using digit_eq [of j k] s 1(2) by (simp add: Itoa_small)
  next
    case False
    then have "Itoa (j div 10) = Itoa (k div 10)" "digit (j mod 10) = digit (k mod 10)"
      using s 1(2) by (simp_all add: Itoa_large)
    then have "j div 10 = k div 10" "j mod 10 = k mod 10" using 1(1) [OF False] digit_eq by auto
    then show ?thesis by (metis div_mult_mod_eq)
  qed
qed

lemma new_cluster:
  "tcIDs (NewClusterWithPrefix pfx n) = map (node_name pfx) [0..<n] \<and>
   (tcTrans (NewClusterWithPrefix pfx n) i \<noteq> None \<longleftrightarrow> i \<in> set (tcIDs (NewClusterWithPrefix pfx n)))"
  unfolding NewClusterWithPrefix_def by (induction n) auto

lemma new_cluster_ids: "distinct (tcIDs (NewClusterWithPrefix pfx n))" "length (tcIDs (NewClusterWithPrefix pfx n)) = n"
proof -
  have "inj (node_name pfx)" by (rule injI) (use Itoa_eq in \<open>auto simp: node_name_def\<close>)
  then show "distinct (tcIDs (NewClusterWithPrefix pfx n))" "length (tcIDs (NewClusterWithPrefix pfx n)) = n"
    using new_cluster [of pfx n] by (simp_all add: distinct_map) (meson inj_on_subset subset_UNIV)
qed

section \<open>The nodes form a Raft group\<close>

text \<open>Options that leave the id, the peers and the transport alone.\<close>

definition keeps_group :: "'s opt \<Rightarrow> bool" where
  "keeps_group f \<longleftrightarrow> (\<forall>k c. cID (fst (f k c)) = cID (fst c) \<and> cPeers (fst (f k c)) = cPeers (fst c) \<and>
     cTransport (fst (f k c)) = cTransport (fst c))"

lemma keeps_group_fold:
  "\<forall>f \<in> set opts. keeps_group f \<Longrightarrow> cID (fst (fold (\<lambda>f. f k) opts c)) = cID (fst c) \<and>
     cPeers (fst (fold (\<lambda>f. f k) opts c)) = cPeers (fst c) \<and> cTransport (fst (fold (\<lambda>f. f k) opts c)) = cTransport (fst c)"
  by (induction opts arbitrary: c) (auto simp: keeps_group_def)

lemma raft_nodes_cfgs:
  assumes "raft_nodes ops e dflt opts k is rc = Some (Fine rc')" "\<forall>f \<in> set opts. keeps_group f" "distinct is"
  shows "tcIDs (rcCluster rc') = tcIDs (rcCluster rc) \<and> (\<forall>i. i \<notin> set is \<longrightarrow> rcCfgs rc' i = rcCfgs rc i) \<and>
    (\<forall>i \<in> set is. \<exists>c st. rcCfgs rc' i = Some (c, st) \<and> cID c = i \<and>
       cPeers c = filter (\<lambda>other. other \<noteq> i) (tcIDs (rcCluster rc)) \<and> cTransport c)"
  using assms(1,3)
proof (induction "is" arbitrary: k rc)
  case (Cons i "is")
  let ?cfg = "fold (\<lambda>f. f k) opts (test_config (rcCluster rc) i, None)"
  obtain st node where n: "NewNode ops e (fst ?cfg) (case snd ?cfg of None \<Rightarrow> dflt | Some st \<Rightarrow> st) = Some (st, Inr node)"
    using Cons.prems(1) by (auto simp: Let_def split: option.splits sum.splits prod.splits)
  let ?rc = "\<lparr>rcCluster = (rcCluster rc)\<lparr>tcNetwork := fake_RegisterHandler i i (tcNetwork (rcCluster rc))\<rparr>,
              rcNodes = (rcNodes rc)(i \<mapsto> node), rcCfgs = (rcCfgs rc)(i \<mapsto> ?cfg)\<rparr>"
  have r: "raft_nodes ops e dflt opts (k + 1) is ?rc = Some (Fine rc')" using Cons.prems(1) n by (simp add: Let_def)
  have tr: "cTransport (fst ?cfg)" using n by (auto simp: NewNode_def split: if_splits)
  have c: "cID (fst ?cfg) = i" "cPeers (fst ?cfg) = filter (\<lambda>other. other \<noteq> i) (tcIDs (rcCluster rc))" "cTransport (fst ?cfg)"
  proof -
    have "cID (test_config (rcCluster rc) i) = i"
      "cPeers (test_config (rcCluster rc) i) = filter (\<lambda>other. other \<noteq> i) (tcIDs (rcCluster rc))" by (simp_all add: test_config_def)
    then show "cID (fst ?cfg) = i" "cPeers (fst ?cfg) = filter (\<lambda>other. other \<noteq> i) (tcIDs (rcCluster rc))" "cTransport (fst ?cfg)"
      using keeps_group_fold [OF assms(2), of k "(test_config (rcCluster rc) i, None)"] tr by simp_all
  qed
  have IH: "tcIDs (rcCluster rc') = tcIDs (rcCluster ?rc) \<and> (\<forall>i. i \<notin> set is \<longrightarrow> rcCfgs rc' i = rcCfgs ?rc i) \<and>
    (\<forall>i \<in> set is. \<exists>c st. rcCfgs rc' i = Some (c, st) \<and> cID c = i \<and>
       cPeers c = filter (\<lambda>other. other \<noteq> i) (tcIDs (rcCluster ?rc)) \<and> cTransport c)"
    by (rule Cons.IH [OF r]) (use Cons.prems(2) in simp)
  moreover have "rcCfgs rc' i = Some ?cfg" using IH Cons.prems(2) by simp
  ultimately show ?case using c by (cases ?cfg) auto
qed simp

definition test_configs :: "'s RaftCluster \<Rightarrow> node_id \<Rightarrow> Config" where
  "test_configs rc i = (case rcCfgs rc i of Some (c, _) \<Rightarrow> c | None \<Rightarrow> no_member i)"

text \<open>A test cluster of an odd number of nodes is a Raft group as the consensus theorems need it,
  when the options of the test leave ids, peers and transports alone.\<close>

theorem test_cluster_forms_group:
  assumes "NewRaftClusterWithPrefix ops e dflt pfx n opts = Some (Fine rc)" "odd n" "\<forall>f \<in> set opts. keeps_group f"
  shows "raft_group (test_configs rc) (set (tcIDs (rcCluster rc))) \<and> card (set (tcIDs (rcCluster rc))) = n"
proof -
  let ?c = "NewClusterWithPrefix pfx n"
  have r: "raft_nodes ops e dflt opts 0 (tcIDs ?c) \<lparr>rcCluster = ?c, rcNodes = Map.empty, rcCfgs = Map.empty\<rparr> = Some (Fine rc)"
    using assms(1) by (simp add: NewRaftClusterWithPrefix_def Let_def)
  note cf = raft_nodes_cfgs [OF r assms(3) new_cluster_ids(1)]
  have ids: "tcIDs (rcCluster rc) = tcIDs ?c" using cf by simp
  have card: "card (set (tcIDs ?c)) = n" using new_cluster_ids [of pfx n] by (simp add: distinct_card)
  have "cID (test_configs rc i) = i \<and> i \<notin> set (cPeers (test_configs rc i)) \<and>
       (if i \<in> set (tcIDs ?c) then distinct (cPeers (test_configs rc i)) \<and> set (cPeers (test_configs rc i)) = set (tcIDs ?c) - {i}
        else \<not> cTransport (test_configs rc i))" for i
  proof (cases "i \<in> set (tcIDs ?c)")
    case True
    then obtain c st where "rcCfgs rc i = Some (c, st)" "cID c = i" "cPeers c = filter (\<lambda>other. other \<noteq> i) (tcIDs ?c)"
      using cf by auto
    then show ?thesis using True new_cluster_ids(1) by (auto simp: test_configs_def)
  next
    case False
    then have "rcCfgs rc i = None" using cf by simp
    then show ?thesis using False by (simp add: test_configs_def no_member_def)
  qed
  then show ?thesis using assms(2) card ids by (simp add: raft_group_def)
qed

text \<open>Without options, and with the stores that \<open>NewNode\<close> makes by default, a cluster is built.\<close>

lemma raft_nodes_fine:
  assumes "\<And>i. i \<in> set is \<Longrightarrow> i \<noteq> []" "\<And>i. i \<in> set is \<Longrightarrow> tcTrans (rcCluster rc) i \<noteq> None"
  shows "\<exists>rc'. raft_nodes MemoryStorage_ops e NewMemoryStorage [] k is rc = Some (Fine rc')"
  using assms
proof (induction "is" arbitrary: k rc)
  case (Cons i "is")
  have "\<exists>st node. NewNode MemoryStorage_ops e (test_config (rcCluster rc) i) NewMemoryStorage = Some (st, Inr node)"
    using Cons.prems(1,2) [of i]
    by (simp add: NewNode_def test_config_def orDefault_def millisecond_def MemoryStorage_ops_def mem_Load_def NewMemoryStorage_def)
  then obtain st node where n: "NewNode MemoryStorage_ops e (test_config (rcCluster rc) i) NewMemoryStorage = Some (st, Inr node)" by blast
  let ?rc = "\<lparr>rcCluster = (rcCluster rc)\<lparr>tcNetwork := fake_RegisterHandler i i (tcNetwork (rcCluster rc))\<rparr>,
              rcNodes = (rcNodes rc)(i \<mapsto> node), rcCfgs = (rcCfgs rc)(i \<mapsto> (test_config (rcCluster rc) i, None))\<rparr>"
  have "\<exists>rc'. raft_nodes MemoryStorage_ops e NewMemoryStorage [] (k + 1) is ?rc = Some (Fine rc')"
    by (rule Cons.IH) (use Cons.prems in auto)
  then show ?case using n by simp
qed simp

lemma new_raft_cluster: "\<exists>rc. NewRaftCluster MemoryStorage_ops e NewMemoryStorage n [] = Some (Fine rc)"
proof -
  have "\<exists>rc. raft_nodes MemoryStorage_ops e NewMemoryStorage [] 0 (tcIDs (NewClusterWithPrefix ''node'' n))
      \<lparr>rcCluster = NewClusterWithPrefix ''node'' n, rcNodes = Map.empty, rcCfgs = Map.empty\<rparr> = Some (Fine rc)"
    by (rule raft_nodes_fine) (use new_cluster [of "''node''" n] in \<open>auto simp: node_name_def\<close>)
  then show ?thesis by (simp add: NewRaftCluster_def NewRaftClusterWithPrefix_def Let_def)
qed

theorem test_cluster_forms_group_witness:
  "\<exists>rc. NewRaftCluster MemoryStorage_ops demo_env NewMemoryStorage 5 [] = Some (Fine rc) \<and>
     raft_group (test_configs rc) (set (tcIDs (rcCluster rc))) \<and> card (set (tcIDs (rcCluster rc))) = 5"
proof -
  obtain rc where rc: "NewRaftCluster MemoryStorage_ops demo_env NewMemoryStorage 5 [] = Some (Fine rc)"
    using new_raft_cluster by blast
  then have "NewRaftClusterWithPrefix MemoryStorage_ops demo_env NewMemoryStorage ''node'' 5 [] = Some (Fine rc)"
    by (simp add: NewRaftCluster_def)
  from test_cluster_forms_group [OF this] rc show ?thesis by auto
qed

section \<open>Restarts\<close>

text \<open>A restarted node remembers what its store holds, and nothing when the test brought no store: then the new
  node has term 0, no vote and an empty log, whatever it had promised before.\<close>

theorem restart_without_store_forgets:
  assumes "rcCfgs rc i = Some (cfg, None)" "rc_Restart MemoryStorage_ops e NewMemoryStorage i rc = Some (Fine (rc', node))"
  shows "currentTerm node = 0 \<and> votedFor node = [] \<and> nlog node = [boundary_entry 0 0] \<and> commitIndex node = 0"
  using assms
  by (auto simp: rc_Restart_def NewNode_def MemoryStorage_ops_def mem_Load_def NewMemoryStorage_def resetElectionDeadlineLocked_def
      node_from_state_def Let_def boundary_entry_def split: option.splits if_splits)

theorem restart_with_store_remembers:
  assumes "rcCfgs rc i = Some (cfg, Some st)" "rcNodes rc i = Some old" "mem_inv (storage old)"
    and "rc_Restart MemoryStorage_ops e dflt i rc = Some (Fine (rc', node))"
  shows "currentTerm node = psCurrentTerm (mem_view (storage old)) \<and> votedFor node = psVotedFor (mem_view (storage old)) \<and>
    nlog node = psLog (mem_view (storage old))"
  using assms
  by (auto simp: rc_Restart_def NewNode_def MemoryStorage_ops_def mem_Load_def mem_view_def boundary_entry_def resetElectionDeadlineLocked_def
      node_from_state_def Let_def split: option.splits if_splits sum.splits list.splits)

section \<open>The wait for a leader\<close>

text \<open>Nodes are read one after the other while the cluster runs on: a read is a state of the run and a node.\<close>

definition reading :: "'s Raft_Cluster.Cluster \<times> node_id \<Rightarrow> node_id \<times> nat \<times> Role" where
  "reading r = (snd r, State (cNode (fst r) (snd r)))"

fun led :: "(node_id \<times> nat \<times> Role) list \<Rightarrow> (node_id \<times> nat) list" where
  "led [] = []"
| "led ((i, t, ro) # rs) = (if ro = Leader then (i, t) # led rs else led rs)"

lemma led_set: "(i, t) \<in> set (led rd) \<longleftrightarrow> (i, t, Leader) \<in> set rd"
  by (induction rd rule: led.induct) auto

lemma led_filter: "map (\<lambda>(i, t, ro). (i, t)) (filter (\<lambda>(i, t, ro). ro = Leader) rd) = led rd"
  by (induction rd rule: led.induct) auto

lemma AwaitLeader_cases:
  "(\<exists>i t. AwaitLeader rounds = Fine i \<and> (\<exists>rd \<in> set rounds. led rd = [(i, t)])) \<or>
   (\<exists>rd \<in> set rounds. 2 \<le> length (led rd) \<and>
      AwaitLeader rounds = Fatal (Errorf ''observed %d leaders simultaneously'' [NatArg (length (led rd))])) \<or>
   AwaitLeader rounds = Fatal (Errorf ''no leader elected within %s'' []) \<and> (\<forall>rd \<in> set rounds. led rd = [])"
proof (induction rounds)
  case (Cons rd rounds)
  let ?l = "filter (\<lambda>(i, t, ro). ro = Leader) rd"
  note f = led_filter [of rd]
  show ?case
  proof (cases ?l)
    case Nil
    then have "AwaitLeader (rd # rounds) = AwaitLeader rounds" "led rd = []" using f by simp_all
    then show ?thesis using Cons by auto
  next
    case a: (Cons x l')
    obtain i t ro where x: "x = (i, t, ro)" by (cases x)
    show ?thesis
    proof (cases l')
      case Nil
      then have "AwaitLeader (rd # rounds) = Fine i" "led rd = [(i, t)]" using a x f by simp_all
      then show ?thesis by auto
    next
      case (Cons y l'')
      have "length (led rd) = length ?l" using arg_cong [OF f, of length] by simp
      then show ?thesis using a Cons x by auto
    qed
  qed
qed simp

text \<open>A round of reads along a run: each node of the group at most once, every read in a state of the run that is
  not before the one of the read before it.\<close>

definition reads_ok :: "(node_id \<Rightarrow> Config) \<Rightarrow> node_id set \<Rightarrow> MemoryStorage Raft_Cluster.Cluster \<Rightarrow>
    (MemoryStorage Raft_Cluster.Cluster \<times> node_id) list \<Rightarrow> bool" where
  "reads_ok cfg M c0 rd \<longleftrightarrow> distinct (map snd rd) \<and>
     sorted_wrt (\<lambda>r r'. run MemoryStorage_ops cfg (\<lambda>t v. True) (fst r) (fst r')) rd \<and>
     (\<forall>(c, i) \<in> set rd. run MemoryStorage_ops cfg (\<lambda>t v. True) c0 c \<and> cAlive c i \<and> i \<in> M)"

lemma one_leader_read:
  assumes "raft_group cfg M" "cinit c0" "reads_ok cfg M c0 rd"
    and "(c, i) \<in> set rd" "(d, j) \<in> set rd" "leads c i t" "leads d j t"
  shows "i = j"
proof -
  have g: "mem_hard.cfg_ok cfg" "mem_hard.members_ok cfg M" using mem_group [OF assms(1)] by (simp_all add: mem_log.group_cfg_def)
  have one: "i = j" if r: "run MemoryStorage_ops cfg (\<lambda>t v. True) c0 c" "run MemoryStorage_ops cfg (\<lambda>t v. True) c d"
    and m: "i \<in> M" "j \<in> M" and l: "leads c i t" "leads d j t" for c d i j
  proof -
    have "mem_hard.cinv cfg c0" using mem_hard.cinit_cinv [OF assms(2)] by simp
    then have "mem_hard.cinv cfg c" using mem_hard.run_cinv [OF r(1) g(1)] by simp
    then show ?thesis using mem_hard.one_leader [OF g _ _ r(2) l m] by simp
  qed
  obtain p q where p: "p < length rd" "rd ! p = (c, i)" and q: "q < length rd" "rd ! q = (d, j)"
    using assms(4,5) by (auto simp: in_set_conv_nth)
  have w: "run MemoryStorage_ops cfg (\<lambda>t v. True) (fst (rd ! x)) (fst (rd ! y))" if "x < y" "y < length rd" for x y
    using assms(3) that by (simp add: reads_ok_def sorted_wrt_iff_nth_less)
  have r: "run MemoryStorage_ops cfg (\<lambda>t v. True) c0 c" "run MemoryStorage_ops cfg (\<lambda>t v. True) c0 d" "i \<in> M" "j \<in> M"
    using assms(3-5) by (auto simp: reads_ok_def)
  show ?thesis
  proof (cases p q rule: linorder_cases)
    case less
    then show ?thesis using one [OF r(1) _ r(3,4) assms(6,7)] w [OF less] p q by simp
  next
    case greater
    then show ?thesis using one [OF r(2) _ r(4,3) assms(7,6)] w [OF greater] p q by simp
  qed (use p q in simp)
qed

text \<open>What \<open>AwaitLeader\<close> reports of a run. A node it returns led when it was read, and no other node was read as a
  leader in that round. When it fails, then in every round no node was read as a leader, or in some round two
  nodes were read as leaders of different terms: that is no violation, and a run of the model has it.\<close>

theorem await_leader_reports:
  assumes "raft_group cfg M" "cinit c0" "\<forall>rd \<in> set rounds. reads_ok cfg M c0 rd"
  shows "case AwaitLeader (map (map reading) rounds) of
      Fine i \<Rightarrow> \<exists>rd \<in> set rounds. \<exists>c t. (c, i) \<in> set rd \<and> leads c i t \<and> (\<forall>(d, j) \<in> set rd. j \<noteq> i \<longrightarrow> role (cNode d j) \<noteq> Leader)
    | Fatal e \<Rightarrow> (\<forall>rd \<in> set rounds. \<forall>(c, i) \<in> set rd. role (cNode c i) \<noteq> Leader) \<or>
        (\<exists>rd \<in> set rounds. \<exists>c i t d j u. (c, i) \<in> set rd \<and> (d, j) \<in> set rd \<and> leads c i t \<and> leads d j u \<and> i \<noteq> j \<and> t \<noteq> u)"
proof -
  have read: "\<exists>c. (c, i) \<in> set rd \<and> leads c i t" if "rd \<in> set rounds" "(i, t) \<in> set (led (map reading rd))" for rd i t
  proof -
    note h = that
    obtain c where c: "(c, i) \<in> set rd" "State (cNode c i) = (t, Leader)"
      using h(2) by (auto simp: led_set reading_def)
    then have "cAlive c i" using assms(3) h(1) by (auto simp: reads_ok_def)
    then show ?thesis using c by (auto simp: leads_def State_def)
  qed
  have seen: "role (cNode d j) = Leader \<Longrightarrow> (j, currentTerm (cNode d j)) \<in> set (led (map reading rd))" if "(d, j) \<in> set rd" for rd d j
    using that by (force simp: led_set reading_def State_def)
  consider (one) i t rd where "AwaitLeader (map (map reading) rounds) = Fine i" "rd \<in> set rounds" "led (map reading rd) = [(i, t)]"
    | (more) rd e where "AwaitLeader (map (map reading) rounds) = Fatal e" "rd \<in> set rounds" "2 \<le> length (led (map reading rd))"
    | (none) e where "AwaitLeader (map (map reading) rounds) = Fatal e" "\<forall>rd \<in> set rounds. led (map reading rd) = []"
    using AwaitLeader_cases [of "map (map reading) rounds"] by auto
  then show ?thesis
  proof cases
    case one
    have "(i, t) \<in> set (led (map reading rd))" using one(3) by simp
    then obtain c where "(c, i) \<in> set rd \<and> leads c i t" using read [OF one(2)] by blast
    moreover have "role (cNode d j) \<noteq> Leader" if "(d, j) \<in> set rd" "j \<noteq> i" for d j using seen [OF that(1)] that(2) one(3) by auto
    ultimately show ?thesis using one by auto
  next
    case more
    have dist: "distinct (map fst (led (map reading rd)))"
    proof -
      have "set (map fst (led x)) \<subseteq> set (map fst x) \<and> (distinct (map fst x) \<longrightarrow> distinct (map fst (led x)))" for x
        by (induction x rule: led.induct) auto
      moreover have "map fst (map reading rd) = map snd rd" by (simp add: reading_def)
      moreover have "distinct (map snd rd)" using assms(3) more(2) by (simp add: reads_ok_def)
      ultimately show ?thesis by metis
    qed
    obtain i t j u l where l: "led (map reading rd) = (i, t) # (j, u) # l"
      using more(3) by (cases "led (map reading rd)"; cases "tl (led (map reading rd))") auto
    then have ij: "i \<noteq> j" using dist by simp
    obtain c where c: "(c, i) \<in> set rd" "leads c i t" using read [OF more(2), of i t] l by auto
    obtain d where d: "(d, j) \<in> set rd" "leads d j u" using read [OF more(2), of j u] l by auto
    have "t \<noteq> u" using one_leader_read [OF assms(1,2) _ c(1) d(1)] assms(3) more(2) c(2) d(2) ij by auto
    then have "\<exists>rd \<in> set rounds. \<exists>c i t d j u. (c, i) \<in> set rd \<and> (d, j) \<in> set rd \<and> leads c i t \<and> leads d j u \<and> i \<noteq> j \<and> t \<noteq> u"
      using more(2) c d ij by blast
    then show ?thesis unfolding more(1) outcome.case by (rule disjI2)
  next
    case none
    then show ?thesis using seen by fastforce
  qed
qed

text \<open>''n1'' leads term 1 and commits with ''n2''; ''n2'' then wins term 2 with the vote of ''n3'', which ''n1'' has not heard of.\<close>

definition trio_behind :: "Action list" where
  "trio_behind = [Restart ''n3'', Start ''n2'', Deliver ''n2'' ''n3'' (RequestVoteReq trio_vote),
     CountVote ''n2'' ''n3'' trio_vote \<lparr>rrTerm = 2, rrVoteGranted = True\<rparr>]"

definition trio_two :: "MemoryStorage Raft_Cluster.Cluster" where
  "trio_two = the (acts MemoryStorage_ops trio_cfg demo_env (trio_commits @ trio_behind) (demo_cluster trio))"

lemma trio_two_run:
  "acts MemoryStorage_ops trio_cfg demo_env (trio_commits @ trio_behind) (demo_cluster trio) \<noteq> None"
  "leads trio_two ''n1'' 1" "leads trio_two ''n2'' 2" "cAlive trio_two ''n3''" "role (cNode trio_two ''n3'') = Follower"
  by code_simp+

theorem await_leader_reports_witness:
  "AwaitLeader (map (map reading) [[(trio_two, ''n3''), (trio_two, ''n1''), (trio_two, ''n2'')]]) =
     Fatal (Errorf ''observed %d leaders simultaneously'' [NatArg 2]) \<and>
   (\<exists>i j t u. leads trio_two i t \<and> leads trio_two j u \<and> i \<noteq> j \<and> t \<noteq> u)"
proof -
  let ?rd = "[(trio_two, ''n3''), (trio_two, ''n1''), (trio_two, ''n2'')]"
  have run: "run MemoryStorage_ops trio_cfg (\<lambda>t v. True) (demo_cluster trio) trio_two"
    using trio_two_run(1) acts_run by (auto simp: trio_two_def)
  have ro: "role (cNode trio_two ''n1'') = Leader" "role (cNode trio_two ''n2'') = Leader" "role (cNode trio_two ''n3'') \<noteq> Leader"
    using trio_two_run by (simp_all add: leads_def)
  have ok: "\<forall>rd \<in> set [?rd]. reads_ok trio_cfg {''n1'', ''n2'', ''n3''} (demo_cluster trio) rd"
    using run trio_two_run by (auto simp: reads_ok_def leads_def run_refl)
  have a: "AwaitLeader (map (map reading) [?rd]) = Fatal (Errorf ''observed %d leaders simultaneously'' [NatArg 2])"
    using ro by (simp add: reading_def State_def)
  have "cinit (demo_cluster trio)" using trio_start by (simp add: mem_start_def)
  from await_leader_reports [OF trio_group this ok] show ?thesis using a ro by auto
qed

end
